(* ===== verification/Prelude.thy ===== *)
theory Prelude
  imports Main "HOL-Library.Word" "HOL-Library.Multiset"
begin

text \<open>
  The shared vocabulary of the development: the machine integer types of the C++ programs,
  the facts about 64-bit words that several components need, exclusive-or over multisets
  (the checksum of the worker pools), and sums of a per-task quantity over a list of tasks
  (the form in which every system invariant of the concurrent programs is stated).
\<close>

unbundle bit_operations_syntax

section \<open>Machine integers\<close>

type_synonym u64 = "64 word"
type_synonym u32 = "32 word"
type_synonym u16 = "16 word"

lemma unat_u64_less: "unat (w :: u64) < 18446744073709551616"
  using unsigned_less [of w, where 'a = nat] by simp

lemma unat_inc:
  fixes w v :: "'w :: len word"
  assumes "w < v"
  shows "unat (w + 1) = Suc (unat w)"
proof -
  have "w + 1 \<noteq> 0"
    using assms by (metis add.commute add_diff_cancel_left' diff_0 not_less word_n1_ge)
  then show ?thesis by (simp add: unatSuc add.commute)
qed

lemma inc_nonzero:
  fixes w v :: u64
  assumes "w < v"
  shows "w + 1 \<noteq> 0"
proof
  assume "w + 1 = 0"
  with unat_inc [OF assms] show False by simp
qed

lemma inc_le:
  fixes w v :: u64
  assumes "w < v"
  shows "w + 1 \<le> v"
  using assms by (simp add: word_le_nat_alt word_less_nat_alt unat_inc)

lemma unat_mult_exact:
  fixes a b :: u64
  assumes "unat a * unat b < 2 ^ 64"
  shows "unat (a * b) = unat a * unat b"
  using assms by (simp add: unat_word_ariths)

lemma of_nat_unat_le:
  fixes b :: u64
  assumes "n \<le> unat b"
  shows "unat (of_nat n :: u64) = n"
  using assms unat_u64_less [of b] by (simp add: unat_of_nat)

lemma nth_upd: "w < length xs \<Longrightarrow> xs[u := g] ! w = (if u = w then g else xs ! w)"
  by auto

text \<open>Two places of a ring buffer that are less than its capacity apart are different slots.\<close>

lemma ring_slots_differ:
  assumes "k < n" and "n < cap"
  shows "(h + k) mod cap \<noteq> (h + n) mod (cap :: nat)"
proof
  assume "(h + k) mod cap = (h + n) mod cap"
  then have "cap dvd n - k"
    using assms(1) by (metis mod_eq_dvd_iff_nat add_left_mono less_imp_le add_diff_cancel_left)
  with assms show False by (auto dest: dvd_imp_le)
qed

section \<open>Exclusive-or over a multiset\<close>

text \<open>The checksum is order-independent: it is a function of the multiset of its terms.\<close>

definition xor_mset :: "u64 multiset \<Rightarrow> u64" where
  "xor_mset M = fold_mset (XOR) 0 M"

lemma xor_mset_comm: "comp_fun_commute ((XOR) :: u64 \<Rightarrow> u64 \<Rightarrow> u64)"
  by unfold_locales (simp add: fun_eq_iff xor.left_commute)

lemma xor_mset_empty [simp]: "xor_mset {#} = 0"
  by (simp add: xor_mset_def)

lemma xor_mset_add [simp]: "xor_mset (add_mset x M) = x XOR xor_mset M"
  unfolding xor_mset_def by (rule comp_fun_commute.fold_mset_add_mset [OF xor_mset_comm])

lemma xor_mset_union [simp]: "xor_mset (M + N) = xor_mset M XOR xor_mset N"
  by (induction M) (simp_all add: xor.assoc)

lemma xor_mset_code [code]: "xor_mset (mset xs) = foldr (XOR) xs 0"
  by (induction xs) simp_all

lemma xor_cancel_left [simp]: "x XOR (x XOR y) = (y :: u64)"
  by (simp add: xor.assoc [symmetric])

section \<open>Sums over a list of tasks\<close>

abbreviation tsum :: "('t \<Rightarrow> 'n :: comm_monoid_add) \<Rightarrow> 't list \<Rightarrow> 'n" where
  "tsum f ts \<equiv> sum_list (map f ts)"

text \<open>
  A step of task \<open>i\<close> replaces it by \<open>t'\<close> and appends the tasks it spawned. Writing every sum
  as the part of the other tasks plus the part of task \<open>i\<close> leaves a claim about one task.
\<close>

definition others :: "nat \<Rightarrow> 't list \<Rightarrow> 't list" where
  "others i ts = take i ts @ drop (Suc i) ts"

lemma others_subset: "set (others j ts) \<subseteq> set ts"
  by (auto simp: others_def dest: in_set_takeD in_set_dropD)

lemma tsum_at:
  assumes "i < length ts"
  shows "tsum f ts = tsum f (others i ts) + f (ts ! i)"
proof -
  have "ts = take i ts @ ts ! i # drop (Suc i) ts"
    using assms by (rule id_take_nth_drop)
  then have "tsum f ts = tsum f (take i ts) + f (ts ! i) + tsum f (drop (Suc i) ts)"
    by (metis (no_types, lifting) add.assoc list.simps(9) map_append sum_list.Cons sum_list_append)
  then show ?thesis
    by (simp add: others_def ac_simps)
qed

lemma tsum_upd:
  assumes "i < length ts"
  shows "tsum f (ts[i := t'] @ new) = tsum f (others i ts) + f t' + tsum f new"
  using assms by (simp add: others_def upd_conv_take_nth_drop ac_simps)

lemma set_upd_subset: "set (ts[i := t'] @ new) \<subseteq> set ts \<union> {t'} \<union> set new"
  using set_update_subset_insert [of ts i t'] by auto

lemma tsum_member_le:
  fixes f :: "'t \<Rightarrow> nat"
  assumes "t \<in> set ts"
  shows "f t \<le> tsum f ts"
  using assms by (induction ts) auto

lemma tsum_two_members:
  fixes f :: "'t \<Rightarrow> nat"
  assumes "i < length ts" and "j < length ts" and "i \<noteq> j"
  shows "f (ts ! i) + f (ts ! j) \<le> tsum f ts"
proof -
  have "ts ! j \<in> set (others i ts)"
  proof (cases "j < i")
    case True
    with assms(1) have "ts ! j \<in> set (take i ts)" by (force simp: in_set_conv_nth)
    then show ?thesis by (simp add: others_def)
  next
    case False
    with assms have "drop (Suc i) ts ! (j - Suc i) = ts ! j" "j - Suc i < length (drop (Suc i) ts)"
      by auto
    then have "ts ! j \<in> set (drop (Suc i) ts)" by (metis nth_mem)
    then show ?thesis by (simp add: others_def)
  qed
  from tsum_member_le [OF this, of f] tsum_at [OF assms(1), of f] show ?thesis by simp
qed

lemma tsum_zero_iff:
  fixes f :: "'t \<Rightarrow> nat"
  shows "tsum f ts = 0 \<longleftrightarrow> (\<forall>t \<in> set ts. f t = 0)"
  by (induction ts) auto

lemma tsum_zeroI:
  fixes f :: "'t \<Rightarrow> nat"
  assumes "\<And>t. t \<in> set ts \<Longrightarrow> f t = 0"
  shows "tsum f ts = 0"
  using assms by (simp add: tsum_zero_iff)

lemma tsum_zeroD:
  fixes f :: "'t \<Rightarrow> nat"
  assumes "tsum f ts = 0" and "t \<in> set ts"
  shows "f t = 0"
  using assms by (simp add: tsum_zero_iff)

lemma tsum_le_mono:
  fixes f g :: "'t \<Rightarrow> nat"
  assumes "\<And>t. t \<in> set ts \<Longrightarrow> f t \<le> g t"
  shows "tsum f ts \<le> tsum g ts"
  using assms by (induction ts) (auto intro: add_mono)

lemma tsum_eq_pointwise:
  fixes f g :: "'t \<Rightarrow> nat"
  assumes "\<And>t. t \<in> set ts \<Longrightarrow> f t \<le> g t" and "tsum f ts = tsum g ts" and "t \<in> set ts"
  shows "f t = g t"
proof -
  have "f t = g t" if "t \<in> set ts" "tsum f ts = tsum g ts" "\<And>t. t \<in> set ts \<Longrightarrow> f t \<le> g t"
    for ts
    using that
  proof (induction ts)
    case Nil
    then show ?case by simp
  next
    case (Cons u us)
    have "f u \<le> g u" and "tsum f us \<le> tsum g us"
      using Cons.prems(3) by (auto intro: tsum_le_mono)
    with Cons.prems(2) have "f u = g u" and "tsum f us = tsum g us" by auto
    with Cons show ?case by auto
  qed
  with assms show ?thesis by blast
qed

text \<open>The same for the exclusive-or of a word per task.\<close>

definition txor :: "('t \<Rightarrow> u64) \<Rightarrow> 't list \<Rightarrow> u64" where
  "txor f ts = xor_mset (mset (map f ts))"

lemma txor_simps [simp]:
  "txor f [] = 0"
  "txor f (t # ts) = f t XOR txor f ts"
  "txor f (ts @ us) = txor f ts XOR txor f us"
  by (simp_all add: txor_def)

lemma txor_at:
  assumes "i < length ts"
  shows "txor f ts = txor f (others i ts) XOR f (ts ! i)"
proof -
  have "ts = take i ts @ ts ! i # drop (Suc i) ts"
    using assms by (rule id_take_nth_drop)
  then have "txor f ts = txor f (take i ts) XOR (f (ts ! i) XOR txor f (drop (Suc i) ts))"
    by (metis txor_simps(2,3))
  then show ?thesis
    by (simp add: others_def xor.assoc xor.left_commute xor.commute)
qed

lemma txor_upd:
  assumes "i < length ts"
  shows "txor f (ts[i := t'] @ new) = txor f (others i ts) XOR f t' XOR txor f new"
  using assms
  by (simp add: others_def upd_conv_take_nth_drop xor.assoc xor.left_commute xor.commute)

lemma txor_zero:
  assumes "\<And>t. t \<in> set ts \<Longrightarrow> f t = 0"
  shows "txor f ts = 0"
  using assms by (induction ts) auto

lemma tsum_mset_zero:
  fixes f :: "'t \<Rightarrow> 'a multiset"
  assumes "\<And>t. t \<in> set ts \<Longrightarrow> f t = {#}"
  shows "tsum f ts = {#}"
  using assms by (induction ts) auto

end
