(* ===== verification/Cstdlib.thy ===== *)
theory Cstdlib
  imports Prelude "HOL-Library.Sublist"
begin

text \<open>
  The functions of the C library the programs parse their arguments with (\<open>strncmp\<close>, \<open>strcmp\<close>,
  \<open>strtoull\<close>, \<open>atoi\<close>), and the argument loop of every \<open>main\<close>. A string is the list of its
  characters before the terminating NUL. The argument loops share one contract (locale
  \<open>flag_field\<close>): an unknown argument stops the loop with the program's exit code, and a number is
  the value of the last argument with its prefix.
\<close>

section \<open>The C library\<close>

text \<open>\<open>strncmp(s, t, n) == 0\<close> and \<open>strcmp(s, t) == 0\<close>.\<close>

fun strncmp_eq :: "string \<Rightarrow> string \<Rightarrow> nat \<Rightarrow> bool" where
  "strncmp_eq _ _ 0 = True"
| "strncmp_eq [] [] (Suc n) = True"
| "strncmp_eq (a # as) (b # bs) (Suc n) = (a = b \<and> strncmp_eq as bs n)"
| "strncmp_eq _ _ (Suc n) = False"

definition strcmp_eq :: "string \<Rightarrow> string \<Rightarrow> bool" where
  "strcmp_eq s t \<longleftrightarrow> s = t"

definition code :: "char \<Rightarrow> nat" where
  "code c = of_char c"

definition is_space :: "char \<Rightarrow> bool" where
  "is_space c \<longleftrightarrow> code c = 32 \<or> (9 \<le> code c \<and> code c \<le> 13)"

definition is_digit :: "char \<Rightarrow> bool" where
  "is_digit c \<longleftrightarrow> 48 \<le> code c \<and> code c \<le> 57"

definition digits_value :: "string \<Rightarrow> nat" where
  "digits_value s = foldl (\<lambda>n c. 10 * n + (code c - 48)) 0 (takeWhile is_digit s)"

text \<open>Skip white space, then read an optional sign.\<close>

definition signed_digits :: "string \<Rightarrow> bool \<times> nat" where
  "signed_digits s =
     (case dropWhile is_space s of
        [] \<Rightarrow> (False, 0)
      | c # cs \<Rightarrow>
          if c = CHR ''-'' then (True, digits_value cs)
          else if c = CHR ''+'' then (False, digits_value cs)
          else (False, digits_value (c # cs)))"

text \<open>
  \<open>strtoull(s, nullptr, 10)\<close>: the largest value when the digits exceed 64 bits, otherwise their
  value, negated modulo 2 to the 64th after a minus sign; 0 without digits.
\<close>

definition strtoull :: "string \<Rightarrow> u64" where
  "strtoull s =
     (case signed_digits s of (neg, n) \<Rightarrow>
        if 2 ^ 64 \<le> n then - 1 else if neg then - of_nat n else of_nat n)"

text \<open>\<open>atoi\<close> is undefined (\<open>None\<close>) when the value does not fit an \<open>int\<close>.\<close>

definition atoi :: "string \<Rightarrow> int option" where
  "atoi s =
     (case signed_digits s of (neg, n) \<Rightarrow>
        let v = (if neg then - int n else int n)
        in if - (2 ^ 31) \<le> v \<and> v < 2 ^ 31 then Some v else None)"

lemma strncmp_prefix: "strncmp_eq s p (length p) \<longleftrightarrow> prefix p s"
proof (induction p arbitrary: s)
  case (Cons c p)
  then show ?case by (cases s) auto
qed (cases s; simp)

lemma strncmp_is_prefix: "length p = n \<Longrightarrow> strncmp_eq s p n \<longleftrightarrow> prefix p s"
  using strncmp_prefix by blast

text \<open>Decimal notation, for the round trip.\<close>

fun decimal :: "nat \<Rightarrow> string" where
  "decimal n =
     (if n < 10 then [char_of (48 + n)] else decimal (n div 10) @ [char_of (48 + n mod 10)])"

declare decimal.simps [simp del]

lemma code_digit: "d < 10 \<Longrightarrow> code (char_of (48 + d)) = 48 + d"
  by (simp add: code_def of_char_of)

lemma decimal_digits: "c \<in> set (decimal n) \<Longrightarrow> is_digit c"
proof (induction n rule: decimal.induct)
  case (1 n)
  show ?case
  proof (cases "n < 10")
    case True
    with 1(2) have "c = char_of (48 + n)" by (simp add: decimal.simps [of n])
    with True show ?thesis by (simp add: is_digit_def code_digit)
  next
    case False
    with 1(2) have "c \<in> set (decimal (n div 10)) \<or> c = char_of (48 + n mod 10)"
      by (auto simp: decimal.simps [of n])
    with 1(1) [OF False] show ?thesis by (auto simp: is_digit_def code_digit)
  qed
qed

lemma decimal_value: "digits_value (decimal n) = n"
proof (induction n rule: decimal.induct)
  case (1 n)
  have all: "takeWhile is_digit (decimal m) = decimal m" for m
    using decimal_digits by (simp add: takeWhile_eq_all_conv)
  show ?case
  proof (cases "n < 10")
    case True
    then show ?thesis using all [of n] by (simp add: digits_value_def decimal.simps [of n] code_digit)
  next
    case False
    then have "decimal n = decimal (n div 10) @ [char_of (48 + n mod 10)]"
      by (simp add: decimal.simps [of n])
    then have "digits_value (decimal n) = 10 * digits_value (decimal (n div 10)) + n mod 10"
      unfolding digits_value_def all by (simp add: code_digit)
    with 1 [OF False] show ?thesis by simp
  qed
qed

lemma decimal_signed: "signed_digits (decimal n) = (False, n)"
proof -
  obtain c cs where d: "decimal n = c # cs"
    by (cases "decimal n") (simp_all add: decimal.simps [of n] split: if_splits)
  then have c: "is_digit c" using decimal_digits [of c n] by simp
  then have "\<not> is_space c" "c \<noteq> CHR ''-''" "c \<noteq> CHR ''+''"
    by (auto simp: is_digit_def is_space_def code_def)
  then show ?thesis using d decimal_value [of n] by (simp add: signed_digits_def)
qed

lemma decimal_minus: "signed_digits (CHR ''-'' # decimal n) = (True, n)"
  using decimal_value [of n] by (simp add: signed_digits_def is_space_def code_def)

text \<open>
  \<open>strtoull\<close> reads back decimal notation: every 64-bit value, its negation after a minus sign
  (so \<open>--num-items=-1\<close> means 2 to the 64th minus 1), and the largest value for anything bigger.
\<close>

lemma strtoull_decimal:
  "unat (strtoull (decimal n)) = min n (2 ^ 64 - 1) \<and>
    strtoull (CHR ''-'' # decimal n) = (if n < 2 ^ 64 then - of_nat n else - 1)"
proof -
  have "unat (- 1 :: u64) = 2 ^ 64 - 1" by (simp add: unsigned_minus_1_eq_mask mask_eq_exp_minus_1)
  then have "unat (strtoull (decimal n)) = min n (2 ^ 64 - 1)"
    by (auto simp: strtoull_def decimal_signed unat_of_nat min_def)
  then show ?thesis by (auto simp: strtoull_def decimal_minus)
qed

section \<open>The argument loops\<close>

text \<open>How a program stops before it runs: an exit code, an exception that nobody catches, or undefined
  behaviour.\<close>

datatype stop = ExitCode int | Aborted | Undefined

fun parse_args :: "(string \<Rightarrow> 'o \<Rightarrow> stop + 'o) \<Rightarrow> string list \<Rightarrow> 'o \<Rightarrow> stop + 'o" where
  "parse_args step [] opt = Inr opt"
| "parse_args step (a # as) opt =
     (case step a opt of Inl e \<Rightarrow> Inl e | Inr opt' \<Rightarrow> parse_args step as opt')"

text \<open>The value an option ends up with: the last argument with its prefix counts.\<close>

definition flag_value :: "string \<Rightarrow> string list \<Rightarrow> u64 \<Rightarrow> u64" where
  "flag_value name args dflt =
     (case filter (prefix name) args of
        [] \<Rightarrow> dflt
      | as \<Rightarrow> strtoull (drop (length name) (last as)))"

lemma flag_value_Nil [simp]: "flag_value name [] d = d"
  by (simp add: flag_value_def)

lemma flag_value_Cons:
  "flag_value name (a # as) d =
    flag_value name as (if prefix name a then strtoull (drop (length name) a) else d)"
  by (simp add: flag_value_def split: list.splits)

locale flag_parser =
  fixes step :: "string \<Rightarrow> 'o \<Rightarrow> stop + 'o"
    and known :: "string \<Rightarrow> bool"
    and exit_code :: int
  assumes known_ok: "known a \<Longrightarrow> \<exists>opt'. step a opt = Inr opt'"
    and unknown_stops: "\<not> known a \<Longrightarrow> step a opt = Inl (ExitCode exit_code)"
begin

lemma parse_stops: "\<not> (\<forall>a \<in> set args. known a) \<Longrightarrow> parse_args step args opt = Inl (ExitCode exit_code)"
proof (induction args arbitrary: opt)
  case (Cons a args)
  then show ?case
    using known_ok [of a opt] unknown_stops [of a opt] by (cases "known a") (auto split: sum.splits)
qed simp

lemma parse_goes: "\<forall>a \<in> set args. known a \<Longrightarrow> \<exists>opt'. parse_args step args opt = Inr opt'"
proof (induction args arbitrary: opt)
  case (Cons a args)
  then obtain opt1 where "step a opt = Inr opt1" using known_ok [of a opt] by auto
  with Cons show ?case by simp
qed simp

end

locale flag_field = flag_parser +
  fixes get :: "'a \<Rightarrow> u64" and name :: string
  assumes sets: "step a opt = Inr opt' \<Longrightarrow>
      get opt' = (if prefix name a then strtoull (drop (length name) a) else get opt)"
begin

lemma parse_field: "parse_args step args opt = Inr opt' \<Longrightarrow> get opt' = flag_value name args (get opt)"
proof (induction args arbitrary: opt)
  case (Cons a args)
  then obtain opt1 where "step a opt = Inr opt1" "parse_args step args opt1 = Inr opt'" by (auto split: sum.splits)
  with Cons.IH [of opt1] sets [of a opt opt1] show ?case by (simp add: flag_value_Cons)
qed simp

end

end
