(* ===== verification/Bench_Output.thy ===== *)
theory Bench_Output
  imports Complex_Main Cstdlib
begin

text \<open>
  The text the benchmarks exchange with their runner: the \<open>printf\<close> conversions the programs use
  and the duration search of \<open>bench.py\<close>. A duration is given in thousandths of a millisecond, which
  is what \<open>%.3f\<close> prints.
\<close>

section \<open>Printing numbers\<close>

definition digit_char :: "nat \<Rightarrow> char" where
  "digit_char d = char_of (if d < 10 then 48 + d else 87 + d)"

text \<open>\<open>%lx\<close>\<close>

fun hexadecimal :: "nat \<Rightarrow> string" where
  "hexadecimal n =
     (if n < 16 then [digit_char n] else hexadecimal (n div 16) @ [digit_char (n mod 16)])"

declare hexadecimal.simps [simp del]

text \<open>\<open>%.3f\<close> of \<open>n\<close> thousandths\<close>

definition fixed3 :: "nat \<Rightarrow> string" where
  "fixed3 n = decimal (n div 1000) @ ''.'' @
     [digit_char (n div 100 mod 10), digit_char (n div 10 mod 10), digit_char (n mod 10)]"

text \<open>\<open>%lu\<close>\<close>

definition lu :: "u64 \<Rightarrow> string" where
  "lu w = decimal (unat w)"

definition newline :: string where
  "newline = [CHR 0x0A]"

section \<open>How \<open>bench.py\<close> reads them\<close>

text \<open>
  The regular expressions of \<open>bench.py\<close>, on characters up to 255: white space, word characters, the
  removal of ANSI escapes and the search for a duration. In the pattern of a duration the parts
  cannot overlap, so the greedy match of each part is the only one.
\<close>

definition py_space :: "char \<Rightarrow> bool" where
  "py_space c \<longleftrightarrow> code c = 32 \<or> (9 \<le> code c \<and> code c \<le> 13) \<or> (28 \<le> code c \<and> code c \<le> 31) \<or>
     code c = 133 \<or> code c = 160"

definition py_word :: "char \<Rightarrow> bool" where
  "py_word c \<longleftrightarrow> is_digit c \<or> (65 \<le> code c \<and> code c \<le> 90) \<or> code c = 95 \<or> (97 \<le> code c \<and> code c \<le> 122) \<or>
     code c \<in> {170, 178, 179, 181, 185, 186, 188, 189, 190} \<or>
     (192 \<le> code c \<and> code c \<noteq> 215 \<and> code c \<noteq> 247)"

text \<open>\<open>_ANSI.sub("", text)\<close>: an escape is \<open>ESC [\<close>, digits and semicolons, and \<open>m\<close>.\<close>

function strip_ansi :: "string \<Rightarrow> string" where
  "strip_ansi [] = []"
| "strip_ansi (c # cs) =
     (if c = CHR 0x1B \<and> prefix ''['' cs then
        (let rest = dropWhile (\<lambda>c. is_digit c \<or> c = CHR '';'') (drop 1 cs)
         in if prefix ''m'' rest then strip_ansi (drop 1 rest) else c # strip_ansi cs)
      else c # strip_ansi cs)"
  by pat_completeness auto
termination
proof (relation "measure length")
  fix c :: char and cs rest
  assume "rest = dropWhile (\<lambda>c. is_digit c \<or> c = CHR '';'') (drop 1 cs)"
  then have "length rest \<le> length (drop 1 cs)" by (simp only: length_dropWhile_le)
  then show "(drop 1 rest, c # cs) \<in> measure length" by simp
qed simp_all

definition py_units :: "(string \<times> rat) list" where
  "py_units = [([CHR 0xB5, CHR ''s''], 1 / 1000), (''us'', 1 / 1000), (''ns'', 1 / 1000000), (''ms'', 1), (''s'', 1000)]"

text \<open>The unit, which must end at a word boundary.\<close>

definition unit_at :: "string \<Rightarrow> rat option" where
  "unit_at s =
     (case filter (\<lambda>(u, _). prefix u s \<and> (case drop (length u) s of [] \<Rightarrow> True | c # _ \<Rightarrow> \<not> py_word c)) py_units of
        [] \<Rightarrow> None
      | (u, f) # _ \<Rightarrow> Some f)"

definition is_num :: "char \<Rightarrow> bool" where
  "is_num c \<longleftrightarrow> is_digit c \<or> c = CHR ''.''"

text \<open>\<open>_DUR\<close> at the front of a text: the number's text and the unit's factor.\<close>

definition duration_at :: "string \<Rightarrow> (string \<times> rat) option" where
  "duration_at s =
     (if prefix ''Duration:'' s then
        (let t = dropWhile py_space (drop 9 s); num = takeWhile is_num t
         in if num = [] then None
            else map_option (\<lambda>f. (num, f)) (unit_at (dropWhile py_space (dropWhile is_num t))))
      else None)"

fun search_duration :: "string \<Rightarrow> (string \<times> rat) option" where
  "search_duration [] = duration_at []"
| "search_duration (c # cs) = (case duration_at (c # cs) of None \<Rightarrow> search_duration cs | Some r \<Rightarrow> Some r)"

text \<open>
  \<open>float\<close> on a text of digits and dots: \<open>None\<close> stands for the \<open>ValueError\<close> of a text without digits or
  with two dots. Rounding to a double is not modelled.
\<close>

definition py_float :: "string \<Rightarrow> rat option" where
  "py_float s =
     (let whole = takeWhile is_digit s; rest = dropWhile is_digit s; frac = drop 1 rest
      in if whole @ frac = [] \<or> \<not> list_all is_digit frac then None
         else Some (of_nat (digits_value (whole @ frac)) / 10 ^ length frac))"

datatype py_result = NoDuration | ValueError | Milliseconds rat

definition parse_ms :: "string \<Rightarrow> py_result" where
  "parse_ms text =
     (case search_duration (strip_ansi text) of
        None \<Rightarrow> NoDuration
      | Some (num, factor) \<Rightarrow>
          (case py_float num of None \<Rightarrow> ValueError | Some x \<Rightarrow> Milliseconds (x * factor)))"

section \<open>The runner reads what is printed\<close>

lemma digit_char_digit: "d < 10 \<Longrightarrow> is_digit (digit_char d)" "d < 10 \<Longrightarrow> code (digit_char d) = 48 + d"
  by (simp_all add: digit_char_def is_digit_def code_digit)

lemma digits_value_snoc:
  assumes "list_all is_digit s" and "is_digit c"
  shows "digits_value (s @ [c]) = 10 * digits_value s + (code c - 48)"
proof -
  have "takeWhile is_digit s = s" "takeWhile is_digit (s @ [c]) = s @ [c]"
    using assms by (auto simp: takeWhile_eq_all_conv list_all_iff)
  then show ?thesis unfolding digits_value_def by (simp only: foldl_append foldl.simps)
qed

lemma decimal_all_digits: "list_all is_digit (decimal n)"
  by (simp add: list_all_iff decimal_digits)

lemma fixed3_value: "py_float (fixed3 n) = Some (of_nat n / 1000)"
proof -
  define a b c where "a = n div 100 mod 10" and "b = n div 10 mod 10" and "c = n mod 10"
  have d: "is_digit (digit_char a)" "is_digit (digit_char b)" "is_digit (digit_char c)"
    "code (digit_char a) = 48 + a" "code (digit_char b) = 48 + b" "code (digit_char c) = 48 + c"
    by (simp_all add: digit_char_digit a_def b_def c_def)
  have dot: "\<not> is_digit (CHR ''.'')" by (simp add: is_digit_def code_def)
  let ?w = "decimal (n div 1000)"
  have w: "\<forall>x \<in> set ?w. is_digit x" using decimal_digits by blast
  then have "takeWhile is_digit (fixed3 n) = ?w"
    "dropWhile is_digit (fixed3 n) = ''.'' @ [digit_char a, digit_char b, digit_char c]"
    using dot by (simp_all add: fixed3_def a_def b_def c_def)
  moreover have "digits_value (((?w @ [digit_char a]) @ [digit_char b]) @ [digit_char c]) =
      10 * (10 * (10 * (n div 1000) + a) + b) + c"
  proof -
    note w = decimal_all_digits [of "n div 1000"]
    have wa: "list_all is_digit (?w @ [digit_char a])" using w d by simp
    then have wb: "list_all is_digit ((?w @ [digit_char a]) @ [digit_char b])" using d by simp
    show ?thesis
      unfolding digits_value_snoc [OF wb d(3)] digits_value_snoc [OF wa d(2)] digits_value_snoc [OF w d(1)] d
      by (simp add: decimal_value)
  qed
  moreover have "10 * (10 * (10 * (n div 1000) + a) + b) + c = n"
  proof -
    have "n div 100 = n div 10 div 10" "n div 1000 = n div 100 div 10" by (simp_all flip: div_mult2_eq)
    then have "10 * (n div 10) + c = n" "10 * (n div 100) + b = n div 10" "10 * (n div 1000) + a = n div 100"
      unfolding a_def b_def c_def by simp_all
    then show ?thesis by simp
  qed
  ultimately have "digits_value (?w @ [digit_char a, digit_char b, digit_char c]) = n"
    and "takeWhile is_digit (fixed3 n) = ?w" "drop 1 (dropWhile is_digit (fixed3 n)) = [digit_char a, digit_char b, digit_char c]"
    by simp_all
  with d show ?thesis by (simp only: py_float_def Let_def) simp
qed

lemma fixed3_num: "fixed3 n \<noteq> []" "x \<in> set (fixed3 n) \<Longrightarrow> is_num x"
proof -
  have "is_digit (digit_char (n div 100 mod 10))" "is_digit (digit_char (n div 10 mod 10))"
    "is_digit (digit_char (n mod 10))" by (simp_all add: digit_char_digit)
  then show "x \<in> set (fixed3 n) \<Longrightarrow> is_num x"
    using decimal_digits [of x "n div 1000"] by (auto simp: fixed3_def is_num_def)
qed (simp add: fixed3_def)

lemma num_plain: "is_num c \<Longrightarrow> \<not> py_space c" "is_num c \<Longrightarrow> c \<noteq> CHR 0x1B"
  by (auto simp: is_num_def is_digit_def py_space_def code_def)

lemma duration_found:
  "duration_at (''Duration: '' @ fixed3 n @ ''ms ('' @ rest) = Some (fixed3 n, 1)"
proof -
  let ?t = "fixed3 n @ ''ms ('' @ rest"
  have m: "\<not> is_num (CHR ''m'')" "\<not> py_space (CHR ''m'')" "\<not> py_word (CHR '' '')" "py_space (CHR '' '')"
    by (simp_all add: is_num_def is_digit_def py_space_def py_word_def code_def)
  obtain c cs where f: "fixed3 n = c # cs" using fixed3_num(1) by (cases "fixed3 n") auto
  then have "\<not> py_space c" using fixed3_num(2) [of c n] num_plain by simp
  with f m have "dropWhile py_space (drop 9 (''Duration: '' @ ?t)) = ?t" by simp
  moreover have "takeWhile is_num ?t = fixed3 n" "dropWhile is_num ?t = ''ms ('' @ rest"
    using fixed3_num(2) m by (simp_all add: takeWhile_append dropWhile_append)
  moreover have "unit_at (''ms ('' @ rest) = Some 1" using m by (simp add: unit_at_def py_units_def)
  ultimately show ?thesis using m(2) fixed3_num(1) by (simp add: duration_at_def Let_def)
qed

lemma strip_plain: "CHR 0x1B \<notin> set s \<Longrightarrow> strip_ansi s = s"
  by (induction s) auto

lemma parse_printed:
  assumes "CHR 0x1B \<notin> set rest"
  shows "parse_ms (''Duration: '' @ fixed3 n @ ''ms ('' @ rest) = Milliseconds (of_nat n / 1000)"
proof -
  have "CHR 0x1B \<notin> set (''Duration: '' @ fixed3 n @ ''ms ('' @ rest)"
    using assms fixed3_num(2) num_plain(2) by auto
  then have "strip_ansi (''Duration: '' @ fixed3 n @ ''ms ('' @ rest) = ''Duration: '' @ fixed3 n @ ''ms ('' @ rest"
    by (rule strip_plain)
  moreover have "search_duration (''Duration: '' @ fixed3 n @ ''ms ('' @ rest) = Some (fixed3 n, 1)"
    using duration_found [of n rest] by simp
  ultimately show ?thesis by (simp add: parse_ms_def fixed3_value del: append.simps)
qed

section \<open>Hexadecimal notation is injective\<close>

lemma digit_char_inj: "a < 16 \<Longrightarrow> b < 16 \<Longrightarrow> digit_char a = digit_char b \<Longrightarrow> a = b"
proof -
  assume "a < 16" "b < 16" "digit_char a = digit_char b"
  then have "code (digit_char a) = code (digit_char b)" by simp
  with \<open>a < 16\<close> \<open>b < 16\<close> show ?thesis
    by (simp add: digit_char_def code_def of_char_of split: if_splits)
qed

lemma hexadecimal_inj: "hexadecimal m = hexadecimal n \<Longrightarrow> m = n"
proof (induction m arbitrary: n rule: hexadecimal.induct)
  case (1 m)
  have ne: "hexadecimal k \<noteq> []" for k by (simp add: hexadecimal.simps [of k])
  have small: "hexadecimal k = (if k < 16 then [] else hexadecimal (k div 16)) @ [digit_char (k mod 16)]" for k
    by (simp add: hexadecimal.simps [of k])
  from 1(2) have last: "m mod 16 = n mod 16"
    and front: "(if m < 16 then [] else hexadecimal (m div 16)) = (if n < 16 then [] else hexadecimal (n div 16))"
    using digit_char_inj [of "m mod 16" "n mod 16"] by (simp_all add: small [of m] small [of n])
  show ?case
  proof (cases "m < 16")
    case True
    with front ne [of "n div 16"] have "n < 16" by (auto split: if_splits)
    with True last show ?thesis by simp
  next
    case False
    with front ne [of "m div 16"] have "\<not> n < 16" "hexadecimal (m div 16) = hexadecimal (n div 16)" by (auto split: if_splits)
    with 1(1) [OF False] have "m div 16 = n div 16" by blast
    with last show ?thesis by (metis div_mult_mod_eq)
  qed
qed

end
