(* ===== verification/Tasks.thy ===== *)
theory Tasks
  imports Prelude
begin

text \<open>
  The execution model shared by the concurrent programs. A program is a pool of tasks
  (coroutines) over a shared state. One task is a value that records where it is suspended and
  its local variables; \<open>step s t\<close> performs the next action of task \<open>t\<close> in shared state \<open>s\<close> and
  gives the new shared state, the task's next suspension point and the tasks it spawned, or
  \<open>None\<close> when the task is blocked or has finished. The runtimes the programs use (PhotonLibOS,
  Asio) may run any task that is not blocked, so a step of the pool picks one freely.

  The locales state what a component proves once about its step function: an invariant
  (\<open>task_invariant\<close>), a weight every step decreases (\<open>task_terminates\<close>), and that a pool with an
  unfinished task is never stuck (\<open>task_live\<close>). Their lemmas turn this into facts about all runs.
\<close>

type_synonym ('s, 't) pool = "'s \<times> 't list"

type_synonym ('s, 't) task_step = "'s \<Rightarrow> 't \<Rightarrow> ('s \<times> 't \<times> 't list) option"

inductive pool_step :: "('s, 't) task_step \<Rightarrow> ('s, 't) pool \<Rightarrow> ('s, 't) pool \<Rightarrow> bool"
  for step where
  run_task: "i < length ts \<Longrightarrow> step s (ts ! i) = Some (s', t', new) \<Longrightarrow>
    pool_step step (s, ts) (s', ts[i := t'] @ new)"

inductive_cases pool_stepE [elim]: "pool_step step c c'"
inductive_simps pool_step_pair: "pool_step step (s, ts) c'"

abbreviation pool_reach :: "('s, 't) task_step \<Rightarrow> ('s, 't) pool \<Rightarrow> ('s, 't) pool \<Rightarrow> bool" where
  "pool_reach step \<equiv> (pool_step step)\<^sup>*\<^sup>*"

text \<open>
  A schedule is the list of the indices of the tasks that move; \<open>pool_run\<close> executes one and
  fails when it picks a task that cannot move.
\<close>

fun pool_run :: "('s, 't) task_step \<Rightarrow> nat list \<Rightarrow> ('s, 't) pool \<Rightarrow> ('s, 't) pool option" where
  "pool_run step [] c = Some c"
| "pool_run step (i # is) (s, ts) =
     (if i < length ts then
        (case step s (ts ! i) of
           None \<Rightarrow> None
         | Some (s', t', new) \<Rightarrow> pool_run step is (s', ts[i := t'] @ new))
      else None)"

lemma pool_run_reach: "pool_run step sched c = Some c' \<Longrightarrow> pool_reach step c c'"
proof (induction step sched c rule: pool_run.induct)
  case (1 step c)
  then show ?case by simp
next
  case (2 step i "is" s ts)
  then obtain s' t' new where i: "i < length ts" "step s (ts ! i) = Some (s', t', new)"
    and rest: "pool_run step is (s', ts[i := t'] @ new) = Some c'"
    by (auto split: if_splits option.splits)
  from i have "pool_step step (s, ts) (s', ts[i := t'] @ new)"
    by (rule run_task)
  moreover have "pool_reach step (s', ts[i := t'] @ new) c'"
    using i rest by (intro "2.IH") auto
  ultimately show ?case by (rule converse_rtranclp_into_rtranclp)
qed

lemma reach_pool_run: "pool_reach step c c' \<Longrightarrow> \<exists>sched. pool_run step sched c = Some c'"
proof (induction rule: converse_rtranclp_induct)
  case base
  have "pool_run step [] c' = Some c'" by simp
  then show ?case by blast
next
  case (step c1 c2)
  then obtain sched where sched: "pool_run step sched c2 = Some c'" by blast
  from step.hyps(1) show ?case
  proof cases
    case (run_task i ts s s' t' new)
    with sched have "pool_run step (i # sched) c1 = Some c'" by simp
    then show ?thesis by blast
  qed
qed

definition pool_stuck :: "('s, 't) task_step \<Rightarrow> ('s, 't) pool \<Rightarrow> bool" where
  "pool_stuck step c \<longleftrightarrow> (\<forall>t \<in> set (snd c). step (fst c) t = None)"

lemma pool_stuck_iff: "pool_stuck step c \<longleftrightarrow> (\<nexists>c'. pool_step step c c')"
proof
  assume "pool_stuck step c"
  then show "\<nexists>c'. pool_step step c c'"
    by (fastforce simp: pool_stuck_def elim: pool_step.cases)
next
  assume none: "\<nexists>c'. pool_step step c c'"
  show "pool_stuck step c"
    unfolding pool_stuck_def
  proof
    fix t
    assume "t \<in> set (snd c)"
    then obtain i where i: "i < length (snd c)" "snd c ! i = t"
      by (auto simp: in_set_conv_nth)
    show "step (fst c) t = None"
    proof (rule ccontr)
      assume "step (fst c) t \<noteq> None"
      then obtain s' t' new where "step (fst c) (snd c ! i) = Some (s', t', new)"
        using i(2) by (cases "step (fst c) t") auto
      with i(1) have "pool_step step (fst c, snd c) (s', (snd c)[i := t'] @ new)"
        by (rule run_task)
      with none show False by (metis prod.collapse)
    qed
  qed
qed

section \<open>Invariants\<close>

locale task_invariant =
  fixes step :: "('s, 't) task_step"
    and inv :: "('s, 't) pool \<Rightarrow> bool"
  assumes inv_step: "inv c \<Longrightarrow> pool_step step c c' \<Longrightarrow> inv c'"
begin

lemma inv_reach: "inv c \<Longrightarrow> pool_reach step c c' \<Longrightarrow> inv c'"
  by (rotate_tac 1, induction rule: rtranclp_induct) (auto intro: inv_step)

end

section \<open>Termination\<close>

locale task_terminates = task_invariant +
  fixes weight :: "('s, 't) pool \<Rightarrow> nat"
  assumes weight_step: "inv c \<Longrightarrow> pool_step step c c' \<Longrightarrow> weight c' < weight c"
begin

text \<open>No run is longer than the weight of the pool it starts from.\<close>

lemma run_length:
  "inv c \<Longrightarrow> pool_run step sched c = Some c' \<Longrightarrow> length sched + weight c' \<le> weight c"
proof (induction sched arbitrary: c)
  case Nil
  then show ?case by simp
next
  case (Cons i sched)
  obtain s ts where c: "c = (s, ts)" by (cases c)
  with Cons.prems(2) obtain s' t' new
    where i: "i < length ts" "step s (ts ! i) = Some (s', t', new)"
      and rest: "pool_run step sched (s', ts[i := t'] @ new) = Some c'"
    by (auto split: if_splits option.splits)
  from i have move: "pool_step step c (s', ts[i := t'] @ new)"
    unfolding c by (rule run_task)
  with Cons.prems(1) have "inv (s', ts[i := t'] @ new)" by (rule inv_step)
  from Cons.IH [OF this rest] weight_step [OF Cons.prems(1) move] show ?case by simp
qed

lemma no_infinite_run:
  assumes "inv (f 0)"
  shows "\<exists>n. \<not> pool_step step (f n) (f (Suc n))"
proof (rule ccontr)
  assume "\<nexists>n. \<not> pool_step step (f n) (f (Suc n))"
  then have move: "pool_step step (f n) (f (Suc n))" for n by blast
  have "inv (f n) \<and> n + weight (f n) \<le> weight (f 0)" for n
  proof (induction n)
    case 0
    with assms show ?case by simp
  next
    case (Suc n)
    with move [of n] show ?case
      using inv_step weight_step by (metis Suc_leI add_Suc add_Suc_right order_trans add_le_mono le_refl)
  qed
  from this [of "Suc (weight (f 0))"] show False by simp
qed

lemma reaches_stuck: "inv c \<Longrightarrow> \<exists>c'. pool_reach step c c' \<and> pool_stuck step c'"
proof (induction "weight c" arbitrary: c rule: less_induct)
  case less
  show ?case
  proof (cases "pool_stuck step c")
    case True
    then show ?thesis by blast
  next
    case False
    then obtain d where d: "pool_step step c d" by (auto simp: pool_stuck_iff)
    then obtain c' where "pool_reach step d c'" "pool_stuck step c'"
      using less.hyps [of d] less.prems inv_step weight_step by blast
    with d show ?thesis by (meson converse_rtranclp_into_rtranclp)
  qed
qed

end

section \<open>Progress\<close>

locale task_live = task_terminates +
  fixes finished :: "'b \<Rightarrow> bool"
  assumes finished_stops: "finished t \<Longrightarrow> step s t = None"
    and progress: "inv c \<Longrightarrow> pool_stuck step c \<Longrightarrow> t \<in> set (snd c) \<Longrightarrow> finished t"
begin

lemma stuck_iff_finished:
  "inv c \<Longrightarrow> pool_stuck step c \<longleftrightarrow> (\<forall>t \<in> set (snd c). finished t)"
  using progress [of c] finished_stops unfolding pool_stuck_def by blast

text \<open>From every reachable pool some run leads to one in which all tasks have finished.\<close>

lemma can_finish:
  assumes "inv c" and "pool_reach step c d"
  shows "\<exists>d'. pool_reach step d d' \<and> (\<forall>t \<in> set (snd d'). finished t)"
proof -
  from assms have "inv d" by (rule inv_reach)
  then obtain d' where d': "pool_reach step d d'" "pool_stuck step d'"
    using reaches_stuck by blast
  with \<open>inv d\<close> have "inv d'" by (blast intro: inv_reach)
  with d' show ?thesis using progress by blast
qed

end

end
