(* ===== verification/Workload.thy ===== *)
theory Workload
  imports Prelude
begin

text \<open>
  The computation of the worker-pool benchmarks, apart from their scheduling: the hash
  recurrence every consumer runs on an item (\<open>work\<close>, once in each C++ program), the split of
  the items over the producers, and the checksum the programs print.
\<close>

section \<open>The hash recurrence\<close>

text \<open>
  One turn of the loop: \<open>x = x * 6364136223846793005ULL + 1442695040888963407ULL\<close>, then
  \<open>acc ^= x >> 29\<close>. All arithmetic is modulo 2 to the 64th.
\<close>

function asio_work_loop :: "u64 \<Rightarrow> u64 \<Rightarrow> u64 \<Rightarrow> u64 \<Rightarrow> u64" where
  "asio_work_loop i iters x acc =
     (if i < iters
      then let x = x * 6364136223846793005 + 1442695040888963407
           in asio_work_loop (i + 1) iters x (acc XOR drop_bit 29 x)
      else acc)"
  by pat_completeness auto
termination
  by (relation "measure (\<lambda>(i, iters, x, acc). unat iters - unat i)")
    (auto simp: unat_inc word_less_nat_alt)

definition asio_work :: "u64 \<Rightarrow> u64 \<Rightarrow> u64" where
  "asio_work seed iters = asio_work_loop 0 iters seed 0"

function photon_work_loop :: "u64 \<Rightarrow> u64 \<Rightarrow> u64 \<Rightarrow> u64 \<Rightarrow> u64" where
  "photon_work_loop i iters x acc =
     (if i < iters
      then let x = x * 6364136223846793005 + 1442695040888963407
           in photon_work_loop (i + 1) iters x (acc XOR drop_bit 29 x)
      else acc)"
  by pat_completeness auto
termination
  by (relation "measure (\<lambda>(i, iters, x, acc). unat iters - unat i)")
    (auto simp: unat_inc word_less_nat_alt)

definition photon_work :: "u64 \<Rightarrow> u64 \<Rightarrow> u64" where
  "photon_work seed iters = photon_work_loop 0 iters seed 0"

declare asio_work_loop.simps [simp del] photon_work_loop.simps [simp del]

text \<open>
  The specification: the generator's state after \<open>k\<close> turns, and the exclusive-or of the high
  bits of the states 1 to \<open>iters\<close>.
\<close>

definition lcg :: "u64 \<Rightarrow> u64" where
  "lcg x = x * 6364136223846793005 + 1442695040888963407"

definition work_spec :: "u64 \<Rightarrow> nat \<Rightarrow> u64" where
  "work_spec seed n = xor_mset (mset (map (\<lambda>k. drop_bit 29 ((lcg ^^ Suc k) seed)) [0..<n]))"

lemma work_spec_Suc:
  "work_spec seed (Suc n) = drop_bit 29 (lcg seed) XOR work_spec (lcg seed) n"
proof -
  have "[0..<Suc n] = 0 # map Suc [0..<n]"
    by (simp add: upt_conv_Cons map_Suc_upt del: upt_Suc)
  then show ?thesis
    by (simp add: work_spec_def comp_def funpow_swap1 del: upt_Suc)
qed

lemma work_loop_spec:
  assumes "\<And>i x acc. f i x acc = (if i < iters then f (i + 1) (lcg x) (acc XOR drop_bit 29 (lcg x)) else acc)"
  shows "f i x acc = acc XOR work_spec x (unat (iters :: u64) - unat i)"
proof (induction "unat iters - unat i" arbitrary: i x acc)
  case 0
  with assms [of i x acc] show ?case by (simp add: work_spec_def word_less_nat_alt)
next
  case (Suc n)
  from Suc.hyps(2) have less: "i < iters" by (simp add: word_less_nat_alt)
  then have left: "unat iters - unat i = Suc (unat iters - unat (i + 1))"
    by (simp add: unat_inc word_less_nat_alt)
  with Suc.hyps(2) have "n = unat iters - unat (i + 1)" by simp
  from Suc.hyps(1) [OF this] assms [of i x acc] less left show ?case by (simp add: work_spec_Suc xor.assoc)
qed

lemma asio_work_loop_spec:
  "asio_work_loop i iters x acc = acc XOR work_spec x (unat iters - unat i)"
  by (rule work_loop_spec [where f = "\<lambda>i. asio_work_loop i iters"], subst asio_work_loop.simps) (simp add: lcg_def Let_def)

lemma photon_work_loop_spec:
  "photon_work_loop i iters x acc = acc XOR work_spec x (unat iters - unat i)"
  by (rule work_loop_spec [where f = "\<lambda>i. photon_work_loop i iters"], subst photon_work_loop.simps) (simp add: lcg_def Let_def)

lemma asio_work_spec: "asio_work seed iters = work_spec seed (unat iters)"
  by (simp add: asio_work_def asio_work_loop_spec)

lemma photon_work_spec: "photon_work seed iters = work_spec seed (unat iters)"
  by (simp add: photon_work_def photon_work_loop_spec)

lemma take_bit_xor_mset:
  "\<forall>x \<in># M. take_bit n x = x \<Longrightarrow> take_bit n (xor_mset M) = xor_mset M"
  by (induction M) auto

lemma work_spec_bound: "unat (work_spec seed n) < 2 ^ 35"
proof -
  have high: "take_bit 35 (drop_bit 29 x) = drop_bit 29 (x :: u64)" for x
    by (simp add: take_bit_drop_bit take_bit_word_eq_self)
  have "take_bit 35 (work_spec seed n) = work_spec seed n"
    unfolding work_spec_def by (rule take_bit_xor_mset) (auto simp: high)
  then have "unat (work_spec seed n) = take_bit 35 (unat (work_spec seed n))"
    by (metis unsigned_take_bit_eq)
  also have "\<dots> < 2 ^ 35" by (rule take_bit_nat_less_exp)
  finally show ?thesis .
qed

section \<open>The split of the items over the producers\<close>

text \<open>
  Producer \<open>p\<close> of \<open>producers\<close> sends the values \<open>i + 1\<close> for \<open>i\<close> from \<open>p * items / producers\<close>
  up to, but excluding, \<open>(p + 1) * items / producers\<close>. \<open>send_values\<close> is the loop over a range.
\<close>

function send_values :: "u64 \<Rightarrow> u64 \<Rightarrow> u64 list" where
  "send_values i end = (if i < end then (i + 1) # send_values (i + 1) end else [])"
  by pat_completeness auto
termination
  by (relation "measure (\<lambda>(i, end). unat end - unat i)") (auto simp: unat_inc word_less_nat_alt)

declare send_values.simps [simp del]

definition split_range :: "u64 \<Rightarrow> u64 \<Rightarrow> u64 \<Rightarrow> u64 \<times> u64" where
  "split_range items producers p =
     (p * items div producers, (p + 1) * items div producers)"

definition producer_values :: "u64 \<Rightarrow> u64 \<Rightarrow> u64 \<Rightarrow> u64 list" where
  "producer_values items producers p =
     (case split_range items producers p of (s, e) \<Rightarrow> send_values s e)"

lemma send_values_unat:
  "map unat (send_values i end) = [Suc (unat i)..<Suc (unat end)]"
proof (induction i "end" rule: send_values.induct)
  case (1 i "end")
  show ?case
  proof (cases "i < end")
    case True
    then have "unat i < unat end" by (simp add: word_less_nat_alt)
    then have "[Suc (unat i)..<Suc (unat end)] = Suc (unat i) # [Suc (Suc (unat i))..<Suc (unat end)]"
      by (simp add: upt_conv_Cons del: upt_Suc)
    with 1 True show ?thesis
      by (simp add: send_values.simps [of i] unat_inc del: upt_Suc)
  next
    case False
    then show ?thesis by (simp add: send_values.simps [of i] word_less_nat_alt)
  qed
qed

lemma send_values_nonzero: "0 \<notin> set (send_values i end)"
proof
  assume "0 \<in> set (send_values i end)"
  then have "unat (0 :: u64) \<in> set (map unat (send_values i end))" by force
  then show False by (simp add: send_values_unat del: upt_Suc)
qed

lemma length_send_values: "length (send_values i end) = unat end - unat i"
  using arg_cong [OF send_values_unat, of length i "end"] by (simp del: upt_Suc)

lemma producer_values_nonzero: "0 \<notin> set (producer_values items producers p)"
  by (simp add: producer_values_def split_range_def send_values_nonzero)

text \<open>Everything the producers from \<open>p\<close> on send, in the order of the spawn loop.\<close>

definition all_values_from :: "u64 \<Rightarrow> u64 \<Rightarrow> u64 \<Rightarrow> u64 multiset" where
  "all_values_from items producers p =
     sum_list (map (\<lambda>k. mset (producer_values items producers (of_nat k)))
       [unat p..<unat producers])"

lemma all_values_from_step:
  assumes "p < producers"
  shows "all_values_from items producers p =
    mset (producer_values items producers p) + all_values_from items producers (p + 1)"
  using assms by (simp add: all_values_from_def unat_inc upt_conv_Cons word_less_nat_alt)

lemma all_values_from_end: "\<not> p < producers \<Longrightarrow> all_values_from items producers p = {#}"
  by (simp add: all_values_from_def word_less_nat_alt)

lemma all_values_nonzero: "0 \<notin># all_values_from items producers p"
proof -
  have "0 \<notin># sum_list (map (\<lambda>k. mset (producer_values items producers (of_nat k))) ks)" for ks
    by (induction ks) (auto simp: producer_values_nonzero)
  then show ?thesis unfolding all_values_from_def .
qed

text \<open>
  As long as \<open>producers * items\<close> does not wrap, the ranges are consecutive and cover the
  items exactly once: together the producers send 1 to \<open>items\<close>.
\<close>

lemma split_range_exact:
  assumes "unat producers * unat items < 2 ^ 64" and "p < producers"
  shows "map_prod unat unat (split_range items producers p) =
    (unat p * unat items div unat producers, Suc (unat p) * unat items div unat producers)"
proof -
  have le: "Suc (unat p) \<le> unat producers"
    using assms(2) by (simp add: word_less_nat_alt)
  have "Suc (unat p) * unat items \<le> unat producers * unat items"
    using le by (rule mult_le_mono1)
  then have bound: "Suc (unat p) * unat items < 2 ^ 64"
    using assms(1) by linarith
  then have "unat p * unat items < 2 ^ 64" by simp
  then have "unat (p * items) = unat p * unat items" by (rule unat_mult_exact)
  moreover have "unat ((p + 1) * items) = Suc (unat p) * unat items"
    using bound by (simp only: unat_inc [OF assms(2)] unat_mult_exact)
  ultimately show ?thesis
    by (simp add: split_range_def unat_div)
qed

lemma concat_ranges:
  fixes b :: "nat \<Rightarrow> nat"
  assumes "\<And>i. i < n \<Longrightarrow> b i \<le> b (Suc i)"
  shows "concat (map (\<lambda>i. [b i..<b (Suc i)]) [0..<n]) = [b 0..<b n] \<and> b 0 \<le> b n"
  using assms
proof (induction n)
  case 0
  then show ?case by simp
next
  case (Suc n)
  then have le: "b 0 \<le> b n" "b n \<le> b (Suc n)" by auto
  have "[b 0..<b (Suc n)] = [b 0..<b n] @ [b n..<b (Suc n)]"
    using upt_add_eq_append [OF le(1), of "b (Suc n) - b n"] le(2) by simp
  with Suc le le_trans [OF le] show ?case by simp
qed

lemma all_values_exact:
  assumes "unat producers * unat items < 2 ^ 64" and "producers \<noteq> 0"
  shows "all_values_from items producers 0 = mset (map of_nat [1..<Suc (unat items)])"
proof -
  define b where "b k = Suc (k * unat items div unat producers)" for k
  have P: "0 < unat producers" using assms(2) by (simp add: unat_gt_0)
  have vals: "map unat (producer_values items producers (of_nat k)) = [b k..<b (Suc k)]"
    if "k < unat producers" for k
  proof -
    have k: "unat (of_nat k :: u64) = k"
      using that by (intro of_nat_unat_le [of _ producers]) simp
    then have "of_nat k < producers" using that by (simp add: word_less_nat_alt)
    from split_range_exact [OF assms(1) this] k show ?thesis
      by (cases "split_range items producers (of_nat k)")
        (simp add: producer_values_def b_def send_values_unat del: upt_Suc)
  qed
  have "image_mset unat (all_values_from items producers 0) =
      mset (concat (map (\<lambda>k. map unat (producer_values items producers (of_nat k)))
        [0..<unat producers]))"
  proof -
    have "image_mset unat (sum_list (map (\<lambda>k. mset (f k)) ks)) =
        mset (concat (map (\<lambda>k. map unat (f k)) ks))" for f :: "nat \<Rightarrow> u64 list" and ks
      by (induction ks) auto
    then show ?thesis by (simp add: all_values_from_def)
  qed
  also have "map (\<lambda>k. map unat (producer_values items producers (of_nat k))) [0..<unat producers] =
      map (\<lambda>k. [b k..<b (Suc k)]) [0..<unat producers]"
    by (rule map_cong) (auto simp: vals)
  also have "concat \<dots> = [b 0..<b (unat producers)]"
    by (rule concat_ranges [THEN conjunct1]) (simp add: b_def div_le_mono)
  also have "\<dots> = [1..<Suc (unat items)]"
    using P by (simp add: b_def)
  finally have "image_mset of_nat (image_mset unat (all_values_from items producers 0)) =
      image_mset (of_nat :: nat \<Rightarrow> u64) (mset [1..<Suc (unat items)])"
    by simp
  then show ?thesis by (simp add: multiset.map_comp comp_def)
qed

section \<open>The checksum\<close>

text \<open>
  What every correct run prints: the exclusive-or of the work done on 1 to \<open>items\<close>, whoever
  did it and in whatever order.
\<close>

definition checksum_spec :: "u64 \<Rightarrow> u64 \<Rightarrow> u64" where
  "checksum_spec items iters =
     xor_mset (mset (map (\<lambda>k. work_spec (of_nat k) (unat iters)) [1..<Suc (unat items)]))"

definition xor_work :: "u64 \<Rightarrow> u64 multiset \<Rightarrow> u64" where
  "xor_work iters M = xor_mset (image_mset (\<lambda>v. work_spec v (unat iters)) M)"

lemma xor_work_simps [simp]:
  "xor_work iters {#} = 0"
  "xor_work iters (add_mset v M) = work_spec v (unat iters) XOR xor_work iters M"
  "xor_work iters (M + N) = xor_work iters M XOR xor_work iters N"
  by (simp_all add: xor_work_def)

lemma xor_work_all:
  assumes "unat producers * unat items < 2 ^ 64" and "producers \<noteq> 0"
  shows "xor_work iters (all_values_from items producers 0) = checksum_spec items iters"
  by (simp add: xor_work_def checksum_spec_def all_values_exact [OF assms] multiset.map_comp comp_def
      del: upt_Suc)

section \<open>Properties\<close>

text \<open>
  The hash recurrence. The photon and the Asio program compute the same function, the
  exclusive-or of the bits above 29 of the first \<open>iters\<close> states of the generator, so the loops
  end for every number of iterations and the result has at most 35 bits.
\<close>

theorem work_same:
  "photon_work seed iters = asio_work seed iters \<and> asio_work seed iters = work_spec seed (unat iters) \<and>
    unat (photon_work seed iters) < 2 ^ 35"
  using work_spec_bound [of seed "unat iters"] by (simp add: asio_work_spec photon_work_spec)

text \<open>
  The split is exact. As long as \<open>producers * items\<close> does not wrap, producer \<open>p\<close> gets the items
  from \<open>p * items / producers\<close> up to \<open>(p + 1) * items / producers\<close>, as natural numbers, and all
  producers together send each value from 1 to \<open>items\<close> exactly once.
\<close>

theorem split_exact:
  assumes "unat producers * unat items < 2 ^ 64" and "p < producers"
  shows "map unat (producer_values items producers p) =
      [Suc (unat p * unat items div unat producers)..<Suc (Suc (unat p) * unat items div unat producers)] \<and>
    all_values_from items producers 0 = mset (map of_nat [1..<Suc (unat items)])"
proof -
  have "producers \<noteq> 0" using assms(2) by auto
  with all_values_exact [OF assms(1)] split_range_exact [OF assms] show ?thesis
    by (cases "split_range items producers p")
      (simp add: producer_values_def send_values_unat del: upt_Suc mult_Suc)
qed

theorem split_exact_witness:
  "map unat (producer_values 10 3 1) = [4, 5, 6] \<and> all_values_from 10 3 0 = mset (map of_nat [1..<11])"
  using split_exact [of 3 10 1] by (simp add: upt_rec)

text \<open>
  Without that bound the split is wrong: with 4 producers and 2 to the 63rd items the products
  wrap, producers 0 and 2 get the same range and producer 1 an empty one.
\<close>

theorem split_wraps:
  "split_range (2 ^ 63) 4 0 = (0, 2 ^ 61) \<and> split_range (2 ^ 63) 4 2 = (0, 2 ^ 61) \<and>
    producer_values (2 ^ 63) 4 1 = []"
  by (simp add: split_range_def producer_values_def send_values.simps)

end
