(* ===== verification/Item_Flow.thy ===== *)
theory Item_Flow
  imports Workload
begin

text \<open>
  The data invariant of both worker pools: what is in the queue, in a coroutine's hand, folded
  into an accumulator and in the checksum, and how a push, a read and a fold change it.
\<close>

lemma send_values_unfold: "i < e \<Longrightarrow> send_values i e = (i + 1) # send_values (i + 1) e"
  by (simp add: send_values.simps [of i])

lemma send_values_end: "\<not> i < e \<Longrightarrow> send_values i e = []"
  by (simp add: send_values.simps [of i])

text \<open>
  The queue holds real items followed by sentinels; once a consumer has read its sentinel no real
  item is left in the queue; and the items that are neither pending nor queued are exactly those
  folded into an accumulator.
\<close>

definition item_flow ::
  "u64 \<Rightarrow> u64 \<Rightarrow> u64 \<Rightarrow> u64 list \<Rightarrow> u64 \<Rightarrow> u64 multiset \<Rightarrow> nat \<Rightarrow> nat \<Rightarrow> u64 \<Rightarrow> bool"
where
  "item_flow items producers iters xs checksum pend stop sent accs \<longleftrightarrow>
     (\<exists>R z D. xs = R @ replicate z 0 \<and> 0 \<notin> set R \<and> z + stop = sent \<and> (0 < stop \<longrightarrow> R = []) \<and>
        pend + mset R + D = all_values_from items producers 0 \<and>
        xor_work iters D = accs XOR checksum)"

lemma flow_push_item:
  assumes "item_flow items producers iters xs chk (add_mset v pend) stop 0 accs" and "v \<noteq> 0"
  shows "item_flow items producers iters (xs @ [v]) chk pend stop 0 accs"
proof -
  from assms(1) obtain R D where R: "xs = R" "0 \<notin> set R" "stop = 0"
    "add_mset v pend + mset R + D = all_values_from items producers 0"
    "xor_work iters D = accs XOR chk"
    by (auto simp: item_flow_def)
  then have "pend + mset (R @ [v]) + D = all_values_from items producers 0" by simp
  with R assms(2) show ?thesis
    unfolding item_flow_def by (intro exI [of _ "R @ [v]"] exI [of _ 0] exI [of _ D]) simp
qed

lemma flow_push_sentinel:
  assumes "item_flow items producers iters xs chk pend stop sent accs"
  shows "item_flow items producers iters (xs @ [0]) chk pend stop (Suc sent) accs"
proof -
  from assms obtain R z D where R: "xs = R @ replicate z 0" "0 \<notin> set R" "z + stop = sent"
    "0 < stop \<longrightarrow> R = []" "pend + mset R + D = all_values_from items producers 0"
    "xor_work iters D = accs XOR chk"
    by (auto simp: item_flow_def)
  then have "xs @ [0] = R @ replicate (Suc z) 0" by (simp add: replicate_append_same)
  with R show ?thesis
    unfolding item_flow_def by (intro exI [of _ R] exI [of _ "Suc z"] exI [of _ D]) simp
qed

lemma flow_read:
  assumes "item_flow items producers iters (v # xs) chk pend stop sent accs"
  shows "item_flow items producers iters xs chk (pend + (if v = 0 then {#} else {#v#}))
    (stop + (if v = 0 then 1 else 0)) sent accs"
proof -
  from assms obtain R z D where R: "v # xs = R @ replicate z 0" "0 \<notin> set R" "z + stop = sent"
    "0 < stop \<longrightarrow> R = []" "pend + mset R + D = all_values_from items producers 0"
    "xor_work iters D = accs XOR chk"
    by (auto simp: item_flow_def)
  show ?thesis
  proof (cases R)
    case Nil
    with R(1) obtain n where "z = Suc n" "v = 0" "xs = replicate n 0" by (cases z) auto
    with R Nil show ?thesis
      unfolding item_flow_def by (intro exI [of _ "[]"] exI [of _ n] exI [of _ D]) simp
  next
    case (Cons x R')
    with R show ?thesis
      unfolding item_flow_def by (intro exI [of _ R'] exI [of _ z] exI [of _ D]) (auto simp: ac_simps)
  qed
qed

lemma flow_fold:
  assumes "item_flow items producers iters xs chk (add_mset v pend) stop sent (accs XOR acc)"
  shows "item_flow items producers iters xs chk pend stop sent (accs XOR (acc XOR work_spec v (unat iters)))"
proof -
  from assms obtain R z D where R: "xs = R @ replicate z 0" "0 \<notin> set R" "z + stop = sent"
    "0 < stop \<longrightarrow> R = []"
    "add_mset v pend + mset R + D = all_values_from items producers 0"
    "xor_work iters D = (accs XOR acc) XOR chk"
    by (auto simp: item_flow_def)
  then have "pend + mset R + add_mset v D = all_values_from items producers 0"
    by (simp add: ac_simps)
  moreover have "xor_work iters (add_mset v D) =
      (accs XOR (acc XOR work_spec v (unat iters))) XOR chk"
    using R(6) by (simp add: xor.assoc xor.left_commute xor.commute)
  ultimately show ?thesis
    unfolding item_flow_def using R by blast
qed

lemma flow_flush:
  "item_flow items producers iters xs chk pend stop sent (accs XOR acc) \<Longrightarrow>
    item_flow items producers iters xs (chk XOR acc) pend stop sent accs"
  by (auto simp: item_flow_def xor.assoc xor.left_commute xor.commute)

text \<open>The checksum of the smallest interesting run, for the closed examples.\<close>

lemma checksum_two: "checksum_spec 2 1 = 22681772974"
  by code_simp

end
