(* ===== verification/Photon_Sync.thy ===== *)
theory Photon_Sync
  imports Prelude
begin

text \<open>
  The synchronisation primitives the PhotonLibOS programs use: \<open>photon::semaphore\<close> and
  \<open>photon::mutex\<close>. PhotonLibOS is not part of the repository, so its operations are a parameter
  (\<open>photon_ops\<close>) and \<open>photon_sync\<close> states what its documentation promises: a semaphore is a
  counter that \<open>wait(n)\<close> takes \<open>n\<close> from, blocking while it holds less, and \<open>signal(n)\<close> adds \<open>n\<close>
  to; a mutex has at most one holder. A blocked operation is \<open>None\<close>: the calling coroutine is
  suspended there and tries again when it is resumed.
\<close>

record ('s, 'm) photon_ops =
  sem_init :: "u64 \<Rightarrow> 's"
  sem_wait :: "'s \<Rightarrow> u64 \<Rightarrow> 's option"
  sem_signal :: "'s \<Rightarrow> u64 \<Rightarrow> 's"
  mutex_init :: 'm
  mutex_lock :: "'m \<Rightarrow> 'm option"
  mutex_unlock :: "'m \<Rightarrow> 'm"

locale photon_sync =
  fixes ph :: "('s, 'm) photon_ops"
    and cnt :: "'s \<Rightarrow> u64"
    and held :: "'m \<Rightarrow> bool"
  assumes cnt_init [simp]: "cnt (sem_init ph n) = n"
    and wait_takes: "n \<le> cnt s \<Longrightarrow> \<exists>s'. sem_wait ph s n = Some s' \<and> cnt s' = cnt s - n"
    and wait_blocks: "\<not> n \<le> cnt s \<Longrightarrow> sem_wait ph s n = None"
    and signal_adds: "unat (cnt s) + unat n < 2 ^ 64 \<Longrightarrow> cnt (sem_signal ph s n) = cnt s + n"
    and mutex_starts_free [simp]: "\<not> held (mutex_init ph)"
    and lock_takes: "\<not> held m \<Longrightarrow> \<exists>m'. mutex_lock ph m = Some m' \<and> held m'"
    and lock_blocks: "held m \<Longrightarrow> mutex_lock ph m = None"
    and unlock_frees: "held m \<Longrightarrow> \<not> held (mutex_unlock ph m)"
begin

text \<open>The counter as a natural number.\<close>

abbreviation (input) ucnt :: "'s \<Rightarrow> nat" where
  "ucnt s \<equiv> unat (cnt s)"

lemma wait_Some:
  assumes "sem_wait ph s n = Some s'"
  shows "ucnt s = ucnt s' + unat n"
proof -
  have le: "n \<le> cnt s" using assms wait_blocks by fastforce
  then have "cnt s' = cnt s - n" using assms wait_takes by fastforce
  with le show ?thesis by (simp add: unat_sub word_le_nat_alt)
qed

lemma wait_None_iff: "sem_wait ph s n = None \<longleftrightarrow> ucnt s < unat n"
  using wait_takes [of n s] wait_blocks [of n s] by (cases "n \<le> cnt s") (auto simp: word_le_nat_alt)

lemma signal_ucnt:
  assumes "ucnt s + unat n < 2 ^ 64"
  shows "ucnt (sem_signal ph s n) = ucnt s + unat n"
  using assms signal_adds [OF assms] by (simp add: unat_word_ariths)

lemma lock_Some: "mutex_lock ph m = Some m' \<Longrightarrow> \<not> held m \<and> held m'"
  using lock_takes [of m] lock_blocks [of m] by (cases "held m") auto

lemma lock_None_iff: "mutex_lock ph m = None \<longleftrightarrow> held m"
  using lock_takes [of m] lock_blocks [of m] by (cases "held m") auto

end

text \<open>
  The contract can be met: 64-bit counters and a flag. This instance is what the closed
  examples run on.
\<close>

definition counter_ops :: "(u64, bool) photon_ops" where
  "counter_ops =
     \<lparr>sem_init = (\<lambda>n. n),
      sem_wait = (\<lambda>s n. if n \<le> s then Some (s - n) else None),
      sem_signal = (\<lambda>s n. s + n),
      mutex_init = False,
      mutex_lock = (\<lambda>m. if m then None else Some True),
      mutex_unlock = (\<lambda>m. False)\<rparr>"

interpretation counter: photon_sync counter_ops "\<lambda>s. s" "\<lambda>m. m"
  by unfold_locales (auto simp: counter_ops_def)

end
