(* ===== verification/Fifo.thy ===== *)
theory Fifo
  imports Prelude
begin

text \<open>
  The contract every queue of the programs shares, the ring buffer of the photon worker pool,
  the one-place slot of the photon ping-pong and Asio's channel alike: a bounded FIFO whose
  operations run to completion, \<open>put\<close> and \<open>get\<close>, with \<open>None\<close> for a call that would block. The
  specification is a list with a capacity; \<open>fifo_refines\<close> shows that any script of operations on
  an implementation gives exactly the specification's results.
\<close>

datatype fifo_op = Put u64 | Get

fun run_ops :: "('c \<Rightarrow> u64 \<Rightarrow> 'c option) \<Rightarrow> ('c \<Rightarrow> (u64 \<times> 'c) option) \<Rightarrow> fifo_op list \<Rightarrow> 'c \<Rightarrow> (u64 list \<times> 'c) option"
where
  "run_ops put get [] c = Some ([], c)"
| "run_ops put get (Put v # ops) c =
     (case put c v of None \<Rightarrow> None | Some c' \<Rightarrow> run_ops put get ops c')"
| "run_ops put get (Get # ops) c =
     (case get c of
        None \<Rightarrow> None
      | Some (v, c') \<Rightarrow> map_option (\<lambda>(vs, d). (v # vs, d)) (run_ops put get ops c'))"

text \<open>The specification.\<close>

definition spec_put :: "nat \<Rightarrow> u64 list \<Rightarrow> u64 \<Rightarrow> u64 list option" where
  "spec_put cap xs v = (if length xs < cap then Some (xs @ [v]) else None)"

fun spec_get :: "u64 list \<Rightarrow> (u64 \<times> u64 list) option" where
  "spec_get [] = None"
| "spec_get (x # xs) = Some (x, xs)"

fun puts :: "fifo_op list \<Rightarrow> u64 list" where
  "puts [] = []"
| "puts (Put v # ops) = v # puts ops"
| "puts (Get # ops) = puts ops"

locale bounded_fifo =
  fixes put :: "'c \<Rightarrow> u64 \<Rightarrow> 'c option"
    and get :: "'c \<Rightarrow> (u64 \<times> 'c) option"
    and stored :: "'c \<Rightarrow> u64 list"
    and cap :: nat
    and good :: "'c \<Rightarrow> bool"
  assumes put_room: "good c \<Longrightarrow> length (stored c) < cap \<Longrightarrow>
      \<exists>c'. put c v = Some c' \<and> good c' \<and> stored c' = stored c @ [v]"
    and put_full: "good c \<Longrightarrow> \<not> length (stored c) < cap \<Longrightarrow> put c v = None"
    and get_first: "good c \<Longrightarrow> stored c = x # xs \<Longrightarrow>
      \<exists>c'. get c = Some (x, c') \<and> good c' \<and> stored c' = xs"
    and get_empty: "good c \<Longrightarrow> stored c = [] \<Longrightarrow> get c = None"
begin

lemma put_refines:
  assumes "good c"
  shows "map_option stored (put c v) = spec_put cap (stored c) v"
    and "put c v = Some c' \<Longrightarrow> good c'"
  using put_room [OF assms, of v] put_full [OF assms, of v]
  by (cases "length (stored c) < cap"; auto simp: spec_put_def)+

lemma get_refines:
  assumes "good c"
  shows "map_option (\<lambda>(x, d). (x, stored d)) (get c) = spec_get (stored c)"
    and "get c = Some (x, c') \<Longrightarrow> good c'"
  using get_first [OF assms] get_empty [OF assms] by (cases "stored c"; fastforce)+

lemma fifo_refines:
  "good c \<Longrightarrow> map_option (\<lambda>(xs, d). (xs, stored d)) (run_ops put get ops c) =
    run_ops (spec_put cap) spec_get ops (stored c)"
proof (induction ops arbitrary: c)
  case Nil
  show ?case by simp
next
  case (Cons op ops)
  show ?case
  proof (cases op)
    case (Put v)
    then show ?thesis
      using put_refines(2) [OF Cons.prems, of v] put_refines(1) [OF Cons.prems, of v, symmetric] Cons.IH
      by (cases "put c v") auto
  next
    case Get
    show ?thesis
    proof (cases "stored c")
      case Nil
      then show ?thesis using get_empty [OF Cons.prems] Get by simp
    next
      case first: (Cons x xs)
      from get_first [OF Cons.prems first] obtain d
        where "get c = Some (x, d)" "good d" "stored d = xs" by blast
      then show ?thesis
        using first Get Cons.IH [of d, symmetric] by (cases "run_ops put get ops d") (auto split: prod.splits)
    qed
  qed
qed

end

text \<open>The specification is a FIFO: what was stored and put is what was got and is stored, in order.\<close>

lemma spec_fifo:
  "run_ops (spec_put cap) spec_get ops xs = Some (out, ys) \<Longrightarrow> xs @ puts ops = out @ ys"
proof (induction ops arbitrary: xs out)
  case (Cons op ops)
  show ?case
  proof (cases op)
    case (Put v)
    with Cons.prems Cons.IH [of "xs @ [v]" out] show ?thesis by (simp add: spec_put_def split: if_splits)
  next
    case Get
    with Cons.prems Cons.IH show ?thesis by (cases xs) auto
  qed
qed simp

lemma spec_bounded:
  "run_ops (spec_put cap) spec_get ops xs = Some (out, ys) \<Longrightarrow> length xs \<le> cap \<Longrightarrow> length ys \<le> cap"
proof (induction ops arbitrary: xs out)
  case (Cons op ops)
  show ?case
  proof (cases op)
    case (Put v)
    with Cons.prems Cons.IH [of "xs @ [v]" out] show ?thesis by (simp add: spec_put_def split: if_splits)
  next
    case Get
    with Cons.prems Cons.IH show ?thesis by (cases xs) auto
  qed
qed simp

interpretation spec: bounded_fifo "spec_put cap" spec_get "\<lambda>xs. xs" cap "\<lambda>_. True" for cap
  by unfold_locales (auto simp: spec_put_def)

lemma fifo_order:
  assumes "bounded_fifo put get stored cap good" and "good c"
    and "run_ops put get ops c = Some (out, d)"
  shows "stored c @ puts ops = out @ stored d"
  using bounded_fifo.fifo_refines [OF assms(1,2), of ops] assms(3)
  by (intro spec_fifo [of cap]) simp

end
