(* ===== verification/Photon_Queue.thy ===== *)
theory Photon_Queue
  imports Photon_Sync Fifo
begin

text \<open>
  The bounded queue of \<open>cpp/worker_pool_photon.cpp\<close> (\<open>struct Queue\<close>): a ring buffer of 256
  words indexed by two counters that only grow, a mutex around the buffer accesses and two
  semaphores, \<open>items\<close> for the filled and \<open>space\<close> for the free slots. \<open>push\<close> and \<open>pop\<close> are
  modelled action by action, so that they interleave with each other at every point where a
  coroutine can be switched; \<open>queue_push\<close> and \<open>queue_pop\<close> are the same calls run to the end
  without interference.
\<close>

definition CAP :: u64 where
  "CAP = 256"

record ('s, 'm) queue =
  buf :: "u64 list"
  head :: u64
  tail :: u64
  mu :: 'm
  items :: 's
  space :: 's

definition queue_init :: "('s, 'm) photon_ops \<Rightarrow> ('s, 'm) queue" where
  "queue_init ph =
     \<lparr>buf = replicate (unat CAP) 0, head = 0, tail = 0, mu = mutex_init ph,
      items = sem_init ph 0, space = sem_init ph CAP\<rparr>"

text \<open>
  \<open>push(v)\<close>: wait for space, take the lock, \<open>buf[tail++ % CAP] = v\<close>, release the lock, signal
  \<open>items\<close>. The second component of a step is the next action, \<open>None\<close> after the return.
\<close>

datatype push_pc = PushWait | PushLock | PushWrite | PushUnlock | PushSignal

definition queue_write :: "u64 \<Rightarrow> ('s, 'm) queue \<Rightarrow> ('s, 'm) queue" where
  "queue_write v q = q\<lparr>buf := (buf q)[unat (tail q mod CAP) := v], tail := tail q + 1\<rparr>"

fun push_step ::
  "('s, 'm) photon_ops \<Rightarrow> u64 \<Rightarrow> push_pc \<Rightarrow> ('s, 'm) queue \<Rightarrow> (('s, 'm) queue \<times> push_pc option) option"
where
  "push_step ph v PushWait q =
     (case sem_wait ph (space q) 1 of
        None \<Rightarrow> None
      | Some s \<Rightarrow> Some (q\<lparr>space := s\<rparr>, Some PushLock))"
| "push_step ph v PushLock q =
     (case mutex_lock ph (mu q) of
        None \<Rightarrow> None
      | Some m \<Rightarrow> Some (q\<lparr>mu := m\<rparr>, Some PushWrite))"
| "push_step ph v PushWrite q = Some (queue_write v q, Some PushUnlock)"
| "push_step ph v PushUnlock q = Some (q\<lparr>mu := mutex_unlock ph (mu q)\<rparr>, Some PushSignal)"
| "push_step ph v PushSignal q = Some (q\<lparr>items := sem_signal ph (items q) 1\<rparr>, None)"

text \<open>
  \<open>pop()\<close>: wait for an item, take the lock, \<open>v = buf[head++ % CAP]\<close>, release the lock, signal
  \<open>space\<close>, return \<open>v\<close> (the \<open>Inr\<close> result).
\<close>

datatype pop_pc = PopWait | PopLock | PopRead | PopUnlock u64 | PopSignal u64

definition queue_front :: "('s, 'm) queue \<Rightarrow> u64" where
  "queue_front q = buf q ! unat (head q mod CAP)"

fun pop_step ::
  "('s, 'm) photon_ops \<Rightarrow> pop_pc \<Rightarrow> ('s, 'm) queue \<Rightarrow> (('s, 'm) queue \<times> (pop_pc + u64)) option"
where
  "pop_step ph PopWait q =
     (case sem_wait ph (items q) 1 of
        None \<Rightarrow> None
      | Some s \<Rightarrow> Some (q\<lparr>items := s\<rparr>, Inl PopLock))"
| "pop_step ph PopLock q =
     (case mutex_lock ph (mu q) of
        None \<Rightarrow> None
      | Some m \<Rightarrow> Some (q\<lparr>mu := m\<rparr>, Inl PopRead))"
| "pop_step ph PopRead q = Some (q\<lparr>head := head q + 1\<rparr>, Inl (PopUnlock (queue_front q)))"
| "pop_step ph (PopUnlock v) q =
     Some (q\<lparr>mu := mutex_unlock ph (mu q)\<rparr>, Inl (PopSignal v))"
| "pop_step ph (PopSignal v) q = Some (q\<lparr>space := sem_signal ph (space q) 1\<rparr>, Inr v)"

section \<open>The ring buffer as a list\<close>

definition queue_len :: "('s, 'm) queue \<Rightarrow> nat" where
  "queue_len q = unat (tail q - head q)"

definition contents :: "('s, 'm) queue \<Rightarrow> u64 list" where
  "contents q = map (\<lambda>k. buf q ! ((unat (head q) + k) mod 256)) [0..<queue_len q]"

lemma length_contents [simp]: "length (contents q) = queue_len q"
  by (simp add: contents_def)

text \<open>
  The counters are \<open>size_t\<close> and may wrap. Since 256 divides 2 to the 64th, the slot an index
  selects is not affected.
\<close>

lemma slot_index: "unat (w mod CAP) = unat w mod 256"
  by (simp add: CAP_def unat_mod)

lemma slot_add: "unat (w + of_nat n :: u64) mod 256 = (unat w + n) mod 256"
proof -
  have "unat (w + of_nat n :: u64) = (unat w + n) mod 2 ^ 64"
    by (simp add: unat_word_ariths unat_of_nat mod_simps)
  then show ?thesis by (simp add: mod_mod_cancel)
qed

lemma tail_slot: "unat (tail q) mod 256 = (unat (head q) + queue_len q) mod 256"
  using slot_add [of "head q" "queue_len q"] by (simp add: queue_len_def)

lemma inc_diff_unat:
  fixes a b :: u64
  assumes "unat (a - b) < 256"
  shows "unat (a + 1 - b) = Suc (unat (a - b))"
proof -
  have "a - b < 256" using assms by (simp add: word_less_nat_alt)
  then have "unat ((a - b) + 1) = Suc (unat (a - b))" by (rule unat_inc)
  then show ?thesis by (simp add: diff_add_eq)
qed

lemma dec_diff_unat:
  fixes a b :: u64
  assumes "0 < unat (a - b)"
  shows "unat (a - (b + 1)) = unat (a - b) - 1"
proof -
  have "1 \<le> a - b" using assms by (simp add: word_le_nat_alt)
  then have "unat ((a - b) - 1) = unat (a - b) - 1" by (simp add: unat_sub word_le_nat_alt)
  then show ?thesis by (simp add: diff_diff_eq)
qed

lemma queue_write_len: "queue_len q < 256 \<Longrightarrow> queue_len (queue_write v q) = Suc (queue_len q)"
  by (simp add: queue_len_def queue_write_def inc_diff_unat)

lemma queue_write_contents:
  assumes "queue_len q < 256" and "length (buf q) = 256"
  shows "contents (queue_write v q) = contents q @ [v]"
proof -
  have slot: "unat (tail q mod CAP) = (unat (head q) + queue_len q) mod 256"
    by (simp add: slot_index tail_slot)
  have keep: "(buf q)[unat (tail q mod CAP) := v] ! ((unat (head q) + k) mod 256) =
      buf q ! ((unat (head q) + k) mod 256)" if "k < queue_len q" for k
    using ring_slots_differ [OF that assms(1), of "unat (head q)"] by (simp add: slot)
  have last: "(buf q)[unat (tail q mod CAP) := v] ! ((unat (head q) + queue_len q) mod 256) = v"
    using assms(2) by (simp add: slot)
  have "contents (queue_write v q) =
      map (\<lambda>k. (buf q)[unat (tail q mod CAP) := v] ! ((unat (head q) + k) mod 256))
        [0..<Suc (queue_len q)]"
    unfolding contents_def queue_write_len [OF assms(1)] by (simp add: queue_write_def)
  also have "\<dots> = contents q @ [v]"
    using keep last by (simp add: contents_def)
  finally show ?thesis .
qed

lemma queue_read_len:
  "0 < queue_len q \<Longrightarrow> queue_len (q\<lparr>head := head q + 1\<rparr>) = queue_len q - 1"
  by (simp add: queue_len_def dec_diff_unat)

lemma queue_read_contents:
  assumes "0 < queue_len q"
  shows "contents q = queue_front q # contents (q\<lparr>head := head q + 1\<rparr>)"
proof -
  obtain n where n: "queue_len q = Suc n" using assms by (cases "queue_len q") auto
  have slot: "unat (head q + 1) mod 256 = Suc (unat (head q)) mod 256"
    using slot_add [of "head q" 1] by simp
  have "(unat (head q + 1) + k) mod 256 = (unat (head q) + Suc k) mod 256" for k
    using slot by (metis add_Suc add_Suc_right mod_add_left_eq)
  then have rest: "contents (q\<lparr>head := head q + 1\<rparr>) =
      map (\<lambda>k. buf q ! ((unat (head q) + Suc k) mod 256)) [0..<n]"
    unfolding contents_def queue_read_len [OF assms] n by simp
  have "[0..<Suc n] = 0 # map Suc [0..<n]"
    by (simp only: map_Suc_upt upt_conv_Cons zero_less_Suc)
  then have "contents q = buf q ! (unat (head q) mod 256) #
      map (\<lambda>k. buf q ! ((unat (head q) + Suc k) mod 256)) [0..<n]"
    unfolding contents_def n by (simp only: list.map map_map comp_def add_0_right)
  then show ?thesis by (simp only: rest queue_front_def slot_index)
qed

text \<open>The semaphores and the mutex are not part of the stored list.\<close>

lemma contents_frame [simp]:
  "contents (q\<lparr>mu := m\<rparr>) = contents q"
  "contents (q\<lparr>items := s\<rparr>) = contents q"
  "contents (q\<lparr>space := s\<rparr>) = contents q"
  "queue_len (q\<lparr>mu := m\<rparr>) = queue_len q"
  "queue_len (q\<lparr>items := s\<rparr>) = queue_len q"
  "queue_len (q\<lparr>space := s\<rparr>) = queue_len q"
  by (simp_all add: contents_def queue_len_def)

section \<open>Concurrent calls\<close>

text \<open>
  Where the calls in progress stand: a push that has taken a free slot and not yet filled it
  (\<open>reserved\<close>) or filled it and not yet announced it (\<open>written\<close>), a pop that was promised an
  item and has not read it (\<open>taken\<close>) or has read it and not yet given the slot back (\<open>freed\<close>),
  and a call inside the section the mutex protects (\<open>inside\<close>).
\<close>

fun push_reserved :: "push_pc \<Rightarrow> nat" where
  "push_reserved PushLock = 1"
| "push_reserved PushWrite = 1"
| "push_reserved _ = 0"

fun push_written :: "push_pc \<Rightarrow> nat" where
  "push_written PushUnlock = 1"
| "push_written PushSignal = 1"
| "push_written _ = 0"

fun push_inside :: "push_pc \<Rightarrow> nat" where
  "push_inside PushWrite = 1"
| "push_inside PushUnlock = 1"
| "push_inside _ = 0"

fun pop_taken :: "pop_pc \<Rightarrow> nat" where
  "pop_taken PopLock = 1"
| "pop_taken PopRead = 1"
| "pop_taken _ = 0"

fun pop_freed :: "pop_pc \<Rightarrow> nat" where
  "pop_freed (PopUnlock v) = 1"
| "pop_freed (PopSignal v) = 1"
| "pop_freed _ = 0"

fun pop_inside :: "pop_pc \<Rightarrow> nat" where
  "pop_inside PopRead = 1"
| "pop_inside (PopUnlock v) = 1"
| "pop_inside _ = 0"

text \<open>
  The invariant of the queue, for given numbers of calls at each place: the semaphores count
  exactly the slots no call is working on, and the mutex is held when a call is inside.
\<close>

definition queue_inv ::
  "('s \<Rightarrow> u64) \<Rightarrow> ('m \<Rightarrow> bool) \<Rightarrow> ('s, 'm) queue \<Rightarrow> nat \<Rightarrow> nat \<Rightarrow> nat \<Rightarrow> nat \<Rightarrow> nat \<Rightarrow> bool"
where
  "queue_inv cnt held q reserved written taken freed inside \<longleftrightarrow>
     length (buf q) = 256 \<and>
     unat (cnt (space q)) + reserved + queue_len q + freed = 256 \<and>
     unat (cnt (items q)) + taken + written = queue_len q \<and>
     inside = (if held (mu q) then 1 else 0)"

context photon_sync begin

lemma queue_inv_init: "queue_inv cnt held (queue_init ph) 0 0 0 0 0"
  by (simp add: queue_inv_def queue_init_def queue_len_def CAP_def)

lemma contents_init: "contents (queue_init ph) = []"
  by (simp add: contents_def queue_init_def queue_len_def)

lemma push_step_inv:
  assumes "queue_inv cnt held q (a + push_reserved pc) (w + push_written pc) t f (i + push_inside pc)"
    and "push_step ph v pc q = Some (q', r)"
  shows "queue_inv cnt held q' (a + (case r of None \<Rightarrow> 0 | Some pc' \<Rightarrow> push_reserved pc'))
      (w + (case r of None \<Rightarrow> 0 | Some pc' \<Rightarrow> push_written pc')) t f
      (i + (case r of None \<Rightarrow> 0 | Some pc' \<Rightarrow> push_inside pc'))"
    and "contents q' = (if pc = PushWrite then contents q @ [v] else contents q)"
  using assms
  by (cases pc;
      auto simp: queue_inv_def signal_ucnt queue_write_len queue_write_contents unlock_frees
        dest!: wait_Some lock_Some split: option.splits if_splits; simp add: queue_write_def)+

lemma pop_step_inv:
  assumes "queue_inv cnt held q a w (t + pop_taken pc) (f + pop_freed pc) (i + pop_inside pc)"
    and "pop_step ph pc q = Some (q', r)"
  shows "queue_inv cnt held q' a w (t + (case r of Inl pc' \<Rightarrow> pop_taken pc' | Inr v \<Rightarrow> 0))
      (f + (case r of Inl pc' \<Rightarrow> pop_freed pc' | Inr v \<Rightarrow> 0))
      (i + (case r of Inl pc' \<Rightarrow> pop_inside pc' | Inr v \<Rightarrow> 0))"
    and "pc \<noteq> PopRead \<Longrightarrow> contents q' = contents q"
    and "pc = PopRead \<Longrightarrow> contents q = queue_front q # contents q'"
  using assms
  by (cases pc;
      auto simp: queue_inv_def signal_ucnt queue_read_len queue_read_contents unlock_frees
        dest!: wait_Some lock_Some split: option.splits if_splits)+

text \<open>A call is blocked only for lack of a free slot or an item, or by the mutex.\<close>

lemma push_blocked:
  "push_step ph v pc q = None \<longleftrightarrow>
    pc = PushWait \<and> unat (cnt (space q)) = 0 \<or> pc = PushLock \<and> held (mu q)"
  by (cases pc) (auto simp: wait_None_iff lock_None_iff dest: wait_Some lock_Some split: option.splits)

lemma pop_blocked:
  "pop_step ph pc q = None \<longleftrightarrow>
    pc = PopWait \<and> unat (cnt (items q)) = 0 \<or> pc = PopLock \<and> held (mu q)"
  by (cases pc) (auto simp: wait_None_iff lock_None_iff dest: wait_Some lock_Some split: option.splits)

end

section \<open>Undisturbed calls\<close>

text \<open>
  \<open>push\<close> and \<open>pop\<close> run to their return when no other call interferes; \<open>None\<close> when the caller
  would be suspended. On a queue no call is working on they form a FIFO of capacity 256.
\<close>

fun push_left :: "push_pc \<Rightarrow> nat" where
  "push_left PushWait = 5"
| "push_left PushLock = 4"
| "push_left PushWrite = 3"
| "push_left PushUnlock = 2"
| "push_left PushSignal = 1"

function push_run :: "('s, 'm) photon_ops \<Rightarrow> u64 \<Rightarrow> push_pc \<Rightarrow> ('s, 'm) queue \<Rightarrow> ('s, 'm) queue option" where
  "push_run ph v pc q =
     (case push_step ph v pc q of
        None \<Rightarrow> None
      | Some (q', None) \<Rightarrow> Some q'
      | Some (q', Some pc') \<Rightarrow> push_run ph v pc' q')"
  by pat_completeness auto
termination
proof (relation "measure (\<lambda>(ph, v, pc, q). push_left pc)")
  show "((ph, v, pc', q'), ph, v, pc, q) \<in> measure (\<lambda>(ph, v, pc, q). push_left pc)"
    if "push_step ph v pc q = Some x" "(q', y) = x" "y = Some pc'"
    for ph :: "('s, 'm) photon_ops" and v pc q x q' y pc'
    using that by (cases pc) (auto split: option.splits)
qed simp

definition queue_push :: "('s, 'm) photon_ops \<Rightarrow> ('s, 'm) queue \<Rightarrow> u64 \<Rightarrow> ('s, 'm) queue option" where
  "queue_push ph q v = push_run ph v PushWait q"

fun pop_left :: "pop_pc \<Rightarrow> nat" where
  "pop_left PopWait = 5"
| "pop_left PopLock = 4"
| "pop_left PopRead = 3"
| "pop_left (PopUnlock _) = 2"
| "pop_left (PopSignal _) = 1"

function pop_run :: "('s, 'm) photon_ops \<Rightarrow> pop_pc \<Rightarrow> ('s, 'm) queue \<Rightarrow> (u64 \<times> ('s, 'm) queue) option" where
  "pop_run ph pc q =
     (case pop_step ph pc q of
        None \<Rightarrow> None
      | Some (q', Inr v) \<Rightarrow> Some (v, q')
      | Some (q', Inl pc') \<Rightarrow> pop_run ph pc' q')"
  by pat_completeness auto
termination
proof (relation "measure (\<lambda>(ph, pc, q). pop_left pc)")
  show "((ph, pc', q'), ph, pc, q) \<in> measure (\<lambda>(ph, pc, q). pop_left pc)"
    if "pop_step ph pc q = Some x" "(q', y) = x" "y = Inl pc'"
    for ph :: "('s, 'm) photon_ops" and pc q x q' y pc'
    using that by (cases pc) (auto split: option.splits)
qed simp

definition queue_pop :: "('s, 'm) photon_ops \<Rightarrow> ('s, 'm) queue \<Rightarrow> (u64 \<times> ('s, 'm) queue) option" where
  "queue_pop ph q = pop_run ph PopWait q"

declare push_run.simps [simp del] pop_run.simps [simp del]

context photon_sync begin

lemma push_room:
  assumes inv: "queue_inv cnt held q 0 0 0 0 0" and room: "queue_len q < 256"
  shows "\<exists>q'. queue_push ph q v = Some q' \<and> queue_inv cnt held q' 0 0 0 0 0 \<and>
    contents q' = contents q @ [v]"
proof -
  have len: "length (buf q) = 256" and sp: "unat (cnt (space q)) \<noteq> 0" and free: "\<not> held (mu q)"
    using inv room by (auto simp: queue_inv_def split: if_splits)
  from sp obtain s where s: "sem_wait ph (space q) 1 = Some s"
    using wait_None_iff [of "space q" 1] by (cases "sem_wait ph (space q) 1") auto
  from free obtain m where m: "mutex_lock ph (mu q) = Some m" "held m"
    using lock_takes by blast
  let ?q1 = "q\<lparr>space := s, mu := m\<rparr>"
  let ?q2 = "queue_write v ?q1"
  let ?q' = "?q2\<lparr>mu := mutex_unlock ph m, items := sem_signal ph (items q) 1\<rparr>"
  have q2: "mu ?q2 = m" "items ?q2 = items q" "space ?q2 = s" "length (buf ?q2) = 256"
    using len by (simp_all add: queue_write_def)
  have run: "queue_push ph q v = Some ?q'"
    using s m q2 by (simp add: queue_push_def push_run.simps [of _ _ PushWait] push_run.simps [of _ _ PushLock]
      push_run.simps [of _ _ PushWrite] push_run.simps [of _ _ PushUnlock] push_run.simps [of _ _ PushSignal])
  have c: "contents ?q2 = contents q @ [v]" "queue_len ?q2 = Suc (queue_len q)"
    using queue_write_contents [of ?q1 v] queue_write_len [of ?q1 v] room len by simp_all
  have "queue_inv cnt held ?q' 0 0 0 0 0"
    using inv wait_Some [OF s] unlock_frees [OF m(2)] signal_ucnt [of "items q" 1] q2 c room
    by (auto simp: queue_inv_def)
  with run c show ?thesis by auto
qed

lemma pop_first:
  assumes inv: "queue_inv cnt held q 0 0 0 0 0" and ne: "0 < queue_len q"
  shows "\<exists>q'. queue_pop ph q = Some (queue_front q, q') \<and> queue_inv cnt held q' 0 0 0 0 0 \<and>
    contents q = queue_front q # contents q'"
proof -
  have it: "unat (cnt (items q)) \<noteq> 0" and free: "\<not> held (mu q)"
    using inv ne by (auto simp: queue_inv_def split: if_splits)
  from it obtain s where s: "sem_wait ph (items q) 1 = Some s"
    using wait_None_iff [of "items q" 1] by (cases "sem_wait ph (items q) 1") auto
  from free obtain m where m: "mutex_lock ph (mu q) = Some m" "held m"
    using lock_takes by blast
  let ?q1 = "q\<lparr>items := s, mu := m\<rparr>"
  let ?q2 = "?q1\<lparr>head := head q + 1\<rparr>"
  let ?q' = "?q2\<lparr>mu := mutex_unlock ph m, space := sem_signal ph (space q) 1\<rparr>"
  have front: "queue_front ?q1 = queue_front q" by (simp add: queue_front_def)
  have run: "queue_pop ph q = Some (queue_front q, ?q')"
    using s m front by (simp add: queue_pop_def pop_run.simps [of _ PopWait] pop_run.simps [of _ PopLock]
      pop_run.simps [of _ PopRead] pop_run.simps [of _ "PopUnlock _"] pop_run.simps [of _ "PopSignal _"])
  have "queue_front (q\<lparr>items := s\<rparr>) = queue_front q" by (simp add: queue_front_def)
  then have c: "contents q = queue_front q # contents (q\<lparr>items := s, head := head q + 1\<rparr>)"
      "queue_len (q\<lparr>items := s, head := head q + 1\<rparr>) = queue_len q - 1"
    using queue_read_contents [of "q\<lparr>items := s\<rparr>"] queue_read_len [of "q\<lparr>items := s\<rparr>"] ne by simp_all
  then have "queue_inv cnt held ?q' 0 0 0 0 0"
    using inv wait_Some [OF s] unlock_frees [OF m(2)] signal_ucnt [of "space q" 1] ne
    by (auto simp: queue_inv_def)
  with run c show ?thesis by auto
qed

lemma pop_none: "queue_inv cnt held q 0 0 0 0 0 \<Longrightarrow> queue_len q = 0 \<Longrightarrow> queue_pop ph q = None"
  by (simp add: queue_pop_def pop_run.simps [of _ PopWait] queue_inv_def wait_None_iff split: option.splits)
    (metis option.distinct(1) unat_1 wait_None_iff zero_less_one)

lemma push_none: "queue_inv cnt held q 0 0 0 0 0 \<Longrightarrow> \<not> queue_len q < 256 \<Longrightarrow> queue_push ph q v = None"
  using push_blocked [of v PushWait q]
  by (simp add: queue_push_def push_run.simps [of _ _ PushWait] queue_inv_def)

end

sublocale photon_sync \<subseteq> queue: bounded_fifo "queue_push ph" "queue_pop ph" contents 256
    "\<lambda>q. queue_inv cnt held q 0 0 0 0 0"
proof unfold_locales
  show "\<exists>c'. queue_push ph c v = Some c' \<and> queue_inv cnt held c' 0 0 0 0 0 \<and> contents c' = contents c @ [v]"
    if "queue_inv cnt held c 0 0 0 0 0" "length (contents c) < 256" for c v
    using push_room [OF that(1)] that(2) by simp
  show "queue_push ph c v = None"
    if "queue_inv cnt held c 0 0 0 0 0" "\<not> length (contents c) < 256" for c v
    using push_none [OF that(1)] that(2) by simp
  show "\<exists>c'. queue_pop ph c = Some (x, c') \<and> queue_inv cnt held c' 0 0 0 0 0 \<and> contents c' = xs"
    if "queue_inv cnt held c 0 0 0 0 0" "contents c = x # xs" for c x xs
    using pop_first [OF that(1)] that(2) length_contents [of c] by fastforce
  show "queue_pop ph c = None" if "queue_inv cnt held c 0 0 0 0 0" "contents c = []" for c
    using pop_none [OF that(1)] that(2) length_contents [of c] by simp
qed

context photon_sync begin

lemma queue_script:
  "map_option (\<lambda>(out, q). (out, contents q))
      (run_ops (queue_push ph) (queue_pop ph) ops (queue_init ph)) =
    run_ops (spec_put 256) spec_get ops []"
  using queue.fifo_refines [OF queue_inv_init, of ops] by (simp add: contents_init)

end

section \<open>Properties\<close>

text \<open>
  C31. The ring buffer implements a bounded FIFO. Any script of pushes and pops on a fresh queue
  returns the values, ends with the contents, and blocks at the operation that a list with
  capacity 256 gives, although the counters \<open>head\<close> and \<open>tail\<close> wrap around.
\<close>

theorem queue_refines:
  assumes "photon_sync ph cnt held"
  shows "map_option (\<lambda>(out, q). (out, contents q))
      (run_ops (queue_push ph) (queue_pop ph) ops (queue_init ph)) =
    run_ops (spec_put 256) spec_get ops []"
  using photon_sync.queue_script [OF assms] .

theorem queue_refines_witness:
  "map_option (\<lambda>(out, q). (out, contents q))
      (run_ops (queue_push counter_ops) (queue_pop counter_ops) [Put 5, Put 6, Get] (queue_init counter_ops)) =
    Some ([5], [6])"
  unfolding queue_refines [OF counter.photon_sync_axioms] by (simp add: spec_put_def)

end
