(* ===== verification/Worker_Pool_Photon.thy ===== *)
theory Worker_Pool_Photon
  imports Tasks Item_Flow Photon_Queue
begin

text \<open>
  \<open>cpp/worker_pool_photon.cpp\<close>: producers push the items into one bounded queue, consumers pop
  them and fold the work on each item into a checksum, and \<open>main\<close> waits for the producers,
  pushes one sentinel 0 per consumer and waits for the consumers. The model keeps every
  suspension point of the three kinds of coroutine; the queue's calls are the action-by-action
  ones of \<open>Photon_Queue\<close>. The theorem of the file: with at least one consumer, every run ends,
  it ends with all coroutines finished, and the checksum is then the one the specification
  gives, whatever the interleaving.
\<close>

section \<open>State and tasks\<close>

text \<open>The globals the command line sets.\<close>

record wpp_cfg =
  g_items :: u64
  g_producers :: u64
  g_consumers :: u64
  g_work :: u64

text \<open>The globals the coroutines share.\<close>

record ('s, 'm) wpp_state =
  q :: "('s, 'm) queue"
  producers_done :: 's
  consumers_done :: 's
  g_checksum :: u64

definition wpp_init :: "('s, 'm) photon_ops \<Rightarrow> ('s, 'm) wpp_state" where
  "wpp_init ph =
     \<lparr>q = queue_init ph, producers_done = sem_init ph 0, consumers_done = sem_init ph 0,
      g_checksum = 0\<rparr>"

text \<open>
  The coroutines. \<open>Prod*\<close> carry \<open>i\<close> and \<open>end\<close> of the loop in \<open>producer\<close>, \<open>Cons*\<close> carry \<open>acc\<close>
  of \<open>consumer\<close>, \<open>Main*\<close> carry the loop counter of the loop \<open>main\<close> is in.
\<close>

datatype wpp_task =
    ProdStart u64
  | ProdLoop u64 u64
  | ProdPush u64 u64 push_pc
  | ProdSignal
  | ProdDone
  | ConsPop u64 pop_pc
  | ConsItem u64 u64
  | ConsFlush u64
  | ConsSignal
  | ConsDone
  | MainSpawnC u64
  | MainSpawnP u64
  | MainWaitP
  | MainStop u64
  | MainPush u64 push_pc
  | MainWaitC
  | MainDone

text \<open>\<open>static void* producer(void* arg)\<close>\<close>

fun producer_step ::
  "('s, 'm) photon_ops \<Rightarrow> wpp_cfg \<Rightarrow> ('s, 'm) wpp_state \<Rightarrow> wpp_task \<Rightarrow>
    (('s, 'm) wpp_state \<times> wpp_task) option"
where
  "producer_step ph cfg s (ProdStart p) =
     (let start = p * g_items cfg div g_producers cfg;
          end' = (p + 1) * g_items cfg div g_producers cfg
      in Some (s, ProdLoop start end'))"
| "producer_step ph cfg s (ProdLoop i e) =
     Some (s, if i < e then ProdPush i e PushWait else ProdSignal)"
| "producer_step ph cfg s (ProdPush i e pc) =
     (case push_step ph (i + 1) pc (q s) of
        None \<Rightarrow> None
      | Some (q', Some pc') \<Rightarrow> Some (s\<lparr>q := q'\<rparr>, ProdPush i e pc')
      | Some (q', None) \<Rightarrow> Some (s\<lparr>q := q'\<rparr>, ProdLoop (i + 1) e))"
| "producer_step ph cfg s ProdSignal =
     Some (s\<lparr>producers_done := sem_signal ph (producers_done s) 1\<rparr>, ProdDone)"
| "producer_step ph cfg s _ = None"

text \<open>\<open>static void* consumer(void*)\<close>\<close>

fun consumer_step ::
  "('s, 'm) photon_ops \<Rightarrow> wpp_cfg \<Rightarrow> ('s, 'm) wpp_state \<Rightarrow> wpp_task \<Rightarrow>
    (('s, 'm) wpp_state \<times> wpp_task) option"
where
  "consumer_step ph cfg s (ConsPop acc pc) =
     (case pop_step ph pc (q s) of
        None \<Rightarrow> None
      | Some (q', Inl pc') \<Rightarrow> Some (s\<lparr>q := q'\<rparr>, ConsPop acc pc')
      | Some (q', Inr item) \<Rightarrow> Some (s\<lparr>q := q'\<rparr>, ConsItem acc item))"
| "consumer_step ph cfg s (ConsItem acc item) =
     Some (s, if item = 0 then ConsFlush acc
              else ConsPop (acc XOR photon_work item (g_work cfg)) PopWait)"
| "consumer_step ph cfg s (ConsFlush acc) =
     Some (s\<lparr>g_checksum := g_checksum s XOR acc\<rparr>, ConsSignal)"
| "consumer_step ph cfg s ConsSignal =
     Some (s\<lparr>consumers_done := sem_signal ph (consumers_done s) 1\<rparr>, ConsDone)"
| "consumer_step ph cfg s _ = None"

text \<open>\<open>main\<close>, from the spawn loops to the final \<open>printf\<close>.\<close>

fun main_step ::
  "('s, 'm) photon_ops \<Rightarrow> wpp_cfg \<Rightarrow> ('s, 'm) wpp_state \<Rightarrow> wpp_task \<Rightarrow>
    (('s, 'm) wpp_state \<times> wpp_task \<times> wpp_task list) option"
where
  "main_step ph cfg s (MainSpawnC c) =
     Some (if c < g_consumers cfg then (s, MainSpawnC (c + 1), [ConsPop 0 PopWait])
           else (s, MainSpawnP 0, []))"
| "main_step ph cfg s (MainSpawnP p) =
     Some (if p < g_producers cfg then (s, MainSpawnP (p + 1), [ProdStart p])
           else (s, MainWaitP, []))"
| "main_step ph cfg s MainWaitP =
     (case sem_wait ph (producers_done s) (g_producers cfg) of
        None \<Rightarrow> None
      | Some d \<Rightarrow> Some (s\<lparr>producers_done := d\<rparr>, MainStop 0, []))"
| "main_step ph cfg s (MainStop c) =
     Some (s, if c < g_consumers cfg then MainPush c PushWait else MainWaitC, [])"
| "main_step ph cfg s (MainPush c pc) =
     (case push_step ph 0 pc (q s) of
        None \<Rightarrow> None
      | Some (q', Some pc') \<Rightarrow> Some (s\<lparr>q := q'\<rparr>, MainPush c pc', [])
      | Some (q', None) \<Rightarrow> Some (s\<lparr>q := q'\<rparr>, MainStop (c + 1), []))"
| "main_step ph cfg s MainWaitC =
     (case sem_wait ph (consumers_done s) (g_consumers cfg) of
        None \<Rightarrow> None
      | Some d \<Rightarrow> Some (s\<lparr>consumers_done := d\<rparr>, MainDone, []))"
| "main_step ph cfg s _ = None"

fun is_main :: "wpp_task \<Rightarrow> bool" where
  "is_main (MainSpawnC _) = True"
| "is_main (MainSpawnP _) = True"
| "is_main MainWaitP = True"
| "is_main (MainStop _) = True"
| "is_main (MainPush _ _) = True"
| "is_main MainWaitC = True"
| "is_main MainDone = True"
| "is_main _ = False"

definition wpp_step ::
  "('s, 'm) photon_ops \<Rightarrow> wpp_cfg \<Rightarrow> (('s, 'm) wpp_state, wpp_task) task_step"
where
  "wpp_step ph cfg s t =
     (if is_main t then main_step ph cfg s t
      else case producer_step ph cfg s t of
             Some (s', t') \<Rightarrow> Some (s', t', [])
           | None \<Rightarrow> map_option (\<lambda>(s', t'). (s', t', [])) (consumer_step ph cfg s t))"

definition wpp_start :: "('s, 'm) photon_ops \<Rightarrow> (('s, 'm) wpp_state, wpp_task) pool" where
  "wpp_start ph = (wpp_init ph, [MainSpawnC 0])"

fun wpp_finished :: "wpp_task \<Rightarrow> bool" where
  "wpp_finished ProdDone = True"
| "wpp_finished ConsDone = True"
| "wpp_finished MainDone = True"
| "wpp_finished _ = False"

section \<open>What a task contributes to the invariant\<close>

fun reserved_of :: "wpp_task \<Rightarrow> nat" where
  "reserved_of (ProdPush _ _ pc) = push_reserved pc"
| "reserved_of (MainPush _ pc) = push_reserved pc"
| "reserved_of _ = 0"

fun written_of :: "wpp_task \<Rightarrow> nat" where
  "written_of (ProdPush _ _ pc) = push_written pc"
| "written_of (MainPush _ pc) = push_written pc"
| "written_of _ = 0"

fun taken_of :: "wpp_task \<Rightarrow> nat" where
  "taken_of (ConsPop _ pc) = pop_taken pc"
| "taken_of _ = 0"

fun freed_of :: "wpp_task \<Rightarrow> nat" where
  "freed_of (ConsPop _ pc) = pop_freed pc"
| "freed_of _ = 0"

fun inside_of :: "wpp_task \<Rightarrow> nat" where
  "inside_of (ProdPush _ _ pc) = push_inside pc"
| "inside_of (MainPush _ pc) = push_inside pc"
| "inside_of (ConsPop _ pc) = pop_inside pc"
| "inside_of _ = 0"

text \<open>\<open>main\<close> before and after \<open>producers_done.wait\<close>, and after \<open>consumers_done.wait\<close>.\<close>

fun main_pre :: "wpp_task \<Rightarrow> nat" where
  "main_pre (MainSpawnC _) = 1"
| "main_pre (MainSpawnP _) = 1"
| "main_pre MainWaitP = 1"
| "main_pre _ = 0"

fun main_past :: "wpp_task \<Rightarrow> nat" where
  "main_past (MainStop _) = 1"
| "main_past (MainPush _ _) = 1"
| "main_past MainWaitC = 1"
| "main_past MainDone = 1"
| "main_past _ = 0"

fun main_end :: "wpp_task \<Rightarrow> nat" where
  "main_end MainDone = 1"
| "main_end _ = 0"

text \<open>Producers and consumers that have and have not finished; \<open>main\<close> owes the unspawned ones.\<close>

fun prod_fin :: "wpp_task \<Rightarrow> nat" where
  "prod_fin ProdDone = 1"
| "prod_fin _ = 0"

fun prod_live :: "wpp_cfg \<Rightarrow> wpp_task \<Rightarrow> nat" where
  "prod_live cfg (ProdStart _) = 1"
| "prod_live cfg (ProdLoop _ _) = 1"
| "prod_live cfg (ProdPush _ _ _) = 1"
| "prod_live cfg ProdSignal = 1"
| "prod_live cfg (MainSpawnC _) = unat (g_producers cfg)"
| "prod_live cfg (MainSpawnP p) = unat (g_producers cfg) - unat p"
| "prod_live cfg _ = 0"

fun cons_fin :: "wpp_task \<Rightarrow> nat" where
  "cons_fin ConsDone = 1"
| "cons_fin _ = 0"

fun cons_live :: "wpp_cfg \<Rightarrow> wpp_task \<Rightarrow> nat" where
  "cons_live cfg (ConsPop _ _) = 1"
| "cons_live cfg (ConsItem _ _) = 1"
| "cons_live cfg (ConsFlush _) = 1"
| "cons_live cfg ConsSignal = 1"
| "cons_live cfg (MainSpawnC c) = unat (g_consumers cfg) - unat c"
| "cons_live cfg _ = 0"

text \<open>Consumers that have, and have not, read their sentinel; sentinels written so far.\<close>

fun pop_stopped :: "pop_pc \<Rightarrow> nat" where
  "pop_stopped (PopUnlock v) = (if v = 0 then 1 else 0)"
| "pop_stopped (PopSignal v) = (if v = 0 then 1 else 0)"
| "pop_stopped _ = 0"

fun stopped :: "wpp_task \<Rightarrow> nat" where
  "stopped (ConsPop _ pc) = pop_stopped pc"
| "stopped (ConsItem _ v) = (if v = 0 then 1 else 0)"
| "stopped (ConsFlush _) = 1"
| "stopped ConsSignal = 1"
| "stopped ConsDone = 1"
| "stopped _ = 0"

fun running :: "wpp_cfg \<Rightarrow> wpp_task \<Rightarrow> nat" where
  "running cfg (ConsPop _ pc) = 1 - pop_stopped pc"
| "running cfg (ConsItem _ v) = (if v = 0 then 0 else 1)"
| "running cfg (MainSpawnC c) = unat (g_consumers cfg) - unat c"
| "running cfg _ = 0"

fun sentinels :: "wpp_cfg \<Rightarrow> wpp_task \<Rightarrow> nat" where
  "sentinels cfg (MainStop c) = unat c"
| "sentinels cfg (MainPush c pc) = unat c + push_written pc"
| "sentinels cfg MainWaitC = unat (g_consumers cfg)"
| "sentinels cfg MainDone = unat (g_consumers cfg)"
| "sentinels cfg _ = 0"

text \<open>
  The items a task has still to push, or has popped and not yet folded into its \<open>acc\<close>; and
  the \<open>acc\<close> it has not yet folded into the checksum.
\<close>

fun pop_in_hand :: "pop_pc \<Rightarrow> u64 multiset" where
  "pop_in_hand (PopUnlock v) = (if v = 0 then {#} else {#v#})"
| "pop_in_hand (PopSignal v) = (if v = 0 then {#} else {#v#})"
| "pop_in_hand _ = {#}"

fun pending :: "wpp_cfg \<Rightarrow> wpp_task \<Rightarrow> u64 multiset" where
  "pending cfg (ProdStart p) = mset (producer_values (g_items cfg) (g_producers cfg) p)"
| "pending cfg (ProdLoop i e) = mset (send_values i e)"
| "pending cfg (ProdPush i e pc) =
     (if push_written pc = 0 then mset (send_values i e) else mset (send_values (i + 1) e))"
| "pending cfg (ConsPop _ pc) = pop_in_hand pc"
| "pending cfg (ConsItem _ v) = (if v = 0 then {#} else {#v#})"
| "pending cfg (MainSpawnC _) = all_values_from (g_items cfg) (g_producers cfg) 0"
| "pending cfg (MainSpawnP p) = all_values_from (g_items cfg) (g_producers cfg) p"
| "pending cfg _ = {#}"

fun acc_of :: "wpp_task \<Rightarrow> u64" where
  "acc_of (ConsPop acc _) = acc"
| "acc_of (ConsItem acc _) = acc"
| "acc_of (ConsFlush acc) = acc"
| "acc_of _ = 0"

text \<open>The loop guards that hold inside a loop body.\<close>

fun task_ok :: "wpp_cfg \<Rightarrow> wpp_task \<Rightarrow> bool" where
  "task_ok cfg (ProdPush i e _) = (i < e)"
| "task_ok cfg (MainSpawnC c) = (c \<le> g_consumers cfg)"
| "task_ok cfg (MainSpawnP p) = (p \<le> g_producers cfg)"
| "task_ok cfg (MainStop c) = (c \<le> g_consumers cfg)"
| "task_ok cfg (MainPush c _) = (c < g_consumers cfg)"
| "task_ok cfg _ = True"

text \<open>An upper bound on the actions a task has left, without those an item in the queue causes.\<close>

fun push_weight :: "push_pc \<Rightarrow> nat" where
  "push_weight PushWait = 11"
| "push_weight PushLock = 10"
| "push_weight PushWrite = 9"
| "push_weight PushUnlock = 8"
| "push_weight PushSignal = 7"

fun pop_weight :: "pop_pc \<Rightarrow> nat" where
  "pop_weight PopWait = 3"
| "pop_weight PopLock = 8"
| "pop_weight PopRead = 7"
| "pop_weight (PopUnlock _) = 6"
| "pop_weight (PopSignal _) = 5"

fun task_weight :: "wpp_cfg \<Rightarrow> wpp_task \<Rightarrow> nat" where
  "task_weight cfg (ProdStart p) =
     12 * length (producer_values (g_items cfg) (g_producers cfg) p) + 3"
| "task_weight cfg (ProdLoop i e) = 12 * length (send_values i e) + 2"
| "task_weight cfg (ProdPush i e pc) = 12 * length (send_values (i + 1) e) + 2 + push_weight pc"
| "task_weight cfg ProdSignal = 1"
| "task_weight cfg (ConsPop _ pc) = pop_weight pc"
| "task_weight cfg (ConsItem _ _) = 4"
| "task_weight cfg (ConsFlush _) = 2"
| "task_weight cfg ConsSignal = 1"
| "task_weight cfg (MainSpawnC c) =
     4 * (unat (g_consumers cfg) - unat c) + 5 * unat (g_producers cfg) +
     12 * size (all_values_from (g_items cfg) (g_producers cfg) 0) +
     12 * unat (g_consumers cfg) + 6"
| "task_weight cfg (MainSpawnP p) =
     5 * (unat (g_producers cfg) - unat p) +
     12 * size (all_values_from (g_items cfg) (g_producers cfg) p) +
     12 * unat (g_consumers cfg) + 5"
| "task_weight cfg MainWaitP = 12 * unat (g_consumers cfg) + 4"
| "task_weight cfg (MainStop c) = 12 * (unat (g_consumers cfg) - unat c) + 2"
| "task_weight cfg (MainPush c pc) =
     12 * (unat (g_consumers cfg) - unat (c + 1)) + 2 + push_weight pc"
| "task_weight cfg MainWaitC = 1"
| "task_weight cfg _ = 0"

definition wpp_weight ::
  "('s \<Rightarrow> u64) \<Rightarrow> wpp_cfg \<Rightarrow> (('s, 'm) wpp_state, wpp_task) pool \<Rightarrow> nat"
where
  "wpp_weight cnt cfg c = tsum (task_weight cfg) (snd c) + 6 * unat (cnt (items (q (fst c))))"

section \<open>Every step keeps the invariant\<close>

text \<open>
  The part of the invariant about the data is \<open>item_flow\<close>, for the configured numbers.
\<close>

abbreviation wpp_data ::
  "wpp_cfg \<Rightarrow> u64 list \<Rightarrow> u64 \<Rightarrow> u64 multiset \<Rightarrow> nat \<Rightarrow> nat \<Rightarrow> u64 \<Rightarrow> bool"
where
  "wpp_data cfg \<equiv> item_flow (g_items cfg) (g_producers cfg) (g_work cfg)"

definition wpp_inv ::
  "('s \<Rightarrow> u64) \<Rightarrow> ('m \<Rightarrow> bool) \<Rightarrow> wpp_cfg \<Rightarrow> (('s, 'm) wpp_state, wpp_task) pool \<Rightarrow> bool"
where
  "wpp_inv cnt held cfg c \<longleftrightarrow> (case c of (s, ts) \<Rightarrow>
     (\<forall>t \<in> set ts. task_ok cfg t) \<and>
     queue_inv cnt held (q s) (tsum reserved_of ts) (tsum written_of ts) (tsum taken_of ts)
       (tsum freed_of ts) (tsum inside_of ts) \<and>
     tsum main_pre ts + tsum main_past ts = 1 \<and>
     unat (cnt (producers_done s)) + unat (g_producers cfg) * tsum main_past ts = tsum prod_fin ts \<and>
     tsum prod_fin ts + tsum (prod_live cfg) ts = unat (g_producers cfg) \<and>
     unat (cnt (consumers_done s)) + unat (g_consumers cfg) * tsum main_end ts = tsum cons_fin ts \<and>
     tsum cons_fin ts + tsum (cons_live cfg) ts = unat (g_consumers cfg) \<and>
     tsum stopped ts + tsum (running cfg) ts = unat (g_consumers cfg) \<and>
     wpp_data cfg (contents (q s)) (g_checksum s) (tsum (pending cfg) ts) (tsum stopped ts)
       (tsum (sentinels cfg) ts) (txor acc_of ts))"

lemma wpp_invD:
  assumes "wpp_inv cnt held cfg (s, ts)"
  shows "\<forall>t \<in> set ts. task_ok cfg t"
    and "queue_inv cnt held (q s) (tsum reserved_of ts) (tsum written_of ts) (tsum taken_of ts)
       (tsum freed_of ts) (tsum inside_of ts)"
    and "tsum main_pre ts + tsum main_past ts = 1"
    and "unat (cnt (producers_done s)) + unat (g_producers cfg) * tsum main_past ts = tsum prod_fin ts"
    and "tsum prod_fin ts + tsum (prod_live cfg) ts = unat (g_producers cfg)"
    and "unat (cnt (consumers_done s)) + unat (g_consumers cfg) * tsum main_end ts = tsum cons_fin ts"
    and "tsum cons_fin ts + tsum (cons_live cfg) ts = unat (g_consumers cfg)"
    and "tsum stopped ts + tsum (running cfg) ts = unat (g_consumers cfg)"
    and "wpp_data cfg (contents (q s)) (g_checksum s) (tsum (pending cfg) ts) (tsum stopped ts)
       (tsum (sentinels cfg) ts) (txor acc_of ts)"
  using assms unfolding wpp_inv_def prod.case by blast+

lemma wpp_step_ok:
  assumes "wpp_step ph cfg s t = Some (s', t', new)" and "task_ok cfg t"
  shows "task_ok cfg t' \<and> (\<forall>u \<in> set new. task_ok cfg u)"
  using assms
  by (cases t)
    (auto simp: wpp_step_def inc_le split: if_splits option.splits prod.splits sum.splits)

context photon_sync begin

lemma wpp_step_queue:
  assumes "wpp_step ph cfg s t = Some (s', t', new)"
    and "queue_inv cnt held (q s) (r + reserved_of t) (w + written_of t) (k + taken_of t)
      (f + freed_of t) (i + inside_of t)"
  shows "queue_inv cnt held (q s') (r + reserved_of t' + tsum reserved_of new)
      (w + written_of t' + tsum written_of new) (k + taken_of t' + tsum taken_of new)
      (f + freed_of t' + tsum freed_of new) (i + inside_of t' + tsum inside_of new)"
  using assms
  by (cases t)
    (auto simp: wpp_step_def split: if_splits option.splits prod.splits sum.splits
      dest: push_step_inv(1) pop_step_inv(1))

lemma wpp_step_roles:
  assumes "wpp_step ph cfg s t = Some (s', t', new)" and "task_ok cfg t"
  shows "main_pre t' + main_past t' + tsum main_pre new + tsum main_past new =
      main_pre t + main_past t"
    and "prod_fin t' + prod_live cfg t' + tsum prod_fin new + tsum (prod_live cfg) new =
      prod_fin t + prod_live cfg t"
    and "cons_fin t' + cons_live cfg t' + tsum cons_fin new + tsum (cons_live cfg) new =
      cons_fin t + cons_live cfg t"
    and "stopped t' + running cfg t' + tsum stopped new + tsum (running cfg) new =
      stopped t + running cfg t"
  subgoal
    using assms by (cases t)
      (auto simp: wpp_step_def split: if_splits option.splits prod.splits sum.splits)
  subgoal
    using assms by (cases t)
      (auto simp: wpp_step_def unat_inc word_less_nat_alt
        split: if_splits option.splits prod.splits sum.splits)
  subgoal
    using assms by (cases t)
      (auto simp: wpp_step_def unat_inc word_less_nat_alt
        split: if_splits option.splits prod.splits sum.splits)
  subgoal
    using assms by (cases t)
      (auto simp: wpp_step_def unat_inc word_less_nat_alt elim!: pop_step.elims
        split: if_splits option.splits prod.splits sum.splits)
  done

lemma wpp_step_done_counts:
  assumes "wpp_step ph cfg s t = Some (s', t', new)"
    and "unat (cnt (producers_done s)) + unat (g_producers cfg) * (x + main_past t) = y + prod_fin t"
    and "y + prod_fin t + (z + prod_live cfg t) = unat (g_producers cfg)"
    and "unat (cnt (consumers_done s)) + unat (g_consumers cfg) * (u + main_end t) = v + cons_fin t"
    and "v + cons_fin t + (w + cons_live cfg t) = unat (g_consumers cfg)"
  shows "unat (cnt (producers_done s')) + unat (g_producers cfg) * (x + main_past t' + tsum main_past new) =
      y + prod_fin t' + tsum prod_fin new"
    and "unat (cnt (consumers_done s')) + unat (g_consumers cfg) * (u + main_end t' + tsum main_end new) =
      v + cons_fin t' + tsum cons_fin new"
proof -
  have "ucnt (producers_done s) + 1 < 2 ^ 64" if "t = ProdSignal"
    using assms(2,3) that unat_u64_less [of "g_producers cfg"] by auto
  moreover have "ucnt (consumers_done s) + 1 < 2 ^ 64" if "t = ConsSignal"
    using assms(4,5) that unat_u64_less [of "g_consumers cfg"] by auto
  ultimately show "ucnt (producers_done s') +
      unat (g_producers cfg) * (x + main_past t' + tsum main_past new) = y + prod_fin t' + tsum prod_fin new"
    and "ucnt (consumers_done s') +
      unat (g_consumers cfg) * (u + main_end t' + tsum main_end new) = v + cons_fin t' + tsum cons_fin new"
    using assms
    by (cases t; auto simp: wpp_step_def signal_ucnt algebra_simps dest!: wait_Some
      split: if_splits option.splits prod.splits sum.splits)+
qed

lemma wpp_data_producer:
  assumes "push_step ph (i + 1) pc (q s) = Some (q', r)" and "i < e"
    and "queue_inv cnt held (q s) (a + push_reserved pc) (w + push_written pc) k f (h + push_inside pc)"
    and "wpp_data cfg (contents (q s)) chk (pe + pending cfg (ProdPush i e pc)) st 0 ac"
  shows "wpp_data cfg (contents q') chk
    (pe + pending cfg (case r of None \<Rightarrow> ProdLoop (i + 1) e | Some pc' \<Rightarrow> ProdPush i e pc')) st 0 ac"
proof (cases pc)
  case PushWrite
  with assms(1) have "r = Some PushUnlock" by auto
  with PushWrite push_step_inv(2) [OF assms(3,1)] assms(4) inc_nonzero [OF assms(2)] show ?thesis
    by (auto simp: send_values_unfold [OF assms(2)] intro!: flow_push_item)
qed (use assms push_step_inv(2) [OF assms(3,1)] in \<open>auto split: option.splits\<close>)

lemma wpp_data_main:
  assumes "push_step ph 0 pc (q s) = Some (q', r)" and "c < g_consumers cfg"
    and "queue_inv cnt held (q s) (a + push_reserved pc) (w + push_written pc) k f (h + push_inside pc)"
    and "wpp_data cfg (contents (q s)) chk pe st (se + sentinels cfg (MainPush c pc)) ac"
  shows "wpp_data cfg (contents q') chk pe st
    (se + sentinels cfg (case r of None \<Rightarrow> MainStop (c + 1) | Some pc' \<Rightarrow> MainPush c pc')) ac"
proof (cases pc)
  case PushWrite
  with assms(1) have "r = Some PushUnlock" by auto
  with PushWrite push_step_inv(2) [OF assms(3,1)] assms(4) show ?thesis
    by (auto dest: flow_push_sentinel)
qed (use assms push_step_inv(2) [OF assms(3,1)] in \<open>auto simp: unat_inc split: option.splits\<close>)

lemma wpp_data_consumer:
  assumes "pop_step ph pc (q s) = Some (q', r)"
    and "queue_inv cnt held (q s) a w (k + pop_taken pc) (f + pop_freed pc) (h + pop_inside pc)"
    and "wpp_data cfg (contents (q s)) chk (pe + pending cfg (ConsPop acc pc))
      (st + stopped (ConsPop acc pc)) se ac"
  shows "wpp_data cfg (contents q') chk
    (pe + pending cfg (case r of Inr v \<Rightarrow> ConsItem acc v | Inl pc' \<Rightarrow> ConsPop acc pc'))
    (st + stopped (case r of Inr v \<Rightarrow> ConsItem acc v | Inl pc' \<Rightarrow> ConsPop acc pc')) se ac"
proof (cases pc)
  case PopRead
  with assms(1) have "r = Inl (PopUnlock (queue_front (q s)))" by auto
  with pop_step_inv(3) [OF assms(2,1) PopRead] PopRead assms(3)
  have "wpp_data cfg (queue_front (q s) # contents q') chk pe st se ac" by simp
  from flow_read [OF this] \<open>r = _\<close> show ?thesis by simp
qed (use assms pop_step_inv(2) [OF assms(2,1)] in \<open>auto split: option.splits\<close>)

lemma wpp_step_data:
  assumes step: "wpp_step ph cfg s t = Some (s', t', new)" and ok: "task_ok cfg t"
    and queue: "queue_inv cnt held (q s) (r + reserved_of t) (w + written_of t) (k + taken_of t)
      (f + freed_of t) (i + inside_of t)"
    and data: "wpp_data cfg (contents (q s)) (g_checksum s) (pe + pending cfg t)
      (st + stopped t) (se + sentinels cfg t) (ac XOR acc_of t)"
    and order: "0 < prod_live cfg t \<Longrightarrow> \<not> is_main t \<Longrightarrow> se = 0"
  shows "wpp_data cfg (contents (q s')) (g_checksum s') (pe + pending cfg t' + tsum (pending cfg) new)
      (st + stopped t' + tsum stopped new) (se + sentinels cfg t' + tsum (sentinels cfg) new)
      (ac XOR acc_of t' XOR txor acc_of new)"
proof (cases t)
  case (ProdPush i e pc)
  with step obtain q' r' where "push_step ph (i + 1) pc (q s) = Some (q', r')"
    "s' = s\<lparr>q := q'\<rparr>" "t' = (case r' of None \<Rightarrow> ProdLoop (i + 1) e | Some pc' \<Rightarrow> ProdPush i e pc')"
    "new = []"
    by (auto simp: wpp_step_def split: option.splits prod.splits)
  with ProdPush wpp_data_producer [OF this(1)] ok queue data order show ?thesis
    by (auto split: option.splits)
next
  case (ConsPop acc pc)
  with step obtain q' r' where "pop_step ph pc (q s) = Some (q', r')"
    "s' = s\<lparr>q := q'\<rparr>" "t' = (case r' of Inr v \<Rightarrow> ConsItem acc v | Inl pc' \<Rightarrow> ConsPop acc pc')"
    "new = []"
    by (auto simp: wpp_step_def split: option.splits prod.splits sum.splits)
  with ConsPop wpp_data_consumer [OF this(1)] queue data show ?thesis
    by (auto split: sum.splits)
next
  case (MainPush c pc)
  with step obtain q' r' where "push_step ph 0 pc (q s) = Some (q', r')"
    "s' = s\<lparr>q := q'\<rparr>" "t' = (case r' of None \<Rightarrow> MainStop (c + 1) | Some pc' \<Rightarrow> MainPush c pc')"
    "new = []"
    by (auto simp: wpp_step_def split: option.splits prod.splits)
  with MainPush wpp_data_main [OF this(1)] ok queue data show ?thesis
    by (auto split: option.splits)
next
  case (ConsItem acc v)
  with step data show ?thesis
    by (auto simp: wpp_step_def photon_work_spec dest: flow_fold split: if_splits)
next
  case (ConsFlush acc)
  with step data show ?thesis
    by (auto simp: wpp_step_def dest: flow_flush)
next
  case (MainSpawnP p)
  with step data show ?thesis
    by (auto simp: wpp_step_def all_values_from_step all_values_from_end ac_simps split: if_splits)
next
  case (MainStop c)
  with step data ok show ?thesis
    by (auto simp: wpp_step_def split: if_splits)
qed (use step data in \<open>auto simp: wpp_step_def producer_values_def split_range_def Let_def
       send_values_end split: if_splits option.splits\<close>)

text \<open>
  All of it for the whole pool. A producer only runs before \<open>main\<close> starts on the sentinels:
  \<open>producers_done.wait\<close> needs all of them to have signalled.
\<close>

lemma producers_before_sentinels:
  assumes "wpp_inv cnt held cfg (s, ts)" and "t \<in> set ts" and "0 < prod_live cfg t"
  shows "tsum main_past ts = 0" and "tsum (sentinels cfg) ts = 0"
proof -
  have "0 < tsum (prod_live cfg) ts"
    using tsum_member_le [OF assms(2), of "prod_live cfg"] assms(3) by linarith
  then have "tsum prod_fin ts < unat (g_producers cfg)"
    using wpp_invD(5) [OF assms(1)] by linarith
  moreover have "unat (g_producers cfg) * tsum main_past ts \<le> tsum prod_fin ts"
    using wpp_invD(4) [OF assms(1)] by linarith
  ultimately have "unat (g_producers cfg) * tsum main_past ts < unat (g_producers cfg) * 1"
    by linarith
  then show past: "tsum main_past ts = 0" by (simp only: nat_mult_less_cancel_disj less_one)
  have "main_past u = 0 \<Longrightarrow> sentinels cfg u = 0" for u by (cases u) auto
  with past show "tsum (sentinels cfg) ts = 0" by (simp add: tsum_zero_iff)
qed

lemma wpp_inv_step:
  assumes "wpp_inv cnt held cfg c" and "pool_step (wpp_step ph cfg) c c'"
  shows "wpp_inv cnt held cfg c'"
proof -
  obtain s ts where c: "c = (s, ts)" by (cases c)
  from assms(2) obtain i s' t' new where i: "i < length ts"
    and step: "wpp_step ph cfg s (ts ! i) = Some (s', t', new)"
    and c': "c' = (s', ts[i := t'] @ new)"
    unfolding c by (auto elim: pool_step.cases)
  note inv = wpp_invD [OF assms(1) [unfolded c]]
  note here = inv [unfolded tsum_at [OF i] txor_at [OF i]]
  note upd = tsum_upd [OF i, of _ t' new] txor_upd [OF i, of _ t' new]
  have ok: "task_ok cfg (ts ! i)" using inv(1) i by simp
  note roles = wpp_step_roles [OF step ok]
  note counts = wpp_step_done_counts [OF step here(4) here(5) here(6) here(7)]
  have before: "tsum (sentinels cfg) (others i ts) = 0"
    if "0 < prod_live cfg (ts ! i)" "\<not> is_main (ts ! i)"
    using producers_before_sentinels(2) [OF assms(1) [unfolded c] nth_mem [OF i] that(1)]
    unfolding tsum_at [OF i] by (rule add_is_0 [THEN iffD1, THEN conjunct1])
  show ?thesis
    unfolding wpp_inv_def c' prod.case upd
  proof (intro conjI)
    show "\<forall>t \<in> set (ts[i := t'] @ new). task_ok cfg t"
      using wpp_step_ok [OF step ok] inv(1) set_upd_subset [of ts i t' new] by blast
  qed (rule wpp_step_queue [OF step here(2)] wpp_step_data [OF step ok here(2) here(9) before]
      | use here(3,5,7,8) roles counts in linarith)+
qed

lemma wpp_inv_start: "wpp_inv cnt held cfg (wpp_start ph)"
  by (simp add: wpp_inv_def wpp_start_def wpp_init_def queue_inv_init contents_init item_flow_def)

section \<open>Every step is progress\<close>

lemma push_step_weight:
  assumes "push_step ph v pc qu = Some (qu', r)" and "unat (cnt (items qu)) + push_written pc < 257"
  shows "(case r of None \<Rightarrow> 0 | Some pc' \<Rightarrow> push_weight pc') + 6 * unat (cnt (items qu')) <
    push_weight pc + 6 * unat (cnt (items qu))"
  using assms
  by (cases pc) (auto simp: signal_ucnt queue_write_def split: option.splits)

lemma pop_step_weight:
  assumes "pop_step ph pc qu = Some (qu', r)"
  shows "(case r of Inr v \<Rightarrow> 4 | Inl pc' \<Rightarrow> pop_weight pc') + 6 * unat (cnt (items qu')) <
    pop_weight pc + 6 * unat (cnt (items qu))"
  using assms
  by (cases pc) (auto dest!: wait_Some split: option.splits)

lemma wpp_step_weight:
  assumes step: "wpp_step ph cfg s t = Some (s', t', new)" and "task_ok cfg t"
    and room: "unat (cnt (items (q s))) + written_of t < 257"
  shows "task_weight cfg t' + tsum (task_weight cfg) new + 6 * unat (cnt (items (q s'))) <
    task_weight cfg t + 6 * unat (cnt (items (q s)))"
proof (cases t)
  case (ProdPush i e pc)
  with step obtain q' r where "push_step ph (i + 1) pc (q s) = Some (q', r)"
    "s' = s\<lparr>q := q'\<rparr>" "t' = (case r of None \<Rightarrow> ProdLoop (i + 1) e | Some pc' \<Rightarrow> ProdPush i e pc')"
    "new = []"
    by (auto simp: wpp_step_def split: option.splits prod.splits)
  with ProdPush push_step_weight [OF this(1)] room show ?thesis
    by (auto split: option.splits)
next
  case (ConsPop acc pc)
  with step obtain q' r where "pop_step ph pc (q s) = Some (q', r)"
    "s' = s\<lparr>q := q'\<rparr>" "t' = (case r of Inr v \<Rightarrow> ConsItem acc v | Inl pc' \<Rightarrow> ConsPop acc pc')"
    "new = []"
    by (auto simp: wpp_step_def split: option.splits prod.splits sum.splits)
  with ConsPop pop_step_weight [OF this(1)] show ?thesis
    by (auto split: sum.splits)
next
  case (MainPush c pc)
  with step obtain q' r where "push_step ph 0 pc (q s) = Some (q', r)"
    "s' = s\<lparr>q := q'\<rparr>" "t' = (case r of None \<Rightarrow> MainStop (c + 1) | Some pc' \<Rightarrow> MainPush c pc')"
    "new = []"
    by (auto simp: wpp_step_def split: option.splits prod.splits)
  with MainPush push_step_weight [OF this(1)] room show ?thesis
    by (auto split: option.splits)
qed (use assms in \<open>auto simp: wpp_step_def producer_values_def split_range_def Let_def
      send_values_unfold send_values_end all_values_from_step all_values_from_end
      unat_inc word_less_nat_alt split: if_splits option.splits\<close>)

lemma wpp_weight_step:
  assumes "wpp_inv cnt held cfg c" and "pool_step (wpp_step ph cfg) c c'"
  shows "wpp_weight cnt cfg c' < wpp_weight cnt cfg c"
proof -
  obtain s ts where c: "c = (s, ts)" by (cases c)
  from assms(2) obtain i s' t' new where i: "i < length ts"
    and step: "wpp_step ph cfg s (ts ! i) = Some (s', t', new)"
    and c': "c' = (s', ts[i := t'] @ new)"
    unfolding c by (auto elim: pool_step.cases)
  note inv = wpp_invD [OF assms(1) [unfolded c]]
  have "unat (cnt (items (q s))) + written_of (ts ! i) < 257"
    using inv(2) tsum_member_le [OF nth_mem [OF i], of written_of]
    by (simp add: queue_inv_def)
  from wpp_step_weight [OF step _ this] inv(1) i show ?thesis
    unfolding wpp_weight_def c c' fst_conv snd_conv tsum_at [OF i] tsum_upd [OF i]
    by force
qed

section \<open>No deadlock\<close>

text \<open>Where a coroutine can be blocked.\<close>

lemma wpp_blocked:
  assumes "wpp_step ph cfg s t = None" and "\<not> held (mu (q s))"
  shows "wpp_finished t \<or>
    (\<exists>i e. t = ProdPush i e PushWait) \<and> unat (cnt (space (q s))) = 0 \<or>
    (\<exists>c. t = MainPush c PushWait) \<and> unat (cnt (space (q s))) = 0 \<or>
    (\<exists>acc. t = ConsPop acc PopWait) \<and> unat (cnt (items (q s))) = 0 \<or>
    t = MainWaitP \<and> unat (cnt (producers_done s)) < unat (g_producers cfg) \<or>
    t = MainWaitC \<and> unat (cnt (consumers_done s)) < unat (g_consumers cfg)"
  using assms
  by (cases t)
    (auto simp: wpp_step_def push_blocked pop_blocked wait_None_iff
      split: if_splits option.splits prod.splits sum.splits)

lemma wpp_inside_moves:
  assumes "0 < inside_of t"
  shows "wpp_step ph cfg s t \<noteq> None"
  using assms
  by (cases t; auto simp: wpp_step_def push_blocked pop_blocked
      split: option.splits prod.splits sum.splits if_splits)

lemma tsum_le_main:
  assumes "\<And>t. t \<in> set ts \<Longrightarrow> f t \<le> n * main_past t"
  shows "tsum f ts \<le> n * tsum main_past ts"
proof -
  have "tsum f ts \<le> tsum (\<lambda>t. n * main_past t) ts" using assms by (rule tsum_le_mono)
  then show ?thesis by (simp add: sum_list_const_mult)
qed

text \<open>
  In a stuck pool nobody is inside a queue call beyond its first wait, so the semaphores of the
  queue count its slots exactly.
\<close>

lemma wpp_stuck_free:
  assumes "wpp_inv cnt held cfg (s, ts)" and "pool_stuck (wpp_step ph cfg) (s, ts)"
  shows "\<not> held (mu (q s))"
proof -
  have "tsum inside_of ts = 0"
  proof (rule tsum_zeroI)
    fix t assume "t \<in> set ts"
    with assms(2) have "wpp_step ph cfg s t = None" by (simp add: pool_stuck_def)
    with wpp_inside_moves show "inside_of t = 0" by blast
  qed
  from wpp_invD(2) [OF assms(1), unfolded this] show ?thesis
    by (simp add: queue_inv_def split: if_splits)
qed

lemma wpp_stuck_blocked:
  assumes "wpp_inv cnt held cfg (s, ts)" and "pool_stuck (wpp_step ph cfg) (s, ts)" and "t \<in> set ts"
  shows "wpp_finished t \<or>
    (\<exists>i e. t = ProdPush i e PushWait) \<and> unat (cnt (space (q s))) = 0 \<or>
    (\<exists>c. t = MainPush c PushWait) \<and> unat (cnt (space (q s))) = 0 \<or>
    (\<exists>acc. t = ConsPop acc PopWait) \<and> unat (cnt (items (q s))) = 0 \<or>
    t = MainWaitP \<and> unat (cnt (producers_done s)) < unat (g_producers cfg) \<or>
    t = MainWaitC \<and> unat (cnt (consumers_done s)) < unat (g_consumers cfg)"
  using assms wpp_stuck_free [OF assms(1,2)]
  by (intro wpp_blocked) (auto simp: pool_stuck_def)

lemma wpp_stuck_slots:
  assumes "wpp_inv cnt held cfg (s, ts)" and "pool_stuck (wpp_step ph cfg) (s, ts)"
  shows "unat (cnt (space (q s))) + queue_len (q s) = 256"
    and "unat (cnt (items (q s))) = queue_len (q s)"
proof -
  have "tsum reserved_of ts = 0 \<and> tsum written_of ts = 0 \<and> tsum taken_of ts = 0 \<and> tsum freed_of ts = 0"
    by (intro conjI tsum_zeroI; drule wpp_stuck_blocked [OF assms]; elim disjE exE conjE; (hypsubst)?;
        (simp | (erule wpp_finished.elims; simp)))
  with wpp_invD(2) [OF assms(1)]
  show "unat (cnt (space (q s))) + queue_len (q s) = 256"
    and "unat (cnt (items (q s))) = queue_len (q s)"
    by (simp_all only: queue_inv_def add_0_right)
qed

lemma wpp_sentinels_le:
  assumes "wpp_inv cnt held cfg (s, ts)"
  shows "tsum (sentinels cfg) ts \<le> unat (g_consumers cfg)"
proof -
  have "sentinels cfg t \<le> unat (g_consumers cfg) * main_past t" if "task_ok cfg t" for t
  proof (cases t)
    case (MainPush c pc)
    moreover have "push_written pc \<le> 1" by (cases pc) auto
    ultimately show ?thesis using that by (auto simp: word_less_nat_alt)
  qed (use that in \<open>auto simp: word_le_nat_alt\<close>)
  then have "tsum (sentinels cfg) ts \<le> unat (g_consumers cfg) * tsum main_past ts"
    using wpp_invD(1) [OF assms] by (intro tsum_le_main) blast
  moreover have "tsum main_past ts \<le> 1" using wpp_invD(3) [OF assms] by linarith
  ultimately show ?thesis by (metis mult_le_mono2 mult_1_right le_trans)
qed

text \<open>A full queue would hold only sentinels, more than were pushed.\<close>

lemma wpp_stuck_room:
  assumes inv: "wpp_inv cnt held cfg (s, ts)" and stuck: "pool_stuck (wpp_step ph cfg) (s, ts)"
    and "0 < unat (g_consumers cfg)"
  shows "unat (cnt (space (q s))) \<noteq> 0"
proof
  assume full: "unat (cnt (space (q s))) = 0"
  have len: "queue_len (q s) = 256" "unat (cnt (items (q s))) = 256"
    using wpp_stuck_slots [OF inv stuck] full by simp_all
  have "running cfg u = 0" if "u \<in> set ts" for u
    using wpp_stuck_blocked [OF inv stuck that] len(2) by (cases u) auto
  then have "tsum (running cfg) ts = 0" by (rule tsum_zeroI)
  then have stop: "tsum stopped ts = unat (g_consumers cfg)" using wpp_invD(8) [OF inv] by linarith
  with assms(3) obtain z where "contents (q s) = replicate z 0"
    "z + tsum stopped ts = tsum (sentinels cfg) ts"
    using wpp_invD(9) [OF inv] by (auto simp: item_flow_def)
  moreover from this(1) have "z = 256" using len(1) by (metis length_contents length_replicate)
  ultimately show False using wpp_sentinels_le [OF inv] stop by linarith
qed

lemma wpp_stuck_cases:
  assumes inv: "wpp_inv cnt held cfg (s, ts)" and stuck: "pool_stuck (wpp_step ph cfg) (s, ts)"
    and "0 < unat (g_consumers cfg)" and "t \<in> set ts"
  shows "wpp_finished t \<or> (\<exists>acc. t = ConsPop acc PopWait) \<and> queue_len (q s) = 0 \<or>
    t = MainWaitP \<and> unat (cnt (producers_done s)) < unat (g_producers cfg) \<or>
    t = MainWaitC \<and> unat (cnt (consumers_done s)) < unat (g_consumers cfg)"
  using wpp_stuck_blocked [OF inv stuck assms(4)] wpp_stuck_room [OF inv stuck assms(3)]
    wpp_stuck_slots(2) [OF inv stuck] by auto

text \<open>So the producers have finished and \<open>main\<close> is past their semaphore.\<close>

lemma wpp_stuck_past:
  assumes inv: "wpp_inv cnt held cfg (s, ts)" and stuck: "pool_stuck (wpp_step ph cfg) (s, ts)"
    and "0 < unat (g_consumers cfg)"
  shows "tsum main_pre ts = 0" and "tsum main_past ts = 1"
proof -
  note cs = wpp_stuck_cases [OF inv stuck assms(3)]
  have "tsum (prod_live cfg) ts = 0"
  proof (rule tsum_zeroI)
    fix u assume "u \<in> set ts"
    from cs [OF this] show "prod_live cfg u = 0" by (cases u) auto
  qed
  then have fin: "tsum prod_fin ts = unat (g_producers cfg)" using wpp_invD(5) [OF inv] by linarith
  show pre: "tsum main_pre ts = 0"
  proof (rule tsum_zeroI, rule ccontr)
    fix u assume u: "u \<in> set ts" and pre: "main_pre u \<noteq> 0"
    have "u = MainWaitP" using cs [OF u] by (cases u) (use pre in auto)
    then have "0 < tsum main_pre ts" using tsum_member_le [OF u, of main_pre] by simp
    then have "tsum main_past ts = 0" using wpp_invD(3) [OF inv] by linarith
    then show False
      using cs [OF u] \<open>u = MainWaitP\<close> fin wpp_invD(4) [OF inv, unfolded \<open>tsum main_past ts = 0\<close>]
      by auto
  qed
  with wpp_invD(3) [OF inv] show "tsum main_past ts = 1" by linarith
qed

text \<open>All sentinels have been pushed, so no consumer can be left waiting for one.\<close>

lemma wpp_stuck_consumers:
  assumes inv: "wpp_inv cnt held cfg (s, ts)" and stuck: "pool_stuck (wpp_step ph cfg) (s, ts)"
    and "0 < unat (g_consumers cfg)"
  shows "ConsPop acc PopWait \<notin> set ts" and "tsum cons_fin ts = unat (g_consumers cfg)"
proof -
  note cs = wpp_stuck_cases [OF inv stuck assms(3)]
  have "sentinels cfg u = unat (g_consumers cfg) * main_past u" if "u \<in> set ts" for u
    using cs [OF that] by (cases u) auto
  then have "map (sentinels cfg) ts = map (\<lambda>u. unat (g_consumers cfg) * main_past u) ts"
    by (rule map_cong [OF refl])
  then have sent: "tsum (sentinels cfg) ts = unat (g_consumers cfg)"
    using wpp_stuck_past(2) [OF inv stuck assms(3)] by (simp only: sum_list_const_mult mult_1_right)
  have no_pop: "ConsPop a PopWait \<notin> set ts" for a
  proof
    assume pop: "ConsPop a PopWait \<in> set ts"
    then have "length (contents (q s)) = 0" using cs [OF pop] by simp
    then have "contents (q s) = []" by (simp only: length_0_conv)
    from wpp_invD(9) [OF inv, unfolded this]
    have "tsum stopped ts = tsum (sentinels cfg) ts" by (simp only: item_flow_def) auto
    then have "tsum (running cfg) ts = 0" using sent wpp_invD(8) [OF inv] by linarith
    from tsum_zeroD [OF this pop] show False by simp
  qed
  then show "ConsPop acc PopWait \<notin> set ts" .
  have "tsum (cons_live cfg) ts = 0"
  proof (rule tsum_zeroI)
    fix u assume u: "u \<in> set ts"
    from cs [OF u] show "cons_live cfg u = 0" by (cases u) (use u no_pop in auto)
  qed
  then show "tsum cons_fin ts = unat (g_consumers cfg)" using wpp_invD(7) [OF inv] by linarith
qed

text \<open>A stuck pool with a consumer is one in which everybody has finished.\<close>

lemma wpp_progress:
  assumes inv: "wpp_inv cnt held cfg (s, ts)" and stuck: "pool_stuck (wpp_step ph cfg) (s, ts)"
    and "0 < unat (g_consumers cfg)" and t: "t \<in> set ts"
  shows "wpp_finished t"
proof -
  note cs = wpp_stuck_cases [OF inv stuck assms(3) t]
  note past = wpp_stuck_past [OF inv stuck assms(3)]
  note cons = wpp_stuck_consumers [OF inv stuck assms(3)]
  have "t \<noteq> MainWaitP" using tsum_zeroD [OF past(1) t] by auto
  moreover have "t \<noteq> MainWaitC"
  proof
    assume t': "t = MainWaitC"
    have le: "main_end u \<le> main_past u" for u by (cases u) auto
    have "tsum main_end ts \<noteq> tsum main_past ts"
      using tsum_eq_pointwise [where f = main_end and g = main_past, OF le _ t] t' by auto
    then have "tsum main_end ts = 0" using tsum_le_mono [where ts = ts and f = main_end and g = main_past, OF le] past(2) by linarith
    with wpp_invD(6) [OF inv, unfolded this] cs t' cons(2) show False by auto
  qed
  ultimately show ?thesis using cs cons(1) t by blast
qed

section \<open>The result\<close>

text \<open>When everybody has finished, every item has been folded into the checksum exactly once.\<close>

lemma wpp_result:
  assumes inv: "wpp_inv cnt held cfg (s, ts)" and fin: "\<forall>t \<in> set ts. wpp_finished t"
    and "0 < unat (g_consumers cfg)"
  shows "g_checksum s =
    xor_work (g_work cfg) (all_values_from (g_items cfg) (g_producers cfg) 0)"
    and "contents (q s) = []"
proof -
  have idle: "running cfg t = 0 \<and> pending cfg t = {#} \<and> acc_of t = 0" if "t \<in> set ts" for t
    using fin that by (cases t) auto
  have "tsum (running cfg) ts = 0" using idle by (intro tsum_zeroI) blast
  then have stop: "tsum stopped ts = unat (g_consumers cfg)" using wpp_invD(8) [OF inv] by linarith
  have pend: "tsum (pending cfg) ts = {#}" using idle by (intro tsum_mset_zero) blast
  have acc: "txor acc_of ts = 0" using idle by (intro txor_zero) blast
  from wpp_invD(9) [OF inv, unfolded pend acc] obtain z D where
    D: "contents (q s) = replicate z 0" "z + tsum stopped ts = tsum (sentinels cfg) ts"
      "D = all_values_from (g_items cfg) (g_producers cfg) 0" "xor_work (g_work cfg) D = g_checksum s"
    using stop assms(3) unfolding item_flow_def by auto
  then show "g_checksum s =
      xor_work (g_work cfg) (all_values_from (g_items cfg) (g_producers cfg) 0)" by simp
  have "z = 0" using D(2) stop wpp_sentinels_le [OF inv] by linarith
  with D(1) show "contents (q s) = []" by simp
qed

end

text \<open>Whatever the configuration, every run ends.\<close>

sublocale photon_sync \<subseteq> wpp_any: task_terminates "wpp_step ph cfg" "wpp_inv cnt held cfg"
  "wpp_weight cnt cfg" for cfg
  by unfold_locales (auto intro: wpp_inv_step wpp_weight_step)

text \<open>
  The interface to \<open>Tasks\<close>: for a configuration with consumers the pool is a live system.
\<close>

locale worker_pool_photon = photon_sync ph cnt held
  for ph :: "('s, 'm) photon_ops" and cnt held +
  fixes cfg :: wpp_cfg
  assumes some_consumer: "g_consumers cfg \<noteq> 0"

sublocale worker_pool_photon \<subseteq> wpp: task_live "wpp_step ph cfg" "wpp_inv cnt held cfg"
  "wpp_weight cnt cfg" wpp_finished
proof unfold_locales
  show "wpp_step ph cfg s t = None" if "wpp_finished t" for s t
    using that by (cases t) (simp_all add: wpp_step_def)
  show "wpp_finished t"
    if "wpp_inv cnt held cfg c" "pool_stuck (wpp_step ph cfg) c" "t \<in> set (snd c)" for c t
    using wpp_progress [of cfg "fst c" "snd c" t] that some_consumer
    by (simp add: unat_gt_0)
qed

text \<open>The configuration the program starts with when no option is given, on counting semaphores.\<close>

definition wpp_default :: wpp_cfg where
  "wpp_default = \<lparr>g_items = 100000, g_producers = 1, g_consumers = 1000, g_work = 64\<rparr>"

interpretation default_pool: worker_pool_photon counter_ops "\<lambda>s. s" "\<lambda>m. m" wpp_default
  by unfold_locales (simp add: wpp_default_def)

context photon_sync begin

lemmas wpp_reach_inv = wpp_any.inv_reach [OF wpp_inv_start]

lemma wpp_length:
  assumes "pool_run (wpp_step ph cfg) sched (wpp_start ph) = Some c"
  shows "length sched \<le> 12 * size (all_values_from (g_items cfg) (g_producers cfg) 0) +
    5 * unat (g_producers cfg) + 16 * unat (g_consumers cfg) + 6"
  using wpp_any.run_length [OF wpp_inv_start assms]
  by (simp add: wpp_weight_def wpp_start_def wpp_init_def queue_init_def)

lemma wpp_exclusive:
  assumes "pool_reach (wpp_step ph cfg) (wpp_start ph) (s, ts)"
    and "i < length ts" and "j < length ts" and "0 < inside_of (ts ! i)" and "0 < inside_of (ts ! j)"
  shows "i = j"
proof (rule ccontr)
  assume "i \<noteq> j"
  note inv = wpp_any.inv_reach [OF wpp_inv_start assms(1)]
  have "tsum inside_of ts \<le> 1" using wpp_invD(2) [OF inv] by (simp add: queue_inv_def)
  with tsum_two_members [OF assms(2,3) \<open>i \<noteq> j\<close>, of inside_of] assms(4,5) show False by linarith
qed

lemma wpp_ring:
  assumes "pool_reach (wpp_step ph cfg) (wpp_start ph) (s, ts)"
  shows "length (buf (q s)) = 256 \<and> queue_len (q s) \<le> 256 \<and>
    (0 < tsum reserved_of ts \<longrightarrow> queue_len (q s) < 256) \<and>
    (0 < tsum taken_of ts \<longrightarrow> 0 < queue_len (q s))"
  using wpp_invD(2) [OF wpp_any.inv_reach [OF wpp_inv_start assms]] by (auto simp: queue_inv_def)

end

context worker_pool_photon begin

lemma pool_total:
  assumes "pool_reach (wpp_step ph cfg) (wpp_start ph) (s, ts)" and "pool_stuck (wpp_step ph cfg) (s, ts)"
  shows "(\<forall>t \<in> set ts. wpp_finished t) \<and> contents (q s) = [] \<and>
    g_checksum s = xor_work (g_work cfg) (all_values_from (g_items cfg) (g_producers cfg) 0)"
proof -
  have inv: "wpp_inv cnt held cfg (s, ts)"
    by (rule wpp_any.inv_reach [OF wpp_inv_start assms(1)])
  with assms(2) have fin: "\<forall>t \<in> set ts. wpp_finished t"
    by (simp add: wpp.stuck_iff_finished)
  have "0 < unat (g_consumers cfg)" using some_consumer by (simp add: unat_gt_0)
  from wpp_result [OF inv fin this] fin show ?thesis by blast
qed

end

section \<open>Without consumers\<close>

text \<open>
  \<open>--num-consumers=0\<close> is accepted. Nobody then pops, so what the producers have not pushed and
  what the queue holds together stay constant.
\<close>

definition wpp_unconsumed :: "wpp_cfg \<Rightarrow> (('s, 'm) wpp_state, wpp_task) pool \<Rightarrow> bool" where
  "wpp_unconsumed cfg c \<longleftrightarrow>
     size (tsum (pending cfg) (snd c)) + queue_len (q (fst c)) =
     size (all_values_from (g_items cfg) (g_producers cfg) 0)"

context photon_sync begin

lemma push_step_len:
  assumes "push_step ph v pc qu = Some (qu', r)"
    and "queue_inv cnt held qu (a + push_reserved pc) (w + push_written pc) k f (h + push_inside pc)"
  shows "queue_len qu' = queue_len qu + (if pc = PushWrite then 1 else 0)"
  using push_step_inv(2) [OF assms(2,1)]
  by (metis add.right_neutral length_append_singleton length_contents Suc_eq_plus1)

lemma wpp_unconsumed_local:
  assumes step: "wpp_step ph cfg s t = Some (s', t', new)" and ok: "task_ok cfg t"
    and none: "g_consumers cfg = 0" "cons_fin t + cons_live cfg t = 0"
    and queue: "queue_inv cnt held (q s) (r + reserved_of t) (w + written_of t) (k + taken_of t)
      (f + freed_of t) (i + inside_of t)"
  shows "size (pending cfg t' + tsum (pending cfg) new) + queue_len (q s') =
    size (pending cfg t) + queue_len (q s)"
proof (cases t)
  case (ProdPush i e pc)
  with step obtain q' r' where mv: "push_step ph (i + 1) pc (q s) = Some (q', r')"
    "s' = s\<lparr>q := q'\<rparr>" "t' = (case r' of None \<Rightarrow> ProdLoop (i + 1) e | Some pc' \<Rightarrow> ProdPush i e pc')"
    "new = []"
    by (auto simp: wpp_step_def split: option.splits prod.splits)
  with ProdPush ok queue push_step_len [OF mv(1)] show ?thesis
    by (cases pc) (auto simp: send_values_unfold split: option.splits)
next
  case (MainSpawnP p)
  with step show ?thesis
    by (auto simp: wpp_step_def all_values_from_step all_values_from_end split: if_splits)
qed (use assms in \<open>auto simp: wpp_step_def producer_values_def split_range_def Let_def
       send_values_end split: if_splits option.splits\<close>)

lemma wpp_unconsumed_step:
  assumes inv: "wpp_inv cnt held cfg c" and none: "g_consumers cfg = 0"
    and "wpp_unconsumed cfg c" and "pool_step (wpp_step ph cfg) c c'"
  shows "wpp_unconsumed cfg c'"
proof -
  obtain s ts where c: "c = (s, ts)" by (cases c)
  from assms(4) obtain i s' t' new where i: "i < length ts"
    and step: "wpp_step ph cfg s (ts ! i) = Some (s', t', new)"
    and c': "c' = (s', ts[i := t'] @ new)"
    unfolding c by (auto elim: pool_step.cases)
  note inv' = wpp_invD [OF inv [unfolded c]]
  have "cons_fin (ts ! i) + cons_live cfg (ts ! i) = 0"
    using inv'(7) none nth_mem [OF i] by simp
  from wpp_unconsumed_local [OF step _ none this inv'(2) [unfolded tsum_at [OF i]]] inv'(1) i assms(3)
  show ?thesis
    unfolding wpp_unconsumed_def c c' fst_conv snd_conv tsum_at [OF i] tsum_upd [OF i] by simp
qed

lemma wpp_unconsumed_reach:
  assumes "pool_reach (wpp_step ph cfg) (wpp_start ph) c" and "g_consumers cfg = 0"
  shows "wpp_inv cnt held cfg c \<and> wpp_unconsumed cfg c"
  using assms(1)
proof (induction rule: rtranclp_induct)
  case base
  show ?case
    using wpp_inv_start by (simp add: wpp_unconsumed_def wpp_start_def wpp_init_def queue_init_def queue_len_def)
next
  case (step c d)
  then show ?case using wpp_inv_step wpp_unconsumed_step assms(2) by blast
qed

lemma wpp_no_consumer_never_done:
  assumes "pool_reach (wpp_step ph cfg) (wpp_start ph) (s, ts)" and "g_consumers cfg = 0"
    and "256 < size (all_values_from (g_items cfg) (g_producers cfg) 0)"
  shows "\<exists>t \<in> set ts. \<not> wpp_finished t"
proof (rule ccontr)
  assume "\<not> ?thesis"
  then have "pending cfg t = {#}" if "t \<in> set ts" for t using that by (cases t) auto
  then have "tsum (pending cfg) ts = {#}" by (rule tsum_mset_zero)
  moreover note reach = wpp_unconsumed_reach [OF assms(1,2)]
  ultimately have "256 < queue_len (q s)" using assms(3) by (simp add: wpp_unconsumed_def)
  moreover have "queue_len (q s) \<le> 256"
    using wpp_invD(2) [OF conjunct1 [OF reach]] by (simp add: queue_inv_def)
  ultimately show False by simp
qed

end

section \<open>Properties\<close>

definition wpp_small :: wpp_cfg where
  "wpp_small = \<lparr>g_items = 2, g_producers = 2, g_consumers = 1, g_work = 1\<rparr>"

lemma wpp_small_sel [simp]:
  "g_items wpp_small = 2" "g_producers wpp_small = 2" "g_consumers wpp_small = 1" "g_work wpp_small = 1"
  by (simp_all add: wpp_small_def)

interpretation small_pool: worker_pool_photon counter_ops "\<lambda>s. s" "\<lambda>m. m" wpp_small
  by unfold_locales (simp add: wpp_small_def)

lemma small_pool_ends:
  "\<exists>s ts. pool_reach (wpp_step counter_ops wpp_small) (wpp_start counter_ops) (s, ts) \<and>
    pool_stuck (wpp_step counter_ops wpp_small) (s, ts)"
  using counter.wpp_any.reaches_stuck [OF counter.wpp_inv_start] by force

lemma wpp_small_prefix:
  "\<exists>s. pool_reach (wpp_step counter_ops wpp_small) (wpp_start counter_ops)
    (s, [MainSpawnP 1, ConsPop 0 PopWait, ProdPush 0 1 PushWrite])"
proof -
  have "\<exists>s. pool_run (wpp_step counter_ops wpp_small) [0, 0, 0, 2, 2, 2, 2] (wpp_start counter_ops)
      = Some (s, [MainSpawnP 1, ConsPop 0 PopWait, ProdPush 0 1 PushWrite])"
    by (simp add: wpp_step_def wpp_start_def wpp_init_def wpp_small_def queue_init_def counter_ops_def
        CAP_def word_le_nat_alt word_less_nat_alt unat_div)
  then show ?thesis using pool_run_reach by blast
qed

text \<open>
  C1. Functional correctness of the photon worker pool. Whatever the interleaving, a run of the
  pool that cannot go on has finished every coroutine, has drained the queue, and has computed
  exactly the specified checksum of the items 1 to \<open>g_items\<close>. Hypotheses: the documented
  contract of photon's semaphore and mutex, at least one producer and consumer, and
  \<open>g_producers * g_items\<close> below 2 to the 64th.
\<close>

theorem wpp_checksum_correct:
  assumes "photon_sync ph cnt held"
    and "g_consumers cfg \<noteq> 0" and "g_producers cfg \<noteq> 0"
    and "unat (g_producers cfg) * unat (g_items cfg) < 2 ^ 64"
    and "pool_reach (wpp_step ph cfg) (wpp_start ph) (s, ts)"
    and "pool_stuck (wpp_step ph cfg) (s, ts)"
  shows "(\<forall>t \<in> set ts. wpp_finished t) \<and> contents (q s) = [] \<and>
    g_checksum s = checksum_spec (g_items cfg) (g_work cfg)"
  using worker_pool_photon.pool_total [OF worker_pool_photon.intro
      [OF assms(1) worker_pool_photon_axioms.intro [OF assms(2)]] assms(5,6)]
    xor_work_all [OF assms(4,3)] by simp

theorem wpp_checksum_correct_witness:
  "\<exists>s ts. pool_reach (wpp_step counter_ops wpp_small) (wpp_start counter_ops) (s, ts) \<and>
    (\<forall>t \<in> set ts. wpp_finished t) \<and> g_checksum s = 22681772974"
proof -
  obtain s ts where run: "pool_reach (wpp_step counter_ops wpp_small) (wpp_start counter_ops) (s, ts)"
    "pool_stuck (wpp_step counter_ops wpp_small) (s, ts)"
    using small_pool_ends by blast
  from wpp_checksum_correct [OF counter.photon_sync_axioms _ _ _ this] run show ?thesis
    by (auto simp: wpp_small_def checksum_two)
qed

text \<open>
  Termination with an explicit bound: no schedule of the photon worker pool is longer than
  the given number of actions, for any configuration (also those that end in a deadlock).
\<close>

theorem wpp_run_bounded:
  assumes "photon_sync ph cnt held"
    and "pool_run (wpp_step ph cfg) sched (wpp_start ph) = Some c"
  shows "length sched \<le> 12 * size (all_values_from (g_items cfg) (g_producers cfg) 0) +
    5 * unat (g_producers cfg) + 16 * unat (g_consumers cfg) + 6"
  by (rule photon_sync.wpp_length [OF assms])

theorem wpp_run_bounded_witness:
  "\<exists>c. pool_run (wpp_step counter_ops wpp_small) [0, 0, 0] (wpp_start counter_ops) = Some c \<and>
    length [0, 0, 0 :: nat] \<le> 12 * size (all_values_from 2 2 0) + 32"
proof -
  have "\<exists>c. pool_run (wpp_step counter_ops wpp_small) [0, 0, 0] (wpp_start counter_ops) = Some c"
    by (simp add: wpp_step_def wpp_start_def wpp_small_def)
  with wpp_run_bounded [OF counter.photon_sync_axioms, of wpp_small "[0, 0, 0]"] show ?thesis
    by (auto simp: wpp_small_def)
qed

text \<open>
  C32. Mutual exclusion: in every reachable state at most one coroutine is between the lock and
  the unlock of the queue's mutex.
\<close>

theorem wpp_mutual_exclusion:
  assumes "photon_sync ph cnt held"
    and "pool_reach (wpp_step ph cfg) (wpp_start ph) (s, ts)"
    and "i < length ts" and "j < length ts" and "0 < inside_of (ts ! i)" and "0 < inside_of (ts ! j)"
  shows "i = j"
  by (rule photon_sync.wpp_exclusive [OF assms])

theorem wpp_mutual_exclusion_witness:
  "\<exists>s ts. pool_reach (wpp_step counter_ops wpp_small) (wpp_start counter_ops) (s, ts) \<and>
    ts ! 2 = ProdPush 0 1 PushWrite \<and> (\<forall>i. i < length ts \<and> 0 < inside_of (ts ! i) \<longrightarrow> i = 2)"
proof -
  obtain s where "pool_reach (wpp_step counter_ops wpp_small) (wpp_start counter_ops)
      (s, [MainSpawnP 1, ConsPop 0 PopWait, ProdPush 0 1 PushWrite])"
    using wpp_small_prefix by blast
  with wpp_mutual_exclusion [OF counter.photon_sync_axioms this, of _ 2] show ?thesis
    by (intro exI [of _ s] exI) auto
qed

text \<open>
  C33. The ring buffer is used safely: at most 256 items are stored, a push never writes over an
  unread slot and a pop never reads an empty one, however the calls interleave.
\<close>

theorem wpp_ring_safe:
  assumes "photon_sync ph cnt held"
    and "pool_reach (wpp_step ph cfg) (wpp_start ph) (s, ts)"
    and "t \<in> set ts"
  shows "length (buf (q s)) = 256 \<and> queue_len (q s) \<le> 256 \<and>
    (0 < reserved_of t \<longrightarrow> queue_len (q s) < 256) \<and> (0 < taken_of t \<longrightarrow> 0 < queue_len (q s))"
  using photon_sync.wpp_ring [OF assms(1,2)] tsum_member_le [OF assms(3), of reserved_of]
    tsum_member_le [OF assms(3), of taken_of] by linarith

theorem wpp_ring_safe_witness:
  "\<exists>s ts t. pool_reach (wpp_step counter_ops wpp_small) (wpp_start counter_ops) (s, ts) \<and>
    t \<in> set ts \<and> 0 < reserved_of t \<and> queue_len (q s) < 256"
proof -
  obtain s where "pool_reach (wpp_step counter_ops wpp_small) (wpp_start counter_ops)
      (s, [MainSpawnP 1, ConsPop 0 PopWait, ProdPush 0 1 PushWrite])"
    using wpp_small_prefix by blast
  with wpp_ring_safe [OF counter.photon_sync_axioms this, of "ProdPush 0 1 PushWrite"] show ?thesis
    by fastforce
qed

text \<open>
  No item is lost and none is processed twice: in every reachable state the items still to
  be pushed or in a consumer's hand, those in the queue, and a multiset \<open>D\<close> make up exactly the
  items the producers send, and the accumulators and the checksum together hold the exclusive-or
  of the work on \<open>D\<close>. The queue holds items first and sentinels after them.
\<close>

theorem wpp_items_conserved:
  assumes "photon_sync ph cnt held"
    and "pool_reach (wpp_step ph cfg) (wpp_start ph) (s, ts)"
  shows "\<exists>R z D. contents (q s) = R @ replicate z 0 \<and> 0 \<notin> set R \<and>
    tsum (pending cfg) ts + mset R + D = all_values_from (g_items cfg) (g_producers cfg) 0 \<and>
    txor acc_of ts XOR g_checksum s = xor_work (g_work cfg) D"
proof -
  have "wpp_inv cnt held cfg (s, ts)"
    using photon_sync.wpp_reach_inv [OF assms] .
  from wpp_invD(9) [OF this] show ?thesis unfolding item_flow_def by metis
qed

theorem wpp_items_conserved_witness:
  "\<exists>s ts R z D. pool_reach (wpp_step counter_ops wpp_small) (wpp_start counter_ops) (s, ts) \<and>
    contents (q s) = R @ replicate z 0 \<and>
    tsum (pending wpp_small) ts + mset R + D = all_values_from 2 2 0 \<and>
    txor acc_of ts XOR g_checksum s = xor_work 1 D"
proof -
  obtain s where "pool_reach (wpp_step counter_ops wpp_small) (wpp_start counter_ops)
      (s, [MainSpawnP 1, ConsPop 0 PopWait, ProdPush 0 1 PushWrite])"
    using wpp_small_prefix by blast
  with wpp_items_conserved [OF counter.photon_sync_axioms this] show ?thesis
    unfolding wpp_small_sel by blast
qed

text \<open>
  C39. Without consumers the program hangs: with \<open>--num-consumers=0\<close> and more than 256 items in
  all, no reachable state has every coroutine finished (and since every run is bounded, it stops
  in a deadlock).
\<close>

theorem wpp_no_consumers_hang:
  assumes "photon_sync ph cnt held" and "g_consumers cfg = 0"
    and "256 < size (all_values_from (g_items cfg) (g_producers cfg) 0)"
    and "pool_reach (wpp_step ph cfg) (wpp_start ph) (s, ts)"
  shows "\<exists>t \<in> set ts. \<not> wpp_finished t"
  by (rule photon_sync.wpp_no_consumer_never_done [OF assms(1,4,2,3)])

theorem wpp_no_consumers_hang_witness:
  "\<exists>s ts. pool_reach (wpp_step counter_ops \<lparr>g_items = 300, g_producers = 1, g_consumers = 0, g_work = 0\<rparr>)
      (wpp_start counter_ops) (s, ts) \<and>
    pool_stuck (wpp_step counter_ops \<lparr>g_items = 300, g_producers = 1, g_consumers = 0, g_work = 0\<rparr>) (s, ts) \<and>
    (\<exists>t \<in> set ts. \<not> wpp_finished t)"
proof -
  define cfg where "cfg = \<lparr>g_items = 300, g_producers = 1, g_consumers = 0, g_work = 0\<rparr>"
  have size: "size (all_values_from (g_items cfg) (g_producers cfg) 0) = 300"
    using all_values_exact [of "g_producers cfg" "g_items cfg"] by (simp add: cfg_def del: upt_Suc)
  obtain s ts where run: "pool_reach (wpp_step counter_ops cfg) (wpp_start counter_ops) (s, ts)"
    "pool_stuck (wpp_step counter_ops cfg) (s, ts)"
    using counter.wpp_any.reaches_stuck [OF counter.wpp_inv_start] by force
  moreover from wpp_no_consumers_hang [OF counter.photon_sync_axioms _ _ run(1)] size
  have "\<exists>t \<in> set ts. \<not> wpp_finished t" by (simp add: cfg_def)
  ultimately show ?thesis unfolding cfg_def by blast
qed

end
