(* ===== verification/Asio_Runtime.thy ===== *)
theory Asio_Runtime
  imports Fifo
begin

text \<open>
  What the Asio programs use of Asio, which is not part of the repository: the
  \<open>concurrent_channel\<close> (\<open>channel_ops\<close>, contract \<open>asio_channel\<close>) and the ways of waiting for
  coroutines, \<open>thread_pool::join\<close> and the awaitable operator \<open>&&\<close> (\<open>join_ops\<close>, contract
  \<open>asio_join\<close>). Both are parameters of the models; the contracts state their documentation.
  As for photon, \<open>None\<close> is a call that suspends its coroutine.
\<close>

section \<open>Channels\<close>

text \<open>
  \<open>async_send\<close> and \<open>async_receive\<close> complete with an error code, which is set when the channel
  has been closed; values sent before the close are still received.
\<close>

datatype error_code = Success | ChannelClosed

definition is_error :: "error_code \<Rightarrow> bool" where
  "is_error ec \<longleftrightarrow> ec \<noteq> Success"

lemma is_error_simps [simp]: "\<not> is_error Success" "is_error ChannelClosed"
  by (simp_all add: is_error_def)

record 'c channel_ops =
  ch_open :: "u64 \<Rightarrow> 'c"
  ch_send :: "'c \<Rightarrow> u64 \<Rightarrow> (error_code \<times> 'c) option"
  ch_receive :: "'c \<Rightarrow> (error_code \<times> u64 \<times> 'c) option"
  ch_close :: "'c \<Rightarrow> 'c"

locale asio_channel =
  fixes ch :: "'c channel_ops"
    and stored :: "'c \<Rightarrow> u64 list"
    and room :: "'c \<Rightarrow> nat"
    and closed :: "'c \<Rightarrow> bool"
  assumes open_empty [simp]: "stored (ch_open ch n) = []" "room (ch_open ch n) = unat n"
      "\<not> closed (ch_open ch n)"
    and send_stores: "\<not> closed c \<Longrightarrow> length (stored c) < room c \<Longrightarrow>
      \<exists>c'. ch_send ch c v = Some (Success, c') \<and> stored c' = stored c @ [v] \<and> room c' = room c \<and> \<not> closed c'"
    and send_waits: "\<not> closed c \<Longrightarrow> \<not> length (stored c) < room c \<Longrightarrow> ch_send ch c v = None"
    and send_fails: "closed c \<Longrightarrow> \<exists>c'. ch_send ch c v = Some (ChannelClosed, c') \<and>
      stored c' = stored c \<and> room c' = room c \<and> closed c'"
    and receive_takes: "stored c = v # vs \<Longrightarrow> \<exists>c'. ch_receive ch c = Some (Success, v, c') \<and>
      stored c' = vs \<and> room c' = room c \<and> closed c' = closed c"
    and receive_waits: "stored c = [] \<Longrightarrow> \<not> closed c \<Longrightarrow> ch_receive ch c = None"
    and receive_fails: "stored c = [] \<Longrightarrow> closed c \<Longrightarrow> \<exists>v c'. ch_receive ch c = Some (ChannelClosed, v, c') \<and>
      stored c' = [] \<and> room c' = room c \<and> closed c'"
    and close_closes [simp]: "stored (ch_close ch c) = stored c" "room (ch_close ch c) = room c"
      "closed (ch_close ch c)"
begin

text \<open>The channel's view is \<open>(stored, room, closed)\<close>.\<close>

definition chan_is :: "'c \<Rightarrow> u64 list \<Rightarrow> nat \<Rightarrow> bool \<Rightarrow> bool" where
  "chan_is c xs n b \<longleftrightarrow> stored c = xs \<and> room c = n \<and> closed c = b"

lemma send_cases:
  assumes "ch_send ch c v = Some (ec, c')" and "chan_is c xs n b"
  shows "ec = (if b then ChannelClosed else Success) \<and> (\<not> b \<longrightarrow> length xs < n) \<and>
    chan_is c' (if b then xs else xs @ [v]) n b"
  using assms send_stores [of c v] send_waits [of c v] send_fails [of c v]
  by (cases b; cases "length xs < n") (auto simp: chan_is_def)

lemma send_None_iff: "chan_is c xs n b \<Longrightarrow> ch_send ch c v = None \<longleftrightarrow> \<not> b \<and> n \<le> length xs"
  using send_stores [of c v] send_waits [of c v] send_fails [of c v]
  by (cases b; cases "length xs < n") (auto simp: chan_is_def)

lemma receive_cases:
  assumes "ch_receive ch c = Some (ec, v, c')" and "chan_is c xs n b"
  shows "if xs = [] then b \<and> ec = ChannelClosed \<and> chan_is c' [] n b
    else ec = Success \<and> v = hd xs \<and> chan_is c' (tl xs) n b"
  using assms receive_takes [of c] receive_waits [of c] receive_fails [of c]
  by (cases xs) (auto simp: chan_is_def)

lemma receive_None_iff: "chan_is c xs n b \<Longrightarrow> ch_receive ch c = None \<longleftrightarrow> xs = [] \<and> \<not> b"
  using receive_takes [of c] receive_waits [of c] receive_fails [of c]
  by (cases xs; cases b) (fastforce simp: chan_is_def)+

lemma chan_open [simp]: "chan_is (ch_open ch n) [] (unat n) False"
  by (simp add: chan_is_def)

lemma chan_close: "chan_is c xs n b \<Longrightarrow> chan_is (ch_close ch c) xs n True"
  by (simp add: chan_is_def)

end

text \<open>An open channel is a bounded FIFO; its capacity is the one it was opened with.\<close>

definition open_put :: "'c channel_ops \<Rightarrow> 'c \<Rightarrow> u64 \<Rightarrow> 'c option" where
  "open_put ch c v = map_option snd (ch_send ch c v)"

definition open_get :: "'c channel_ops \<Rightarrow> 'c \<Rightarrow> (u64 \<times> 'c) option" where
  "open_get ch c = map_option snd (ch_receive ch c)"

sublocale asio_channel \<subseteq> chan: bounded_fifo "open_put ch" "open_get ch" stored n
    "\<lambda>c. \<not> closed c \<and> room c = n" for n
proof unfold_locales
  fix c v x xs
  assume c: "\<not> closed c \<and> room c = n"
  show "\<exists>c'. open_put ch c v = Some c' \<and> (\<not> closed c' \<and> room c' = n) \<and> stored c' = stored c @ [v]"
    if "length (stored c) < n" using send_stores [of c v] that c by (auto simp: open_put_def)
  show "open_put ch c v = None" if "\<not> length (stored c) < n"
    using send_waits [of c v] that c by (simp add: open_put_def)
  show "\<exists>c'. open_get ch c = Some (x, c') \<and> (\<not> closed c' \<and> room c' = n) \<and> stored c' = xs"
    if "stored c = x # xs" using receive_takes [OF that] c by (auto simp: open_get_def)
  show "open_get ch c = None" if "stored c = []"
    using receive_waits [OF that] c by (simp add: open_get_def)
qed

text \<open>The contract can be met: a list, its capacity and a flag.\<close>

definition list_channel :: "(u64 list \<times> nat \<times> bool) channel_ops" where
  "list_channel =
     \<lparr>ch_open = (\<lambda>n. ([], unat n, False)),
      ch_send = (\<lambda>(xs, n, b) v. if b then Some (ChannelClosed, (xs, n, b))
                               else if length xs < n then Some (Success, (xs @ [v], n, b)) else None),
      ch_receive = (\<lambda>(xs, n, b). case xs of
                      x # rest \<Rightarrow> Some (Success, x, (rest, n, b))
                    | [] \<Rightarrow> if b then Some (ChannelClosed, 0, (xs, n, b)) else None),
      ch_close = (\<lambda>(xs, n, b). (xs, n, True))\<rparr>"

interpretation listch: asio_channel list_channel fst "\<lambda>c. fst (snd c)" "\<lambda>c. snd (snd c)"
  by unfold_locales (auto simp: list_channel_def)

section \<open>Waiting for coroutines\<close>

text \<open>
  A join object counts the coroutines that were started on it and have not returned;
  \<open>join_wait\<close> suspends the caller (\<open>None\<close>) while there are any.
\<close>

record 'j join_ops =
  join_new :: 'j
  join_spawn :: "'j \<Rightarrow> 'j"
  join_return :: "'j \<Rightarrow> 'j"
  join_wait :: "'j \<Rightarrow> 'j option"

locale asio_join =
  fixes jn :: "'j join_ops"
    and running :: "'j \<Rightarrow> nat"
  assumes join_new_none [simp]: "running (join_new jn) = 0"
    and spawn_counts [simp]: "running (join_spawn jn j) = Suc (running j)"
    and return_counts [simp]: "0 < running j \<Longrightarrow> running (join_return jn j) = running j - 1"
    and wait_ends: "running j = 0 \<Longrightarrow> \<exists>j'. join_wait jn j = Some j' \<and> running j' = 0"
    and wait_holds: "0 < running j \<Longrightarrow> join_wait jn j = None"
begin

lemma join_Some: "join_wait jn j = Some j' \<Longrightarrow> running j = 0 \<and> running j' = 0"
  using wait_ends [of j] wait_holds [of j] by (cases "running j = 0") auto

lemma join_None_iff: "join_wait jn j = None \<longleftrightarrow> 0 < running j"
  using wait_ends [of j] wait_holds [of j] by (cases "running j = 0") auto

end

definition nat_join :: "nat join_ops" where
  "nat_join = \<lparr>join_new = 0, join_spawn = Suc, join_return = (\<lambda>j. j - 1),
     join_wait = (\<lambda>j. if j = 0 then Some j else None)\<rparr>"

interpretation natjn: asio_join nat_join "\<lambda>j. j"
  by unfold_locales (auto simp: nat_join_def)

locale asio_runtime = asio_channel ch stored room closed + asio_join jn running
  for ch :: "'c channel_ops" and stored :: "'c \<Rightarrow> u64 list" and room :: "'c \<Rightarrow> nat"
    and closed :: "'c \<Rightarrow> bool" and jn :: "'j join_ops" and running :: "'j \<Rightarrow> nat"

interpretation listrt: asio_runtime list_channel fst "\<lambda>c. fst (snd c)" "\<lambda>c. snd (snd c)" nat_join "\<lambda>j. j"
  by unfold_locales

end
