(* ===== verification/Worker_Pool_Asio.thy ===== *)
theory Worker_Pool_Asio
  imports Tasks Item_Flow Asio_Runtime
begin

text \<open>
  \<open>cpp/worker_pool_asio.cpp\<close>: the worker pool on Asio coroutines. Producers send the items into
  one channel of capacity 256 and count themselves off an atomic; the last one sends one sentinel
  0 per consumer. Consumers fold the work on each item into an accumulator and that into an
  atomic checksum. The model has one task per coroutine and one step per channel operation and
  per atomic operation. The theorems: with at least one producer and consumer, every run ends,
  with all coroutines returned and the specified checksum; without producers the program hangs.
\<close>

section \<open>The program\<close>

definition asio_CAP :: u64 where
  "asio_CAP = 256"

record wpa_cfg =
  n_items :: u64
  n_producers :: u64
  n_consumers :: u64
  work_iters :: u64

record ('c, 'j) wpa_state =
  channel :: 'c
  checksum :: u64
  remaining :: u64
  workers :: 'j

datatype wpa_task =
    Producer u64 u64
  | Sentinels u64
  | Consumer u64
  | AddChecksum u64
  | Returning
  | Returned
  | SpawnConsumers u64
  | SpawnProducers u64
  | JoinPool
  | Joined

text \<open>
  \<open>Producer i e\<close> is at the test of its loop with the range's end \<open>e\<close>; behind the loop it does
  \<open>remaining.fetch_sub(1)\<close>, whose old value 1 makes it the last. \<open>Returning\<close> is a coroutine at
  its \<open>co_return\<close>.
\<close>

fun wpa_producer_step ::
  "'c channel_ops \<Rightarrow> wpa_cfg \<Rightarrow> ('c, 'j) wpa_state \<Rightarrow> wpa_task \<Rightarrow> (('c, 'j) wpa_state \<times> wpa_task) option"
where
  "wpa_producer_step ch cfg s (Producer i e) =
     (if i < e then
        (case ch_send ch (channel s) (i + 1) of
           None \<Rightarrow> None
         | Some (ec, c) \<Rightarrow>
             Some (s\<lparr>channel := c\<rparr>, if is_error ec then Returning else Producer (i + 1) e))
      else
        Some (s\<lparr>remaining := remaining s - 1\<rparr>,
          if remaining s = 1 then Sentinels 0 else Returning))"
| "wpa_producer_step ch cfg s (Sentinels c) =
     (if c < n_consumers cfg then
        (case ch_send ch (channel s) 0 of
           None \<Rightarrow> None
         | Some (ec, d) \<Rightarrow>
             Some (s\<lparr>channel := d\<rparr>, if is_error ec then Returning else Sentinels (c + 1)))
      else Some (s, Returning))"
| "wpa_producer_step ch cfg s _ = None"

fun wpa_consumer_step ::
  "'c channel_ops \<Rightarrow> wpa_cfg \<Rightarrow> ('c, 'j) wpa_state \<Rightarrow> wpa_task \<Rightarrow> (('c, 'j) wpa_state \<times> wpa_task) option"
where
  "wpa_consumer_step ch cfg s (Consumer acc) =
     (case ch_receive ch (channel s) of
        None \<Rightarrow> None
      | Some (ec, item, c) \<Rightarrow>
          Some (s\<lparr>channel := c\<rparr>,
            if is_error ec \<or> item = 0 then AddChecksum acc
            else Consumer (acc XOR asio_work item (work_iters cfg))))"
| "wpa_consumer_step ch cfg s (AddChecksum acc) =
     Some (s\<lparr>checksum := checksum s XOR acc\<rparr>, Returning)"
| "wpa_consumer_step ch cfg s _ = None"

text \<open>\<open>main\<close>: the two spawn loops and \<open>pool.join\<close>.\<close>

fun wpa_main_step :: "'j join_ops \<Rightarrow> wpa_cfg \<Rightarrow> (('c, 'j) wpa_state, wpa_task) task_step" where
  "wpa_main_step jn cfg s (SpawnConsumers c) =
     Some (if c < n_consumers cfg
           then (s\<lparr>workers := join_spawn jn (workers s)\<rparr>, SpawnConsumers (c + 1), [Consumer 0])
           else (s, SpawnProducers 0, []))"
| "wpa_main_step jn cfg s (SpawnProducers p) =
     Some (if p < n_producers cfg
           then (let (start, end) = split_range (n_items cfg) (n_producers cfg) p
                 in (s\<lparr>workers := join_spawn jn (workers s)\<rparr>, SpawnProducers (p + 1), [Producer start end]))
           else (s, JoinPool, []))"
| "wpa_main_step jn cfg s JoinPool =
     (case join_wait jn (workers s) of
        None \<Rightarrow> None
      | Some j \<Rightarrow> Some (s\<lparr>workers := j\<rparr>, Joined, []))"
| "wpa_main_step jn cfg s _ = None"

fun wpa_step ::
  "'c channel_ops \<Rightarrow> 'j join_ops \<Rightarrow> wpa_cfg \<Rightarrow> (('c, 'j) wpa_state, wpa_task) task_step"
where
  "wpa_step ch jn cfg s (Producer i e) =
     map_option (\<lambda>(s', t'). (s', t', [])) (wpa_producer_step ch cfg s (Producer i e))"
| "wpa_step ch jn cfg s (Sentinels c) =
     map_option (\<lambda>(s', t'). (s', t', [])) (wpa_producer_step ch cfg s (Sentinels c))"
| "wpa_step ch jn cfg s (Consumer acc) =
     map_option (\<lambda>(s', t'). (s', t', [])) (wpa_consumer_step ch cfg s (Consumer acc))"
| "wpa_step ch jn cfg s (AddChecksum acc) =
     map_option (\<lambda>(s', t'). (s', t', [])) (wpa_consumer_step ch cfg s (AddChecksum acc))"
| "wpa_step ch jn cfg s Returning =
     Some (s\<lparr>workers := join_return jn (workers s)\<rparr>, Returned, [])"
| "wpa_step ch jn cfg s t = wpa_main_step jn cfg s t"

definition wpa_start ::
  "'c channel_ops \<Rightarrow> 'j join_ops \<Rightarrow> wpa_cfg \<Rightarrow> (('c, 'j) wpa_state, wpa_task) pool"
where
  "wpa_start ch jn cfg =
     (\<lparr>channel = ch_open ch asio_CAP, checksum = 0, remaining = n_producers cfg,
       workers = join_new jn\<rparr>, [SpawnConsumers 0])"

fun wpa_finished :: "wpa_task \<Rightarrow> bool" where
  "wpa_finished Returned = True"
| "wpa_finished Joined = True"
| "wpa_finished _ = False"

section \<open>What a task contributes to the invariant\<close>

text \<open>Producers that have not counted themselves off, sentinels the last one still has to send,
  consumers that have not read theirs, and coroutines that have not returned.\<close>

fun producers_left :: "wpa_cfg \<Rightarrow> wpa_task \<Rightarrow> nat" where
  "producers_left cfg (Producer _ _) = 1"
| "producers_left cfg (SpawnConsumers _) = unat (n_producers cfg)"
| "producers_left cfg (SpawnProducers p) = unat (n_producers cfg) - unat p"
| "producers_left cfg _ = 0"

fun sentinels_left :: "wpa_cfg \<Rightarrow> wpa_task \<Rightarrow> nat" where
  "sentinels_left cfg (Sentinels c) = unat (n_consumers cfg) - unat c"
| "sentinels_left cfg _ = 0"

fun consumers_left :: "wpa_cfg \<Rightarrow> wpa_task \<Rightarrow> nat" where
  "consumers_left cfg (Consumer _) = 1"
| "consumers_left cfg (SpawnConsumers c) = unat (n_consumers cfg) - unat c"
| "consumers_left cfg _ = 0"

fun alive :: "wpa_task \<Rightarrow> nat" where
  "alive (Producer _ _) = 1"
| "alive (Sentinels _) = 1"
| "alive (Consumer _) = 1"
| "alive (AddChecksum _) = 1"
| "alive Returning = 1"
| "alive _ = 0"

fun unsent :: "wpa_cfg \<Rightarrow> wpa_task \<Rightarrow> u64 multiset" where
  "unsent cfg (Producer i e) = mset (send_values i e)"
| "unsent cfg (SpawnConsumers _) = all_values_from (n_items cfg) (n_producers cfg) 0"
| "unsent cfg (SpawnProducers p) = all_values_from (n_items cfg) (n_producers cfg) p"
| "unsent cfg _ = {#}"

fun folded :: "wpa_task \<Rightarrow> u64" where
  "folded (Consumer acc) = acc"
| "folded (AddChecksum acc) = acc"
| "folded _ = 0"

fun wpa_task_ok :: "wpa_cfg \<Rightarrow> wpa_task \<Rightarrow> bool" where
  "wpa_task_ok cfg (Sentinels c) = (c \<le> n_consumers cfg)"
| "wpa_task_ok cfg (SpawnConsumers c) = (c \<le> n_consumers cfg)"
| "wpa_task_ok cfg (SpawnProducers p) = (p \<le> n_producers cfg)"
| "wpa_task_ok cfg _ = True"

fun wpa_task_weight :: "wpa_cfg \<Rightarrow> wpa_task \<Rightarrow> nat" where
  "wpa_task_weight cfg (Producer i e) = 2 * length (send_values i e) + 3"
| "wpa_task_weight cfg (Sentinels c) = 2 * (unat (n_consumers cfg) - unat c) + 2"
| "wpa_task_weight cfg (Consumer _) = 3"
| "wpa_task_weight cfg (AddChecksum _) = 2"
| "wpa_task_weight cfg Returning = 1"
| "wpa_task_weight cfg (SpawnConsumers c) =
     4 * (unat (n_consumers cfg) - unat c) + 4 * unat (n_producers cfg) +
     2 * size (all_values_from (n_items cfg) (n_producers cfg) 0) + 3"
| "wpa_task_weight cfg (SpawnProducers p) =
     4 * (unat (n_producers cfg) - unat p) +
     2 * size (all_values_from (n_items cfg) (n_producers cfg) p) + 2"
| "wpa_task_weight cfg JoinPool = 1"
| "wpa_task_weight cfg _ = 0"

lemma unat_pred: "0 < unat (w :: u64) \<Longrightarrow> unat (w - 1) = unat w - 1"
  by (simp add: unat_sub word_le_nat_alt)

context asio_runtime begin

text \<open>
  The invariant for given sums over the tasks. While a producer is left no sentinel has been
  sent; the sentinels sent, those still to be sent and those of the producers' last one are
  together as many as the consumers.
\<close>

definition wpa_sums ::
  "wpa_cfg \<Rightarrow> ('c, 'j) wpa_state \<Rightarrow> nat \<Rightarrow> nat \<Rightarrow> nat \<Rightarrow> nat \<Rightarrow> u64 multiset \<Rightarrow> u64 \<Rightarrow> bool"
where
  "wpa_sums cfg s prods sents conss live pend accs \<longleftrightarrow>
     unat (remaining s) = prods \<and> running (workers s) = live \<and>
     room (channel s) = 256 \<and> \<not> closed (channel s) \<and> length (stored (channel s)) \<le> 256 \<and>
     (\<exists>stop sent. stop + conss = unat (n_consumers cfg) \<and>
        sent + (if 0 < prods then unat (n_consumers cfg) else 0) + sents = unat (n_consumers cfg) \<and>
        item_flow (n_items cfg) (n_producers cfg) (work_iters cfg) (stored (channel s)) (checksum s)
          pend stop sent accs)"

definition wpa_inv :: "wpa_cfg \<Rightarrow> (('c, 'j) wpa_state, wpa_task) pool \<Rightarrow> bool" where
  "wpa_inv cfg c \<longleftrightarrow> (\<forall>t \<in> set (snd c). wpa_task_ok cfg t) \<and>
     wpa_sums cfg (fst c) (tsum (producers_left cfg) (snd c)) (tsum (sentinels_left cfg) (snd c))
       (tsum (consumers_left cfg) (snd c)) (tsum alive (snd c)) (tsum (unsent cfg) (snd c))
       (txor folded (snd c))"

definition wpa_weight :: "wpa_cfg \<Rightarrow> (('c, 'j) wpa_state, wpa_task) pool \<Rightarrow> nat" where
  "wpa_weight cfg c = tsum (wpa_task_weight cfg) (snd c) + length (stored (channel (fst c))) +
     (if 0 < unat (remaining (fst c)) then 2 * unat (n_consumers cfg) else 0)"

text \<open>An operation on the open channel, as a change of its list.\<close>

lemma open_send:
  assumes "ch_send ch c v = Some (ec, c')" and "\<not> closed c"
  shows "ec = Success \<and> \<not> closed c' \<and> room c' = room c \<and> length (stored c) < room c \<and>
    stored c' = stored c @ [v]"
  using send_cases [OF assms(1), of "stored c" "room c" "closed c"] assms(2) by (simp add: chan_is_def)

lemma open_receive:
  assumes "ch_receive ch c = Some (ec, v, c')" and "\<not> closed c"
  shows "ec = Success \<and> \<not> closed c' \<and> room c' = room c \<and> stored c = v # stored c'"
  using receive_cases [OF assms(1), of "stored c" "room c" "closed c"] assms(2)
  by (cases "stored c") (auto simp: chan_is_def)

lemma open_blocked:
  assumes "\<not> closed c"
  shows "ch_send ch c v = None \<longleftrightarrow> room c \<le> length (stored c)"
    and "ch_receive ch c = None \<longleftrightarrow> stored c = []"
  using send_None_iff [of c "stored c" "room c" "closed c" v]
    receive_None_iff [of c "stored c" "room c" "closed c"] assms by (simp_all add: chan_is_def)

section \<open>Every step keeps the invariant and decreases the weight\<close>

lemma wpa_step_ok:
  assumes "wpa_step ch jn cfg s t = Some (s', t', new)" and "wpa_task_ok cfg t"
  shows "wpa_task_ok cfg t' \<and> (\<forall>u \<in> set new. wpa_task_ok cfg u)"
  using assms by (cases t) (auto simp: Let_def inc_le split_range_def split: if_splits option.splits)

text \<open>A step's effect, with the sums of the other tasks as parameters.\<close>

definition wpa_local ::
  "wpa_cfg \<Rightarrow> ('c, 'j) wpa_state \<Rightarrow> wpa_task list \<Rightarrow> nat \<Rightarrow> nat \<Rightarrow> nat \<Rightarrow> nat \<Rightarrow> u64 multiset \<Rightarrow> u64 \<Rightarrow> bool"
where
  "wpa_local cfg s ts p st c l pe ac \<longleftrightarrow>
     wpa_sums cfg s (p + tsum (producers_left cfg) ts) (st + tsum (sentinels_left cfg) ts)
       (c + tsum (consumers_left cfg) ts) (l + tsum alive ts) (pe + tsum (unsent cfg) ts)
       (ac XOR txor folded ts)"

definition wpa_local_weight :: "wpa_cfg \<Rightarrow> ('c, 'j) wpa_state \<Rightarrow> wpa_task list \<Rightarrow> nat" where
  "wpa_local_weight cfg s ts = tsum (wpa_task_weight cfg) ts + length (stored (channel s)) +
     (if 0 < unat (remaining s) then 2 * unat (n_consumers cfg) else 0)"

lemma wpa_sums_flush:
  "wpa_sums cfg s p st c l pe (ac XOR acc) \<Longrightarrow>
    wpa_sums cfg (s\<lparr>checksum := checksum s XOR acc\<rparr>) p st c l pe ac"
  unfolding wpa_sums_def by (elim conjE exE, intro conjI exI) (auto intro: flow_flush)

lemma wpa_sums_workers:
  "wpa_sums cfg s p st c l pe ac \<Longrightarrow> running j = l' \<Longrightarrow> wpa_sums cfg (s\<lparr>workers := j\<rparr>) p st c l' pe ac"
  by (simp add: wpa_sums_def)

lemma wpa_sums_running: "wpa_sums cfg s p st c l pe ac \<Longrightarrow> running (workers s) = l"
  by (simp add: wpa_sums_def)

lemma wpa_producer_local:
  assumes "wpa_step ch jn cfg s (Producer i e) = Some (s', t', new)"
    and "wpa_local cfg s [Producer i e] p st c l pe ac"
  shows "wpa_local cfg s' (t' # new) p st c l pe ac \<and>
    wpa_local_weight cfg s' (t' # new) < wpa_local_weight cfg s [Producer i e]"
proof -
  from assms(2) obtain stop sent where inv: "unat (remaining s) = Suc p" "running (workers s) = Suc l"
    "room (channel s) = 256" "\<not> closed (channel s)" "length (stored (channel s)) \<le> 256"
    "stop + c = unat (n_consumers cfg)" "sent = 0" "st = 0"
    and flow: "item_flow (n_items cfg) (n_producers cfg) (work_iters cfg) (stored (channel s))
      (checksum s) (pe + mset (send_values i e)) stop 0 ac"
    by (auto simp: wpa_local_def wpa_sums_def)
  show ?thesis
  proof (cases "i < e")
    case True
    with assms(1) obtain ec ch' where snd: "ch_send ch (channel s) (i + 1) = Some (ec, ch')"
      and e: "s' = s\<lparr>channel := ch'\<rparr>" "t' = (if is_error ec then Returning else Producer (i + 1) e)" "new = []"
      by (auto split: option.splits)
    note sent' = open_send [OF snd inv(4)]
    have "item_flow (n_items cfg) (n_producers cfg) (work_iters cfg) (stored (channel s) @ [i + 1])
      (checksum s) (pe + mset (send_values (i + 1) e)) stop 0 ac"
      using flow inc_nonzero [OF True] by (intro flow_push_item) (simp_all add: send_values_unfold [OF True])
    then show ?thesis
      using sent' inv e True
      by (auto simp: wpa_local_def wpa_sums_def wpa_local_weight_def length_send_values unat_inc word_less_nat_alt)
  next
    case False
    then have vals: "send_values i e = []" by (rule send_values_end)
    have e: "s' = s\<lparr>remaining := remaining s - 1\<rparr>" "new = []"
      "t' = (if remaining s = 1 then Sentinels 0 else Returning)"
      using False assms(1) by auto
    have "remaining s = 1 \<longleftrightarrow> p = 0" using inv(1) by (simp add: word_unat_eq_iff)
    moreover have "unat (remaining s - 1) = p" using inv(1) unat_pred [of "remaining s"] by simp
    ultimately show ?thesis
      using inv flow e vals
      by (auto simp: wpa_local_def wpa_sums_def wpa_local_weight_def)
  qed
qed

lemma wpa_sentinels_local:
  assumes "wpa_step ch jn cfg s (Sentinels k) = Some (s', t', new)"
    and "wpa_local cfg s [Sentinels k] p st c l pe ac"
  shows "wpa_local cfg s' (t' # new) p st c l pe ac \<and>
    wpa_local_weight cfg s' (t' # new) < wpa_local_weight cfg s [Sentinels k]"
proof -
  from assms(2) obtain stop sent where inv: "unat (remaining s) = p" "running (workers s) = Suc l"
    "room (channel s) = 256" "\<not> closed (channel s)" "length (stored (channel s)) \<le> 256"
    "stop + c = unat (n_consumers cfg)" "sent + (if 0 < p then unat (n_consumers cfg) else 0) +
      (st + (unat (n_consumers cfg) - unat k)) = unat (n_consumers cfg)"
    and flow: "item_flow (n_items cfg) (n_producers cfg) (work_iters cfg) (stored (channel s))
      (checksum s) pe stop sent ac"
    by (auto simp: wpa_local_def wpa_sums_def)
  show ?thesis
  proof (cases "k < n_consumers cfg")
    case True
    with assms(1) obtain ec ch' where snd: "ch_send ch (channel s) 0 = Some (ec, ch')"
      and e: "s' = s\<lparr>channel := ch'\<rparr>" "t' = (if is_error ec then Returning else Sentinels (k + 1))" "new = []"
      by (auto split: option.splits)
    note sent' = open_send [OF snd inv(4)]
    have flow': "item_flow (n_items cfg) (n_producers cfg) (work_iters cfg) (stored (channel s) @ [0])
      (checksum s) pe stop (Suc sent) ac"
      using flow by (rule flow_push_sentinel)
    have k: "unat (n_consumers cfg) - unat k = Suc (unat (n_consumers cfg) - Suc (unat k))"
      using True by (simp add: word_less_nat_alt)
    have "wpa_sums cfg s' p (st + (unat (n_consumers cfg) - unat (k + 1))) c (Suc l) pe ac"
      unfolding wpa_sums_def using sent' inv flow' e k unat_inc [OF True]
      by (intro conjI exI [of _ stop] exI [of _ "Suc sent"]) simp_all
    then show ?thesis
      using sent' e k unat_inc [OF True] by (simp add: wpa_local_def wpa_local_weight_def)
  next
    case False
    with assms(1) have e: "s' = s" "t' = Returning" "new = []" by auto
    have "unat (n_consumers cfg) - unat k = 0" using False by (simp add: word_less_nat_alt)
    then show ?thesis using assms(2) by (simp add: e wpa_local_def wpa_local_weight_def)
  qed
qed

lemma wpa_consumer_local:
  assumes "wpa_step ch jn cfg s (Consumer acc) = Some (s', t', new)"
    and "wpa_local cfg s [Consumer acc] p st c l pe ac"
  shows "wpa_local cfg s' (t' # new) p st c l pe ac \<and>
    wpa_local_weight cfg s' (t' # new) < wpa_local_weight cfg s [Consumer acc]"
proof -
  from assms(2) obtain stop sent where inv: "unat (remaining s) = p" "running (workers s) = Suc l"
    "room (channel s) = 256" "\<not> closed (channel s)" "length (stored (channel s)) \<le> 256"
    "stop + Suc c = unat (n_consumers cfg)" "sent + (if 0 < p then unat (n_consumers cfg) else 0) +
      st = unat (n_consumers cfg)"
    and flow: "item_flow (n_items cfg) (n_producers cfg) (work_iters cfg) (stored (channel s))
      (checksum s) pe stop sent (ac XOR acc)"
    by (auto simp: wpa_local_def wpa_sums_def)
  from assms(1) obtain ec v ch' where rcv: "ch_receive ch (channel s) = Some (ec, v, ch')"
    and e: "s' = s\<lparr>channel := ch'\<rparr>" "new = []" "t' = (if is_error ec \<or> v = 0 then AddChecksum acc
      else Consumer (acc XOR asio_work v (work_iters cfg)))"
    by (auto split: option.splits)
  note got = open_receive [OF rcv inv(4)]
  have flow': "item_flow (n_items cfg) (n_producers cfg) (work_iters cfg) (stored ch')
      (checksum s) (pe + (if v = 0 then {#} else {#v#})) (stop + (if v = 0 then 1 else 0)) sent (ac XOR acc)"
    using flow got by (intro flow_read) simp
  show ?thesis
  proof (cases "v = 0")
    case True
    with flow' have "wpa_sums cfg s' p st c (Suc l) pe (ac XOR acc)"
      unfolding wpa_sums_def using got inv e
      by (intro conjI exI [of _ "Suc stop"] exI [of _ sent]) auto
    then show ?thesis using True e got by (simp add: wpa_local_def wpa_local_weight_def)
  next
    case False
    with flow' have "item_flow (n_items cfg) (n_producers cfg) (work_iters cfg) (stored ch')
      (checksum s) pe stop sent (ac XOR (acc XOR asio_work v (work_iters cfg)))"
      unfolding asio_work_spec by (intro flow_fold) simp
    then have "wpa_sums cfg s' p st (Suc c) (Suc l) pe (ac XOR (acc XOR asio_work v (work_iters cfg)))"
      unfolding wpa_sums_def using got inv e
      by (intro conjI exI [of _ stop] exI [of _ sent]) auto
    then show ?thesis using False e got by (simp add: wpa_local_def wpa_local_weight_def)
  qed
qed

lemma wpa_spawn_consumer_local:
  assumes "wpa_step ch jn cfg s (SpawnConsumers k) = Some (s', t', new)" and "k \<le> n_consumers cfg"
    and "wpa_local cfg s [SpawnConsumers k] p st c l pe ac"
  shows "wpa_local cfg s' (t' # new) p st c l pe ac \<and>
    wpa_local_weight cfg s' (t' # new) < wpa_local_weight cfg s [SpawnConsumers k]"
proof (cases "k < n_consumers cfg")
  case True
  then have e: "s' = s\<lparr>workers := join_spawn jn (workers s)\<rparr>" "t' = SpawnConsumers (k + 1)" "new = [Consumer 0]"
    using assms(1) by auto
  have k: "unat (n_consumers cfg) - unat k = Suc (unat (n_consumers cfg) - unat (k + 1))"
    using True by (simp add: unat_inc [OF True] word_less_nat_alt Suc_diff_Suc)
  from assms(3) have "wpa_sums cfg s' (p + unat (n_producers cfg)) st (Suc (c + (unat (n_consumers cfg) - unat (k + 1))))
      (Suc l) (pe + all_values_from (n_items cfg) (n_producers cfg) 0) ac"
    unfolding e by (intro wpa_sums_workers [of _ _ _ _ _ l]) (auto simp: wpa_local_def k dest: wpa_sums_running)
  then show ?thesis by (simp add: e wpa_local_def wpa_local_weight_def k)
next
  case False
  then have "t' = SpawnProducers 0" "s' = s" "new = []" "unat (n_consumers cfg) - unat k = 0"
    using assms(1) by (auto simp: word_less_nat_alt)
  with assms(3) show ?thesis by (simp add: wpa_local_def wpa_local_weight_def)
qed

lemma wpa_spawn_producer_local:
  assumes "wpa_step ch jn cfg s (SpawnProducers k) = Some (s', t', new)" and "k \<le> n_producers cfg"
    and "wpa_local cfg s [SpawnProducers k] p st c l pe ac"
  shows "wpa_local cfg s' (t' # new) p st c l pe ac \<and>
    wpa_local_weight cfg s' (t' # new) < wpa_local_weight cfg s [SpawnProducers k]"
proof (cases "k < n_producers cfg")
  case True
  obtain b e where be: "split_range (n_items cfg) (n_producers cfg) k = (b, e)" by fastforce
  with True have e: "s' = s\<lparr>workers := join_spawn jn (workers s)\<rparr>" "t' = SpawnProducers (k + 1)"
      "new = [Producer b e]"
    using assms(1) by auto
  have k: "unat (n_producers cfg) - unat k = Suc (unat (n_producers cfg) - unat (k + 1))"
    using True by (simp add: unat_inc [OF True] word_less_nat_alt Suc_diff_Suc)
  have vals: "all_values_from (n_items cfg) (n_producers cfg) k =
      mset (send_values b e) + all_values_from (n_items cfg) (n_producers cfg) (k + 1)"
    using be by (simp add: all_values_from_step [OF True] producer_values_def)
  from assms(3) have "wpa_sums cfg s' (Suc (p + (unat (n_producers cfg) - unat (k + 1)))) st c (Suc l)
      (pe + (all_values_from (n_items cfg) (n_producers cfg) (k + 1) + mset (send_values b e))) ac"
    unfolding e by (intro wpa_sums_workers [of _ _ _ _ _ l])
      (auto simp: wpa_local_def k vals ac_simps dest: wpa_sums_running)
  then show ?thesis by (simp add: e wpa_local_def wpa_local_weight_def k vals)
next
  case False
  then have "t' = JoinPool" "s' = s" "new = []" "unat (n_producers cfg) - unat k = 0"
    using assms(1) by (auto simp: word_less_nat_alt)
  with assms(3) show ?thesis by (simp add: wpa_local_def wpa_local_weight_def all_values_from_end [OF False])
qed

lemma wpa_step_local:
  assumes "wpa_step ch jn cfg s t = Some (s', t', new)" and "wpa_task_ok cfg t"
    and "wpa_local cfg s [t] p st c l pe ac"
  shows "wpa_local cfg s' (t' # new) p st c l pe ac \<and>
    wpa_local_weight cfg s' (t' # new) < wpa_local_weight cfg s [t]"
proof (cases t)
  case (Producer i e)
  with wpa_producer_local assms(1,3) show ?thesis by blast
next
  case (Sentinels k)
  with wpa_sentinels_local assms(1,3) show ?thesis by blast
next
  case (Consumer acc)
  with wpa_consumer_local assms(1,3) show ?thesis by blast
next
  case (AddChecksum acc)
  with assms(1,3) show ?thesis
    by (auto simp: wpa_local_def wpa_local_weight_def intro!: wpa_sums_flush)
next
  case Returning
  with assms(1,3) show ?thesis
    by (auto simp: wpa_local_def wpa_local_weight_def dest: wpa_sums_running intro!: wpa_sums_workers)
next
  case (SpawnConsumers k)
  with wpa_spawn_consumer_local assms show ?thesis by simp
next
  case (SpawnProducers k)
  with wpa_spawn_producer_local assms show ?thesis by simp
next
  case JoinPool
  with assms(1) obtain j where j: "join_wait jn (workers s) = Some j"
    "s' = s\<lparr>workers := j\<rparr>" "t' = Joined" "new = []" by (auto split: option.splits)
  with assms(3) JoinPool join_Some [OF j(1)] show ?thesis
    by (auto simp: wpa_local_def wpa_local_weight_def dest: wpa_sums_running intro!: wpa_sums_workers)
qed (use assms(1) in auto)

lemma wpa_inv_step:
  assumes "wpa_inv cfg c" and "pool_step (wpa_step ch jn cfg) c c'"
  shows "wpa_inv cfg c' \<and> wpa_weight cfg c' < wpa_weight cfg c"
  using assms(2)
proof cases
  case (run_task i ts s s' t' new)
  have ok: "wpa_task_ok cfg (ts ! i)" and all: "\<forall>t \<in> set ts. wpa_task_ok cfg t"
    using assms(1) run_task by (auto simp: wpa_inv_def)
  have "\<forall>t \<in> set (ts[i := t'] @ new). wpa_task_ok cfg t"
    using wpa_step_ok [OF run_task(4) ok] all set_upd_subset [of ts i t' new] by blast
  moreover
  have "wpa_local cfg s [ts ! i] (tsum (producers_left cfg) (others i ts)) (tsum (sentinels_left cfg) (others i ts))
      (tsum (consumers_left cfg) (others i ts)) (tsum alive (others i ts)) (tsum (unsent cfg) (others i ts))
      (txor folded (others i ts))"
    using assms(1) unfolding run_task wpa_inv_def fst_conv snd_conv wpa_local_def
      tsum_at [OF run_task(3)] txor_at [OF run_task(3)] by simp
  from wpa_step_local [OF run_task(4) ok this]
  have loc: "wpa_local cfg s' (t' # new) (tsum (producers_left cfg) (others i ts)) (tsum (sentinels_left cfg) (others i ts))
      (tsum (consumers_left cfg) (others i ts)) (tsum alive (others i ts)) (tsum (unsent cfg) (others i ts))
      (txor folded (others i ts))"
    and less: "wpa_local_weight cfg s' (t' # new) < wpa_local_weight cfg s [ts ! i]" by auto
  note loc
  moreover have "wpa_weight cfg c' < wpa_weight cfg c"
    using less unfolding run_task wpa_weight_def wpa_local_weight_def fst_conv snd_conv
      tsum_at [OF run_task(3)] tsum_upd [OF run_task(3)] by simp
  ultimately show ?thesis
    unfolding run_task wpa_inv_def fst_conv snd_conv wpa_local_def
      tsum_upd [OF run_task(3)] txor_upd [OF run_task(3)] by (simp add: add.assoc xor.assoc)
qed

lemma wpa_inv_start:
  assumes "n_producers cfg \<noteq> 0"
  shows "wpa_inv cfg (wpa_start ch jn cfg)"
proof -
  have "0 < unat (n_producers cfg)" using assms by (simp add: unat_gt_0)
  then show ?thesis
    by (auto simp: wpa_inv_def wpa_start_def wpa_sums_def asio_CAP_def item_flow_def
      intro!: exI [of _ "[]"])
qed

lemma wpa_stops: "wpa_finished t \<Longrightarrow> wpa_step ch jn cfg s t = None"
  by (cases t) auto

text \<open>
  When no task can move: a blocked receive means an empty channel, a blocked send a full one, so
  the senders are gone in the first case and the receivers in the second.
\<close>

lemma wpa_stuck_done:
  assumes inv: "wpa_inv cfg (s, ts)" and stuck: "pool_stuck (wpa_step ch jn cfg) (s, ts)"
    and cons: "n_consumers cfg \<noteq> 0" and t: "t \<in> set ts"
  shows "wpa_finished t"
proof -
  have none: "wpa_step ch jn cfg s u = None" if "u \<in> set ts" for u
    using stuck that by (simp add: pool_stuck_def)
  from inv obtain stop sent where sums: "unat (remaining s) = tsum (producers_left cfg) ts"
    "running (workers s) = tsum alive ts" "room (channel s) = 256" "\<not> closed (channel s)"
    "stop + tsum (consumers_left cfg) ts = unat (n_consumers cfg)"
    "sent + (if 0 < tsum (producers_left cfg) ts then unat (n_consumers cfg) else 0) +
      tsum (sentinels_left cfg) ts = unat (n_consumers cfg)"
    and flow: "item_flow (n_items cfg) (n_producers cfg) (work_iters cfg) (stored (channel s)) (checksum s)
      (tsum (unsent cfg) ts) stop sent (txor folded ts)"
    unfolding wpa_inv_def wpa_sums_def by auto
  note blocked = open_blocked [OF sums(4)]
  have kinds: "wpa_finished u \<or> u = JoinPool \<or> (\<exists>a. u = Consumer a) \<or> (\<exists>i e. u = Producer i e) \<or>
      (\<exists>k. u = Sentinels k \<and> k < n_consumers cfg)" if "u \<in> set ts" for u
    using none [OF that] by (cases u) (auto split: if_splits)
  have N: "0 < unat (n_consumers cfg)" using cons by (simp add: unat_gt_0)
  have no_consumer: "Consumer a \<notin> set ts" for a
  proof
    assume a: "Consumer a \<in> set ts"
    with none [OF a] have empty: "stored (channel s) = []"
      using blocked by (auto split: option.splits)
    then have room: "ch_send ch (channel s) v \<noteq> None" for v
      using open_blocked(1) [OF sums(4)] sums(3) by simp
    have "producers_left cfg u = 0 \<and> sentinels_left cfg u = 0" if "u \<in> set ts" for u
      using kinds [OF that] none [OF that] room
      by (cases u) (auto split: if_splits option.splits, (metis option.distinct(1))+)
    then have "tsum (producers_left cfg) ts = 0" "tsum (sentinels_left cfg) ts = 0"
      by (auto intro!: tsum_zeroI)
    with sums have "sent = unat (n_consumers cfg)" by simp
    moreover have "stop = sent" using flow empty by (auto simp: item_flow_def)
    moreover have "1 \<le> tsum (consumers_left cfg) ts" using tsum_member_le [OF a, of "consumers_left cfg"] by simp
    ultimately show False using sums(5) by simp
  qed
  have "tsum (consumers_left cfg) ts = 0"
  proof (rule tsum_zeroI)
    show "consumers_left cfg u = 0" if "u \<in> set ts" for u
      using kinds [OF that] no_consumer that by (cases u) auto
  qed
  with sums have stop: "stop = unat (n_consumers cfg)" by simp
  moreover have "stop \<le> sent" using flow by (auto simp: item_flow_def)
  moreover have "P = 0 \<and> S = 0"
    if "sent + (if 0 < P then unat (n_consumers cfg) else 0) + S = unat (n_consumers cfg)"
      "unat (n_consumers cfg) \<le> sent" for P S :: nat
    using that N by (cases "0 < P") simp_all
  ultimately have gone: "tsum (producers_left cfg) ts = 0" "tsum (sentinels_left cfg) ts = 0"
    using sums(6) by blast+
  have only: "wpa_finished u \<or> u = JoinPool" if "u \<in> set ts" for u
    using kinds [OF that] no_consumer that tsum_zeroD [OF gone(1) that] tsum_zeroD [OF gone(2) that]
    by (auto simp: word_less_nat_alt)
  then have "alive u = 0" if "u \<in> set ts" for u using that by (cases u) fastforce+
  then have "tsum alive ts = 0" by (rule tsum_zeroI)
  then have "join_wait jn (workers s) \<noteq> None" using sums(2) join_None_iff [of "workers s"] by simp
  with only [OF t] none [OF t] show ?thesis by (auto split: option.splits)
qed

lemma wpa_result:
  assumes inv: "wpa_inv cfg (s, ts)" and fin: "\<forall>t \<in> set ts. wpa_finished t"
    and cons: "n_consumers cfg \<noteq> 0"
  shows "stored (channel s) = [] \<and>
    checksum s = xor_work (work_iters cfg) (all_values_from (n_items cfg) (n_producers cfg) 0)"
proof -
  have zero: "tsum (producers_left cfg) ts = 0" "tsum (sentinels_left cfg) ts = 0"
    "tsum (consumers_left cfg) ts = 0" "tsum (unsent cfg) ts = {#}" "txor folded ts = 0"
  proof -
    have "producers_left cfg u = 0 \<and> sentinels_left cfg u = 0 \<and> consumers_left cfg u = 0 \<and>
      unsent cfg u = {#} \<and> folded u = 0" if "u \<in> set ts" for u
      using fin that by (cases u) auto
    then show "tsum (producers_left cfg) ts = 0" "tsum (sentinels_left cfg) ts = 0"
      "tsum (consumers_left cfg) ts = 0" "tsum (unsent cfg) ts = {#}" "txor folded ts = 0"
      by (auto intro!: tsum_zeroI tsum_mset_zero txor_zero)
  qed
  from inv have "\<exists>stop sent. stop = unat (n_consumers cfg) \<and> sent = unat (n_consumers cfg) \<and>
    item_flow (n_items cfg) (n_producers cfg) (work_iters cfg) (stored (channel s)) (checksum s) {#} stop sent 0"
    unfolding wpa_inv_def wpa_sums_def fst_conv snd_conv zero by auto
  then show ?thesis using cons by (auto simp: item_flow_def unat_eq_zero)
qed

end

locale worker_pool_asio = asio_runtime +
  fixes cfg :: wpa_cfg
  assumes some_producer: "n_producers cfg \<noteq> 0" and some_consumer: "n_consumers cfg \<noteq> 0"

sublocale worker_pool_asio \<subseteq> wpa: task_live "wpa_step ch jn cfg" "wpa_inv cfg" "wpa_weight cfg" wpa_finished
proof unfold_locales
  show "wpa_inv cfg c'" if "wpa_inv cfg c" "pool_step (wpa_step ch jn cfg) c c'" for c c'
    using wpa_inv_step [OF that] by blast
  show "wpa_weight cfg c' < wpa_weight cfg c" if "wpa_inv cfg c" "pool_step (wpa_step ch jn cfg) c c'" for c c'
    using wpa_inv_step [OF that] by blast
  show "wpa_step ch jn cfg s t = None" if "wpa_finished t" for s t
    using that by (rule wpa_stops)
  show "wpa_finished t" if "wpa_inv cfg c" "pool_stuck (wpa_step ch jn cfg) c" "t \<in> set (snd c)" for c t
    using that some_consumer by (cases c) (auto intro: wpa_stuck_done)
qed

context worker_pool_asio begin

lemma asio_pool_total:
  assumes "pool_reach (wpa_step ch jn cfg) (wpa_start ch jn cfg) (s, ts)"
    and "pool_stuck (wpa_step ch jn cfg) (s, ts)"
  shows "(\<forall>t \<in> set ts. wpa_finished t) \<and> stored (channel s) = [] \<and>
    checksum s = xor_work (work_iters cfg) (all_values_from (n_items cfg) (n_producers cfg) 0)"
proof -
  have inv: "wpa_inv cfg (s, ts)"
    by (rule wpa.inv_reach [OF wpa_inv_start [OF some_producer] assms(1)])
  with assms(2) have "\<forall>t \<in> set ts. wpa_finished t" by (simp add: wpa.stuck_iff_finished)
  with wpa_result [OF inv this some_consumer] show ?thesis by simp
qed

lemma asio_pool_length:
  assumes "pool_run (wpa_step ch jn cfg) sched (wpa_start ch jn cfg) = Some c"
  shows "length sched \<le> 2 * size (all_values_from (n_items cfg) (n_producers cfg) 0) +
    4 * unat (n_producers cfg) + 6 * unat (n_consumers cfg) + 3"
  using wpa.run_length [OF wpa_inv_start [OF some_producer] assms]
  by (simp add: wpa_weight_def wpa_start_def split: if_splits)

lemma asio_pool_flow:
  assumes "pool_reach (wpa_step ch jn cfg) (wpa_start ch jn cfg) (s, ts)"
  shows "length (stored (channel s)) \<le> 256 \<and> (\<exists>R z D. stored (channel s) = R @ replicate z 0 \<and>
    0 \<notin> set R \<and> (0 < tsum (producers_left cfg) ts \<longrightarrow> z = 0) \<and>
    tsum (unsent cfg) ts + mset R + D = all_values_from (n_items cfg) (n_producers cfg) 0 \<and>
    txor folded ts XOR checksum s = xor_work (work_iters cfg) D)"
proof -
  have "wpa_inv cfg (s, ts)"
    by (rule wpa.inv_reach [OF wpa_inv_start [OF some_producer] assms])
  then obtain stop sent where b: "length (stored (channel s)) \<le> 256"
    "sent + (if 0 < tsum (producers_left cfg) ts then unat (n_consumers cfg) else 0) +
      tsum (sentinels_left cfg) ts = unat (n_consumers cfg)"
    "item_flow (n_items cfg) (n_producers cfg) (work_iters cfg) (stored (channel s)) (checksum s)
      (tsum (unsent cfg) ts) stop sent (txor folded ts)"
    unfolding wpa_inv_def wpa_sums_def by auto
  moreover have "sent = 0" if "0 < tsum (producers_left cfg) ts"
    using b(2) by (simp only: that if_True)
  ultimately show ?thesis unfolding item_flow_def by (metis add_eq_0_iff_both_eq_0)
qed

end

section \<open>Without producers\<close>

text \<open>
  With \<open>--num-producers=0\<close> no coroutine is the last producer, so nobody sends the sentinels.
\<close>

fun idle_main :: "wpa_cfg \<Rightarrow> wpa_task \<Rightarrow> nat \<Rightarrow> bool" where
  "idle_main cfg (SpawnConsumers c) k = (c \<le> n_consumers cfg \<and> k = unat c)"
| "idle_main cfg (SpawnProducers p) k = (k = unat (n_consumers cfg))"
| "idle_main cfg JoinPool k = (k = unat (n_consumers cfg))"
| "idle_main cfg _ k = False"

context asio_runtime begin

definition wpa_idle :: "wpa_cfg \<Rightarrow> (('c, 'j) wpa_state, wpa_task) pool \<Rightarrow> bool" where
  "wpa_idle cfg c \<longleftrightarrow> stored (channel (fst c)) = [] \<and> \<not> closed (channel (fst c)) \<and>
     (\<exists>m k. snd c = m # replicate k (Consumer 0) \<and> idle_main cfg m k \<and> running (workers (fst c)) = k)"

lemma wpa_idle_step:
  assumes "wpa_idle cfg c" and "pool_step (wpa_step ch jn cfg) c c'"
    and "n_producers cfg = 0" and "n_consumers cfg \<noteq> 0"
  shows "wpa_idle cfg c'"
  using assms(2)
proof cases
  case (run_task i ts s s' t' new)
  from assms(1) run_task obtain m k where idle: "stored (channel s) = []" "\<not> closed (channel s)"
    "ts = m # replicate k (Consumer 0)" "idle_main cfg m k" "running (workers s) = k"
    by (auto simp: wpa_idle_def)
  have "ch_receive ch (channel s) = None" using idle by (simp add: open_blocked)
  then have i: "i = 0"
    using run_task idle by (cases i) auto
  have N: "0 < unat (n_consumers cfg)" using assms(4) by (simp add: unat_gt_0)
  show ?thesis
  proof (cases m)
    case (SpawnConsumers a)
    show ?thesis
    proof (cases "a < n_consumers cfg")
      case True
      have "replicate k (Consumer 0) @ [Consumer 0] = replicate (Suc k) (Consumer 0)"
        by (simp add: replicate_append_same)
      then show ?thesis using True run_task idle i SpawnConsumers unat_inc [OF True] inc_le [OF True]
        by (auto simp: wpa_idle_def)
    next
      case False
      then show ?thesis using run_task idle i SpawnConsumers
        by (auto simp: wpa_idle_def)
    qed
  next
    case (SpawnProducers a)
    then show ?thesis using run_task idle i assms(3) by (auto simp: wpa_idle_def)
  next
    case JoinPool
    then show ?thesis using run_task idle i N join_None_iff [of "workers s"] by auto
  qed (use idle in auto)
qed

lemma wpa_idle_reach:
  assumes "pool_reach (wpa_step ch jn cfg) (wpa_start ch jn cfg) c"
    and "n_producers cfg = 0" and "n_consumers cfg \<noteq> 0"
  shows "wpa_idle cfg c"
  using assms(1)
proof (induction rule: rtranclp_induct)
  case base
  show ?case by (simp add: wpa_idle_def wpa_start_def)
next
  case (step c d)
  then show ?case using wpa_idle_step assms(2,3) by blast
qed

lemma wpa_idle_unfinished: "wpa_idle cfg (s, ts) \<Longrightarrow> \<exists>t \<in> set ts. \<not> wpa_finished t"
  unfolding wpa_idle_def by (auto elim: idle_main.elims(2))

end

section \<open>Properties\<close>

definition wpa_small :: wpa_cfg where
  "wpa_small = \<lparr>n_items = 2, n_producers = 2, n_consumers = 1, work_iters = 1\<rparr>"

lemma wpa_small_sel [simp]:
  "n_items wpa_small = 2" "n_producers wpa_small = 2" "n_consumers wpa_small = 1" "work_iters wpa_small = 1"
  by (simp_all add: wpa_small_def)

interpretation small_asio: worker_pool_asio list_channel fst "\<lambda>c. fst (snd c)" "\<lambda>c. snd (snd c)"
    nat_join "\<lambda>j. j" wpa_small
  by unfold_locales simp_all

text \<open>
  C2. Functional correctness of the Asio worker pool. Whatever the interleaving, a run of the
  pool that cannot go on has finished every coroutine and \<open>main\<close>, has emptied the channel, and
  has computed exactly the specified checksum of the items 1 to \<open>n_items\<close>. Hypotheses: the
  documented contract of the channel and of \<open>join\<close>, at least one producer and consumer, and
  \<open>n_producers * n_items\<close> below 2 to the 64th.
\<close>

theorem wpa_checksum_correct:
  assumes "asio_channel ch stored room closed" and "asio_join jn running"
    and "n_consumers cfg \<noteq> 0" and "n_producers cfg \<noteq> 0"
    and "unat (n_producers cfg) * unat (n_items cfg) < 2 ^ 64"
    and "pool_reach (wpa_step ch jn cfg) (wpa_start ch jn cfg) (s, ts)"
    and "pool_stuck (wpa_step ch jn cfg) (s, ts)"
  shows "(\<forall>t \<in> set ts. wpa_finished t) \<and> stored (channel s) = [] \<and>
    checksum s = checksum_spec (n_items cfg) (work_iters cfg)"
  using worker_pool_asio.asio_pool_total [OF worker_pool_asio.intro [OF asio_runtime.intro
      [OF assms(1,2)] worker_pool_asio_axioms.intro [OF assms(4,3)]] assms(6,7)]
    xor_work_all [OF assms(5,4)] by simp

theorem wpa_checksum_correct_witness:
  "\<exists>s ts. pool_reach (wpa_step list_channel nat_join wpa_small) (wpa_start list_channel nat_join wpa_small) (s, ts) \<and>
    (\<forall>t \<in> set ts. wpa_finished t) \<and> checksum s = 22681772974"
proof -
  obtain s ts where run: "pool_reach (wpa_step list_channel nat_join wpa_small)
      (wpa_start list_channel nat_join wpa_small) (s, ts)"
    "pool_stuck (wpa_step list_channel nat_join wpa_small) (s, ts)"
    using small_asio.wpa.reaches_stuck [OF listrt.wpa_inv_start [OF small_asio.some_producer]] by force
  from wpa_checksum_correct [OF listch.asio_channel_axioms natjn.asio_join_axioms _ _ _ this] run
  show ?thesis by (auto simp: checksum_two)
qed

text \<open>
  Termination with an explicit bound: no schedule of the Asio worker pool with a producer and
  a consumer is longer than the given number of actions.
\<close>

theorem wpa_run_bounded:
  assumes "asio_channel ch stored room closed" and "asio_join jn running"
    and "n_consumers cfg \<noteq> 0" and "n_producers cfg \<noteq> 0"
    and "pool_run (wpa_step ch jn cfg) sched (wpa_start ch jn cfg) = Some c"
  shows "length sched \<le> 2 * size (all_values_from (n_items cfg) (n_producers cfg) 0) +
    4 * unat (n_producers cfg) + 6 * unat (n_consumers cfg) + 3"
  by (rule worker_pool_asio.asio_pool_length [OF worker_pool_asio.intro [OF asio_runtime.intro
      [OF assms(1,2)] worker_pool_asio_axioms.intro [OF assms(4,3)]] assms(5)])

theorem wpa_run_bounded_witness:
  "\<exists>c. pool_run (wpa_step list_channel nat_join wpa_small) [0, 0, 0] (wpa_start list_channel nat_join wpa_small) = Some c \<and>
    length [0, 0, 0 :: nat] \<le> 2 * size (all_values_from 2 2 0) + 17"
proof -
  have "\<exists>c. pool_run (wpa_step list_channel nat_join wpa_small) [0, 0, 0]
      (wpa_start list_channel nat_join wpa_small) = Some c"
    by (simp add: wpa_start_def split_range_def Let_def)
  with wpa_run_bounded [OF listch.asio_channel_axioms natjn.asio_join_axioms, of wpa_small "[0, 0, 0]"]
  show ?thesis by auto
qed

text \<open>
  No item is lost and none is processed twice by the Asio pool, and the sentinels follow all
  items: in every reachable state the channel holds at most 256 values, items first and sentinels
  behind them (none while a producer is left); the unsent items, those in the channel and a
  multiset \<open>D\<close> make up what the producers send; and the accumulators and the checksum together
  hold the exclusive-or of the work on \<open>D\<close>.
\<close>

theorem wpa_items_conserved:
  assumes "asio_channel ch stored room closed" and "asio_join jn running"
    and "n_consumers cfg \<noteq> 0" and "n_producers cfg \<noteq> 0"
    and "pool_reach (wpa_step ch jn cfg) (wpa_start ch jn cfg) (s, ts)"
  shows "length (stored (channel s)) \<le> 256 \<and> (\<exists>R z D. stored (channel s) = R @ replicate z 0 \<and>
    0 \<notin> set R \<and> (0 < tsum (producers_left cfg) ts \<longrightarrow> z = 0) \<and>
    tsum (unsent cfg) ts + mset R + D = all_values_from (n_items cfg) (n_producers cfg) 0 \<and>
    txor folded ts XOR checksum s = xor_work (work_iters cfg) D)"
  by (rule worker_pool_asio.asio_pool_flow [OF worker_pool_asio.intro [OF asio_runtime.intro
      [OF assms(1,2)] worker_pool_asio_axioms.intro [OF assms(4,3)]] assms(5)])

theorem wpa_items_conserved_witness:
  "\<exists>s ts R D. pool_reach (wpa_step list_channel nat_join wpa_small) (wpa_start list_channel nat_join wpa_small) (s, ts) \<and>
    0 < tsum (producers_left wpa_small) ts \<and> fst (channel s) = R \<and> 0 \<notin> set R \<and>
    tsum (unsent wpa_small) ts + mset R + D = all_values_from 2 2 0"
proof -
  have start: "pool_reach (wpa_step list_channel nat_join wpa_small) (wpa_start list_channel nat_join wpa_small)
    (fst (wpa_start list_channel nat_join wpa_small), snd (wpa_start list_channel nat_join wpa_small))" by simp
  from wpa_items_conserved [OF listch.asio_channel_axioms natjn.asio_join_axioms _ _ start]
  show ?thesis using start by (force simp: wpa_start_def)
qed

text \<open>
  C40. Without producers the Asio pool hangs: with \<open>--num-producers=0\<close> and any consumers, no
  reachable state has every coroutine finished, since the sentinels are sent by the last producer.
\<close>

theorem wpa_no_producers_hang:
  assumes "asio_channel ch stored room closed" and "asio_join jn running"
    and "n_producers cfg = 0" and "n_consumers cfg \<noteq> 0"
    and "pool_reach (wpa_step ch jn cfg) (wpa_start ch jn cfg) (s, ts)"
  shows "\<exists>t \<in> set ts. \<not> wpa_finished t"
  using asio_runtime.wpa_idle_unfinished asio_runtime.wpa_idle_reach asio_runtime.intro [OF assms(1,2)]
    assms(3,4,5) by metis

theorem wpa_no_producers_hang_witness:
  "\<exists>s ts. pool_reach (wpa_step list_channel nat_join (wpa_small\<lparr>n_producers := 0\<rparr>))
      (wpa_start list_channel nat_join (wpa_small\<lparr>n_producers := 0\<rparr>)) (s, ts) \<and>
    pool_stuck (wpa_step list_channel nat_join (wpa_small\<lparr>n_producers := 0\<rparr>)) (s, ts) \<and>
    (\<exists>t \<in> set ts. \<not> wpa_finished t)"
proof -
  let ?cfg = "wpa_small\<lparr>n_producers := 0\<rparr>"
  have "\<exists>s. pool_run (wpa_step list_channel nat_join ?cfg) [0, 0, 0] (wpa_start list_channel nat_join ?cfg) =
      Some (s, [JoinPool, Consumer 0]) \<and> pool_stuck (wpa_step list_channel nat_join ?cfg) (s, [JoinPool, Consumer 0])"
    by (simp add: wpa_start_def pool_stuck_def list_channel_def nat_join_def)
  then obtain s where run: "pool_reach (wpa_step list_channel nat_join ?cfg)
      (wpa_start list_channel nat_join ?cfg) (s, [JoinPool, Consumer 0])"
    "pool_stuck (wpa_step list_channel nat_join ?cfg) (s, [JoinPool, Consumer 0])"
    using pool_run_reach by blast
  from wpa_no_producers_hang [OF listch.asio_channel_axioms natjn.asio_join_axioms _ _ run(1)] run
  show ?thesis by (intro exI conjI) auto
qed

end
