(* ===== verification/Ping_Pong_Photon.thy ===== *)
theory Ping_Pong_Photon
  imports Tasks Photon_Sync Fifo
begin

text \<open>
  \<open>cpp/queue_ping_pong_photon.cpp\<close>: pairs of coroutines bounce a counter over two one-place
  slots, any number of pairs at a time, on a work pool of several vcpus. The file models the
  slot (\<open>struct Slot\<close>) and both lambdas action by action, and proves that every run ends, that it
  ends with all coroutines finished, and what is then in the slots.
\<close>

section \<open>The slot\<close>

record 's slot =
  slot_value :: u64
  full :: 's
  empty :: 's

definition slot_init :: "('s, 'm) photon_ops \<Rightarrow> 's slot" where
  "slot_init ph = \<lparr>slot_value = 0, full = sem_init ph 0, empty = sem_init ph 1\<rparr>"

text \<open>\<open>send(v)\<close>: \<open>empty.wait(1); value = v; full.signal(1);\<close>\<close>

datatype send_pc = SendWait | SendWrite | SendSignal

fun send_step :: "('s, 'm) photon_ops \<Rightarrow> u64 \<Rightarrow> send_pc \<Rightarrow> 's slot \<Rightarrow> ('s slot \<times> send_pc option) option" where
  "send_step ph v SendWait sl =
     (case sem_wait ph (empty sl) 1 of
        None \<Rightarrow> None
      | Some s \<Rightarrow> Some (sl\<lparr>empty := s\<rparr>, Some SendWrite))"
| "send_step ph v SendWrite sl = Some (sl\<lparr>slot_value := v\<rparr>, Some SendSignal)"
| "send_step ph v SendSignal sl = Some (sl\<lparr>full := sem_signal ph (full sl) 1\<rparr>, None)"

text \<open>\<open>recv()\<close>: \<open>full.wait(1); v = value; empty.signal(1); return v;\<close>\<close>

datatype recv_pc = RecvWait | RecvRead | RecvSignal u64

fun recv_step :: "('s, 'm) photon_ops \<Rightarrow> recv_pc \<Rightarrow> 's slot \<Rightarrow> ('s slot \<times> (recv_pc + u64)) option" where
  "recv_step ph RecvWait sl =
     (case sem_wait ph (full sl) 1 of
        None \<Rightarrow> None
      | Some s \<Rightarrow> Some (sl\<lparr>full := s\<rparr>, Inl RecvRead))"
| "recv_step ph RecvRead sl = Some (sl, Inl (RecvSignal (slot_value sl)))"
| "recv_step ph (RecvSignal v) sl = Some (sl\<lparr>empty := sem_signal ph (empty sl) 1\<rparr>, Inr v)"

text \<open>\<open>send\<close> and \<open>recv\<close> run to their return when no other call interferes.\<close>

fun send_left :: "send_pc \<Rightarrow> nat" where
  "send_left SendWait = 3"
| "send_left SendWrite = 2"
| "send_left SendSignal = 1"

function send_run :: "('s, 'm) photon_ops \<Rightarrow> u64 \<Rightarrow> send_pc \<Rightarrow> 's slot \<Rightarrow> 's slot option" where
  "send_run ph v pc sl =
     (case send_step ph v pc sl of
        None \<Rightarrow> None
      | Some (sl', None) \<Rightarrow> Some sl'
      | Some (sl', Some pc') \<Rightarrow> send_run ph v pc' sl')"
  by pat_completeness auto
termination
proof (relation "measure (\<lambda>(ph, v, pc, sl). send_left pc)")
  show "((ph, v, pc', sl'), ph, v, pc, sl) \<in> measure (\<lambda>(ph, v, pc, sl). send_left pc)"
    if "send_step ph v pc sl = Some x" "(sl', y) = x" "y = Some pc'"
    for ph :: "('s, 'm) photon_ops" and v pc sl x sl' y pc'
    using that by (cases pc) (auto split: option.splits)
qed simp

definition slot_send :: "('s, 'm) photon_ops \<Rightarrow> 's slot \<Rightarrow> u64 \<Rightarrow> 's slot option" where
  "slot_send ph sl v = send_run ph v SendWait sl"

fun recv_left :: "recv_pc \<Rightarrow> nat" where
  "recv_left RecvWait = 3"
| "recv_left RecvRead = 2"
| "recv_left (RecvSignal _) = 1"

function recv_run :: "('s, 'm) photon_ops \<Rightarrow> recv_pc \<Rightarrow> 's slot \<Rightarrow> (u64 \<times> 's slot) option" where
  "recv_run ph pc sl =
     (case recv_step ph pc sl of
        None \<Rightarrow> None
      | Some (sl', Inr v) \<Rightarrow> Some (v, sl')
      | Some (sl', Inl pc') \<Rightarrow> recv_run ph pc' sl')"
  by pat_completeness auto
termination
proof (relation "measure (\<lambda>(ph, pc, sl). recv_left pc)")
  show "((ph, pc', sl'), ph, pc, sl) \<in> measure (\<lambda>(ph, pc, sl). recv_left pc)"
    if "recv_step ph pc sl = Some x" "(sl', y) = x" "y = Inl pc'"
    for ph :: "('s, 'm) photon_ops" and pc sl x sl' y pc'
    using that by (cases pc) (auto split: option.splits)
qed simp

definition slot_recv :: "('s, 'm) photon_ops \<Rightarrow> 's slot \<Rightarrow> (u64 \<times> 's slot) option" where
  "slot_recv ph sl = recv_run ph RecvWait sl"

declare send_run.simps [simp del] recv_run.simps [simp del]

section \<open>The two coroutines of a pair\<close>

text \<open>
  Both lambdas run the same loop: receive, add one, and send the sum; the sum that reaches the
  limit is sent to release the peer and ends the loop. The first lambda sends on \<open>ab\<close>, receives
  on \<open>ba\<close> and starts by sending 0; the second has the slots the other way round and starts by
  receiving. \<open>PeerSend v fin pc\<close> is inside a send, \<open>fin\<close> telling whether it is the releasing one.
\<close>

datatype peer_pc = PeerSend u64 bool send_pc | PeerRecv recv_pc | PeerNext u64 | PeerSignal | PeerDone

fun peer_step ::
  "('s, 'm) photon_ops \<Rightarrow> u64 \<Rightarrow> peer_pc \<Rightarrow> 's slot \<Rightarrow> 's slot \<Rightarrow> ('s slot \<times> 's slot \<times> peer_pc) option"
where
  "peer_step ph per_pair (PeerSend v fin pc) out inn =
     (case send_step ph v pc out of
        None \<Rightarrow> None
      | Some (out', Some pc') \<Rightarrow> Some (out', inn, PeerSend v fin pc')
      | Some (out', None) \<Rightarrow> Some (out', inn, if fin then PeerSignal else PeerRecv RecvWait))"
| "peer_step ph per_pair (PeerRecv pc) out inn =
     (case recv_step ph pc inn of
        None \<Rightarrow> None
      | Some (inn', Inl pc') \<Rightarrow> Some (out, inn', PeerRecv pc')
      | Some (inn', Inr v) \<Rightarrow> Some (out, inn', PeerNext v))"
| "peer_step ph per_pair (PeerNext v) out inn =
     (let nxt = v + 1
      in if per_pair \<le> nxt then Some (out, inn, PeerSend nxt True SendWait)
         else Some (out, inn, PeerSend nxt False SendWait))"
| "peer_step ph per_pair _ out inn = None"

record 's pair =
  ab :: "'s slot"
  ba :: "'s slot"

record 's ppp_state =
  ps :: "'s pair list"
  done_sem :: 's

datatype ppp_task =
    Ping u64 peer_pc
  | Pong u64 peer_pc
  | SpawnPing u64
  | SpawnPong u64
  | AwaitDone
  | Finished

text \<open>\<open>main\<close>: the number of messages of a pair, and the loop that starts the pairs.\<close>

definition photon_total :: u64 where
  "photon_total = 100000"

definition photon_pairs :: "u64 \<Rightarrow> u64" where
  "photon_pairs pairs = (if pairs = 0 then 1 else pairs)"

definition photon_per_pair :: "u64 \<Rightarrow> u64" where
  "photon_per_pair pairs =
     (let per_pair = photon_total div pairs in if per_pair < 1 then 1 else per_pair)"

fun ppp_step ::
  "('s, 'm) photon_ops \<Rightarrow> u64 \<Rightarrow> ('s ppp_state, ppp_task) task_step"
where
  "ppp_step ph pairs s (Ping i pc) =
     (if pc = PeerSignal then
        Some (s\<lparr>done_sem := sem_signal ph (done_sem s) 1\<rparr>, Ping i PeerDone, [])
      else
        let p = ps s ! unat i in
        case peer_step ph (photon_per_pair pairs) pc (ab p) (ba p) of
          None \<Rightarrow> None
        | Some (out, inn, pc') \<Rightarrow> Some (s\<lparr>ps := (ps s)[unat i := \<lparr>ab = out, ba = inn\<rparr>]\<rparr>, Ping i pc', []))"
| "ppp_step ph pairs s (Pong i pc) =
     (if pc = PeerSignal then
        Some (s\<lparr>done_sem := sem_signal ph (done_sem s) 1\<rparr>, Pong i PeerDone, [])
      else
        let p = ps s ! unat i in
        case peer_step ph (photon_per_pair pairs) pc (ba p) (ab p) of
          None \<Rightarrow> None
        | Some (out, inn, pc') \<Rightarrow> Some (s\<lparr>ps := (ps s)[unat i := \<lparr>ab = inn, ba = out\<rparr>]\<rparr>, Pong i pc', []))"
| "ppp_step ph pairs s (SpawnPing i) =
     Some (if i < pairs then (s, SpawnPong i, [Ping i (PeerSend 0 False SendWait)])
           else (s, AwaitDone, []))"
| "ppp_step ph pairs s (SpawnPong i) =
     Some (s, SpawnPing (i + 1), [Pong i (PeerRecv RecvWait)])"
| "ppp_step ph pairs s AwaitDone =
     (case sem_wait ph (done_sem s) (2 * pairs) of
        None \<Rightarrow> None
      | Some d \<Rightarrow> Some (s\<lparr>done_sem := d\<rparr>, Finished, []))"
| "ppp_step ph pairs s Finished = None"

definition ppp_start :: "('s, 'm) photon_ops \<Rightarrow> u64 \<Rightarrow> ('s ppp_state, ppp_task) pool" where
  "ppp_start ph pairs =
     (\<lparr>ps = replicate (unat pairs) \<lparr>ab = slot_init ph, ba = slot_init ph\<rparr>,
       done_sem = sem_init ph 0\<rparr>, [SpawnPing 0])"

fun ppp_finished :: "ppp_task \<Rightarrow> bool" where
  "ppp_finished (Ping _ pc) = (pc = PeerDone)"
| "ppp_finished (Pong _ pc) = (pc = PeerDone)"
| "ppp_finished t = (t = Finished)"

section \<open>One pair\<close>

text \<open>
  The pair exchanges the messages 0, 1, 2, and so on; even ones go from the first coroutine to the
  second. While message \<open>v\<close> is on its way, one side works and the other waits for its reply
  or, if it has sent the releasing message, has left the loop. \<open>half\<close> lists the places message
  \<open>v\<close> can be, from the sender \<open>x\<close> with slot \<open>o\<close> to the receiver \<open>y\<close>.
\<close>

definition left :: "peer_pc \<Rightarrow> bool" where
  "left pc \<longleftrightarrow> pc = PeerSignal \<or> pc = PeerDone"

definition waiting :: "bool \<Rightarrow> peer_pc \<Rightarrow> bool" where
  "waiting over pc \<longleftrightarrow> (if over then left pc else pc = PeerRecv RecvWait)"

definition slot_is :: "('s \<Rightarrow> u64) \<Rightarrow> 's slot \<Rightarrow> nat \<Rightarrow> nat \<Rightarrow> bool" where
  "slot_is cnt sl f e \<longleftrightarrow> unat (cnt (full sl)) = f \<and> unat (cnt (empty sl)) = e"

datatype stage = AtSend | AtWrite | AtSignal | InSlot | AtRead | AtRelease | AtNext

fun half_at ::
  "stage \<Rightarrow> ('s \<Rightarrow> u64) \<Rightarrow> u64 \<Rightarrow> u64 \<Rightarrow> peer_pc \<Rightarrow> peer_pc \<Rightarrow> 's slot \<Rightarrow> bool"
where
  "half_at AtSend cnt limit v x y ou =
     (x = PeerSend v (limit \<le> v) SendWait \<and> waiting (limit < v) y \<and> slot_is cnt ou 0 1)"
| "half_at AtWrite cnt limit v x y ou =
     (x = PeerSend v (limit \<le> v) SendWrite \<and> waiting (limit < v) y \<and> slot_is cnt ou 0 0)"
| "half_at AtSignal cnt limit v x y ou =
     (x = PeerSend v (limit \<le> v) SendSignal \<and> waiting (limit < v) y \<and> slot_is cnt ou 0 0 \<and>
      slot_value ou = v)"
| "half_at InSlot cnt limit v x y ou =
     (waiting (limit \<le> v) x \<and> waiting (limit < v) y \<and> slot_is cnt ou 1 0 \<and> slot_value ou = v)"
| "half_at AtRead cnt limit v x y ou =
     (waiting (limit \<le> v) x \<and> y = PeerRecv RecvRead \<and> v \<le> limit \<and> slot_is cnt ou 0 0 \<and>
      slot_value ou = v)"
| "half_at AtRelease cnt limit v x y ou =
     (waiting (limit \<le> v) x \<and> y = PeerRecv (RecvSignal v) \<and> v \<le> limit \<and> slot_is cnt ou 0 0)"
| "half_at AtNext cnt limit v x y ou =
     (waiting (limit \<le> v) x \<and> y = PeerNext v \<and> v \<le> limit \<and> slot_is cnt ou 0 1)"

definition half ::
  "('s \<Rightarrow> u64) \<Rightarrow> u64 \<Rightarrow> u64 \<Rightarrow> peer_pc \<Rightarrow> peer_pc \<Rightarrow> 's slot \<Rightarrow> 's slot \<Rightarrow> bool"
where
  "half cnt limit v x y ou inn \<longleftrightarrow> slot_is cnt inn 0 1 \<and> (\<exists>st. half_at st cnt limit v x y ou)"

lemma halfI: "slot_is cnt inn 0 1 \<Longrightarrow> half_at st cnt limit v x y ou \<Longrightarrow> half cnt limit v x y ou inn"
  by (auto simp: half_def)

lemma halfE:
  assumes "half cnt limit v x y ou inn"
  obtains st where "slot_is cnt inn 0 1" "half_at st cnt limit v x y ou"
  using assms by (auto simp: half_def)

lemma waiting_simps [simp]:
  "\<not> waiting b (PeerSend v f pc)" "\<not> waiting b (PeerNext v)" "\<not> waiting b (PeerRecv RecvRead)"
  "\<not> waiting b (PeerRecv (RecvSignal v))" "waiting b (PeerRecv RecvWait) = (\<not> b)"
  "waiting b PeerSignal = b" "waiting b PeerDone = b"
  by (auto simp: waiting_def left_def)

definition turn ::
  "bool \<Rightarrow> ('s \<Rightarrow> u64) \<Rightarrow> u64 \<Rightarrow> u64 \<Rightarrow> peer_pc \<Rightarrow> peer_pc \<Rightarrow> 's slot \<Rightarrow> 's slot \<Rightarrow> bool"
where
  "turn ev cnt limit v a b sab sba \<longleftrightarrow> unat v \<le> unat limit + 1 \<and>
     (if even (unat v) = ev then half cnt limit v a b sab sba else half cnt limit v b a sba sab)"

definition pair_inv ::
  "('s \<Rightarrow> u64) \<Rightarrow> u64 \<Rightarrow> peer_pc \<Rightarrow> peer_pc \<Rightarrow> 's slot \<Rightarrow> 's slot \<Rightarrow> bool"
where
  "pair_inv cnt limit a b sab sba \<longleftrightarrow> (\<exists>v. turn True cnt limit v a b sab sba)"

lemma turn_swap: "turn ev cnt limit v a b sab sba \<longleftrightarrow> turn (\<not> ev) cnt limit v b a sba sab"
  by (auto simp: turn_def)

text \<open>
  The weight of a pair: ten for each message not yet sent, and the place of the one on its way.
\<close>

definition messages_left :: "u64 \<Rightarrow> u64 \<Rightarrow> nat" where
  "messages_left limit v = 10 * (unat limit + 2 - unat v)"

fun peer_weight :: "u64 \<Rightarrow> 's slot \<Rightarrow> peer_pc \<Rightarrow> nat" where
  "peer_weight limit inn (PeerSend v _ SendWait) = messages_left limit v + 9"
| "peer_weight limit inn (PeerSend v _ SendWrite) = messages_left limit v + 8"
| "peer_weight limit inn (PeerSend v _ SendSignal) = messages_left limit v + 7"
| "peer_weight limit inn (PeerRecv RecvWait) = 0"
| "peer_weight limit inn (PeerRecv RecvRead) = messages_left limit (slot_value inn) + 3"
| "peer_weight limit inn (PeerRecv (RecvSignal v)) = messages_left limit v + 2"
| "peer_weight limit inn (PeerNext v) = messages_left limit v + 1"
| "peer_weight limit inn PeerSignal = 1"
| "peer_weight limit inn PeerDone = 0"

definition slot_weight :: "('s \<Rightarrow> u64) \<Rightarrow> u64 \<Rightarrow> 's slot \<Rightarrow> nat" where
  "slot_weight cnt limit sl =
     (if 0 < unat (cnt (full sl)) then messages_left limit (slot_value sl) + 4 else 0)"

definition pair_weight ::
  "('s \<Rightarrow> u64) \<Rightarrow> u64 \<Rightarrow> peer_pc \<Rightarrow> peer_pc \<Rightarrow> 's slot \<Rightarrow> 's slot \<Rightarrow> nat"
where
  "pair_weight cnt limit a b sab sba =
     peer_weight limit sba a + peer_weight limit sab b + slot_weight cnt limit sab +
     slot_weight cnt limit sba"

lemma pair_weight_swap: "pair_weight cnt limit a b sab sba = pair_weight cnt limit b a sba sab"
  by (simp add: pair_weight_def)

context photon_sync begin

lemma slot_wait:
  "slot_is cnt sl f e \<Longrightarrow> sem_wait ph (full sl) 1 = Some s \<Longrightarrow>
    slot_is cnt (sl\<lparr>full := s\<rparr>) (f - 1) e \<and> 0 < f"
  "slot_is cnt sl f e \<Longrightarrow> sem_wait ph (empty sl) 1 = Some s \<Longrightarrow>
    slot_is cnt (sl\<lparr>empty := s\<rparr>) f (e - 1) \<and> 0 < e"
  by (auto simp: slot_is_def dest!: wait_Some)

lemma slot_signal:
  "slot_is cnt sl 0 e \<Longrightarrow> slot_is cnt (sl\<lparr>full := sem_signal ph (full sl) 1\<rparr>) 1 e"
  "slot_is cnt sl f 0 \<Longrightarrow> slot_is cnt (sl\<lparr>empty := sem_signal ph (empty sl) 1\<rparr>) f 1"
  by (auto simp: slot_is_def signal_ucnt)

text \<open>The side that waits cannot move, except from the loop's end.\<close>

lemma waiting_stuck:
  assumes "waiting b x" and "slot_is cnt inn 0 e"
  shows "peer_step ph limit x ou inn = None"
proof (cases "x = PeerRecv RecvWait")
  case True
  from assms(2) have "sem_wait ph (full inn) 1 = None" by (simp add: slot_is_def wait_None_iff)
  with True show ?thesis by simp
next
  case False
  with assms(1) show ?thesis by (auto simp: waiting_def left_def split: if_splits)
qed

lemma waiting_weight: "waiting b x \<Longrightarrow> peer_weight limit inn x = peer_weight limit inn' x"
  by (auto simp: waiting_def left_def split: if_splits)

lemma slot_weight_is [simp]:
  "slot_is cnt sl 0 e \<Longrightarrow> slot_weight cnt limit sl = 0"
  "slot_is cnt sl 1 e \<Longrightarrow> slot_weight cnt limit sl = messages_left limit (slot_value sl) + 4"
  by (auto simp: slot_is_def slot_weight_def)

lemma half_sender:
  assumes "half cnt limit v x y ou inn" and "peer_step ph limit x ou inn = Some (ou', inn', x')"
  shows "half cnt limit v x' y ou' inn' \<and>
    pair_weight cnt limit x' y ou' inn' < pair_weight cnt limit x y ou inn"
proof -
  from assms(1) obtain st where st: "slot_is cnt inn 0 1" "half_at st cnt limit v x y ou" by (rule halfE)
  show ?thesis
  proof (cases st)
    case AtSend
    with assms(2) st obtain e where e: "sem_wait ph (empty ou) 1 = Some e" "inn' = inn"
      "ou' = ou\<lparr>empty := e\<rparr>" "x' = PeerSend v (limit \<le> v) SendWrite"
      by (auto split: option.splits)
    with AtSend st have "half_at AtWrite cnt limit v x' y ou'"
      by (auto dest: slot_wait(2))
    moreover from this AtSend st have "pair_weight cnt limit x' y ou' inn' < pair_weight cnt limit x y ou inn"
      using waiting_weight [of _ y limit ou' ou] by (auto simp: pair_weight_def e)
    ultimately show ?thesis using st(1) e(2) by (blast intro: halfI)
  next
    case AtWrite
    with assms(2) st have e: "inn' = inn" "ou' = ou\<lparr>slot_value := v\<rparr>"
      "x' = PeerSend v (limit \<le> v) SendSignal" by auto
    with AtWrite st have "half_at AtSignal cnt limit v x' y ou'" by (auto simp: slot_is_def)
    moreover from this AtWrite st have "pair_weight cnt limit x' y ou' inn' < pair_weight cnt limit x y ou inn"
      using waiting_weight [of _ y limit ou' ou] by (auto simp: pair_weight_def e)
    ultimately show ?thesis using st(1) e(1) by (blast intro: halfI)
  next
    case AtSignal
    with assms(2) st have e: "inn' = inn" "ou' = ou\<lparr>full := sem_signal ph (full ou) 1\<rparr>"
      "x' = (if limit \<le> v then PeerSignal else PeerRecv RecvWait)" by auto
    with AtSignal st have "half_at InSlot cnt limit v x' y ou'" by (auto dest: slot_signal(1))
    moreover from this AtSignal st have "pair_weight cnt limit x' y ou' inn' < pair_weight cnt limit x y ou inn"
      using waiting_weight [of _ y limit ou' ou] by (auto simp: pair_weight_def e)
    ultimately show ?thesis using st(1) e(1) by (blast intro: halfI)
  qed (use assms(2) st waiting_stuck [OF _ st(1)] in auto)
qed

lemma half_receiver:
  assumes "half cnt limit v x y ou inn" and "peer_step ph limit y inn ou = Some (inn', ou', y')"
    and "y \<noteq> PeerNext v"
  shows "half cnt limit v x y' ou' inn' \<and>
    pair_weight cnt limit x y' ou' inn' < pair_weight cnt limit x y ou inn"
proof -
  from assms(1) obtain st where st: "slot_is cnt inn 0 1" "half_at st cnt limit v x y ou" by (rule halfE)
  have stuck: "waiting b y \<Longrightarrow> slot_is cnt ou 0 e \<Longrightarrow> False" for b e
    using waiting_stuck assms(2) by fastforce
  show ?thesis
  proof (cases st)
    case InSlot
    then have y: "\<not> limit < v \<and> y = PeerRecv RecvWait"
      using st(2) assms(2) by (auto simp: waiting_def left_def split: if_splits)
    with assms(2) obtain f where e: "sem_wait ph (full ou) 1 = Some f" "inn' = inn"
      "ou' = ou\<lparr>full := f\<rparr>" "y' = PeerRecv RecvRead" by (auto split: option.splits)
    with InSlot st y have "half_at AtRead cnt limit v x y' ou'" by (auto dest: slot_wait(1))
    moreover from this InSlot st y have "pair_weight cnt limit x y' ou' inn' < pair_weight cnt limit x y ou inn"
      by (auto simp: pair_weight_def e)
    ultimately show ?thesis using st(1) e(2) by (blast intro: halfI)
  next
    case AtRead
    with assms(2) st have e: "inn' = inn" "ou' = ou" "y' = PeerRecv (RecvSignal v)" by auto
    with AtRead st have "half_at AtRelease cnt limit v x y' ou'" by auto
    moreover from this AtRead st have "pair_weight cnt limit x y' ou' inn' < pair_weight cnt limit x y ou inn"
      by (auto simp: pair_weight_def e)
    ultimately show ?thesis using st(1) e(1) by (blast intro: halfI)
  next
    case AtRelease
    with assms(2) st have e: "inn' = inn" "ou' = ou\<lparr>empty := sem_signal ph (empty ou) 1\<rparr>"
      "y' = PeerNext v" by auto
    with AtRelease st have "half_at AtNext cnt limit v x y' ou'" by (auto dest: slot_signal(2))
    moreover from this AtRelease st have "pair_weight cnt limit x y' ou' inn' < pair_weight cnt limit x y ou inn"
      by (auto simp: pair_weight_def e)
    ultimately show ?thesis using st(1) e(1) by (blast intro: halfI)
  next
    case AtNext
    with assms(3) st show ?thesis by simp
  qed (use st stuck in \<open>auto simp: half_at.simps\<close>)
qed

lemma half_turn:
  assumes "half cnt limit v x (PeerNext v) ou inn" and "unat limit + 1 < 2 ^ 64"
    and "peer_step ph limit (PeerNext v) inn ou = Some (inn', ou', y')"
  shows "half cnt limit (v + 1) y' x inn' ou' \<and> unat (v + 1) = Suc (unat v) \<and> v \<le> limit \<and>
    pair_weight cnt limit x y' ou' inn' < pair_weight cnt limit x (PeerNext v) ou inn"
proof -
  from assms(1) obtain st where st: "slot_is cnt inn 0 1" "half_at st cnt limit v x (PeerNext v) ou"
    by (rule halfE)
  then have "st = AtNext" by (cases st) auto
  with st have v: "v \<le> limit" and x: "waiting (limit \<le> v) x" and ou: "slot_is cnt ou 0 1" by auto
  have "Suc (unat v) < 2 ^ 64" using v assms(2) by (simp add: word_le_nat_alt)
  then have inc: "unat (v + 1) = Suc (unat v)" by (simp add: unat_word_ariths)
  then have less: "limit < v + 1 \<longleftrightarrow> limit \<le> v" by (simp add: word_less_nat_alt word_le_nat_alt less_Suc_eq_le)
  have e: "inn' = inn" "ou' = ou" "y' = PeerSend (v + 1) (limit \<le> v + 1) SendWait"
    using assms(3) by (auto simp: Let_def split: if_splits)
  have "messages_left limit (v + 1) + 10 = messages_left limit v"
    using v inc by (simp add: messages_left_def word_le_nat_alt)
  then have "pair_weight cnt limit x y' ou' inn' < pair_weight cnt limit x (PeerNext v) ou inn"
    by (simp add: pair_weight_def e)
  moreover have "half cnt limit (v + 1) y' x inn' ou'"
    using x less st(1) ou by (intro halfI [where st = AtSend]) (auto simp: e)
  ultimately show ?thesis using inc v by blast
qed

lemma half_leave:
  assumes "half cnt limit v x y ou inn"
  shows "x = PeerSignal \<Longrightarrow> half cnt limit v PeerDone y ou inn"
    and "y = PeerSignal \<Longrightarrow> half cnt limit v x PeerDone ou inn"
proof -
  from assms obtain st where st: "slot_is cnt inn 0 1" "half_at st cnt limit v x y ou" by (rule halfE)
  then show "half cnt limit v PeerDone y ou inn" if "x = PeerSignal"
    using that by (intro halfI [where st = st]) (cases st; simp)+
  show "half cnt limit v x PeerDone ou inn" if "y = PeerSignal"
    using st that by (intro halfI [where st = st]) (cases st; simp)+
qed

text \<open>Only a message that was just received can be answered: \<open>PeerNext w\<close> means \<open>w = v\<close>.\<close>

lemma half_next:
  assumes "half cnt limit v x (PeerNext w) ou inn"
  shows "w = v"
proof -
  from assms obtain st where "half_at st cnt limit v x (PeerNext w) ou" by (rule halfE)
  then show ?thesis by (cases st) auto
qed

lemma half_reply:
  assumes "half cnt limit v x y ou inn" and "unat limit + 1 < 2 ^ 64"
    and "peer_step ph limit y inn ou = Some (inn', ou', y')"
  shows "(half cnt limit v x y' ou' inn' \<or>
    unat (v + 1) = Suc (unat v) \<and> v \<le> limit \<and> half cnt limit (v + 1) y' x inn' ou') \<and>
    pair_weight cnt limit x y' ou' inn' < pair_weight cnt limit x y ou inn"
proof (cases "\<exists>w. y = PeerNext w")
  case True
  then have "y = PeerNext v" using half_next assms(1) by blast
  with half_turn [of limit v x ou inn] assms show ?thesis by blast
next
  case False
  with half_receiver [OF assms(1,3)] show ?thesis by blast
qed

lemma turn_step:
  assumes "turn ev cnt limit v a b sab sba" and "unat limit + 1 < 2 ^ 64"
    and "peer_step ph limit a sab sba = Some (sab', sba', a')"
  shows "(\<exists>v'. turn ev cnt limit v' a' b sab' sba') \<and>
    pair_weight cnt limit a' b sab' sba' < pair_weight cnt limit a b sab sba"
proof (cases "even (unat v) = ev")
  case True
  with assms(1) half_sender [OF _ assms(3)] show ?thesis by (auto simp: turn_def)
next
  case False
  with assms(1) have h: "half cnt limit v b a sba sab" and v: "unat v \<le> unat limit + 1"
    by (auto simp: turn_def)
  from half_reply [OF h assms(2,3)]
  have w: "pair_weight cnt limit a' b sab' sba' < pair_weight cnt limit a b sab sba"
    by (simp add: pair_weight_swap [of cnt limit b])
  from half_reply [OF h assms(2,3)] consider "half cnt limit v b a' sba' sab'"
    | "unat (v + 1) = Suc (unat v)" "v \<le> limit" "half cnt limit (v + 1) a' b sab' sba'" by blast
  then have "\<exists>v'. turn ev cnt limit v' a' b sab' sba'"
  proof cases
    case 1
    with v False show ?thesis by (auto simp: turn_def)
  next
    case 2
    with False show ?thesis
      by (intro exI [of _ "v + 1"]) (auto simp: turn_def word_le_nat_alt)
  qed
  with w show ?thesis by blast
qed

lemma pair_first:
  assumes "pair_inv cnt limit a b sab sba" and "unat limit + 1 < 2 ^ 64"
    and "peer_step ph limit a sab sba = Some (sab', sba', a')"
  shows "pair_inv cnt limit a' b sab' sba'"
    and "pair_weight cnt limit a' b sab' sba' < pair_weight cnt limit a b sab sba"
  using assms(1) turn_step [OF _ assms(2,3)] by (auto simp: pair_inv_def)

lemma pair_second:
  assumes "pair_inv cnt limit a b sab sba" and "unat limit + 1 < 2 ^ 64"
    and "peer_step ph limit b sba sab = Some (sba', sab', b')"
  shows "pair_inv cnt limit a b' sab' sba'"
    and "pair_weight cnt limit a b' sab' sba' < pair_weight cnt limit a b sab sba"
  using assms(1) turn_step [OF _ assms(2,3)]
  by (auto simp: pair_inv_def turn_swap [of True] pair_weight_swap [of cnt limit a])

lemma pair_leave:
  assumes "pair_inv cnt limit a b sab sba"
  shows "a = PeerSignal \<Longrightarrow> pair_inv cnt limit PeerDone b sab sba"
    and "b = PeerSignal \<Longrightarrow> pair_inv cnt limit a PeerDone sab sba"
  using assms half_leave unfolding pair_inv_def turn_def by (metis (full_types))+

text \<open>
  When neither side can move, both have left the loop, and the releasing message of the side
  that left last is still in its slot.
\<close>

lemma half_stuck:
  assumes "half cnt limit v x y ou inn" and "unat v \<le> unat limit + 1"
    and "peer_step ph limit x ou inn = None" and "peer_step ph limit y inn ou = None"
  shows "left x \<and> left y \<and> unat v = unat limit + 1 \<and> slot_is cnt ou 1 0 \<and> slot_value ou = v"
proof -
  from assms(1) obtain st where st: "slot_is cnt inn 0 1" "half_at st cnt limit v x y ou" by (rule halfE)
  show ?thesis
  proof (cases st)
    case AtSend
    with assms(3) st show ?thesis by (auto simp: wait_None_iff slot_is_def split: option.splits)
  next
    case InSlot
    have "limit < v"
    proof (rule ccontr)
      assume "\<not> limit < v"
      with InSlot st(2) assms(4) show False
        by (auto simp: waiting_def wait_None_iff slot_is_def split: option.splits)
    qed
    moreover from this have "limit \<le> v" by simp
    ultimately show ?thesis
      using InSlot st(2) assms(2) by (auto simp: waiting_def word_less_nat_alt)
  qed (use assms(3,4) st in \<open>auto simp: Let_def split: if_splits\<close>)
qed

lemma pair_stuck:
  assumes "pair_inv cnt limit a b sab sba"
    and "peer_step ph limit a sab sba = None" and "peer_step ph limit b sba sab = None"
  shows "left a \<and> left b \<and>
    (if odd (unat limit) then slot_is cnt sab 1 0 \<and> unat (slot_value sab) = unat limit + 1
     else slot_is cnt sba 1 0 \<and> unat (slot_value sba) = unat limit + 1)"
proof -
  from assms(1) obtain v where v: "turn True cnt limit v a b sab sba" by (auto simp: pair_inv_def)
  then have bound: "unat v \<le> unat limit + 1" by (simp add: turn_def)
  show ?thesis
  proof (cases "even (unat v)")
    case True
    with v have "half cnt limit v a b sab sba" by (simp add: turn_def)
    from half_stuck [OF this bound assms(2,3)] True show ?thesis by (metis even_plus_one_iff)
  next
    case False
    with v have "half cnt limit v b a sba sab" by (simp add: turn_def)
    from half_stuck [OF this bound assms(3,2)] False show ?thesis by (metis even_plus_one_iff)
  qed
qed

end

section \<open>The slot as a FIFO\<close>

text \<open>Between calls a slot is a FIFO of capacity 1.\<close>

definition slot_stored :: "('s \<Rightarrow> u64) \<Rightarrow> 's slot \<Rightarrow> u64 list" where
  "slot_stored cnt sl = (if cnt (full sl) = 0 then [] else [slot_value sl])"

definition slot_good :: "('s \<Rightarrow> u64) \<Rightarrow> 's slot \<Rightarrow> bool" where
  "slot_good cnt sl \<longleftrightarrow> slot_is cnt sl 0 1 \<or> slot_is cnt sl 1 0"

context photon_sync begin

lemma slot_put_room:
  assumes "slot_is cnt sl 0 1"
  shows "\<exists>sl'. slot_send ph sl v = Some sl' \<and> slot_is cnt sl' 1 0 \<and> slot_value sl' = v"
proof -
  from assms have "sem_wait ph (empty sl) 1 \<noteq> None" by (simp add: slot_is_def wait_None_iff)
  then obtain e where e: "sem_wait ph (empty sl) 1 = Some e" by blast
  have "slot_send ph sl v = Some (sl\<lparr>empty := e, slot_value := v, full := sem_signal ph (full sl) 1\<rparr>)"
    using e by (simp add: slot_send_def send_run.simps [of _ _ SendWait] send_run.simps [of _ _ SendWrite]
      send_run.simps [of _ _ SendSignal])
  with assms wait_Some [OF e] signal_ucnt [of "full sl" 1] show ?thesis by (simp add: slot_is_def)
qed

lemma slot_get_first:
  assumes "slot_is cnt sl 1 0"
  shows "\<exists>sl'. slot_recv ph sl = Some (slot_value sl, sl') \<and> slot_is cnt sl' 0 1"
proof -
  from assms have "sem_wait ph (full sl) 1 \<noteq> None" by (simp add: slot_is_def wait_None_iff)
  then obtain f where f: "sem_wait ph (full sl) 1 = Some f" by blast
  have "slot_recv ph sl = Some (slot_value sl, sl\<lparr>full := f, empty := sem_signal ph (empty sl) 1\<rparr>)"
    using f by (simp add: slot_recv_def recv_run.simps [of _ RecvWait] recv_run.simps [of _ RecvRead]
      recv_run.simps [of _ "RecvSignal _"])
  with assms wait_Some [OF f] signal_ucnt [of "empty sl" 1] show ?thesis by (simp add: slot_is_def)
qed

lemma slot_put_full: "slot_is cnt sl 1 0 \<Longrightarrow> slot_send ph sl v = None"
  using wait_None_iff [of "empty sl" 1] by (simp add: slot_send_def send_run.simps slot_is_def)

lemma slot_get_empty: "slot_is cnt sl 0 1 \<Longrightarrow> slot_recv ph sl = None"
  using wait_None_iff [of "full sl" 1] by (simp add: slot_recv_def recv_run.simps slot_is_def)

lemma slot_stored_is:
  "slot_is cnt sl 0 e \<Longrightarrow> slot_stored cnt sl = []" "slot_is cnt sl 1 e \<Longrightarrow> slot_stored cnt sl = [slot_value sl]"
  by (auto simp: slot_is_def slot_stored_def unat_eq_zero)

end

sublocale photon_sync \<subseteq> slots: bounded_fifo "slot_send ph" "slot_recv ph" "slot_stored cnt" 1 "slot_good cnt"
proof unfold_locales
  fix c v x xs
  assume "slot_good cnt c"
  then consider (empty) "slot_is cnt c 0 1" | (full) "slot_is cnt c 1 0" by (auto simp: slot_good_def)
  note cases = this
  show "\<exists>c'. slot_send ph c v = Some c' \<and> slot_good cnt c' \<and> slot_stored cnt c' = slot_stored cnt c @ [v]"
    if "length (slot_stored cnt c) < 1"
    using cases
  proof cases
    case empty
    from slot_put_room [OF this, of v] slot_stored_is(1) [OF this] show ?thesis
      by (auto simp: slot_good_def slot_stored_is(2))
  next
    case full
    with that show ?thesis by (simp add: slot_stored_is(2))
  qed
  show "slot_send ph c v = None" if "\<not> length (slot_stored cnt c) < 1"
    using cases that by cases (simp_all add: slot_stored_is slot_put_full)
  show "\<exists>c'. slot_recv ph c = Some (x, c') \<and> slot_good cnt c' \<and> slot_stored cnt c' = xs"
    if "slot_stored cnt c = x # xs"
    using cases
  proof cases
    case empty
    with that show ?thesis by (simp add: slot_stored_is(1))
  next
    case full
    from slot_get_first [OF this] slot_stored_is(2) [OF this] that show ?thesis
      by (auto simp: slot_good_def slot_stored_is(1))
  qed
  show "slot_recv ph c = None" if "slot_stored cnt c = []"
    using cases that by cases (simp_all add: slot_stored_is slot_get_empty)
qed

context photon_sync begin

lemma slot_script:
  "map_option (\<lambda>(out, sl). (out, slot_stored cnt sl))
      (run_ops (slot_send ph) (slot_recv ph) ops (slot_init ph)) = run_ops (spec_put 1) spec_get ops []"
proof -
  have "slot_is cnt (slot_init ph) 0 1" by (simp add: slot_is_def slot_init_def)
  then have "slot_good cnt (slot_init ph)" "slot_stored cnt (slot_init ph) = []"
    by (auto simp: slot_good_def slot_stored_is)
  with slots.fifo_refines [of "slot_init ph" ops] show ?thesis by simp
qed

end

section \<open>All pairs\<close>

text \<open>
  The task list is \<open>main\<close> followed by the coroutines in the order of the spawn loop, so the
  coroutines of pair \<open>j\<close> are tasks \<open>2 * j + 1\<close> and \<open>2 * j + 2\<close>; one that has not been spawned
  counts as standing at its start.
\<close>

fun peer_pc_of :: "ppp_task \<Rightarrow> peer_pc" where
  "peer_pc_of (Ping _ pc) = pc"
| "peer_pc_of (Pong _ pc) = pc"
| "peer_pc_of _ = PeerDone"

definition pc_at :: "ppp_task list \<Rightarrow> nat \<Rightarrow> peer_pc" where
  "pc_at ts k =
     (if Suc k < length ts then peer_pc_of (ts ! Suc k)
      else if even k then PeerSend 0 False SendWait else PeerRecv RecvWait)"

fun task_is :: "nat \<Rightarrow> ppp_task \<Rightarrow> bool" where
  "task_is k (Ping i pc) = (even k \<and> unat i = k div 2)"
| "task_is k (Pong i pc) = (odd k \<and> unat i = k div 2)"
| "task_is k _ = False"

fun spawned :: "u64 \<Rightarrow> ppp_task \<Rightarrow> nat" where
  "spawned pairs (SpawnPing i) = 2 * unat i"
| "spawned pairs (SpawnPong i) = 2 * unat i + 1"
| "spawned pairs _ = 2 * unat pairs"

fun main_ok :: "u64 \<Rightarrow> ppp_task \<Rightarrow> bool" where
  "main_ok pairs (SpawnPing i) = (i \<le> pairs)"
| "main_ok pairs (SpawnPong i) = (i < pairs)"
| "main_ok pairs AwaitDone = True"
| "main_ok pairs Finished = True"
| "main_ok pairs _ = False"

fun gone :: "ppp_task \<Rightarrow> nat" where
  "gone (Ping _ pc) = (if pc = PeerDone then 1 else 0)"
| "gone (Pong _ pc) = (if pc = PeerDone then 1 else 0)"
| "gone _ = 0"

abbreviation pair_ok :: "('s \<Rightarrow> u64) \<Rightarrow> u64 \<Rightarrow> 's ppp_state \<Rightarrow> nat \<Rightarrow> peer_pc \<Rightarrow> peer_pc \<Rightarrow> bool" where
  "pair_ok cnt pairs s j a b \<equiv>
     pair_inv cnt (photon_per_pair pairs) a b (ab (ps s ! j)) (ba (ps s ! j))"

abbreviation pair_w :: "('s \<Rightarrow> u64) \<Rightarrow> u64 \<Rightarrow> 's ppp_state \<Rightarrow> nat \<Rightarrow> peer_pc \<Rightarrow> peer_pc \<Rightarrow> nat" where
  "pair_w cnt pairs s j a b \<equiv>
     pair_weight cnt (photon_per_pair pairs) a b (ab (ps s ! j)) (ba (ps s ! j))"

definition ppp_inv :: "('s \<Rightarrow> u64) \<Rightarrow> u64 \<Rightarrow> ('s ppp_state, ppp_task) pool \<Rightarrow> bool" where
  "ppp_inv cnt pairs c \<longleftrightarrow> (case c of (s, ts) \<Rightarrow>
     length (ps s) = unat pairs \<and> ts \<noteq> [] \<and> main_ok pairs (ts ! 0) \<and>
     length ts = Suc (spawned pairs (ts ! 0)) \<and>
     (\<forall>k. Suc k < length ts \<longrightarrow> task_is k (ts ! Suc k)) \<and>
     (\<forall>j < unat pairs. pair_ok cnt pairs s j (pc_at ts (2 * j)) (pc_at ts (2 * j + 1))) \<and>
     unat (cnt (done_sem s)) + (if ts ! 0 = Finished then 2 * unat pairs else 0) = tsum gone ts)"

fun main_weight :: "u64 \<Rightarrow> ppp_task \<Rightarrow> nat" where
  "main_weight pairs (SpawnPing i) = 2 * (unat pairs - unat i) + 2"
| "main_weight pairs (SpawnPong i) = 2 * (unat pairs - unat i) + 1"
| "main_weight pairs AwaitDone = 1"
| "main_weight pairs _ = 0"

definition ppp_weight :: "('s \<Rightarrow> u64) \<Rightarrow> u64 \<Rightarrow> ('s ppp_state, ppp_task) pool \<Rightarrow> nat" where
  "ppp_weight cnt pairs c = (case c of (s, ts) \<Rightarrow>
     main_weight pairs (ts ! 0) +
     (\<Sum>j < unat pairs. pair_w cnt pairs s j (pc_at ts (2 * j)) (pc_at ts (2 * j + 1))))"

text \<open>
  What a pair leaves behind: the message \<open>limit\<close> ends the loop of its receiver, whose releasing
  message \<open>limit + 1\<close> nobody receives any more.
\<close>

definition pair_result :: "('s \<Rightarrow> u64) \<Rightarrow> u64 \<Rightarrow> 's ppp_state \<Rightarrow> nat \<Rightarrow> bool" where
  "pair_result cnt limit s j \<longleftrightarrow>
     (let sl = (if odd (unat limit) then ab (ps s ! j) else ba (ps s ! j))
      in slot_is cnt sl 1 0 \<and> unat (slot_value sl) = unat limit + 1)"

lemma per_pair_bounds:
  assumes "0 < pairs"
  shows "1 \<le> unat (photon_per_pair pairs)" and "unat (photon_per_pair pairs) \<le> 100000"
proof -
  have "unat (photon_total div pairs) \<le> 100000"
    by (simp add: photon_total_def unat_div_distrib)
  then show "unat (photon_per_pair pairs) \<le> 100000"
    by (simp add: photon_per_pair_def Let_def)
  show "1 \<le> unat (photon_per_pair pairs)"
    by (simp add: photon_per_pair_def Let_def word_less_nat_alt)
qed

lemma pc_at_upd:
  "Suc k < length ts \<Longrightarrow> pc_at (ts[Suc k := t]) k' = (if k' = k then peer_pc_of t else pc_at ts k')"
  by (simp add: pc_at_def)

lemma pc_at_main: "pc_at (ts[0 := t]) = pc_at ts"
  by (rule ext) (simp add: pc_at_def)

lemma gone_main: "main_ok pairs t \<Longrightarrow> gone t = 0"
  by (cases t) auto

lemma gone_le: "gone t \<le> 1"
  by (cases t) auto

context photon_sync begin

lemma ping_moves:
  assumes "ppp_step ph pairs s (Ping i pc) = Some (s', t', new)" and "unat i < length (ps s)"
    and "pair_ok cnt pairs s (unat i) pc b" and "unat (cnt (done_sem s)) + 1 < 2 ^ 64" and "0 < pairs"
  shows "\<exists>pc' p. t' = Ping i pc' \<and> new = [] \<and> ps s' = (ps s)[unat i := p] \<and>
    pair_ok cnt pairs s' (unat i) pc' b \<and>
    pair_w cnt pairs s' (unat i) pc' b < pair_w cnt pairs s (unat i) pc b \<and>
    unat (cnt (done_sem s')) = unat (cnt (done_sem s)) + gone t' \<and> gone (Ping i pc) = 0"
proof (cases "pc = PeerSignal")
  case True
  with assms(1) have e: "s' = s\<lparr>done_sem := sem_signal ph (done_sem s) 1\<rparr>" "t' = Ping i PeerDone" "new = []"
    by auto
  with True show ?thesis
    using pair_leave(1) [OF assms(3)] signal_ucnt [of "done_sem s" 1] assms(4)
    by (intro exI [of _ PeerDone] exI [of _ "ps s ! unat i"]) (simp add: pair_weight_def)
next
  case False
  have lim: "unat (photon_per_pair pairs) + 1 < 2 ^ 64" using per_pair_bounds [OF assms(5)] by simp
  from False assms(1) obtain ou inn pc' where
    st: "peer_step ph (photon_per_pair pairs) pc (ab (ps s ! unat i)) (ba (ps s ! unat i)) = Some (ou, inn, pc')"
    and e: "s' = s\<lparr>ps := (ps s)[unat i := \<lparr>ab = ou, ba = inn\<rparr>]\<rparr>" "t' = Ping i pc'" "new = []"
    by (auto simp: Let_def split: option.splits)
  have "pc \<noteq> PeerDone" "pc' \<noteq> PeerDone" using st
    by (cases pc; auto simp: Let_def split: option.splits sum.splits if_splits)+
  with pair_first [OF assms(3) lim st] assms(2) e show ?thesis
    by (intro exI [of _ pc'] exI [of _ "\<lparr>ab = ou, ba = inn\<rparr>"]) simp
qed

lemma pong_moves:
  assumes "ppp_step ph pairs s (Pong i pc) = Some (s', t', new)" and "unat i < length (ps s)"
    and "pair_ok cnt pairs s (unat i) a pc" and "unat (cnt (done_sem s)) + 1 < 2 ^ 64" and "0 < pairs"
  shows "\<exists>pc' p. t' = Pong i pc' \<and> new = [] \<and> ps s' = (ps s)[unat i := p] \<and>
    pair_ok cnt pairs s' (unat i) a pc' \<and>
    pair_w cnt pairs s' (unat i) a pc' < pair_w cnt pairs s (unat i) a pc \<and>
    unat (cnt (done_sem s')) = unat (cnt (done_sem s)) + gone t' \<and> gone (Pong i pc) = 0"
proof (cases "pc = PeerSignal")
  case True
  with assms(1) have e: "s' = s\<lparr>done_sem := sem_signal ph (done_sem s) 1\<rparr>" "t' = Pong i PeerDone" "new = []"
    by auto
  with True show ?thesis
    using pair_leave(2) [OF assms(3)] signal_ucnt [of "done_sem s" 1] assms(4)
    by (intro exI [of _ PeerDone] exI [of _ "ps s ! unat i"]) (simp add: pair_weight_def)
next
  case False
  have lim: "unat (photon_per_pair pairs) + 1 < 2 ^ 64" using per_pair_bounds [OF assms(5)] by simp
  from False assms(1) obtain ou inn pc' where
    st: "peer_step ph (photon_per_pair pairs) pc (ba (ps s ! unat i)) (ab (ps s ! unat i)) = Some (ou, inn, pc')"
    and e: "s' = s\<lparr>ps := (ps s)[unat i := \<lparr>ab = inn, ba = ou\<rparr>]\<rparr>" "t' = Pong i pc'" "new = []"
    by (auto simp: Let_def split: option.splits)
  have "pc \<noteq> PeerDone" "pc' \<noteq> PeerDone" using st
    by (cases pc; auto simp: Let_def split: option.splits sum.splits if_splits)+
  with pair_second [OF assms(3) lim st] assms(2) e show ?thesis
    by (intro exI [of _ pc'] exI [of _ "\<lparr>ab = inn, ba = ou\<rparr>"]) simp
qed

text \<open>A coroutine's step changes its own pair only.\<close>

lemma peer_task_step:
  assumes inv: "ppp_inv cnt pairs (s, ts)" and k: "Suc k < length ts"
    and step: "ppp_step ph pairs s (ts ! Suc k) = Some (s', t', new)"
    and pairs: "0 < pairs" "2 * unat pairs < 2 ^ 64"
  shows "\<exists>p. k div 2 < unat pairs \<and> task_is k t' \<and> new = [] \<and> ps s' = (ps s)[k div 2 := p] \<and>
    (let ts' = ts[Suc k := t']; j = k div 2 in
      pair_ok cnt pairs s' j (pc_at ts' (2 * j)) (pc_at ts' (2 * j + 1)) \<and>
      pair_w cnt pairs s' j (pc_at ts' (2 * j)) (pc_at ts' (2 * j + 1)) <
      pair_w cnt pairs s j (pc_at ts (2 * j)) (pc_at ts (2 * j + 1))) \<and>
    unat (cnt (done_sem s')) + gone (ts ! Suc k) = unat (cnt (done_sem s)) + gone t'"
proof -
  have sp: "spawned pairs (ts ! 0) \<le> 2 * unat pairs"
    using inv by (cases "ts ! 0") (auto simp: ppp_inv_def word_le_nat_alt word_less_nat_alt)
  have len: "length (ps s) = unat pairs" "task_is k (ts ! Suc k)"
    using inv k by (auto simp: ppp_inv_def)
  have j: "k div 2 < unat pairs" using sp inv k by (auto simp: ppp_inv_def)
  have ok: "pair_ok cnt pairs s (k div 2) (pc_at ts (2 * (k div 2))) (pc_at ts (2 * (k div 2) + 1))"
    using inv j by (simp add: ppp_inv_def)
  have act: "pc_at ts k = peer_pc_of (ts ! Suc k)" using k by (simp add: pc_at_def)
  have "tsum gone ts \<le> length ts - gone (ts ! 0) - 1 + gone (ts ! 0)"
  proof -
    obtain t0 tl where ts: "ts = t0 # tl" using k by (cases ts) auto
    have "gone t0 = 0" using inv gone_main unfolding ts ppp_inv_def by auto
    moreover have "tsum gone tl \<le> length tl" using tsum_le_mono [of tl gone "\<lambda>_. 1"] gone_le by (simp add: sum_list_triv)
    ultimately show ?thesis by (simp add: ts)
  qed
  then have "unat (cnt (done_sem s)) \<le> 2 * unat pairs"
    using inv sp gone_main by (auto simp: ppp_inv_def)
  moreover have "2 * unat pairs + 1 < 2 ^ 64" using pairs(2) by simp
  ultimately have bound: "unat (cnt (done_sem s)) + 1 < 2 ^ 64" by simp
  show ?thesis
  proof (cases "ts ! Suc k")
    case (Ping i pc)
    with len have i: "unat i = k div 2" and k2: "2 * (k div 2) = k" by auto
    have "pair_ok cnt pairs s (unat i) pc (pc_at ts (k + 1))" using ok i k2 act Ping by simp
    from ping_moves [OF step [unfolded Ping] _ this bound pairs(1)] len i j
    obtain pc' p where "t' = Ping i pc'" "new = []" "ps s' = (ps s)[unat i := p]"
      "pair_ok cnt pairs s' (unat i) pc' (pc_at ts (k + 1))"
      "pair_w cnt pairs s' (unat i) pc' (pc_at ts (k + 1)) < pair_w cnt pairs s (unat i) pc (pc_at ts (k + 1))"
      "unat (cnt (done_sem s')) = unat (cnt (done_sem s)) + gone t'" "gone (Ping i pc) = 0" by auto
    then show ?thesis using len i k2 j act Ping k by (intro exI [of _ p]) (simp add: pc_at_upd)
  next
    case (Pong i pc)
    with len have i: "unat i = k div 2" and k2: "2 * (k div 2) + 1 = k" by auto
    have "pair_ok cnt pairs s (unat i) (pc_at ts (2 * (k div 2))) pc" using ok i k2 act Pong by simp
    from pong_moves [OF step [unfolded Pong] _ this bound pairs(1)] len i j
    obtain pc' p where m: "t' = Pong i pc'" "new = []" "ps s' = (ps s)[unat i := p]"
      "pair_ok cnt pairs s' (unat i) (pc_at ts (2 * (k div 2))) pc'"
      "pair_w cnt pairs s' (unat i) (pc_at ts (2 * (k div 2))) pc' <
       pair_w cnt pairs s (unat i) (pc_at ts (2 * (k div 2))) pc"
      "unat (cnt (done_sem s')) = unat (cnt (done_sem s)) + gone t'" "gone (Pong i pc) = 0" by auto
    have "pc_at (ts[Suc k := t']) (2 * (k div 2)) = pc_at ts (2 * (k div 2))"
      "pc_at (ts[Suc k := t']) (2 * (k div 2) + 1) = pc'"
      using k k2 m(1) by (auto simp: pc_at_upd)
    with m show ?thesis using len i k2 j act Pong k by (intro exI [of _ p]) (simp add: Let_def)
  qed (use len in auto)
qed

lemma peer_pool_step:
  assumes inv: "ppp_inv cnt pairs (s, ts)" and k: "Suc k < length ts"
    and step: "ppp_step ph pairs s (ts ! Suc k) = Some (s', t', new)"
    and pairs: "0 < pairs" "2 * unat pairs < 2 ^ 64"
  shows "ppp_inv cnt pairs (s', ts[Suc k := t'] @ new) \<and>
    ppp_weight cnt pairs (s', ts[Suc k := t'] @ new) < ppp_weight cnt pairs (s, ts)"
proof -
  let ?ts = "ts[Suc k := t']"
  from peer_task_step [OF assms] obtain p where
    j: "k div 2 < unat pairs" and m: "task_is k t'" "new = []" "ps s' = (ps s)[k div 2 := p]"
      "pair_ok cnt pairs s' (k div 2) (pc_at ?ts (2 * (k div 2))) (pc_at ?ts (2 * (k div 2) + 1))"
      "pair_w cnt pairs s' (k div 2) (pc_at ?ts (2 * (k div 2))) (pc_at ?ts (2 * (k div 2) + 1)) <
      pair_w cnt pairs s (k div 2) (pc_at ts (2 * (k div 2))) (pc_at ts (2 * (k div 2) + 1))"
    and d: "unat (cnt (done_sem s')) + gone (ts ! Suc k) = unat (cnt (done_sem s)) + gone t'"
    by (auto simp: Let_def)
  have same: "ps s' ! j = ps s ! j" "pc_at ?ts (2 * j) = pc_at ts (2 * j)"
    "pc_at ?ts (2 * j + 1) = pc_at ts (2 * j + 1)" if "j \<noteq> k div 2" for j
    using that k m(3) by (auto simp: pc_at_upd)
  have ok: "pair_ok cnt pairs s' j (pc_at ?ts (2 * j)) (pc_at ?ts (2 * j + 1))" if "j < unat pairs" for j
    using that m(4) same [of j] inv by (cases "j = k div 2") (auto simp: ppp_inv_def)
  have sums: "tsum gone ?ts + gone (ts ! Suc k) = tsum gone ts + gone t'"
    using tsum_at [OF k, of gone] tsum_upd [OF k, of gone t' "[]"] by simp
  have main: "?ts ! 0 = ts ! 0" by simp
  have tasks: "task_is i (?ts ! Suc i)" if "Suc i < length ts" for i
    using inv that m(1) by (cases "i = k") (auto simp: ppp_inv_def)
  have "ppp_inv cnt pairs (s', ?ts)"
    using inv ok tasks sums d m(3) unfolding ppp_inv_def main by auto
  moreover have "(\<Sum>j < unat pairs. pair_w cnt pairs s' j (pc_at ?ts (2 * j)) (pc_at ?ts (2 * j + 1))) <
      (\<Sum>j < unat pairs. pair_w cnt pairs s j (pc_at ts (2 * j)) (pc_at ts (2 * j + 1)))"
  proof (rule sum_strict_mono_ex1)
    show "\<forall>x\<in>{..<unat pairs}. pair_w cnt pairs s' x (pc_at ?ts (2 * x)) (pc_at ?ts (2 * x + 1))
      \<le> pair_w cnt pairs s x (pc_at ts (2 * x)) (pc_at ts (2 * x + 1))"
      using m(5) same by (metis less_imp_le order_refl)
    show "\<exists>a\<in>{..<unat pairs}. pair_w cnt pairs s' a (pc_at ?ts (2 * a)) (pc_at ?ts (2 * a + 1))
      < pair_w cnt pairs s a (pc_at ts (2 * a)) (pc_at ts (2 * a + 1))"
      using m(5) j by blast
  qed simp
  ultimately show ?thesis by (simp add: m(2) ppp_weight_def)
qed

lemma main_pool_step:
  assumes inv: "ppp_inv cnt pairs (s, ts)"
    and step: "ppp_step ph pairs s (ts ! 0) = Some (s', t', new)"
    and pairs: "0 < pairs" "2 * unat pairs < 2 ^ 64"
  shows "ppp_inv cnt pairs (s', ts[0 := t'] @ new) \<and>
    ppp_weight cnt pairs (s', ts[0 := t'] @ new) < ppp_weight cnt pairs (s, ts)"
proof -
  have len: "length ts = Suc (spawned pairs (ts ! 0))" and ne: "ts \<noteq> []" "0 < length ts"
    and main: "main_ok pairs (ts ! 0)" using inv by (auto simp: ppp_inv_def)
  have tasks: "task_is k (ts ! Suc k)" if "Suc k < length ts" for k using inv that by (simp add: ppp_inv_def)
  have keep: "ppp_inv cnt pairs (s', ts[0 := t'] @ new) \<and>
      ppp_weight cnt pairs (s', ts[0 := t'] @ new) < ppp_weight cnt pairs (s, ts)"
    if "ps s' = ps s" "main_ok pairs t'" "pc_at (ts[0 := t'] @ new) = pc_at ts"
      "length ts + length new = Suc (spawned pairs t')"
      "\<And>k. Suc k < length ts + length new \<Longrightarrow> length ts \<le> Suc k \<Longrightarrow> task_is k (new ! (Suc k - length ts))"
      "unat (cnt (done_sem s')) + (if t' = Finished then 2 * unat pairs else 0) =
       unat (cnt (done_sem s)) + (if ts ! 0 = Finished then 2 * unat pairs else 0)"
      "tsum gone new = 0" "main_weight pairs t' < main_weight pairs (ts ! 0)"
  proof -
    note upd = that
    have "tsum gone (ts[0 := t'] @ new) = tsum gone ts"
      using tsum_at [OF ne(2), of gone] tsum_upd [OF ne(2), of gone t' new] upd(7)
        gone_main [OF main] gone_main [OF upd(2)] by simp
    moreover have "task_is k ((ts[0 := t'] @ new) ! Suc k)" if k: "Suc k < length (ts[0 := t'] @ new)" for k
      using k upd(5) [of k] tasks [of k] by (auto simp: nth_append split: if_splits)
    moreover have "(ts[0 := t'] @ new) ! 0 = t'" using ne by (simp add: nth_append)
    ultimately show ?thesis using inv upd ne unfolding ppp_inv_def ppp_weight_def by auto
  qed
  show ?thesis
  proof (cases "ts ! 0")
    case (SpawnPing i)
    show ?thesis
    proof (cases "i < pairs")
      case True
      with step SpawnPing have e: "s' = s" "t' = SpawnPong i" "new = [Ping i (PeerSend 0 False SendWait)]" by auto
      have "pc_at (ts[0 := t'] @ new) k = pc_at ts k" for k
        using len SpawnPing e by (auto simp: pc_at_def nth_append) presburger
      then show ?thesis using True SpawnPing len e
        by (intro keep ext) (auto simp: word_less_nat_alt, presburger?)
    next
      case False
      with step SpawnPing main have e: "s' = s" "t' = AwaitDone" "new = []" "i = pairs" by auto
      then show ?thesis using SpawnPing len by (intro keep) (auto simp: pc_at_main)
    qed
  next
    case (SpawnPong i)
    with step have e: "s' = s" "t' = SpawnPing (i + 1)" "new = [Pong i (PeerRecv RecvWait)]" by auto
    have i: "i < pairs" using main SpawnPong by simp
    note u = unat_inc [OF i] inc_le [OF i]
    have "pc_at (ts[0 := t'] @ new) k = pc_at ts k" for k
      using len SpawnPong e by (auto simp: pc_at_def nth_append) presburger
    then show ?thesis using SpawnPong len e i u
      by (intro keep ext) (auto simp: word_less_nat_alt, presburger?)
  next
    case AwaitDone
    with step obtain d where e: "sem_wait ph (done_sem s) (2 * pairs) = Some d"
      "s' = s\<lparr>done_sem := d\<rparr>" "t' = Finished" "new = []" by (auto split: option.splits)
    have "unat (2 * pairs) = 2 * unat pairs" using pairs(2) by (simp add: unat_mult_exact)
    then show ?thesis using AwaitDone len e wait_Some [OF e(1)]
      by (intro keep) (auto simp: pc_at_main)
  qed (use step main in auto)
qed

lemma ppp_inv_step:
  assumes "ppp_inv cnt pairs c" and "pool_step (ppp_step ph pairs) c c'"
    and pairs: "0 < pairs" "2 * unat pairs < 2 ^ 64"
  shows "ppp_inv cnt pairs c' \<and> ppp_weight cnt pairs c' < ppp_weight cnt pairs c"
  using assms(2)
proof cases
  case (run_task i ts s s' t' new)
  with assms show ?thesis by (cases i) (simp_all add: main_pool_step peer_pool_step)
qed

lemma ppp_inv_start:
  assumes "0 < pairs"
  shows "ppp_inv cnt pairs (ppp_start ph pairs)"
proof -
  have slot: "slot_is cnt (slot_init ph) 0 1" by (simp add: slot_is_def slot_init_def)
  have "0 < photon_per_pair pairs" using per_pair_bounds(1) [OF assms] by (simp add: word_less_nat_alt)
  then have "half_at AtSend cnt (photon_per_pair pairs) 0 (PeerSend 0 False SendWait)
      (PeerRecv RecvWait) (slot_init ph)"
    using slot by (simp add: word_le_nat_alt word_less_nat_alt)
  with slot have "turn True cnt (photon_per_pair pairs) 0 (PeerSend 0 False SendWait)
      (PeerRecv RecvWait) (slot_init ph) (slot_init ph)"
    unfolding turn_def by (auto intro: halfI [where st = AtSend])
  then show ?thesis by (auto simp: ppp_inv_def ppp_start_def pc_at_def pair_inv_def)
qed

lemma ppp_stops: "ppp_finished t \<Longrightarrow> ppp_step ph pairs s t = None"
  by (cases t) (auto simp: Let_def)

text \<open>A coroutine that cannot move, and is not at its last action, blocks in its pair.\<close>

lemma ppp_blocked:
  assumes "ppp_step ph pairs s t = None" and "task_is k t" and "peer_pc_of t = pc"
  shows "pc \<noteq> PeerSignal"
    and "even k \<Longrightarrow> peer_step ph (photon_per_pair pairs) pc (ab (ps s ! (k div 2))) (ba (ps s ! (k div 2))) = None"
    and "odd k \<Longrightarrow> peer_step ph (photon_per_pair pairs) pc (ba (ps s ! (k div 2))) (ab (ps s ! (k div 2))) = None"
  using assms by (cases t; auto simp: Let_def split: if_splits option.splits prod.splits)+

lemma ppp_stuck_pairs:
  assumes inv: "ppp_inv cnt pairs (s, ts)" and stuck: "pool_stuck (ppp_step ph pairs) (s, ts)"
    and j: "j < unat pairs"
  shows "pc_at ts (2 * j) = PeerDone \<and> pc_at ts (2 * j + 1) = PeerDone \<and>
    pair_result cnt (photon_per_pair pairs) s j"
proof -
  have none: "ppp_step ph pairs s (ts ! k) = None" if "k < length ts" for k
    using stuck that by (simp add: pool_stuck_def)
  have main: "ts ! 0 = AwaitDone \<or> ts ! 0 = Finished"
    using none [of 0] inv by (cases "ts ! 0") (auto simp: ppp_inv_def)
  then have len: "length ts = Suc (2 * unat pairs)" using inv by (auto simp: ppp_inv_def)
  have k: "Suc (2 * j) < length ts" "Suc (2 * j + 1) < length ts" using len j by auto
  note tasks = inv [unfolded ppp_inv_def, simplified, THEN conjunct2, THEN conjunct2, THEN conjunct2,
    THEN conjunct2, THEN conjunct1, rule_format]
  have a: "peer_pc_of (ts ! Suc (2 * j)) = pc_at ts (2 * j)"
    "peer_pc_of (ts ! Suc (2 * j + 1)) = pc_at ts (2 * j + 1)" using k by (auto simp: pc_at_def)
  note b = ppp_blocked [OF none [OF k(1)] tasks [OF k(1)] a(1)]
    ppp_blocked [OF none [OF k(2)] tasks [OF k(2)] a(2)]
  have "pair_ok cnt pairs s j (pc_at ts (2 * j)) (pc_at ts (2 * j + 1))"
    using inv j by (simp add: ppp_inv_def)
  from pair_stuck [OF this] b show ?thesis by (auto simp: left_def pair_result_def Let_def)
qed

lemma ppp_progress:
  assumes inv: "ppp_inv cnt pairs (s, ts)" and stuck: "pool_stuck (ppp_step ph pairs) (s, ts)"
    and t: "t \<in> set ts" and pairs: "2 * unat pairs < 2 ^ 64"
  shows "ppp_finished t"
proof -
  have none: "ppp_step ph pairs s (ts ! k) = None" if "k < length ts" for k
    using stuck that by (simp add: pool_stuck_def)
  have main: "ts ! 0 = AwaitDone \<or> ts ! 0 = Finished"
    using none [of 0] inv by (cases "ts ! 0") (auto simp: ppp_inv_def)
  then have len: "length ts = Suc (2 * unat pairs)" using inv by (auto simp: ppp_inv_def)
  have fin: "ppp_finished (ts ! Suc k) \<and> gone (ts ! Suc k) = 1" if k: "Suc k < length ts" for k
  proof -
    have "pc_at ts k = PeerDone"
      using ppp_stuck_pairs [OF inv stuck, of "k div 2"] k len
      by (cases "even k") (auto elim!: evenE oddE)
    moreover have "task_is k (ts ! Suc k)" using inv k by (auto simp: ppp_inv_def)
    ultimately show ?thesis using k by (cases "ts ! Suc k") (auto simp: pc_at_def)
  qed
  have "ts ! 0 = Finished"
  proof (rule ccontr)
    assume "ts ! 0 \<noteq> Finished"
    with main have await: "ts ! 0 = AwaitDone" by simp
    obtain u us where ts: "ts = u # us" using len by (cases ts) auto
    have "gone t = 1" if "t \<in> set us" for t
      using fin that unfolding ts by (auto simp: in_set_conv_nth)
    then have "tsum gone us = tsum (\<lambda>_. 1) us" by (intro arg_cong [of _ _ sum_list] map_cong) auto
    then have "tsum gone ts = 2 * unat pairs" using await len by (simp add: ts sum_list_triv)
    moreover have "unat (2 * pairs) = 2 * unat pairs" using pairs by (simp add: unat_mult_exact)
    ultimately have "sem_wait ph (done_sem s) (2 * pairs) \<noteq> None"
      using inv await by (simp add: ppp_inv_def wait_None_iff)
    then show False using none [of 0] await len by (auto split: option.splits)
  qed
  moreover obtain k where "k < length ts" "t = ts ! k" using t by (auto simp: in_set_conv_nth)
  ultimately show ?thesis using fin by (cases k) auto
qed

end

text \<open>
  The program's own contract on top of photon's: at least one pair (\<open>photon_pairs\<close> sees to that)
  and a number of coroutines that a semaphore can count.
\<close>

locale ping_pong_photon = photon_sync +
  fixes pairs :: u64
  assumes some_pair: "0 < pairs" and countable: "2 * unat pairs < 2 ^ 64"

sublocale ping_pong_photon \<subseteq> ppp: task_live "ppp_step ph pairs" "ppp_inv cnt pairs" "ppp_weight cnt pairs" ppp_finished
proof unfold_locales
  show "ppp_inv cnt pairs c'" if "ppp_inv cnt pairs c" "pool_step (ppp_step ph pairs) c c'" for c c'
    using ppp_inv_step [OF that some_pair countable] by blast
  show "ppp_weight cnt pairs c' < ppp_weight cnt pairs c"
    if "ppp_inv cnt pairs c" "pool_step (ppp_step ph pairs) c c'" for c c'
    using ppp_inv_step [OF that some_pair countable] by blast
  show "ppp_step ph pairs s t = None" if "ppp_finished t" for s t
    using that by (rule ppp_stops)
  show "ppp_finished t"
    if "ppp_inv cnt pairs c" "pool_stuck (ppp_step ph pairs) c" "t \<in> set (snd c)" for c t
    using that countable by (cases c) (auto intro: ppp_progress)
qed

context photon_sync begin

lemma ppp_weight_start:
  "ppp_weight cnt pairs (ppp_start ph pairs) =
    2 * unat pairs + 2 + unat pairs * (10 * (unat (photon_per_pair pairs) + 2) + 9)"
  by (simp add: ppp_weight_def ppp_start_def pc_at_def pair_weight_def slot_weight_def slot_init_def
      messages_left_def)

end

context ping_pong_photon begin

lemma all_pairs:
  assumes "pool_reach (ppp_step ph pairs) (ppp_start ph pairs) (s, ts)"
  shows "pool_stuck (ppp_step ph pairs) (s, ts) \<Longrightarrow>
      (\<forall>t \<in> set ts. ppp_finished t) \<and> (\<forall>j < unat pairs. pair_result cnt (photon_per_pair pairs) s j)"
    and "j < unat pairs \<Longrightarrow> \<exists>v. turn True cnt (photon_per_pair pairs) v
      (pc_at ts (2 * j)) (pc_at ts (2 * j + 1)) (ab (ps s ! j)) (ba (ps s ! j))"
proof -
  have inv: "ppp_inv cnt pairs (s, ts)"
    by (rule ppp.inv_reach [OF ppp_inv_start [OF some_pair] assms])
  show "(\<forall>t \<in> set ts. ppp_finished t) \<and> (\<forall>j < unat pairs. pair_result cnt (photon_per_pair pairs) s j)"
    if "pool_stuck (ppp_step ph pairs) (s, ts)"
    using ppp.stuck_iff_finished [OF inv] ppp_stuck_pairs [OF inv that] that by simp
  show "\<exists>v. turn True cnt (photon_per_pair pairs) v
      (pc_at ts (2 * j)) (pc_at ts (2 * j + 1)) (ab (ps s ! j)) (ba (ps s ! j))"
    if "j < unat pairs"
    using inv that by (simp add: ppp_inv_def pair_inv_def)
qed

lemma pairs_length:
  assumes "pool_run (ppp_step ph pairs) sched (ppp_start ph pairs) = Some c"
  shows "length sched \<le> unat pairs * (10 * unat (photon_per_pair pairs) + 31) + 2"
  using ppp.run_length [OF ppp_inv_start [OF some_pair] assms]
  by (simp add: ppp_weight_start algebra_simps)

end

lemma half_slots:
  assumes "half cnt limit v x y ou inn"
  shows "unat (cnt (full inn)) = 0 \<and> unat (cnt (full ou)) \<le> 1 \<and>
    (unat (cnt (full ou)) = 1 \<longrightarrow> slot_value ou = v)"
proof -
  from assms obtain st where "slot_is cnt inn 0 1" "half_at st cnt limit v x y ou" by (rule halfE)
  then show ?thesis by (cases st) (auto simp: slot_is_def)
qed

lemma turn_slots:
  assumes "turn True cnt limit v a b sab sba"
  shows "unat (cnt (full sab)) + unat (cnt (full sba)) \<le> 1 \<and>
    (unat (cnt (full sab)) = 1 \<longrightarrow> even (unat (slot_value sab)) \<and> unat (slot_value sab) \<le> unat limit + 1) \<and>
    (unat (cnt (full sba)) = 1 \<longrightarrow> odd (unat (slot_value sba)) \<and> unat (slot_value sba) \<le> unat limit + 1)"
  using assms half_slots [of cnt limit v a b sab sba] half_slots [of cnt limit v b a sba sab]
  by (auto simp: turn_def split: if_splits)

interpretation four_pairs: ping_pong_photon counter_ops "\<lambda>s. s" "\<lambda>m. m" 4
  by unfold_locales simp_all

section \<open>Properties\<close>

text \<open>
  C3. Total correctness of the photon ping-pong, for any number of pairs the semaphore can count.
  Whatever the interleaving, a run that cannot go on has finished every coroutine and \<open>main\<close>, and
  in every pair the messages have counted up to the limit: the slot of the side that left last
  holds the releasing message \<open>per_pair + 1\<close>.
\<close>

theorem ppp_correct:
  assumes "photon_sync ph cnt held" and "0 < pairs" and "2 * unat pairs < 2 ^ 64"
    and "pool_reach (ppp_step ph pairs) (ppp_start ph pairs) (s, ts)"
    and "pool_stuck (ppp_step ph pairs) (s, ts)"
  shows "(\<forall>t \<in> set ts. ppp_finished t) \<and>
    (\<forall>j < unat pairs. pair_result cnt (photon_per_pair pairs) s j)"
  using ping_pong_photon.all_pairs(1) [OF ping_pong_photon.intro
      [OF assms(1) ping_pong_photon_axioms.intro [OF assms(2,3)]] assms(4,5)] .

theorem ppp_correct_witness:
  "\<exists>s ts. pool_reach (ppp_step counter_ops 4) (ppp_start counter_ops 4) (s, ts) \<and>
    (\<forall>t \<in> set ts. ppp_finished t) \<and> unat (slot_value (ba (ps s ! 3))) = 25001"
proof -
  obtain s ts where run: "pool_reach (ppp_step counter_ops 4) (ppp_start counter_ops 4) (s, ts)"
    "pool_stuck (ppp_step counter_ops 4) (s, ts)"
    using four_pairs.ppp.reaches_stuck [OF counter.ppp_inv_start] by force
  have limit: "unat (photon_per_pair 4) = 25000"
    by (simp add: photon_per_pair_def photon_total_def Let_def)
  from ppp_correct [OF counter.photon_sync_axioms _ _ run] run(1) limit show ?thesis
    by (intro exI [of _ s] exI [of _ ts]) (simp add: pair_result_def Let_def)
qed

text \<open>
  Termination with an explicit bound: a run of the ping-pong takes at most ten actions for
  each message of each pair, plus a constant number for each pair.
\<close>

theorem ppp_run_bounded:
  assumes "photon_sync ph cnt held" and "0 < pairs" and "2 * unat pairs < 2 ^ 64"
    and "pool_run (ppp_step ph pairs) sched (ppp_start ph pairs) = Some c"
  shows "length sched \<le> unat pairs * (10 * unat (photon_per_pair pairs) + 31) + 2"
  by (rule ping_pong_photon.pairs_length [OF ping_pong_photon.intro
      [OF assms(1) ping_pong_photon_axioms.intro [OF assms(2,3)]] assms(4)])

theorem ppp_run_bounded_witness:
  "\<exists>c. pool_run (ppp_step counter_ops 4) [0, 0, 0] (ppp_start counter_ops 4) = Some c \<and>
    length [0, 0, 0 :: nat] \<le> 4 * (10 * unat (photon_per_pair 4) + 31) + 2"
proof -
  have "\<exists>c. pool_run (ppp_step counter_ops 4) [0, 0, 0] (ppp_start counter_ops 4) = Some c"
    by (simp add: ppp_start_def)
  with ppp_run_bounded [OF counter.photon_sync_axioms, of 4 "[0, 0, 0]"] show ?thesis by auto
qed

text \<open>
  One message at a time: in every reachable state at most one of a pair's two slots holds a
  message, the first coroutine only sends even numbers and the second odd ones, and no message
  exceeds \<open>per_pair + 1\<close>; so no message is overwritten before it is received.
\<close>

theorem ppp_one_message:
  assumes "photon_sync ph cnt held" and "0 < pairs" and "2 * unat pairs < 2 ^ 64"
    and "pool_reach (ppp_step ph pairs) (ppp_start ph pairs) (s, ts)" and "j < unat pairs"
  shows "unat (cnt (full (ab (ps s ! j)))) + unat (cnt (full (ba (ps s ! j)))) \<le> 1 \<and>
    (unat (cnt (full (ab (ps s ! j)))) = 1 \<longrightarrow> even (unat (slot_value (ab (ps s ! j)))) \<and>
      unat (slot_value (ab (ps s ! j))) \<le> unat (photon_per_pair pairs) + 1) \<and>
    (unat (cnt (full (ba (ps s ! j)))) = 1 \<longrightarrow> odd (unat (slot_value (ba (ps s ! j)))) \<and>
      unat (slot_value (ba (ps s ! j))) \<le> unat (photon_per_pair pairs) + 1)"
  using ping_pong_photon.all_pairs(2) [OF ping_pong_photon.intro
      [OF assms(1) ping_pong_photon_axioms.intro [OF assms(2,3)]] assms(4,5)] turn_slots by blast

theorem ppp_one_message_witness:
  "\<exists>s ts. pool_reach (ppp_step counter_ops 1) (ppp_start counter_ops 1) (s, ts) \<and>
    unat (full (ab (ps s ! 0))) = 1 \<and> unat (full (ba (ps s ! 0))) = 0 \<and>
    even (unat (slot_value (ab (ps s ! 0))))"
proof -
  have "\<exists>s ts. pool_run (ppp_step counter_ops 1) [0, 1, 1, 1] (ppp_start counter_ops 1) = Some (s, ts) \<and>
      unat (full (ab (ps s ! 0))) = 1"
    by (simp add: ppp_start_def counter_ops_def slot_init_def Let_def photon_per_pair_def)
  then obtain s ts where run: "pool_reach (ppp_step counter_ops 1) (ppp_start counter_ops 1) (s, ts)"
    "unat (full (ab (ps s ! 0))) = 1"
    using pool_run_reach by blast
  from ppp_one_message [OF counter.photon_sync_axioms _ _ run(1), of 0] run show ?thesis by auto
qed

text \<open>
  The slot implements a FIFO of capacity 1: any script of undisturbed sends and receives on a
  fresh slot returns what the list specification returns and blocks where it blocks.
\<close>

theorem slot_refines:
  assumes "photon_sync ph cnt held"
  shows "map_option (\<lambda>(out, sl). (out, slot_stored cnt sl))
      (run_ops (slot_send ph) (slot_recv ph) ops (slot_init ph)) = run_ops (spec_put 1) spec_get ops []"
  by (rule photon_sync.slot_script [OF assms])

theorem slot_refines_witness:
  "map_option (\<lambda>(out, sl). (out, slot_stored (\<lambda>s. s) sl))
      (run_ops (slot_send counter_ops) (slot_recv counter_ops) [Put 5, Get, Put 6] (slot_init counter_ops)) =
    Some ([5], [6]) \<and>
    run_ops (slot_send counter_ops) (slot_recv counter_ops) [Put 5, Put 6] (slot_init counter_ops) = None"
proof -
  note r = slot_refines [OF counter.photon_sync_axioms]
  from r [of "[Put 5, Put 6]"] have "run_ops (slot_send counter_ops) (slot_recv counter_ops) [Put 5, Put 6]
      (slot_init counter_ops) = None" by (simp only: run_ops.simps) (simp add: spec_put_def)
  then show ?thesis unfolding r by (simp add: spec_put_def)
qed

text \<open>
  How the fixed total is split: with at most \<open>total\<close> pairs the pairs' shares add up to at
  most \<open>total\<close> and leave out less than one message per pair; with more pairs than messages every
  pair still bounces one message, so that more than \<open>total\<close> are exchanged.
\<close>

theorem ppp_split:
  assumes "0 < pairs"
  shows "if pairs \<le> photon_total
    then unat pairs * unat (photon_per_pair pairs) \<le> 100000 \<and>
      100000 < unat pairs * (unat (photon_per_pair pairs) + 1)
    else unat (photon_per_pair pairs) = 1 \<and> 100000 < unat pairs * unat (photon_per_pair pairs)"
proof (cases "pairs \<le> photon_total")
  case True
  have p: "0 < unat pairs" using assms by (simp add: word_less_nat_alt)
  moreover have le: "unat pairs \<le> 100000" using True by (simp add: word_le_nat_alt photon_total_def)
  ultimately have one: "1 \<le> 100000 div unat pairs"
    using div_le_mono [OF le, of "unat pairs"] by simp
  have per: "unat (photon_per_pair pairs) = 100000 div unat pairs"
    using one by (auto simp: photon_per_pair_def photon_total_def Let_def unat_div_distrib word_less_nat_alt)
  have "100000 < unat pairs * (100000 div unat pairs) + unat pairs"
    using mult_div_mod_eq [of "unat pairs" 100000] mod_less_divisor [OF p, of 100000] by linarith
  then show ?thesis using True by (simp add: per)
next
  case False
  then have "100000 < unat pairs" by (simp add: word_le_nat_alt photon_total_def)
  moreover from this have "unat (photon_per_pair pairs) = 1"
    by (simp add: photon_per_pair_def photon_total_def Let_def word_less_nat_alt unat_div_distrib)
  ultimately show ?thesis using False by simp
qed

theorem ppp_split_witness:
  "unat (photon_per_pair 3) = 33333 \<and> 3 * unat (photon_per_pair 3) \<le> 100000"
  using ppp_split [of 3] by (simp add: photon_per_pair_def photon_total_def Let_def)

end
