(* ===== verification/Ping_Pong_Asio.thy ===== *)
theory Ping_Pong_Asio
  imports Tasks Asio_Runtime
begin

text \<open>
  \<open>cpp/queue_ping_pong.cpp\<close>: the ping-pong on Asio coroutines. Each \<open>pair\<close> coroutine owns two
  channels of capacity 1 and runs \<open>task_a\<close> and \<open>task_b\<close> under \<open>&&\<close>; the side that reaches the
  limit closes the channel its peer is receiving on, which ends the peer. One step is one channel
  operation. The theorems: every run ends with all coroutines returned, in every pair exactly the
  messages 0 to \<open>limit - 1\<close> were exchanged, and no exception leaves a coroutine.
\<close>

section \<open>The two tasks of a pair\<close>

text \<open>
  The loops of \<open>task_a\<close> and \<open>task_b\<close> are the same up to the direction: receive, add one, close
  at the limit, otherwise send. \<open>task_a\<close> starts with a send whose error would be thrown
  (\<open>ChatThrow\<close>, where the model stops); all others end the coroutine (\<open>ChatReturn\<close>).
\<close>

datatype chat_pc = ChatFirst | ChatRecv | ChatSend u64 | ChatClose | ChatReturn | ChatThrow | ChatDone

fun chat_step ::
  "'c channel_ops \<Rightarrow> u64 \<Rightarrow> chat_pc \<Rightarrow> 'c \<Rightarrow> 'c \<Rightarrow> ('c \<times> 'c \<times> chat_pc) option"
where
  "chat_step ch limit ChatFirst out inn =
     (case ch_send ch out 0 of
        None \<Rightarrow> None
      | Some (ec, out') \<Rightarrow> Some (out', inn, if is_error ec then ChatThrow else ChatRecv))"
| "chat_step ch limit ChatRecv out inn =
     (case ch_receive ch inn of
        None \<Rightarrow> None
      | Some (ec, v, inn') \<Rightarrow>
          Some (out, inn',
            if is_error ec then ChatReturn
            else let nxt = v + 1 in if limit \<le> nxt then ChatClose else ChatSend nxt))"
| "chat_step ch limit (ChatSend nxt) out inn =
     (case ch_send ch out nxt of
        None \<Rightarrow> None
      | Some (ec, out') \<Rightarrow> Some (out', inn, if is_error ec then ChatReturn else ChatRecv))"
| "chat_step ch limit ChatClose out inn = Some (ch_close ch out, inn, ChatReturn)"
| "chat_step ch limit _ out inn = None"

section \<open>Pairs and main\<close>

record ('c, 'j) pair_chans =
  chan_ab :: 'c
  chan_ba :: 'c
  both :: 'j

record ('c, 'j) ppa_state =
  chans :: "('c, 'j) pair_chans list"
  pair_pool :: 'j

text \<open>
  \<open>PairStart i\<close> constructs the channels and starts the two tasks, \<open>PairJoin i\<close> waits for both
  (the \<open>&&\<close>), \<open>PairReturn i\<close> returns to the pool.
\<close>

datatype ppa_task =
    TaskA u64 chat_pc
  | TaskB u64 chat_pc
  | PairStart u64
  | PairJoin u64
  | PairReturn u64
  | PairDone u64
  | SpawnPairs u64
  | JoinPairs
  | JoinedPairs

definition asio_TOTAL :: u64 where
  "asio_TOTAL = 100000"

definition asio_pairs :: "u64 \<Rightarrow> u64" where
  "asio_pairs pairs = (if pairs = 0 then 1 else pairs)"

definition asio_per_pair :: "u64 \<Rightarrow> u64" where
  "asio_per_pair pairs =
     (let per_pair = asio_TOTAL div pairs in if per_pair < 1 then 1 else per_pair)"

definition new_chans :: "'c channel_ops \<Rightarrow> 'j join_ops \<Rightarrow> ('c, 'j) pair_chans" where
  "new_chans ch jn = \<lparr>chan_ab = ch_open ch 1, chan_ba = ch_open ch 1, both = join_new jn\<rparr>"

definition set_chans :: "u64 \<Rightarrow> ('c, 'j) pair_chans \<Rightarrow> ('c, 'j) ppa_state \<Rightarrow> ('c, 'j) ppa_state" where
  "set_chans i p s = s\<lparr>chans := (chans s)[unat i := p]\<rparr>"

fun pair_step ::
  "'c channel_ops \<Rightarrow> 'j join_ops \<Rightarrow> (('c, 'j) ppa_state, ppa_task) task_step"
where
  "pair_step ch jn s (PairStart i) =
     (let p = new_chans ch jn in
      Some (set_chans i (p\<lparr>both := join_spawn jn (join_spawn jn (both p))\<rparr>) s, PairJoin i,
        [TaskA i ChatFirst, TaskB i ChatRecv]))"
| "pair_step ch jn s (PairJoin i) =
     (let p = chans s ! unat i in
      case join_wait jn (both p) of
        None \<Rightarrow> None
      | Some j \<Rightarrow> Some (set_chans i (p\<lparr>both := j\<rparr>) s, PairReturn i, []))"
| "pair_step ch jn s (PairReturn i) =
     Some (s\<lparr>pair_pool := join_return jn (pair_pool s)\<rparr>, PairDone i, [])"
| "pair_step ch jn s _ = None"

fun ppa_main_step :: "'j join_ops \<Rightarrow> u64 \<Rightarrow> (('c, 'j) ppa_state, ppa_task) task_step" where
  "ppa_main_step jn pairs s (SpawnPairs i) =
     Some (if i < pairs
           then (s\<lparr>pair_pool := join_spawn jn (pair_pool s)\<rparr>, SpawnPairs (i + 1), [PairStart i])
           else (s, JoinPairs, []))"
| "ppa_main_step jn pairs s JoinPairs =
     (case join_wait jn (pair_pool s) of
        None \<Rightarrow> None
      | Some j \<Rightarrow> Some (s\<lparr>pair_pool := j\<rparr>, JoinedPairs, []))"
| "ppa_main_step jn pairs s _ = None"

text \<open>\<open>task_a\<close> sends on \<open>ab\<close> and receives on \<open>ba\<close>, \<open>task_b\<close> the other way round.\<close>

fun ppa_step ::
  "'c channel_ops \<Rightarrow> 'j join_ops \<Rightarrow> u64 \<Rightarrow> (('c, 'j) ppa_state, ppa_task) task_step"
where
  "ppa_step ch jn pairs s (TaskA i pc) =
     (let p = chans s ! unat i in
      if pc = ChatReturn then Some (set_chans i (p\<lparr>both := join_return jn (both p)\<rparr>) s, TaskA i ChatDone, [])
      else case chat_step ch (asio_per_pair pairs) pc (chan_ab p) (chan_ba p) of
        None \<Rightarrow> None
      | Some (out, inn, pc') \<Rightarrow> Some (set_chans i (p\<lparr>chan_ab := out, chan_ba := inn\<rparr>) s, TaskA i pc', []))"
| "ppa_step ch jn pairs s (TaskB i pc) =
     (let p = chans s ! unat i in
      if pc = ChatReturn then Some (set_chans i (p\<lparr>both := join_return jn (both p)\<rparr>) s, TaskB i ChatDone, [])
      else case chat_step ch (asio_per_pair pairs) pc (chan_ba p) (chan_ab p) of
        None \<Rightarrow> None
      | Some (out, inn, pc') \<Rightarrow> Some (set_chans i (p\<lparr>chan_ab := inn, chan_ba := out\<rparr>) s, TaskB i pc', []))"
| "ppa_step ch jn pairs s (SpawnPairs i) = ppa_main_step jn pairs s (SpawnPairs i)"
| "ppa_step ch jn pairs s JoinPairs = ppa_main_step jn pairs s JoinPairs"
| "ppa_step ch jn pairs s t = pair_step ch jn s t"

definition ppa_start ::
  "'c channel_ops \<Rightarrow> 'j join_ops \<Rightarrow> u64 \<Rightarrow> (('c, 'j) ppa_state, ppa_task) pool"
where
  "ppa_start ch jn pairs =
     (\<lparr>chans = replicate (unat pairs) (new_chans ch jn), pair_pool = join_new jn\<rparr>, [SpawnPairs 0])"

fun ppa_finished :: "ppa_task \<Rightarrow> bool" where
  "ppa_finished (TaskA _ pc) = (pc = ChatDone)"
| "ppa_finished (TaskB _ pc) = (pc = ChatDone)"
| "ppa_finished (PairDone _) = True"
| "ppa_finished JoinedPairs = True"
| "ppa_finished _ = False"

section \<open>One pair\<close>

text \<open>
  Where message \<open>v\<close> can be on its way from \<open>x\<close> (sending on \<open>ou\<close>) to \<open>y\<close> (sending on \<open>inn\<close>), and
  how the pair ends when \<open>v\<close> is the last.
\<close>

datatype chat_stage = Sending | Flying | Closing | PeerClosed | BothOut

definition out_pc :: "chat_pc \<Rightarrow> bool" where
  "out_pc pc \<longleftrightarrow> pc = ChatReturn \<or> pc = ChatDone"

lemma out_pc_simps [simp]:
  "out_pc ChatReturn" "out_pc ChatDone" "\<not> out_pc ChatRecv" "\<not> out_pc ChatFirst" "\<not> out_pc ChatClose"
  "\<not> out_pc (ChatSend v)" "\<not> out_pc ChatThrow"
  by (simp_all add: out_pc_def)

definition msg_weight :: "u64 \<Rightarrow> u64 \<Rightarrow> nat" where
  "msg_weight limit v = 2 * (unat limit - unat v)"

fun pc_weight :: "u64 \<Rightarrow> chat_pc \<Rightarrow> nat" where
  "pc_weight limit ChatFirst = 4 + msg_weight limit 0"
| "pc_weight limit (ChatSend v) = 4 + msg_weight limit v"
| "pc_weight limit ChatRecv = 3"
| "pc_weight limit ChatClose = 2"
| "pc_weight limit ChatReturn = 1"
| "pc_weight limit _ = 0"

context asio_channel begin

lemma receive_empty: "chan_is c [] n False \<Longrightarrow> ch_receive ch c = None"
  by (simp add: receive_None_iff)

fun chat_at :: "chat_stage \<Rightarrow> u64 \<Rightarrow> u64 \<Rightarrow> chat_pc \<Rightarrow> chat_pc \<Rightarrow> 'c \<Rightarrow> 'c \<Rightarrow> bool" where
  "chat_at Sending limit v x y ou inn =
     ((x = ChatSend v \<or> x = ChatFirst \<and> v = 0) \<and> y = ChatRecv \<and>
      chan_is ou [] 1 False \<and> chan_is inn [] 1 False)"
| "chat_at Flying limit v x y ou inn =
     (x = ChatRecv \<and> y = ChatRecv \<and> chan_is ou [v] 1 False \<and> chan_is inn [] 1 False)"
| "chat_at Closing limit v x y ou inn =
     (Suc (unat v) = unat limit \<and> x = ChatRecv \<and> y = ChatClose \<and>
      chan_is ou [] 1 False \<and> chan_is inn [] 1 False)"
| "chat_at PeerClosed limit v x y ou inn =
     (Suc (unat v) = unat limit \<and> x = ChatRecv \<and> out_pc y \<and>
      chan_is ou [] 1 False \<and> chan_is inn [] 1 True)"
| "chat_at BothOut limit v x y ou inn =
     (Suc (unat v) = unat limit \<and> out_pc x \<and> out_pc y \<and>
      chan_is ou [] 1 False \<and> chan_is inn [] 1 True)"

definition chat_half :: "u64 \<Rightarrow> u64 \<Rightarrow> chat_pc \<Rightarrow> chat_pc \<Rightarrow> 'c \<Rightarrow> 'c \<Rightarrow> bool" where
  "chat_half limit v x y ou inn \<longleftrightarrow> v < limit \<and> (\<exists>st. chat_at st limit v x y ou inn)"

definition chat_turn :: "bool \<Rightarrow> u64 \<Rightarrow> chat_pc \<Rightarrow> chat_pc \<Rightarrow> 'c \<Rightarrow> 'c \<Rightarrow> bool" where
  "chat_turn ev limit a b cab cba \<longleftrightarrow>
     (\<exists>v. if even (unat v) = ev then chat_half limit v a b cab cba else chat_half limit v b a cba cab)"

lemma chat_turn_swap: "chat_turn ev limit a b cab cba \<longleftrightarrow> chat_turn (\<not> ev) limit b a cba cab"
  by (auto simp: chat_turn_def)

definition chan_weight :: "u64 \<Rightarrow> 'c \<Rightarrow> nat" where
  "chan_weight limit c = sum_list (map (msg_weight limit) (stored c))"

lemma chan_weight_is: "chan_is c xs n b \<Longrightarrow> chan_weight limit c = sum_list (map (msg_weight limit) xs)"
  by (simp add: chan_weight_def chan_is_def)

lemma half_sends:
  assumes "chat_half limit v x y ou inn" and "chat_step ch limit x ou inn = Some (ou', inn', x')"
  shows "chat_half limit v x' y ou' inn' \<and>
    pc_weight limit x' + chan_weight limit ou' + chan_weight limit inn' <
    pc_weight limit x + chan_weight limit ou + chan_weight limit inn"
proof -
  from assms(1) obtain st where v: "v < limit" and st: "chat_at st limit v x y ou inn"
    by (auto simp: chat_half_def)
  show ?thesis
  proof (cases st)
    case Sending
    with st assms(2) obtain ec c where snd: "ch_send ch ou v = Some (ec, c)"
      and e: "ou' = c" "inn' = inn" "is_error ec \<or> x' = ChatRecv"
      by (auto split: option.splits)
    from st Sending have ou: "chan_is ou [] 1 False" and inn: "chan_is inn [] 1 False" by auto
    from send_cases [OF snd ou] have c: "ec = Success" "chan_is c [v] 1 False" by auto
    with e st Sending have "chat_at Flying limit v x' y ou' inn'" by auto
    moreover have "pc_weight limit x = 4 + msg_weight limit v" using st Sending by auto
    ultimately show ?thesis using v e c ou inn
      by (auto simp: chat_half_def chan_weight_is intro: exI [of _ Flying])
  next
    case PeerClosed
    with st assms(2) obtain ec w c where rcv: "ch_receive ch inn = Some (ec, w, c)"
      and e: "ou' = ou" "inn' = c" "is_error ec \<longrightarrow> x' = ChatReturn"
      by (auto split: option.splits)
    from st PeerClosed have ou: "chan_is ou [] 1 False" and inn: "chan_is inn [] 1 True" by auto
    from receive_cases [OF rcv inn] have c: "ec = ChannelClosed" "chan_is c [] 1 True" by auto
    with e st PeerClosed have "chat_at BothOut limit v x' y ou' inn'" "x' = ChatReturn" by auto
    then show ?thesis using v e c inn st PeerClosed
      by (auto simp: chat_half_def chan_weight_is intro: exI [of _ BothOut])
  qed (use st assms(2) in \<open>auto simp: receive_empty out_pc_def\<close>)
qed

lemma half_answers:
  assumes "chat_half limit v x y ou inn" and "chat_step ch limit y inn ou = Some (inn', ou', y')"
  shows "(chat_half limit v x y' ou' inn' \<or>
      unat (v + 1) = Suc (unat v) \<and> chat_half limit (v + 1) y' x inn' ou') \<and>
    pc_weight limit y' + chan_weight limit ou' + chan_weight limit inn' <
    pc_weight limit y + chan_weight limit ou + chan_weight limit inn"
proof -
  from assms(1) obtain st where v: "v < limit" and st: "chat_at st limit v x y ou inn"
    by (auto simp: chat_half_def)
  note inc = unat_inc [OF v]
  show ?thesis
  proof (cases st)
    case Flying
    with st assms(2) obtain ec w c where rcv: "ch_receive ch ou = Some (ec, w, c)"
      and e: "inn' = inn" "ou' = c"
        "\<not> is_error ec \<longrightarrow> y' = (if limit \<le> w + 1 then ChatClose else ChatSend (w + 1))"
      by (auto simp: Let_def split: option.splits)
    from st Flying have ou: "chan_is ou [v] 1 False" and inn: "chan_is inn [] 1 False" by auto
    from receive_cases [OF rcv ou] have c: "ec = Success" "w = v" "chan_is c [] 1 False" by auto
    have m: "msg_weight limit v = 2 * (unat limit - unat v)" by (simp add: msg_weight_def)
    show ?thesis
    proof (cases "limit \<le> v + 1")
      case True
      then have "Suc (unat v) = unat limit" using v inc by (simp add: word_le_nat_alt word_less_nat_alt)
      then have "chat_at Closing limit v x y' ou' inn'" using e c True st Flying by auto
      then show ?thesis using v e c ou inn True st Flying
        by (auto simp: chat_half_def chan_weight_is intro: exI [of _ Closing])
    next
      case False
      then have "chat_at Sending limit (v + 1) y' x inn' ou'" using e c st Flying by auto
      moreover have "v + 1 < limit" using False by simp
      moreover have "unat v < unat limit" using v by (simp add: word_less_nat_alt)
      ultimately show ?thesis using v e c ou inn False inc st Flying
        by (auto simp: chat_half_def chan_weight_is msg_weight_def intro: exI [of _ Sending])
    qed
  next
    case Closing
    with st assms(2) have e: "inn' = ch_close ch inn" "ou' = ou" "y' = ChatReturn" by auto
    with st Closing have "chat_at PeerClosed limit v x y' ou' inn'" by (auto intro: chan_close)
    then show ?thesis using v e st Closing
      by (auto simp: chat_half_def chan_weight_is chan_weight_def intro: exI [of _ PeerClosed])
  qed (use st assms(2) in \<open>auto simp: receive_empty out_pc_def\<close>)
qed

lemma turn_moves:
  assumes "chat_turn ev limit a b cab cba" and "chat_step ch limit a cab cba = Some (cab', cba', a')"
  shows "chat_turn ev limit a' b cab' cba'"
    and "pc_weight limit a' + chan_weight limit cab' + chan_weight limit cba' <
      pc_weight limit a + chan_weight limit cab + chan_weight limit cba"
proof -
  from assms(1) obtain v where v: "if even (unat v) = ev then chat_half limit v a b cab cba
      else chat_half limit v b a cba cab" by (auto simp: chat_turn_def)
  have "chat_turn ev limit a' b cab' cba' \<and> pc_weight limit a' + chan_weight limit cab' + chan_weight limit cba' <
      pc_weight limit a + chan_weight limit cab + chan_weight limit cba"
  proof (cases "even (unat v) = ev")
    case True
    with v half_sends [OF _ assms(2)] show ?thesis by (auto simp: chat_turn_def)
  next
    case False
    with v have h: "chat_half limit v b a cba cab" by simp
    note ans = half_answers [OF this assms(2)]
    from ans consider "chat_half limit v b a' cba' cab'"
      | "unat (v + 1) = Suc (unat v)" "chat_half limit (v + 1) a' b cab' cba'" by blast
    then have "chat_turn ev limit a' b cab' cba'"
    proof cases
      case 1
      then show ?thesis unfolding chat_turn_def using False by (intro exI [of _ v]) simp
    next
      case 2
      then show ?thesis unfolding chat_turn_def using False by (intro exI [of _ "v + 1"]) auto
    qed
    with ans show ?thesis by linarith
  qed
  then show "chat_turn ev limit a' b cab' cba'"
    "pc_weight limit a' + chan_weight limit cab' + chan_weight limit cba' <
      pc_weight limit a + chan_weight limit cab + chan_weight limit cba" by auto
qed

end

section \<open>All pairs\<close>

text \<open>
  The tasks of a pair are found anywhere in the pool. For pair \<open>j\<close>, \<open>phase_of\<close>, \<open>a_of\<close> and \<open>b_of\<close>
  give what a task tells of the pair coroutine and of its two tasks; summed over the pool each is
  a multiset with at most one element.
\<close>

datatype pair_phase = Unspawned | Starting | Joining | Over

fun phase_of :: "nat \<Rightarrow> ppa_task \<Rightarrow> pair_phase multiset" where
  "phase_of j (SpawnPairs i) = (if unat i \<le> j then {#Unspawned#} else {#})"
| "phase_of j (PairStart i) = (if unat i = j then {#Starting#} else {#})"
| "phase_of j (PairJoin i) = (if unat i = j then {#Joining#} else {#})"
| "phase_of j (PairReturn i) = (if unat i = j then {#Over#} else {#})"
| "phase_of j (PairDone i) = (if unat i = j then {#Over#} else {#})"
| "phase_of j _ = {#}"

fun a_of :: "nat \<Rightarrow> ppa_task \<Rightarrow> chat_pc multiset" where
  "a_of j (TaskA i pc) = (if unat i = j then {#pc#} else {#})"
| "a_of j _ = {#}"

fun b_of :: "nat \<Rightarrow> ppa_task \<Rightarrow> chat_pc multiset" where
  "b_of j (TaskB i pc) = (if unat i = j then {#pc#} else {#})"
| "b_of j _ = {#}"

fun pair_alive :: "ppa_task \<Rightarrow> nat" where
  "pair_alive (PairStart _) = 1"
| "pair_alive (PairJoin _) = 1"
| "pair_alive (PairReturn _) = 1"
| "pair_alive _ = 0"

fun ppa_task_ok :: "u64 \<Rightarrow> ppa_task \<Rightarrow> bool" where
  "ppa_task_ok pairs (TaskA i _) = (i < pairs)"
| "ppa_task_ok pairs (TaskB i _) = (i < pairs)"
| "ppa_task_ok pairs (PairStart i) = (i < pairs)"
| "ppa_task_ok pairs (PairJoin i) = (i < pairs)"
| "ppa_task_ok pairs (PairReturn i) = (i < pairs)"
| "ppa_task_ok pairs (PairDone i) = (i < pairs)"
| "ppa_task_ok pairs (SpawnPairs i) = (i \<le> pairs)"
| "ppa_task_ok pairs _ = True"

fun ppa_task_weight :: "u64 \<Rightarrow> ppa_task \<Rightarrow> nat" where
  "ppa_task_weight pairs (TaskA _ pc) = pc_weight (asio_per_pair pairs) pc"
| "ppa_task_weight pairs (TaskB _ pc) = pc_weight (asio_per_pair pairs) pc"
| "ppa_task_weight pairs (PairStart _) = 2 * unat (asio_per_pair pairs) + 10"
| "ppa_task_weight pairs (PairJoin _) = 2"
| "ppa_task_weight pairs (PairReturn _) = 1"
| "ppa_task_weight pairs (SpawnPairs i) =
     (unat pairs - unat i) * (2 * unat (asio_per_pair pairs) + 11) + 2"
| "ppa_task_weight pairs JoinPairs = 1"
| "ppa_task_weight pairs _ = 0"

fun on_pair :: "ppa_task \<Rightarrow> nat option" where
  "on_pair (TaskA i _) = Some (unat i)"
| "on_pair (TaskB i _) = Some (unat i)"
| "on_pair (PairStart i) = Some (unat i)"
| "on_pair (PairJoin i) = Some (unat i)"
| "on_pair (PairReturn i) = Some (unat i)"
| "on_pair (SpawnPairs i) = Some (unat i)"
| "on_pair _ = None"

definition busy :: "chat_pc \<Rightarrow> nat" where
  "busy pc = (if pc = ChatDone then 0 else 1)"

lemma asio_per_pair_pos: "0 < asio_per_pair pairs"
  by (auto simp: asio_per_pair_def Let_def word_less_nat_alt)

context asio_runtime begin

definition pair_ok ::
  "u64 \<Rightarrow> ('c, 'j) pair_chans \<Rightarrow> pair_phase multiset \<Rightarrow> chat_pc multiset \<Rightarrow> chat_pc multiset \<Rightarrow> bool"
where
  "pair_ok limit p ph as bs \<longleftrightarrow>
     (ph = {#Unspawned#} \<or> ph = {#Starting#}) \<and> as = {#} \<and> bs = {#} \<and>
       stored (chan_ab p) = [] \<and> stored (chan_ba p) = [] \<or>
     (\<exists>a b. as = {#a#} \<and> bs = {#b#} \<and> chat_turn True limit a b (chan_ab p) (chan_ba p) \<and>
       (ph = {#Joining#} \<and> running (both p) = busy a + busy b \<or>
        ph = {#Over#} \<and> a = ChatDone \<and> b = ChatDone))"

definition pair_chan_weight :: "u64 \<Rightarrow> ('c, 'j) pair_chans \<Rightarrow> nat" where
  "pair_chan_weight limit p = chan_weight limit (chan_ab p) + chan_weight limit (chan_ba p)"

lemma turn_return:
  "chat_turn ev limit ChatReturn b cab cba \<Longrightarrow> chat_turn ev limit ChatDone b cab cba"
  unfolding chat_turn_def chat_half_def
proof (elim exE)
  fix v
  assume v: "if even (unat v) = ev then v < limit \<and> (\<exists>st. chat_at st limit v ChatReturn b cab cba)
    else v < limit \<and> (\<exists>st. chat_at st limit v b ChatReturn cba cab)"
  have "chat_at st limit v ChatReturn b cab cba \<Longrightarrow> chat_at st limit v ChatDone b cab cba"
    "chat_at st limit v b ChatReturn cba cab \<Longrightarrow> chat_at st limit v b ChatDone cba cab" for st
    by (cases st; auto)+
  with v show "\<exists>v. if even (unat v) = ev then v < limit \<and> (\<exists>st. chat_at st limit v ChatDone b cab cba)
    else v < limit \<and> (\<exists>st. chat_at st limit v b ChatDone cba cab)"
    by (intro exI [of _ v]) (auto split: if_splits)
qed

lemma chat_moves_busy: "chat_step ch limit a ou inn = Some (ou', inn', a') \<Longrightarrow> busy a' = busy a \<and> a \<noteq> ChatDone"
  by (cases a) (auto simp: busy_def Let_def split: option.splits if_splits)

text \<open>A step of \<open>task_a\<close>, then of \<open>task_b\<close>, for a pair whose other coroutines are \<open>ph\<close>, \<open>bs\<close>.\<close>

lemma task_a_local:
  assumes "ppa_step ch jn pairs s (TaskA i pc) = Some (s', t', new)" and "unat i < length (chans s)"
    and "pair_ok (asio_per_pair pairs) (chans s ! unat i) ph (as + {#pc#}) bs"
  shows "\<exists>pc' p. t' = TaskA i pc' \<and> new = [] \<and> s' = set_chans i p s \<and> as = {#} \<and>
    pair_ok (asio_per_pair pairs) p ph {#pc'#} bs \<and>
    pc_weight (asio_per_pair pairs) pc' + pair_chan_weight (asio_per_pair pairs) p <
    pc_weight (asio_per_pair pairs) pc + pair_chan_weight (asio_per_pair pairs) (chans s ! unat i)"
proof -
  let ?p = "chans s ! unat i" and ?L = "asio_per_pair pairs"
  have "pc \<noteq> ChatDone" using assms(1) by (auto simp: Let_def)
  with assms(3) obtain b where ok: "as = {#}" "bs = {#b#}" "ph = {#Joining#}"
    "chat_turn True ?L pc b (chan_ab ?p) (chan_ba ?p)" "running (both ?p) = busy pc + busy b"
    by (auto simp: pair_ok_def)
  show ?thesis
  proof (cases "pc = ChatReturn")
    case True
    with assms(1) have e: "t' = TaskA i ChatDone" "new = []"
      "s' = set_chans i (?p\<lparr>both := join_return jn (both ?p)\<rparr>) s" by (auto simp: Let_def)
    have "running (join_return jn (both ?p)) = busy ChatDone + busy b"
      using ok True by (simp add: busy_def)
    with ok True e show ?thesis
      by (intro exI [of _ ChatDone] exI [of _ "?p\<lparr>both := join_return jn (both ?p)\<rparr>"])
        (simp add: pair_ok_def pair_chan_weight_def turn_return)
  next
    case False
    with assms(1) obtain ou inn pc' where
      st: "chat_step ch ?L pc (chan_ab ?p) (chan_ba ?p) = Some (ou, inn, pc')"
      and e: "t' = TaskA i pc'" "new = []" "s' = set_chans i (?p\<lparr>chan_ab := ou, chan_ba := inn\<rparr>) s"
      by (auto simp: Let_def split: option.splits)
    from turn_moves [OF ok(4) st] chat_moves_busy [OF st] ok e show ?thesis
      by (auto simp: pair_ok_def pair_chan_weight_def)
  qed
qed

lemma task_b_local:
  assumes "ppa_step ch jn pairs s (TaskB i pc) = Some (s', t', new)" and "unat i < length (chans s)"
    and "pair_ok (asio_per_pair pairs) (chans s ! unat i) ph as (bs + {#pc#})"
  shows "\<exists>pc' p. t' = TaskB i pc' \<and> new = [] \<and> s' = set_chans i p s \<and> bs = {#} \<and>
    pair_ok (asio_per_pair pairs) p ph as {#pc'#} \<and>
    pc_weight (asio_per_pair pairs) pc' + pair_chan_weight (asio_per_pair pairs) p <
    pc_weight (asio_per_pair pairs) pc + pair_chan_weight (asio_per_pair pairs) (chans s ! unat i)"
proof -
  let ?p = "chans s ! unat i" and ?L = "asio_per_pair pairs"
  have "pc \<noteq> ChatDone" using assms(1) by (auto simp: Let_def)
  with assms(3) obtain a where ok: "bs = {#}" "as = {#a#}" "ph = {#Joining#}"
    "chat_turn False ?L pc a (chan_ba ?p) (chan_ab ?p)" "running (both ?p) = busy a + busy pc"
    by (auto simp: pair_ok_def chat_turn_swap [of True])
  show ?thesis
  proof (cases "pc = ChatReturn")
    case True
    with assms(1) have e: "t' = TaskB i ChatDone" "new = []"
      "s' = set_chans i (?p\<lparr>both := join_return jn (both ?p)\<rparr>) s" by (auto simp: Let_def)
    have "running (join_return jn (both ?p)) = busy a + busy ChatDone"
      using ok True by (simp add: busy_def)
    with ok True e show ?thesis
      by (intro exI [of _ ChatDone] exI [of _ "?p\<lparr>both := join_return jn (both ?p)\<rparr>"])
        (simp add: pair_ok_def pair_chan_weight_def chat_turn_swap [of True] turn_return)
  next
    case False
    with assms(1) obtain ou inn pc' where
      st: "chat_step ch ?L pc (chan_ba ?p) (chan_ab ?p) = Some (ou, inn, pc')"
      and e: "t' = TaskB i pc'" "new = []" "s' = set_chans i (?p\<lparr>chan_ab := inn, chan_ba := ou\<rparr>) s"
      by (auto simp: Let_def split: option.splits)
    from turn_moves [OF ok(4) st] chat_moves_busy [OF st] ok e show ?thesis
      by (auto simp: pair_ok_def pair_chan_weight_def chat_turn_swap [of True])
  qed
qed

lemma new_pair_turn:
  "chat_turn True (asio_per_pair pairs) ChatFirst ChatRecv (ch_open ch 1) (ch_open ch 1)"
  unfolding chat_turn_def chat_half_def using asio_per_pair_pos [of pairs]
  by (intro exI [of _ 0]) (auto intro!: exI [of _ Sending] simp: chan_is_def)

text \<open>What a step does to the pair its task works on.\<close>

lemma on_pair_local:
  assumes step: "ppa_step ch jn pairs s t = Some (s', t', new)" and "on_pair t = Some j" and j: "j < length (chans s)"
    and "length (chans s) = unat pairs"
    and ok: "pair_ok (asio_per_pair pairs) (chans s ! j) (ph + phase_of j t) (as + a_of j t) (bs + b_of j t)"
  shows "pair_ok (asio_per_pair pairs) (chans s' ! j) (ph + phase_of j t' + tsum (phase_of j) new)
      (as + a_of j t' + tsum (a_of j) new) (bs + b_of j t' + tsum (b_of j) new) \<and>
    ppa_task_weight pairs t' + tsum (ppa_task_weight pairs) new +
      pair_chan_weight (asio_per_pair pairs) (chans s' ! j) <
    ppa_task_weight pairs t + pair_chan_weight (asio_per_pair pairs) (chans s ! j)"
proof (cases t)
  case (TaskA i pc)
  with assms(2) ok have i: "unat i = j"
    "pair_ok (asio_per_pair pairs) (chans s ! unat i) (ph + {#}) (as + {#pc#}) (bs + {#})" by auto
  from task_a_local [OF step [unfolded TaskA] _ i(2)] i(1) j obtain pc' p
    where e: "t' = TaskA i pc'" "new = []" "s' = set_chans i p s" "as = {#}"
    "pair_ok (asio_per_pair pairs) p ph {#pc'#} bs"
    "pc_weight (asio_per_pair pairs) pc' + pair_chan_weight (asio_per_pair pairs) p <
     pc_weight (asio_per_pair pairs) pc + pair_chan_weight (asio_per_pair pairs) (chans s ! unat i)" by auto
  then show ?thesis using TaskA i j by (auto simp: set_chans_def)
next
  case (TaskB i pc)
  with assms(2) ok have i: "unat i = j"
    "pair_ok (asio_per_pair pairs) (chans s ! unat i) (ph + {#}) (as + {#}) (bs + {#pc#})" by auto
  from task_b_local [OF step [unfolded TaskB] _ i(2)] i(1) j obtain pc' p
    where e: "t' = TaskB i pc'" "new = []" "s' = set_chans i p s" "bs = {#}"
    "pair_ok (asio_per_pair pairs) p ph as {#pc'#}"
    "pc_weight (asio_per_pair pairs) pc' + pair_chan_weight (asio_per_pair pairs) p <
     pc_weight (asio_per_pair pairs) pc + pair_chan_weight (asio_per_pair pairs) (chans s ! unat i)" by auto
  then show ?thesis using TaskB i j by (auto simp: set_chans_def)
next
  case (PairStart i)
  let ?p = "new_chans ch jn\<lparr>both := join_spawn jn (join_spawn jn (both (new_chans ch jn)))\<rparr>"
  from PairStart step assms(2) have e: "unat i = j" "s' = set_chans i ?p s" "t' = PairJoin i"
    "new = [TaskA i ChatFirst, TaskB i ChatRecv]" by (auto simp: Let_def)
  from ok PairStart e(1) have "ph = {#}" "as = {#}" "bs = {#}" by (auto simp: pair_ok_def)
  moreover have "chat_turn True (asio_per_pair pairs) ChatFirst ChatRecv (chan_ab ?p) (chan_ba ?p)"
    "running (both ?p) = 2" "pair_chan_weight (asio_per_pair pairs) ?p = 0"
    using new_pair_turn [of pairs] by (simp_all add: new_chans_def pair_chan_weight_def chan_weight_def)
  ultimately show ?thesis using e j PairStart
    by (simp add: set_chans_def pair_ok_def busy_def msg_weight_def)
next
  case (PairJoin i)
  let ?p = "chans s ! unat i"
  from PairJoin step assms(2) obtain k where e: "unat i = j" "join_wait jn (both ?p) = Some k"
    "s' = set_chans i (?p\<lparr>both := k\<rparr>) s" "t' = PairReturn i" "new = []"
    by (auto simp: Let_def split: option.splits)
  from ok PairJoin e(1) obtain a b where ab: "as = {#a#}" "bs = {#b#}" "ph = {#}"
    "chat_turn True (asio_per_pair pairs) a b (chan_ab ?p) (chan_ba ?p)" "running (both ?p) = busy a + busy b"
    by (auto simp: pair_ok_def)
  moreover from ab join_Some [OF e(2)] have "a = ChatDone" "b = ChatDone"
    by (auto simp: busy_def split: if_splits)
  ultimately show ?thesis using e j PairJoin
    by (simp add: set_chans_def pair_ok_def pair_chan_weight_def)
next
  case (PairReturn i)
  with step ok assms(2) show ?thesis by auto
next
  case (SpawnPairs i)
  with assms have i: "unat i = j" "i < pairs" by (auto simp: word_less_nat_alt)
  with step SpawnPairs have e: "s' = s\<lparr>pair_pool := join_spawn jn (pair_pool s)\<rparr>"
    "t' = SpawnPairs (i + 1)" "new = [PairStart i]" by auto
  have "unat pairs - unat i = Suc (unat pairs - Suc (unat i))" using i by (simp add: word_less_nat_alt)
  moreover from ok SpawnPairs i have "ph = {#}" "as = {#}" "bs = {#}" by (auto simp: pair_ok_def)
  ultimately show ?thesis using ok SpawnPairs i e unat_inc [OF i(2)] by (simp add: pair_ok_def)
qed (use assms in auto)

text \<open>The other pairs are not touched.\<close>

lemma off_pair_local:
  assumes step: "ppa_step ch jn pairs s t = Some (s', t', new)" and off: "on_pair t \<noteq> Some j"
    and "j < unat pairs" and "ppa_task_ok pairs t"
  shows "chans s' ! j = chans s ! j \<and> phase_of j t' + tsum (phase_of j) new = phase_of j t \<and>
    a_of j t' + tsum (a_of j) new = a_of j t \<and> b_of j t' + tsum (b_of j) new = b_of j t"
proof (cases t)
  case (SpawnPairs i)
  show ?thesis
  proof (cases "i < pairs")
    case True
    with SpawnPairs step off unat_inc [OF True] show ?thesis by auto
  next
    case False
    then have "unat pairs \<le> unat i" by (simp add: word_less_nat_alt not_less)
    with SpawnPairs step assms(3) False show ?thesis by auto
  qed
next
  case (TaskA i pc)
  with step off show ?thesis
    by (cases "pc = ChatReturn") (auto simp: set_chans_def Let_def simp del: chat_step.simps split: option.splits)
next
  case (TaskB i pc)
  with step off show ?thesis
    by (cases "pc = ChatReturn") (auto simp: set_chans_def Let_def simp del: chat_step.simps split: option.splits)
qed (use step off in \<open>auto simp: set_chans_def Let_def split: option.splits\<close>)

lemma ppa_step_frame:
  assumes "ppa_step ch jn pairs s t = Some (s', t', new)" and "ppa_task_ok pairs t"
  shows "ppa_task_ok pairs t' \<and> (\<forall>u \<in> set new. ppa_task_ok pairs u) \<and> length (chans s') = length (chans s)"
  using assms
  by (cases t) (auto simp: set_chans_def Let_def inc_le split: if_splits option.splits)

lemma ppa_step_running:
  assumes "ppa_step ch jn pairs s t = Some (s', t', new)" and "running (pair_pool s) = l + pair_alive t"
  shows "running (pair_pool s') = l + pair_alive t' + tsum pair_alive new"
  using assms
  by (cases t) (auto simp: set_chans_def Let_def dest!: join_Some split: if_splits option.splits)

lemma ppa_idle_weight:
  assumes "ppa_step ch jn pairs s t = Some (s', t', new)" and "\<forall>j < unat pairs. on_pair t \<noteq> Some j"
    and "ppa_task_ok pairs t"
  shows "ppa_task_weight pairs t' + tsum (ppa_task_weight pairs) new < ppa_task_weight pairs t"
  using assms
  by (cases t) (auto simp: word_less_nat_alt word_le_nat_alt split: if_splits option.splits)

definition ppa_inv :: "u64 \<Rightarrow> (('c, 'j) ppa_state, ppa_task) pool \<Rightarrow> bool" where
  "ppa_inv pairs c \<longleftrightarrow> (case c of (s, ts) \<Rightarrow>
     length (chans s) = unat pairs \<and> (\<forall>t \<in> set ts. ppa_task_ok pairs t) \<and>
     running (pair_pool s) = tsum pair_alive ts \<and>
     (\<forall>j < unat pairs. pair_ok (asio_per_pair pairs) (chans s ! j) (tsum (phase_of j) ts)
       (tsum (a_of j) ts) (tsum (b_of j) ts)))"

definition ppa_weight :: "u64 \<Rightarrow> (('c, 'j) ppa_state, ppa_task) pool \<Rightarrow> nat" where
  "ppa_weight pairs c = tsum (ppa_task_weight pairs) (snd c) +
     (\<Sum>j < unat pairs. pair_chan_weight (asio_per_pair pairs) (chans (fst c) ! j))"

lemma ppa_inv_step:
  assumes "ppa_inv pairs c" and "pool_step (ppa_step ch jn pairs) c c'"
  shows "ppa_inv pairs c' \<and> ppa_weight pairs c' < ppa_weight pairs c"
  using assms(2)
proof cases
  case (run_task i ts s s' t' new)
  let ?t = "ts ! i" and ?L = "asio_per_pair pairs" and ?ts = "ts[i := t'] @ new"
  note i = run_task(3) and step = run_task(4)
  have inv: "length (chans s) = unat pairs" "\<forall>t \<in> set ts. ppa_task_ok pairs t"
    "running (pair_pool s) = tsum pair_alive ts"
    "\<And>j. j < unat pairs \<Longrightarrow> pair_ok ?L (chans s ! j) (tsum (phase_of j) ts) (tsum (a_of j) ts) (tsum (b_of j) ts)"
    using assms(1) run_task by (auto simp: ppa_inv_def)
  have ok: "ppa_task_ok pairs ?t" using inv(2) i by simp
  note frame = ppa_step_frame [OF step ok]
  have on: "pair_ok ?L (chans s' ! j) (tsum (phase_of j) ?ts) (tsum (a_of j) ?ts) (tsum (b_of j) ?ts) \<and>
      ppa_task_weight pairs t' + tsum (ppa_task_weight pairs) new + pair_chan_weight ?L (chans s' ! j) <
      ppa_task_weight pairs ?t + pair_chan_weight ?L (chans s ! j)"
    if "on_pair ?t = Some j" "j < unat pairs" for j
    using on_pair_local [OF step that(1) _ inv(1) inv(4) [OF that(2), unfolded tsum_at [OF i]]] that(2) inv(1)
    unfolding tsum_upd [OF i] by simp
  have off: "chans s' ! j = chans s ! j \<and>
      pair_ok ?L (chans s' ! j) (tsum (phase_of j) ?ts) (tsum (a_of j) ?ts) (tsum (b_of j) ?ts)"
    if "on_pair ?t \<noteq> Some j" "j < unat pairs" for j
    using off_pair_local [OF step that ok] inv(4) [OF that(2), unfolded tsum_at [OF i]]
    unfolding tsum_upd [OF i] by (simp add: add.assoc)
  have "\<forall>t \<in> set ?ts. ppa_task_ok pairs t"
    using frame inv(2) set_upd_subset [of ts i t' new] by blast
  moreover have "running (pair_pool s') = tsum pair_alive ?ts"
    using ppa_step_running [OF step inv(3) [unfolded tsum_at [OF i]]] unfolding tsum_upd [OF i] .
  ultimately have "ppa_inv pairs (s', ?ts)"
    using frame inv(1) on off unfolding ppa_inv_def by auto
  moreover have "ppa_task_weight pairs t' + tsum (ppa_task_weight pairs) new +
      (\<Sum>j < unat pairs. pair_chan_weight ?L (chans s' ! j)) <
      ppa_task_weight pairs ?t + (\<Sum>j < unat pairs. pair_chan_weight ?L (chans s ! j))"
  proof (cases "\<exists>j < unat pairs. on_pair ?t = Some j")
    case True
    then obtain j where j: "j < unat pairs" "on_pair ?t = Some j" by blast
    have split: "(\<Sum>k < unat pairs. pair_chan_weight ?L (chans u ! k)) = pair_chan_weight ?L (chans u ! j) +
        (\<Sum>k \<in> {..<unat pairs} - {j}. pair_chan_weight ?L (chans u ! k))" for u
      using j by (simp add: sum.remove)
    have "(\<Sum>k \<in> {..<unat pairs} - {j}. pair_chan_weight ?L (chans s' ! k)) =
        (\<Sum>k \<in> {..<unat pairs} - {j}. pair_chan_weight ?L (chans s ! k))"
      using off j by (intro sum.cong) auto
    then show ?thesis using on [OF j(2,1)] split [of s] split [of s'] by linarith
  next
    case False
    then have "(\<Sum>j < unat pairs. pair_chan_weight ?L (chans s' ! j)) =
        (\<Sum>j < unat pairs. pair_chan_weight ?L (chans s ! j))"
      using off by (intro sum.cong) auto
    with ppa_idle_weight [OF step _ ok] False show ?thesis by auto
  qed
  ultimately show ?thesis
    unfolding run_task ppa_weight_def fst_conv snd_conv tsum_at [OF i] tsum_upd [OF i] by simp
qed

lemma ppa_inv_start: "ppa_inv pairs (ppa_start ch jn pairs)"
  by (simp add: ppa_inv_def ppa_start_def pair_ok_def new_chans_def)

lemma ppa_stops: "ppa_finished t \<Longrightarrow> ppa_step ch jn pairs s t = None"
  by (cases t) (auto simp: Let_def)

text \<open>In a pair of which neither side can move, both sides are out of their loops.\<close>

lemma half_ends:
  assumes "chat_half limit v x y ou inn" and "x = ChatReturn \<or> chat_step ch limit x ou inn = None"
    and "y = ChatReturn \<or> chat_step ch limit y inn ou = None"
  shows "chat_at BothOut limit v x y ou inn"
proof -
  from assms(1) obtain st where st: "chat_at st limit v x y ou inn" by (auto simp: chat_half_def)
  show ?thesis
  proof (cases st)
    case Sending
    with st have "ch_send ch ou v \<noteq> None" using send_None_iff [of ou "[]" 1 False v] by auto
    with st Sending assms(2) show ?thesis by (auto split: option.splits)
  next
    case Flying
    with st have "ch_receive ch ou \<noteq> None" using receive_None_iff [of ou "[v]" 1 False] by auto
    with st Flying assms(3) show ?thesis by (auto split: option.splits)
  next
    case Closing
    with st assms(3) show ?thesis by auto
  next
    case PeerClosed
    with st have "ch_receive ch inn \<noteq> None" using receive_None_iff [of inn "[]" 1 True] by auto
    with st PeerClosed assms(2) show ?thesis by (auto split: option.splits)
  next
    case BothOut
    with st show ?thesis by simp
  qed
qed

text \<open>
  What a pair leaves behind: both channels empty, and only the one of the side that received the
  last message, \<open>limit - 1\<close>, closed.
\<close>

lemma turn_ends:
  assumes "chat_turn True limit a b cab cba" and "a = ChatReturn \<or> chat_step ch limit a cab cba = None"
    and "b = ChatReturn \<or> chat_step ch limit b cba cab = None"
  shows "out_pc a \<and> out_pc b \<and> stored cab = [] \<and> stored cba = [] \<and>
    closed cba = odd (unat limit) \<and> closed cab = even (unat limit)"
proof -
  from assms(1) obtain v where v: "if even (unat v) then chat_half limit v a b cab cba
      else chat_half limit v b a cba cab" by (auto simp: chat_turn_def)
  show ?thesis
  proof (cases "even (unat v)")
    case True
    with v half_ends [OF _ assms(2,3)] have "chat_at BothOut limit v a b cab cba" by simp
    moreover from this have "even (unat limit) = odd (unat v)" by (metis chat_at.simps(5) even_Suc)
    ultimately show ?thesis using True by (simp add: chan_is_def)
  next
    case False
    with v half_ends [OF _ assms(3,2)] have "chat_at BothOut limit v b a cba cab" by simp
    moreover from this have "even (unat limit) = odd (unat v)" by (metis chat_at.simps(5) even_Suc)
    ultimately show ?thesis using False by (simp add: chan_is_def)
  qed
qed

lemma a_of_member: "pc \<in># tsum (a_of j) ts \<Longrightarrow> \<exists>i. TaskA i pc \<in> set ts \<and> unat i = j"
proof (induction ts)
  case (Cons t ts)
  then show ?case by (cases t) (auto split: if_splits)
qed simp

lemma b_of_member: "pc \<in># tsum (b_of j) ts \<Longrightarrow> \<exists>i. TaskB i pc \<in> set ts \<and> unat i = j"
proof (induction ts)
  case (Cons t ts)
  then show ?case by (cases t) (auto split: if_splits)
qed simp

lemma member_sum: "t \<in> set ts \<Longrightarrow> x \<in># f t \<Longrightarrow> x \<in># tsum f ts"
  by (induction ts) auto

lemma phase_member: "ph \<in># tsum (phase_of j) ts \<Longrightarrow> \<exists>t \<in> set ts. phase_of j t = {#ph#}"
proof (induction ts)
  case (Cons t ts)
  then show ?case by (cases t) (auto split: if_splits)
qed simp

text \<open>When nothing can move, every pair is over.\<close>

lemma stuck_pair_over:
  assumes inv: "ppa_inv pairs (s, ts)" and stuck: "pool_stuck (ppa_step ch jn pairs) (s, ts)"
    and j: "j < unat pairs"
  shows "tsum (phase_of j) ts = {#Over#} \<and> tsum (a_of j) ts = {#ChatDone#} \<and>
    tsum (b_of j) ts = {#ChatDone#} \<and>
    stored (chan_ab (chans s ! j)) = [] \<and> stored (chan_ba (chans s ! j)) = [] \<and>
    closed (chan_ba (chans s ! j)) = odd (unat (asio_per_pair pairs)) \<and>
    closed (chan_ab (chans s ! j)) = even (unat (asio_per_pair pairs))"
proof -
  let ?p = "chans s ! j" and ?L = "asio_per_pair pairs"
  have none: "ppa_step ch jn pairs s u = None" if "u \<in> set ts" for u
    using stuck that by (simp add: pool_stuck_def)
  have ok: "pair_ok ?L ?p (tsum (phase_of j) ts) (tsum (a_of j) ts) (tsum (b_of j) ts)"
    and tasks: "\<forall>t \<in> set ts. ppa_task_ok pairs t"
    using inv j by (auto simp: ppa_inv_def)
  have no_start: "phase_of j u \<noteq> {#Unspawned#} \<and> phase_of j u \<noteq> {#Starting#}" if "u \<in> set ts" for u
    using none [OF that] tasks that by (cases u) (auto simp: Let_def)
  have "tsum (phase_of j) ts \<noteq> {#ph#}" if "ph = Unspawned \<or> ph = Starting" for ph
  proof
    assume "tsum (phase_of j) ts = {#ph#}"
    then obtain u where "u \<in> set ts" "phase_of j u = {#ph#}" using phase_member [of ph j ts] by auto
    with no_start [of u] that show False by auto
  qed
  then have "tsum (phase_of j) ts \<noteq> {#Unspawned#}" "tsum (phase_of j) ts \<noteq> {#Starting#}" by blast+
  with ok obtain a b where ab: "tsum (a_of j) ts = {#a#}" "tsum (b_of j) ts = {#b#}"
    "chat_turn True ?L a b (chan_ab ?p) (chan_ba ?p)"
    "tsum (phase_of j) ts = {#Joining#} \<and> running (both ?p) = busy a + busy b \<or>
     tsum (phase_of j) ts = {#Over#} \<and> a = ChatDone \<and> b = ChatDone"
    unfolding pair_ok_def by blast
  obtain i k where ik: "TaskA i a \<in> set ts" "unat i = j" "TaskB k b \<in> set ts" "unat k = j"
    using a_of_member [of a j ts] b_of_member [of b j ts] ab by auto
  have a: "a \<noteq> ChatReturn" "chat_step ch ?L a (chan_ab ?p) (chan_ba ?p) = None"
    using none [OF ik(1)] ik(2) by (auto simp: Let_def split: if_splits option.splits)
  have b: "b \<noteq> ChatReturn" "chat_step ch ?L b (chan_ba ?p) (chan_ab ?p) = None"
    using none [OF ik(3)] ik(4) by (auto simp: Let_def split: if_splits option.splits)
  note out = turn_ends [OF ab(3)] a b
  then have done_ab: "a = ChatDone" "b = ChatDone" by (auto simp: out_pc_def)
  have "tsum (phase_of j) ts \<noteq> {#Joining#}"
  proof
    assume joining: "tsum (phase_of j) ts = {#Joining#}"
    then obtain u where "u \<in> set ts" "phase_of j u = {#Joining#}"
      using phase_member [of Joining j ts] by auto
    moreover from this(2) obtain m where "u = PairJoin m" "unat m = j"
      by (cases u) (simp_all split: if_splits)
    ultimately have m: "PairJoin m \<in> set ts" "unat m = j" by auto
    have "running (both ?p) = 0" using joining ab(4) done_ab by (auto simp: busy_def)
    then have "join_wait jn (both ?p) \<noteq> None" using join_None_iff [of "both ?p"] by simp
    with none [OF m(1)] m(2) show False by (auto simp: Let_def split: option.splits)
  qed
  with ab done_ab out show ?thesis by auto
qed

lemma ppa_stuck_done:
  assumes inv: "ppa_inv pairs (s, ts)" and stuck: "pool_stuck (ppa_step ch jn pairs) (s, ts)"
    and t: "t \<in> set ts"
  shows "ppa_finished t"
proof -
  have none: "ppa_step ch jn pairs s u = None" if "u \<in> set ts" for u
    using stuck that by (simp add: pool_stuck_def)
  have tasks: "\<forall>t \<in> set ts. ppa_task_ok pairs t" and run: "running (pair_pool s) = tsum pair_alive ts"
    using inv by (auto simp: ppa_inv_def)
  have only: "ppa_finished u \<or> u = JoinPairs" if u: "u \<in> set ts" for u
  proof (cases u)
    case (TaskA i pc)
    then have "unat i < unat pairs" using tasks u by (auto simp: word_less_nat_alt)
    from stuck_pair_over [OF inv stuck this] member_sum [OF u, of pc "a_of (unat i)"] TaskA
    show ?thesis by simp
  next
    case (TaskB i pc)
    then have "unat i < unat pairs" using tasks u by (auto simp: word_less_nat_alt)
    from stuck_pair_over [OF inv stuck this] member_sum [OF u, of pc "b_of (unat i)"] TaskB
    show ?thesis by simp
  next
    case (PairJoin i)
    then have "unat i < unat pairs" using tasks u by (auto simp: word_less_nat_alt)
    from stuck_pair_over [OF inv stuck this] member_sum [OF u, of Joining "phase_of (unat i)"] PairJoin
    show ?thesis by simp
  qed (use none [OF u] in \<open>auto simp: Let_def\<close>)
  then have "pair_alive u = 0" if "u \<in> set ts" for u using that by (cases u) fastforce+
  then have "tsum pair_alive ts = 0" by (rule tsum_zeroI)
  then have "join_wait jn (pair_pool s) \<noteq> None" using run join_None_iff [of "pair_pool s"] by simp
  with only [OF t] none [OF t] show ?thesis by (auto split: option.splits)
qed

lemma ppa_weight_start:
  "ppa_weight pairs (ppa_start ch jn pairs) = unat pairs * (2 * unat (asio_per_pair pairs) + 11) + 2"
  by (simp add: ppa_weight_def ppa_start_def pair_chan_weight_def new_chans_def chan_weight_def)

text \<open>One value is on its way in a pair at any time, and never two.\<close>

lemma turn_stored:
  assumes "chat_turn True limit a b cab cba"
  shows "length (stored cab) + length (stored cba) \<le> 1 \<and> (\<forall>v \<in> set (stored cab). even (unat v) \<and> v < limit) \<and>
    (\<forall>v \<in> set (stored cba). odd (unat v) \<and> v < limit)"
proof -
  have half: "stored inn = [] \<and> (stored ou = [] \<or> stored ou = [v]) \<and> v < limit"
    if "chat_half limit v x y ou inn" for v x y ou inn
  proof -
    from that obtain st where "chat_at st limit v x y ou inn" "v < limit" by (auto simp: chat_half_def)
    then show ?thesis by (cases st) (auto simp: chan_is_def)
  qed
  from assms obtain v where "if even (unat v) then chat_half limit v a b cab cba
      else chat_half limit v b a cba cab" by (auto simp: chat_turn_def)
  then show ?thesis using half [of v a b cab cba] half [of v b a cba cab] by (auto split: if_splits)
qed

end

sublocale asio_runtime \<subseteq> ppa: task_live "ppa_step ch jn pairs" "ppa_inv pairs" "ppa_weight pairs" ppa_finished
  for pairs
proof unfold_locales
  show "ppa_inv pairs c'" if "ppa_inv pairs c" "pool_step (ppa_step ch jn pairs) c c'" for c c'
    using ppa_inv_step [OF that] by blast
  show "ppa_weight pairs c' < ppa_weight pairs c"
    if "ppa_inv pairs c" "pool_step (ppa_step ch jn pairs) c c'" for c c'
    using ppa_inv_step [OF that] by blast
  show "ppa_step ch jn pairs s t = None" if "ppa_finished t" for s t
    using that by (rule ppa_stops)
  show "ppa_finished t"
    if "ppa_inv pairs c" "pool_stuck (ppa_step ch jn pairs) c" "t \<in> set (snd c)" for c t
    using that by (cases c) (auto intro: ppa_stuck_done)
qed

context asio_runtime begin

lemma asio_pairs_total:
  assumes "pool_reach (ppa_step ch jn pairs) (ppa_start ch jn pairs) (s, ts)"
    and "pool_stuck (ppa_step ch jn pairs) (s, ts)"
  shows "(\<forall>t \<in> set ts. ppa_finished t) \<and> (\<forall>j < unat pairs.
    stored (chan_ab (chans s ! j)) = [] \<and> stored (chan_ba (chans s ! j)) = [] \<and>
    closed (chan_ba (chans s ! j)) = odd (unat (asio_per_pair pairs)) \<and>
    closed (chan_ab (chans s ! j)) = even (unat (asio_per_pair pairs)))"
proof -
  have inv: "ppa_inv pairs (s, ts)" by (rule ppa.inv_reach [OF ppa_inv_start assms(1)])
  with ppa.stuck_iff_finished [OF inv] stuck_pair_over [OF inv assms(2)] assms(2) show ?thesis by simp
qed

lemma asio_pairs_length:
  assumes "pool_run (ppa_step ch jn pairs) sched (ppa_start ch jn pairs) = Some c"
  shows "length sched \<le> unat pairs * (2 * unat (asio_per_pair pairs) + 11) + 2"
  using ppa.run_length [OF ppa_inv_start assms] by (simp add: ppa_weight_start)

lemma asio_pairs_stored:
  assumes "pool_reach (ppa_step ch jn pairs) (ppa_start ch jn pairs) (s, ts)" and "j < unat pairs"
  shows "length (stored (chan_ab (chans s ! j))) + length (stored (chan_ba (chans s ! j))) \<le> 1 \<and>
    (\<forall>v \<in> set (stored (chan_ab (chans s ! j))). even (unat v) \<and> v < asio_per_pair pairs) \<and>
    (\<forall>v \<in> set (stored (chan_ba (chans s ! j))). odd (unat v) \<and> v < asio_per_pair pairs)"
proof -
  have "ppa_inv pairs (s, ts)" by (rule ppa.inv_reach [OF ppa_inv_start assms(1)])
  then have "pair_ok (asio_per_pair pairs) (chans s ! j) (tsum (phase_of j) ts) (tsum (a_of j) ts) (tsum (b_of j) ts)"
    using assms(2) by (simp add: ppa_inv_def)
  then show ?thesis unfolding pair_ok_def using turn_stored by (elim disjE) auto
qed

end

section \<open>Properties\<close>

text \<open>
  C4. Total correctness of the Asio ping-pong, for any number of pairs. Whatever the interleaving,
  a run that cannot go on has every coroutine and \<open>main\<close> finished (so no exception was thrown),
  all channels are empty, and in every pair exactly one channel is closed: the one the receiver
  of the last message \<open>per_pair - 1\<close> sends on.
\<close>

theorem ppa_correct:
  assumes "asio_channel ch stored room closed" and "asio_join jn running"
    and "pool_reach (ppa_step ch jn pairs) (ppa_start ch jn pairs) (s, ts)"
    and "pool_stuck (ppa_step ch jn pairs) (s, ts)"
  shows "(\<forall>t \<in> set ts. ppa_finished t) \<and> (\<forall>j < unat pairs.
    stored (chan_ab (chans s ! j)) = [] \<and> stored (chan_ba (chans s ! j)) = [] \<and>
    closed (chan_ba (chans s ! j)) = odd (unat (asio_per_pair pairs)) \<and>
    closed (chan_ab (chans s ! j)) = even (unat (asio_per_pair pairs)))"
  by (rule asio_runtime.asio_pairs_total [OF asio_runtime.intro [OF assms(1,2)] assms(3,4)])

theorem ppa_correct_witness:
  "\<exists>s ts. pool_reach (ppa_step list_channel nat_join 4) (ppa_start list_channel nat_join 4) (s, ts) \<and>
    (\<forall>t \<in> set ts. ppa_finished t) \<and> snd (snd (chan_ab (chans s ! 3)))"
proof -
  obtain s ts where run: "pool_reach (ppa_step list_channel nat_join 4) (ppa_start list_channel nat_join 4) (s, ts)"
    "pool_stuck (ppa_step list_channel nat_join 4) (s, ts)"
    using listrt.ppa.reaches_stuck [OF listrt.ppa_inv_start] by force
  have "unat (asio_per_pair 4) = 25000"
    by (simp add: asio_per_pair_def asio_TOTAL_def Let_def)
  with ppa_correct [OF listch.asio_channel_axioms natjn.asio_join_axioms run] run(1) show ?thesis
    by (intro exI [of _ s] exI [of _ ts]) simp
qed

text \<open>
  Termination with an explicit bound: a run of the Asio ping-pong takes at most two actions
  per message of a pair and eleven more per pair.
\<close>

theorem ppa_run_bounded:
  assumes "asio_channel ch stored room closed" and "asio_join jn running"
    and "pool_run (ppa_step ch jn pairs) sched (ppa_start ch jn pairs) = Some c"
  shows "length sched \<le> unat pairs * (2 * unat (asio_per_pair pairs) + 11) + 2"
  by (rule asio_runtime.asio_pairs_length [OF asio_runtime.intro [OF assms(1,2)] assms(3)])

theorem ppa_run_bounded_witness:
  "\<exists>c. pool_run (ppa_step list_channel nat_join 4) [0, 1, 0] (ppa_start list_channel nat_join 4) = Some c \<and>
    length [0, 1, 0 :: nat] \<le> 4 * (2 * unat (asio_per_pair 4) + 11) + 2"
proof -
  have "\<exists>c. pool_run (ppa_step list_channel nat_join 4) [0, 1, 0] (ppa_start list_channel nat_join 4) = Some c"
    by (simp add: ppa_start_def Let_def)
  with ppa_run_bounded [OF listch.asio_channel_axioms natjn.asio_join_axioms, of 4 "[0, 1, 0]"]
  show ?thesis by auto
qed

text \<open>
  One message at a time on Asio: in every reachable state a pair's two channels hold at most
  one value together, \<open>task_a\<close> sends even and \<open>task_b\<close> odd values, all below \<open>per_pair\<close>.
\<close>

theorem ppa_one_message:
  assumes "asio_channel ch stored room closed" and "asio_join jn running"
    and "pool_reach (ppa_step ch jn pairs) (ppa_start ch jn pairs) (s, ts)" and "j < unat pairs"
  shows "length (stored (chan_ab (chans s ! j))) + length (stored (chan_ba (chans s ! j))) \<le> 1 \<and>
    (\<forall>v \<in> set (stored (chan_ab (chans s ! j))). even (unat v) \<and> v < asio_per_pair pairs) \<and>
    (\<forall>v \<in> set (stored (chan_ba (chans s ! j))). odd (unat v) \<and> v < asio_per_pair pairs)"
  by (rule asio_runtime.asio_pairs_stored [OF asio_runtime.intro [OF assms(1,2)] assms(3,4)])

theorem ppa_one_message_witness:
  "\<exists>s ts. pool_reach (ppa_step list_channel nat_join 1) (ppa_start list_channel nat_join 1) (s, ts) \<and>
    fst (chan_ab (chans s ! 0)) = [0] \<and> fst (chan_ba (chans s ! 0)) = []"
proof -
  have "\<exists>s ts. pool_run (ppa_step list_channel nat_join 1) [0, 1, 2] (ppa_start list_channel nat_join 1) = Some (s, ts) \<and>
      fst (chan_ab (chans s ! 0)) = [0]"
    by (simp add: ppa_start_def list_channel_def nat_join_def new_chans_def set_chans_def Let_def)
  then obtain s ts where run: "pool_reach (ppa_step list_channel nat_join 1) (ppa_start list_channel nat_join 1) (s, ts)"
    "fst (chan_ab (chans s ! 0)) = [0]"
    using pool_run_reach by blast
  from ppa_one_message [OF listch.asio_channel_axioms natjn.asio_join_axioms run(1), of 0] run
  show ?thesis by auto
qed

end
