(* ===== verification/Sleep.thy ===== *)
theory Sleep
  imports Tasks Asio_Runtime Photon_Sync
begin

text \<open>
  The sleep benchmarks, \<open>cpp/sleep_asio.cpp\<close> and \<open>cpp/sleep_photon.cpp\<close>: \<open>main\<close> spawns a number
  of coroutines that each wait on a timer and then count themselves, and waits for all of them.
  A coroutine that waits on a timer (\<open>AsioTimer\<close>, \<open>PhotonSleeping\<close>, with the duration it asked for)
  may be resumed at any later step here; \<open>Sleep_Clock\<close> adds the clock. The theorems: every run ends,
  and the Asio program then exits with 0, never with its error code 3.
\<close>

section \<open>Asio\<close>

record 'j sla_state =
  counter :: u64
  sleepers :: 'j

datatype sla_task =
    AsioSleep
  | AsioTimer u64
  | AsioCount
  | AsioReturn
  | AsioReturned
  | SpawnSleeps u64
  | JoinSleeps
  | SleepsExit int

text \<open>
  The last step of \<open>main\<close> compares the counter with the number of tasks: 3 is the exit code of
  the branch that reports missing tasks.
\<close>

fun sleep_task_step :: "'j join_ops \<Rightarrow> u64 \<Rightarrow> 'j sla_state \<Rightarrow> sla_task \<Rightarrow> ('j sla_state \<times> sla_task) option" where
  "sleep_task_step jn sleep_ms s AsioSleep =
     Some (s, if 0 < sleep_ms then AsioTimer sleep_ms else AsioCount)"
| "sleep_task_step jn sleep_ms s (AsioTimer ms) = Some (s, AsioCount)"
| "sleep_task_step jn sleep_ms s AsioCount = Some (s\<lparr>counter := counter s + 1\<rparr>, AsioReturn)"
| "sleep_task_step jn sleep_ms s AsioReturn =
     Some (s\<lparr>sleepers := join_return jn (sleepers s)\<rparr>, AsioReturned)"
| "sleep_task_step jn sleep_ms s _ = None"

fun sla_main_step :: "'j join_ops \<Rightarrow> u64 \<Rightarrow> ('j sla_state, sla_task) task_step" where
  "sla_main_step jn num_tasks s (SpawnSleeps i) =
     Some (if i < num_tasks
           then (s\<lparr>sleepers := join_spawn jn (sleepers s)\<rparr>, SpawnSleeps (i + 1), [AsioSleep])
           else (s, JoinSleeps, []))"
| "sla_main_step jn num_tasks s JoinSleeps =
     (case join_wait jn (sleepers s) of
        None \<Rightarrow> None
      | Some j \<Rightarrow> Some (s\<lparr>sleepers := j\<rparr>, SleepsExit (if counter s \<noteq> num_tasks then 3 else 0), []))"
| "sla_main_step jn num_tasks s _ = None"

fun sla_step :: "'j join_ops \<Rightarrow> u64 \<Rightarrow> u64 \<Rightarrow> ('j sla_state, sla_task) task_step" where
  "sla_step jn num_tasks sleep_ms s (SpawnSleeps i) = sla_main_step jn num_tasks s (SpawnSleeps i)"
| "sla_step jn num_tasks sleep_ms s JoinSleeps = sla_main_step jn num_tasks s JoinSleeps"
| "sla_step jn num_tasks sleep_ms s t =
     map_option (\<lambda>(s', t'). (s', t', [])) (sleep_task_step jn sleep_ms s t)"

definition sla_start :: "'j join_ops \<Rightarrow> ('j sla_state, sla_task) pool" where
  "sla_start jn = (\<lparr>counter = 0, sleepers = join_new jn\<rparr>, [SpawnSleeps 0])"

fun sla_finished :: "sla_task \<Rightarrow> bool" where
  "sla_finished AsioReturned = True"
| "sla_finished (SleepsExit code) = (code = 0)"
| "sla_finished _ = False"

text \<open>Coroutines that have not counted themselves, and that have not returned.\<close>

fun sla_uncounted :: "u64 \<Rightarrow> sla_task \<Rightarrow> nat" where
  "sla_uncounted n AsioSleep = 1"
| "sla_uncounted n (AsioTimer _) = 1"
| "sla_uncounted n AsioCount = 1"
| "sla_uncounted n (SpawnSleeps i) = unat n - unat i"
| "sla_uncounted n _ = 0"

fun sla_alive :: "sla_task \<Rightarrow> nat" where
  "sla_alive AsioSleep = 1"
| "sla_alive (AsioTimer _) = 1"
| "sla_alive AsioCount = 1"
| "sla_alive AsioReturn = 1"
| "sla_alive _ = 0"

fun sla_weight :: "u64 \<Rightarrow> sla_task \<Rightarrow> nat" where
  "sla_weight n AsioSleep = 4"
| "sla_weight n (AsioTimer _) = 3"
| "sla_weight n AsioCount = 2"
| "sla_weight n AsioReturn = 1"
| "sla_weight n (SpawnSleeps i) = 5 * (unat n - unat i) + 2"
| "sla_weight n JoinSleeps = 1"
| "sla_weight n _ = 0"

fun sla_main :: "sla_task \<Rightarrow> nat" where
  "sla_main (SpawnSleeps _) = 1"
| "sla_main JoinSleeps = 1"
| "sla_main (SleepsExit _) = 1"
| "sla_main _ = 0"

fun sla_ok :: "u64 \<Rightarrow> sla_task \<Rightarrow> bool" where
  "sla_ok n (SpawnSleeps i) = (i \<le> n)"
| "sla_ok n (SleepsExit code) = (code = 0)"
| "sla_ok n _ = True"

context asio_join begin

definition sla_inv :: "u64 \<Rightarrow> ('j sla_state, sla_task) pool \<Rightarrow> bool" where
  "sla_inv n c \<longleftrightarrow> (\<forall>t \<in> set (snd c). sla_ok n t) \<and> tsum sla_main (snd c) = 1 \<and>
     running (sleepers (fst c)) = tsum sla_alive (snd c) \<and>
     unat (counter (fst c)) + tsum (sla_uncounted n) (snd c) = unat n"

lemma sla_step_local:
  assumes "sla_step jn n ms s t = Some (s', t', new)" and "sla_ok n t" and "M + sla_main t = 1"
    and "running (sleepers s) = A + sla_alive t"
    and "unat (counter s) + (U + sla_uncounted n t) = unat n" and "A = 0 \<Longrightarrow> M = 0 \<Longrightarrow> U = 0"
  shows "(\<forall>u \<in> set (t' # new). sla_ok n u) \<and> M + sla_main t' + tsum sla_main new = 1 \<and>
    running (sleepers s') = A + sla_alive t' + tsum sla_alive new \<and>
    unat (counter s') + (U + sla_uncounted n t' + tsum (sla_uncounted n) new) = unat n \<and>
    sla_weight n t' + tsum (sla_weight n) new < sla_weight n t"
proof (cases t)
  case AsioCount
  have "Suc (unat (counter s)) < 2 ^ 64" using assms(5) AsioCount unat_u64_less [of n] by simp
  then have "unat (counter s + 1) = Suc (unat (counter s))" by (simp add: unat_word_ariths)
  with AsioCount assms show ?thesis by auto
next
  case (SpawnSleeps i)
  show ?thesis
  proof (cases "i < n")
    case True
    have "unat n - unat i = Suc (unat n - Suc (unat i))" using True by (simp add: word_less_nat_alt)
    with True SpawnSleeps assms unat_inc [OF True] inc_le [OF True] show ?thesis by auto
  next
    case False
    with SpawnSleeps assms(2) have "i = n" by simp
    with SpawnSleeps assms show ?thesis by auto
  qed
next
  case JoinSleeps
  with assms(1) obtain j where j: "join_wait jn (sleepers s) = Some j"
    "s' = s\<lparr>sleepers := j\<rparr>" "t' = SleepsExit (if counter s \<noteq> n then 3 else 0)" "new = []"
    by (auto split: option.splits)
  from join_Some [OF j(1)] assms(3,4) JoinSleeps have "A = 0" "M = 0" by auto
  with assms(5,6) JoinSleeps have "unat (counter s) = unat n" by simp
  then have "counter s = n" by (rule unsigned_word_eqI)
  with assms JoinSleeps j join_Some [OF j(1)] \<open>A = 0\<close> show ?thesis by simp
qed (use assms in auto)

lemma sla_inv_step:
  assumes "sla_inv n c" and "pool_step (sla_step jn n ms) c c'"
  shows "sla_inv n c' \<and> tsum (sla_weight n) (snd c') < tsum (sla_weight n) (snd c)"
  using assms(2)
proof cases
  case (run_task i ts s s' t' new)
  note i = run_task(3)
  have all: "\<forall>t \<in> set ts. sla_ok n t" and main: "tsum sla_main ts = 1"
    using assms(1) run_task by (auto simp: sla_inv_def)
  have quiet: "tsum (sla_uncounted n) (others i ts) = 0"
    if "tsum sla_alive (others i ts) = 0" "tsum sla_main (others i ts) = 0"
  proof (rule tsum_zeroI)
    fix u assume "u \<in> set (others i ts)"
    with that show "sla_uncounted n u = 0"
      using tsum_zeroD [OF that(1), of u] tsum_zeroD [OF that(2), of u] by (cases u) auto
  qed
  from sla_step_local [OF run_task(4) _ main [unfolded tsum_at [OF i]] _ _ quiet] assms(1) all i
  have "(\<forall>u \<in> set (t' # new). sla_ok n u) \<and>
    tsum sla_main (others i ts) + sla_main t' + tsum sla_main new = 1 \<and>
    running (sleepers s') = tsum sla_alive (others i ts) + sla_alive t' + tsum sla_alive new \<and>
    unat (counter s') + (tsum (sla_uncounted n) (others i ts) + sla_uncounted n t' + tsum (sla_uncounted n) new) = unat n \<and>
    sla_weight n t' + tsum (sla_weight n) new < sla_weight n (ts ! i)"
    unfolding run_task sla_inv_def fst_conv snd_conv tsum_at [OF i] by (simp add: add.assoc)
  then show ?thesis
    using all set_upd_subset [of ts i t' new]
    unfolding run_task sla_inv_def fst_conv snd_conv tsum_at [OF i] tsum_upd [OF i] by auto
qed

lemma sla_inv_start: "sla_inv n (sla_start jn)"
  by (simp add: sla_inv_def sla_start_def)

lemma sla_stuck_done:
  assumes "sla_inv n (s, ts)" and stuck: "pool_stuck (sla_step jn n ms) (s, ts)" and t: "t \<in> set ts"
  shows "sla_finished t"
proof -
  have none: "sla_step jn n ms s u = None" if "u \<in> set ts" for u
    using stuck that by (simp add: pool_stuck_def)
  have "sla_alive u = 0" if "u \<in> set ts" for u using none [OF that] by (cases u) auto
  then have "tsum sla_alive ts = 0" by (rule tsum_zeroI)
  then have "join_wait jn (sleepers s) \<noteq> None"
    using assms(1) join_None_iff [of "sleepers s"] by (simp add: sla_inv_def)
  with none [OF t] assms(1) t show ?thesis by (cases t) (auto simp: sla_inv_def split: option.splits)
qed

end

sublocale asio_join \<subseteq> sla: task_live "sla_step jn n ms" "sla_inv n" "\<lambda>c. tsum (sla_weight n) (snd c)" sla_finished
  for n ms
proof unfold_locales
  show "sla_inv n c'" if "sla_inv n c" "pool_step (sla_step jn n ms) c c'" for c c'
    using sla_inv_step [OF that] by blast
  show "tsum (sla_weight n) (snd c') < tsum (sla_weight n) (snd c)"
    if "sla_inv n c" "pool_step (sla_step jn n ms) c c'" for c c'
    using sla_inv_step [OF that] by blast
  show "sla_step jn n ms s t = None" if "sla_finished t" for s t using that by (cases t) auto
  show "sla_finished t"
    if "sla_inv n c" "pool_stuck (sla_step jn n ms) c" "t \<in> set (snd c)" for c t
    using that by (cases c) (auto intro: sla_stuck_done)
qed

context asio_join begin

lemma sleeps_total:
  assumes "pool_reach (sla_step jn n ms) (sla_start jn) (s, ts)"
  shows "\<forall>t \<in> set ts. \<forall>code. t = SleepsExit code \<longrightarrow> code = 0"
    and "pool_stuck (sla_step jn n ms) (s, ts) \<Longrightarrow>
      (\<forall>t \<in> set ts. sla_finished t) \<and> SleepsExit 0 \<in> set ts \<and> counter s = n"
proof -
  have inv: "sla_inv n (s, ts)" by (rule sla.inv_reach [OF sla_inv_start assms])
  then show "\<forall>t \<in> set ts. \<forall>code. t = SleepsExit code \<longrightarrow> code = 0"
    by (auto simp: sla_inv_def)
  assume stuck: "pool_stuck (sla_step jn n ms) (s, ts)"
  with inv have fin: "\<forall>t \<in> set ts. sla_finished t" by (simp add: sla.stuck_iff_finished)
  have "sla_uncounted n t = 0 \<and> (SleepsExit 0 \<notin> set ts \<longrightarrow> sla_main t = 0)" if "t \<in> set ts" for t
    using fin that by (cases t) auto
  then have "tsum (sla_uncounted n) ts = 0" "SleepsExit 0 \<notin> set ts \<longrightarrow> tsum sla_main ts = 0"
    by (auto intro!: tsum_zeroI)
  with inv have "unat (counter s) = unat n" "SleepsExit 0 \<in> set ts" by (auto simp: sla_inv_def)
  with fin show "(\<forall>t \<in> set ts. sla_finished t) \<and> SleepsExit 0 \<in> set ts \<and> counter s = n"
    by (auto intro: unsigned_word_eqI)
qed

lemma sleeps_length:
  "pool_run (sla_step jn n ms) sched (sla_start jn) = Some c \<Longrightarrow> length sched \<le> 5 * unat n + 2"
  using sla.run_length [OF sla_inv_start, of n ms sched c] by (simp add: sla_start_def)

end

section \<open>Photon\<close>

text \<open>
  \<open>thread_usleep\<close> takes microseconds: \<open>g_sleep_ms * 1000\<close>, computed modulo 2 to the 64th.
  \<open>init\<close> is what \<open>photon::init\<close> returned; anything but 0 ends \<open>main\<close> with 1 before any coroutine
  is created.
\<close>

record slp_cfg =
  g_tasks :: u64
  g_sleep_ms :: u64

definition slp_default :: slp_cfg where
  "slp_default = \<lparr>g_tasks = 10000, g_sleep_ms = 1\<rparr>"

definition sleep_us :: "slp_cfg \<Rightarrow> u64" where
  "sleep_us cfg = g_sleep_ms cfg * 1000"

datatype slp_task =
    PhotonSleeper
  | PhotonSleeping u64
  | PhotonSignal
  | PhotonSlept
  | SpawnSleepers u64
  | AwaitSleepers
  | PhotonExit int

fun sleeper_step :: "('s, 'm) photon_ops \<Rightarrow> slp_cfg \<Rightarrow> 's \<Rightarrow> slp_task \<Rightarrow> ('s \<times> slp_task) option" where
  "sleeper_step ph cfg d PhotonSleeper =
     Some (d, if 0 < g_sleep_ms cfg then PhotonSleeping (sleep_us cfg) else PhotonSignal)"
| "sleeper_step ph cfg d (PhotonSleeping us) = Some (d, PhotonSignal)"
| "sleeper_step ph cfg d PhotonSignal = Some (sem_signal ph d 1, PhotonSlept)"
| "sleeper_step ph cfg d _ = None"

fun slp_main_step :: "('s, 'm) photon_ops \<Rightarrow> slp_cfg \<Rightarrow> ('s, slp_task) task_step" where
  "slp_main_step ph cfg d (SpawnSleepers i) =
     Some (d, if i < g_tasks cfg then SpawnSleepers (i + 1) else AwaitSleepers,
       if i < g_tasks cfg then [PhotonSleeper] else [])"
| "slp_main_step ph cfg d AwaitSleepers =
     (case sem_wait ph d (g_tasks cfg) of None \<Rightarrow> None | Some d' \<Rightarrow> Some (d', PhotonExit 0, []))"
| "slp_main_step ph cfg d _ = None"

fun slp_step :: "('s, 'm) photon_ops \<Rightarrow> slp_cfg \<Rightarrow> ('s, slp_task) task_step" where
  "slp_step ph cfg d (SpawnSleepers i) = slp_main_step ph cfg d (SpawnSleepers i)"
| "slp_step ph cfg d AwaitSleepers = slp_main_step ph cfg d AwaitSleepers"
| "slp_step ph cfg d t = map_option (\<lambda>(d', t'). (d', t', [])) (sleeper_step ph cfg d t)"

definition slp_start :: "('s, 'm) photon_ops \<Rightarrow> int \<Rightarrow> ('s, slp_task) pool" where
  "slp_start ph init = (sem_init ph 0, [if init \<noteq> 0 then PhotonExit 1 else SpawnSleepers 0])"

fun slp_finished :: "slp_task \<Rightarrow> bool" where
  "slp_finished PhotonSlept = True"
| "slp_finished (PhotonExit code) = (code = 0)"
| "slp_finished _ = False"

fun slp_left :: "slp_cfg \<Rightarrow> slp_task \<Rightarrow> nat" where
  "slp_left cfg PhotonSleeper = 1"
| "slp_left cfg (PhotonSleeping _) = 1"
| "slp_left cfg PhotonSignal = 1"
| "slp_left cfg (SpawnSleepers i) = unat (g_tasks cfg) - unat i"
| "slp_left cfg _ = 0"

fun slp_exits :: "slp_task \<Rightarrow> nat" where
  "slp_exits (PhotonExit _) = 1"
| "slp_exits _ = 0"

fun slp_main :: "slp_task \<Rightarrow> nat" where
  "slp_main (SpawnSleepers _) = 1"
| "slp_main AwaitSleepers = 1"
| "slp_main (PhotonExit _) = 1"
| "slp_main _ = 0"

lemma slp_exits_main: "slp_exits t \<le> slp_main t"
  by (cases t) auto

fun slp_ok :: "slp_cfg \<Rightarrow> slp_task \<Rightarrow> bool" where
  "slp_ok cfg (SpawnSleepers i) = (i \<le> g_tasks cfg)"
| "slp_ok cfg (PhotonSleeping us) = (0 < g_sleep_ms cfg \<and> us = sleep_us cfg)"
| "slp_ok cfg (PhotonExit code) = (code = 0)"
| "slp_ok cfg _ = True"

fun slp_weight :: "slp_cfg \<Rightarrow> slp_task \<Rightarrow> nat" where
  "slp_weight cfg PhotonSleeper = 3"
| "slp_weight cfg (PhotonSleeping _) = 2"
| "slp_weight cfg PhotonSignal = 1"
| "slp_weight cfg (SpawnSleepers i) = 4 * (unat (g_tasks cfg) - unat i) + 2"
| "slp_weight cfg AwaitSleepers = 1"
| "slp_weight cfg _ = 0"

context photon_sync begin

definition slp_inv :: "slp_cfg \<Rightarrow> ('s, slp_task) pool \<Rightarrow> bool" where
  "slp_inv cfg c \<longleftrightarrow> (\<forall>t \<in> set (snd c). slp_ok cfg t) \<and> tsum slp_main (snd c) = 1 \<and>
     unat (cnt (fst c)) + unat (g_tasks cfg) * tsum slp_exits (snd c) + tsum (slp_left cfg) (snd c) =
       unat (g_tasks cfg)"

lemma slp_step_local:
  assumes "slp_step ph cfg d t = Some (d', t', new)" and "slp_ok cfg t" and "M + slp_main t = 1"
    and "unat (cnt d) + unat (g_tasks cfg) * (E + slp_exits t) + (L + slp_left cfg t) = unat (g_tasks cfg)"
  shows "(\<forall>u \<in> set (t' # new). slp_ok cfg u) \<and> M + slp_main t' + tsum slp_main new = 1 \<and>
    unat (cnt d') + unat (g_tasks cfg) * (E + slp_exits t' + tsum slp_exits new) +
      (L + slp_left cfg t' + tsum (slp_left cfg) new) = unat (g_tasks cfg) \<and>
    slp_weight cfg t' + tsum (slp_weight cfg) new < slp_weight cfg t"
proof (cases t)
  case PhotonSignal
  have "unat (cnt d) + 1 < 2 ^ 64" using assms(4) PhotonSignal unat_u64_less [of "g_tasks cfg"] by simp
  with PhotonSignal assms signal_ucnt [of d 1] show ?thesis by auto
next
  case (SpawnSleepers i)
  show ?thesis
  proof (cases "i < g_tasks cfg")
    case True
    have "unat (g_tasks cfg) - unat i = Suc (unat (g_tasks cfg) - Suc (unat i))"
      using True by (simp add: word_less_nat_alt)
    with True SpawnSleepers assms unat_inc [OF True] inc_le [OF True] show ?thesis by auto
  next
    case False
    with SpawnSleepers assms(2) have "i = g_tasks cfg" by simp
    with SpawnSleepers assms show ?thesis by auto
  qed
next
  case AwaitSleepers
  with assms(1) obtain e where e: "sem_wait ph d (g_tasks cfg) = Some e" "d' = e" "t' = PhotonExit 0" "new = []"
    by (auto split: option.splits)
  with wait_Some [OF e(1)] AwaitSleepers assms show ?thesis by (simp add: algebra_simps)
qed (use assms in auto)

lemma slp_inv_step:
  assumes "slp_inv cfg c" and "pool_step (slp_step ph cfg) c c'"
  shows "slp_inv cfg c' \<and> tsum (slp_weight cfg) (snd c') < tsum (slp_weight cfg) (snd c)"
  using assms(2)
proof cases
  case (run_task i ts s s' t' new)
  note i = run_task(3)
  have all: "\<forall>t \<in> set ts. slp_ok cfg t" and main: "tsum slp_main ts = 1"
    and sums: "unat (cnt s) + unat (g_tasks cfg) * tsum slp_exits ts + tsum (slp_left cfg) ts = unat (g_tasks cfg)"
    using assms(1) run_task by (auto simp: slp_inv_def)
  from all i have "slp_ok cfg (ts ! i)" by simp
  from slp_step_local [OF run_task(4) this main [unfolded tsum_at [OF i]] sums [unfolded tsum_at [OF i]]]
  show ?thesis
    using all set_upd_subset [of ts i t' new]
    unfolding run_task slp_inv_def fst_conv snd_conv tsum_at [OF i] tsum_upd [OF i] by auto
qed

lemma slp_inv_start: "slp_inv cfg (slp_start ph 0)"
  by (simp add: slp_inv_def slp_start_def)

lemma slp_stuck_done:
  assumes inv: "slp_inv cfg (d, ts)" and stuck: "pool_stuck (slp_step ph cfg) (d, ts)" and t: "t \<in> set ts"
  shows "slp_finished t"
proof -
  have none: "slp_step ph cfg d u = None" if "u \<in> set ts" for u
    using stuck that by (simp add: pool_stuck_def)
  have "slp_left cfg u = 0" if "u \<in> set ts" for u using none [OF that] by (cases u) auto
  then have left: "tsum (slp_left cfg) ts = 0" by (rule tsum_zeroI)
  have "t \<noteq> AwaitSleepers"
  proof
    assume await: "t = AwaitSleepers"
    have "tsum slp_exits ts + slp_main t \<le> tsum slp_main ts"
    proof -
      obtain i where i: "i < length ts" "ts ! i = t" using t by (auto simp: in_set_conv_nth)
      have "tsum slp_exits (others i ts) \<le> tsum slp_main (others i ts)"
        by (rule tsum_le_mono) (rule slp_exits_main)
      with i await show ?thesis by (simp add: tsum_at [OF i(1)])
    qed
    with inv await have "tsum slp_exits ts = 0" by (simp add: slp_inv_def)
    with inv left have "unat (cnt d) = unat (g_tasks cfg)" unfolding slp_inv_def by simp
    with none [OF t] await wait_None_iff [of d "g_tasks cfg"] show False by (auto split: option.splits)
  qed
  with none [OF t] inv t show ?thesis by (cases t) (auto simp: slp_inv_def)
qed

end

sublocale photon_sync \<subseteq> slp: task_live "slp_step ph cfg" "slp_inv cfg" "\<lambda>c. tsum (slp_weight cfg) (snd c)" slp_finished
  for cfg
proof unfold_locales
  show "slp_inv cfg c'" if "slp_inv cfg c" "pool_step (slp_step ph cfg) c c'" for c c'
    using slp_inv_step [OF that] by blast
  show "tsum (slp_weight cfg) (snd c') < tsum (slp_weight cfg) (snd c)"
    if "slp_inv cfg c" "pool_step (slp_step ph cfg) c c'" for c c'
    using slp_inv_step [OF that] by blast
  show "slp_step ph cfg s t = None" if "slp_finished t" for s t using that by (cases t) auto
  show "slp_finished t"
    if "slp_inv cfg c" "pool_stuck (slp_step ph cfg) c" "t \<in> set (snd c)" for c t
    using that by (cases c) (auto intro: slp_stuck_done)
qed

context photon_sync begin

lemma sleepers_total:
  assumes "pool_reach (slp_step ph cfg) (slp_start ph 0) (d, ts)"
  shows "PhotonSleeping us \<in> set ts \<Longrightarrow> 0 < g_sleep_ms cfg \<and> us = sleep_us cfg"
    and "pool_stuck (slp_step ph cfg) (d, ts) \<Longrightarrow>
      (\<forall>t \<in> set ts. slp_finished t) \<and> PhotonExit 0 \<in> set ts"
proof -
  have inv: "slp_inv cfg (d, ts)" by (rule slp.inv_reach [OF slp_inv_start assms])
  then show "0 < g_sleep_ms cfg \<and> us = sleep_us cfg" if "PhotonSleeping us \<in> set ts"
    using that by (fastforce simp: slp_inv_def)
  assume "pool_stuck (slp_step ph cfg) (d, ts)"
  with inv have fin: "\<forall>t \<in> set ts. slp_finished t" by (simp add: slp.stuck_iff_finished)
  have "PhotonExit 0 \<notin> set ts \<longrightarrow> slp_main t = 0" if "t \<in> set ts" for t
    using fin that by (cases t) auto
  then have "PhotonExit 0 \<notin> set ts \<longrightarrow> tsum slp_main ts = 0" by (auto intro!: tsum_zeroI)
  with inv fin show "(\<forall>t \<in> set ts. slp_finished t) \<and> PhotonExit 0 \<in> set ts"
    by (auto simp: slp_inv_def)
qed

end

section \<open>Properties\<close>

text \<open>
  C38. The Asio sleep benchmark never reports missing tasks, and every run that cannot go on has
  all coroutines returned, the counter at \<open>num_tasks\<close> and \<open>main\<close> at exit code 0.
\<close>

theorem sla_correct:
  assumes "asio_join jn running" and "pool_reach (sla_step jn n ms) (sla_start jn) (s, ts)"
  shows "SleepsExit 3 \<notin> set ts \<and> (pool_stuck (sla_step jn n ms) (s, ts) \<longrightarrow>
    (\<forall>t \<in> set ts. sla_finished t) \<and> SleepsExit 0 \<in> set ts \<and> counter s = n)"
  using asio_join.sleeps_total [OF assms] by auto

theorem sla_correct_witness:
  "\<exists>s ts. pool_reach (sla_step nat_join 3 1) (sla_start nat_join) (s, ts) \<and>
    (\<forall>t \<in> set ts. sla_finished t) \<and> SleepsExit 0 \<in> set ts \<and> counter s = 3"
proof -
  obtain s ts where run: "pool_reach (sla_step nat_join 3 1) (sla_start nat_join) (s, ts)"
    "pool_stuck (sla_step nat_join 3 1) (s, ts)"
    using natjn.sla.reaches_stuck [OF natjn.sla_inv_start] by force
  with sla_correct [OF natjn.asio_join_axioms run(1)] show ?thesis by blast
qed

text \<open>
  Termination of the Asio sleep benchmark: a run takes at most five actions per task and two
  more.
\<close>

theorem sla_run_bounded:
  assumes "asio_join jn running" and "pool_run (sla_step jn n ms) sched (sla_start jn) = Some c"
  shows "length sched \<le> 5 * unat n + 2"
  by (rule asio_join.sleeps_length [OF assms])

theorem sla_run_bounded_witness:
  "\<exists>c. pool_run (sla_step nat_join 1 0) [0, 1, 0, 1, 1, 0] (sla_start nat_join) = Some c \<and>
    length [0, 1, 0, 1, 1, 0 :: nat] \<le> 5 * unat (1 :: u64) + 2"
proof -
  have "\<exists>c. pool_run (sla_step nat_join 1 0) [0, 1, 0, 1, 1, 0] (sla_start nat_join) = Some c"
    by (simp add: sla_start_def nat_join_def)
  with sla_run_bounded [OF natjn.asio_join_axioms, of 1 0 "[0, 1, 0, 1, 1, 0]"] show ?thesis by blast
qed

text \<open>
  The photon sleep benchmark: a coroutine only ever sleeps for \<open>g_sleep_ms * 1000\<close> (modulo 2
  to the 64th) microseconds, and every run that cannot go on has all coroutines finished and
  \<open>main\<close> at exit code 0.
\<close>

theorem slp_correct:
  assumes "photon_sync ph cnt held" and "pool_reach (slp_step ph cfg) (slp_start ph 0) (d, ts)"
  shows "(\<forall>us. PhotonSleeping us \<in> set ts \<longrightarrow> unat us = unat (g_sleep_ms cfg) * 1000 mod 2 ^ 64) \<and>
    (pool_stuck (slp_step ph cfg) (d, ts) \<longrightarrow> (\<forall>t \<in> set ts. slp_finished t) \<and> PhotonExit 0 \<in> set ts)"
proof -
  have "unat (sleep_us cfg) = unat (g_sleep_ms cfg) * 1000 mod 2 ^ 64"
    by (simp add: sleep_us_def unat_word_ariths)
  with photon_sync.sleepers_total [OF assms] show ?thesis by blast
qed

theorem slp_correct_witness:
  "\<exists>d ts. pool_reach (slp_step counter_ops slp_default) (slp_start counter_ops 0) (d, ts) \<and>
    (\<forall>t \<in> set ts. slp_finished t) \<and> PhotonExit 0 \<in> set ts"
proof -
  obtain d ts where run: "pool_reach (slp_step counter_ops slp_default) (slp_start counter_ops 0) (d, ts)"
    "pool_stuck (slp_step counter_ops slp_default) (d, ts)"
    using counter.slp.reaches_stuck [OF counter.slp_inv_start] by force
  with slp_correct [OF counter.photon_sync_axioms run(1)] show ?thesis by blast
qed

end
