(* ===== verification/Timed_Tasks.thy ===== *)
theory Timed_Tasks
  imports Tasks
begin

text \<open>
  The execution model with a clock, for programs that sleep. \<open>delay t\<close> is the time a task at
  suspension point \<open>t\<close> asked to sleep for, 0 where it does not sleep. A timed pool adds the time and,
  for every task, when it reached its suspension point; an action happens at any later time that is
  not before the task has slept enough. Forgetting the times gives a run of the plain pool
  (\<open>timed_forgets\<close>), so what holds of all runs holds of all timed runs; the locale \<open>task_sleeps\<close>
  shows that a program whose tasks each sleep at most once can finish within one sleep.
\<close>

type_synonym ('s, 't) timed = "nat \<times> nat list \<times> ('s, 't) pool"

inductive timed_step :: "('t \<Rightarrow> nat) \<Rightarrow> ('s, 't) task_step \<Rightarrow> ('s, 't) timed \<Rightarrow> ('s, 't) timed \<Rightarrow> bool"
  for delay step where
  act: "now \<le> now' \<Longrightarrow> i < length ts \<Longrightarrow> since ! i + delay (ts ! i) \<le> now' \<Longrightarrow>
    step s (ts ! i) = Some (s', t', new) \<Longrightarrow>
    timed_step delay step (now, since, s, ts)
      (now', since[i := now'] @ replicate (length new) now', s', ts[i := t'] @ new)"

inductive_cases timed_stepE [elim]: "timed_step delay step c c'"

abbreviation timed_reach :: "('t \<Rightarrow> nat) \<Rightarrow> ('s, 't) task_step \<Rightarrow> ('s, 't) timed \<Rightarrow> ('s, 't) timed \<Rightarrow> bool" where
  "timed_reach delay step \<equiv> (timed_step delay step)\<^sup>*\<^sup>*"

text \<open>A pool started at time \<open>now\<close>.\<close>

definition timed_start :: "nat \<Rightarrow> ('s, 't) pool \<Rightarrow> ('s, 't) timed" where
  "timed_start now c = (now, replicate (length (snd c)) now, c)"

lemma timed_step_forgets:
  assumes "timed_step delay step c c'"
  shows "pool_step step (snd (snd c)) (snd (snd c'))"
  using assms by cases (auto intro: run_task)

lemma timed_forgets:
  assumes "timed_reach delay step c c'"
  shows "pool_reach step (snd (snd c)) (snd (snd c'))"
  using assms by (induction rule: rtranclp_induct) (auto intro: timed_step_forgets rtranclp.rtrancl_into_rtrancl)

text \<open>Time does not block: what can move in the pool can move at a late enough time.\<close>

lemma timed_moves:
  assumes "pool_step step (s, ts) c'"
  shows "\<exists>now' since'. timed_step delay step (now, since, s, ts) (now', since', c')"
  using assms
proof cases
  case (run_task i s' t' new)
  let ?now = "max now (since ! i + delay (ts ! i))"
  have "timed_step delay step (now, since, s, ts)
      (?now, since[i := ?now] @ replicate (length new) ?now, s', ts[i := t'] @ new)"
    by (rule act) (use run_task in simp_all)
  then show ?thesis unfolding run_task(1) by blast
qed

lemma timed_follows:
  assumes "pool_reach step (snd (snd c)) d"
  shows "\<exists>now' since'. timed_reach delay step c (now', since', d)"
  using assms
proof (induction rule: rtranclp_induct)
  case base
  then show ?case by (metis prod.collapse rtranclp.rtrancl_refl)
next
  case (step d e)
  then obtain now' since' where "timed_reach delay step c (now', since', d)" by blast
  moreover from step.hyps(2) obtain now2 since2 where
    "timed_step delay step (now', since', d) (now2, since2, e)"
    using timed_moves [of step "fst d" "snd d" e delay now' since'] by auto
  ultimately show ?case by (meson rtranclp.rtrancl_into_rtrancl)
qed

section \<open>Sleeping at the same time\<close>

text \<open>
  \<open>late\<close> tasks have slept or are about to: they no longer start or spawn sleepers. The other tasks
  never block and do not sleep themselves.
\<close>

locale task_sleeps = task_live step inv weight finished
  for step :: "('s, 't) task_step" and inv weight finished +
  fixes delay :: "'t \<Rightarrow> nat" and late :: "'t \<Rightarrow> bool" and d :: nat
  assumes early_moves: "\<not> late t \<Longrightarrow> delay t = 0 \<and> step s t \<noteq> None"
    and late_stays: "late t \<Longrightarrow> step s t = Some (s', t', new) \<Longrightarrow>
      late t' \<and> delay t' = 0 \<and> (\<forall>u \<in> set new. late u \<and> delay u = 0)"
    and delay_le: "inv c \<Longrightarrow> t \<in> set (snd c) \<Longrightarrow> delay t \<le> d"
begin

text \<open>First everything that need not sleep is done at the start time.\<close>

lemma sleep_phase:
  assumes "inv c"
  shows "\<exists>c'. timed_reach delay step (timed_start now c) (timed_start now c') \<and> inv c' \<and>
    (\<forall>t \<in> set (snd c'). late t)"
  using assms
proof (induction "weight c" arbitrary: c rule: less_induct)
  case less
  show ?case
  proof (cases "\<forall>t \<in> set (snd c). late t")
    case True
    with less.prems show ?thesis by blast
  next
    case False
    obtain s ts where c: "c = (s, ts)" by (cases c)
    with False obtain i where i: "i < length ts" "\<not> late (ts ! i)" by (auto simp: in_set_conv_nth)
    with early_moves [OF i(2), of s] obtain s' t' new where m: "delay (ts ! i) = 0"
      "step s (ts ! i) = Some (s', t', new)" by (cases "step s (ts ! i)") auto
    let ?c = "(s', ts[i := t'] @ new)"
    have p: "pool_step step c ?c" unfolding c using i(1) m(2) by (rule run_task)
    have "timed_step delay step (timed_start now c) (timed_start now ?c)"
    proof -
      have "(replicate (length ts) now)[i := now] = replicate (length ts) now"
        using i(1) by (simp add: list_update_same_conv)
      then show ?thesis
        using act [OF order_refl i(1), of "replicate (length ts) now" delay now step, OF _ m(2)] m(1) i(1)
        by (simp add: timed_start_def c replicate_add)
    qed
    with less.hyps [OF weight_step [OF less.prems p] inv_step [OF less.prems p]] show ?thesis
      by (meson converse_rtranclp_into_rtranclp)
  qed
qed

text \<open>Then everybody wakes up at the same time, and the rest is done then.\<close>

lemma wake_phase:
  assumes "inv (s, ts)" and "\<forall>t \<in> set ts. late t" and "now \<le> e" and "length since = length ts"
    and "\<forall>i < length ts. since ! i + delay (ts ! i) \<le> e"
  shows "\<exists>now' since' c'. timed_reach delay step (now, since, s, ts) (now', since', c') \<and> now' \<le> e \<and>
    pool_stuck step c'"
  using assms
proof (induction "weight (s, ts)" arbitrary: s ts now since rule: less_induct)
  case less
  show ?case
  proof (cases "pool_stuck step (s, ts)")
    case True
    with less.prems show ?thesis by blast
  next
    case False
    then obtain t where "t \<in> set ts" "step s t \<noteq> None" by (auto simp: pool_stuck_def)
    then obtain i s' t' new where i: "i < length ts" and m: "step s (ts ! i) = Some (s', t', new)"
      by (cases "step s t") (auto simp: in_set_conv_nth)
    have p: "pool_step step (s, ts) (s', ts[i := t'] @ new)" using i m by (rule run_task)
    let ?ts = "ts[i := t'] @ new" and ?since = "since[i := e] @ replicate (length new) e"
    have step: "timed_step delay step (now, since, s, ts) (e, ?since, s', ?ts)"
      using less.prems(3,5) i m by (auto intro: act)
    have late: "late t'" "delay t' = 0" "\<forall>u \<in> set new. late u \<and> delay u = 0"
      using late_stays [OF _ m] less.prems(2) i by auto
    have "\<forall>t \<in> set ?ts. late t" using late less.prems(2) set_upd_subset [of ts i t' new] by auto
    moreover have "\<forall>j < length ?ts. ?since ! j + delay (?ts ! j) \<le> e"
    proof (intro allI impI)
      fix j assume j: "j < length ?ts"
      show "?since ! j + delay (?ts ! j) \<le> e"
      proof (cases "j < length ts")
        case True
        with less.prems(4,5) late show ?thesis by (cases "j = i") (simp_all add: nth_append)
      next
        case False
        with j less.prems(4) late show ?thesis by (simp add: nth_append)
      qed
    qed
    moreover have "length ?since = length ?ts" using less.prems(4) by simp
    ultimately have "\<exists>now' since' c'. timed_reach delay step (e, ?since, s', ?ts) (now', since', c') \<and> now' \<le> e \<and>
        pool_stuck step c'"
      using less.hyps [OF weight_step [OF less.prems(1) p] inv_step [OF less.prems(1) p]] by blast
    with step show ?thesis by (meson converse_rtranclp_into_rtranclp)
  qed
qed

lemma sleeps_together:
  assumes "inv c"
  shows "\<exists>now' since' c'. timed_reach delay step (timed_start now c) (now', since', c') \<and>
    now' \<le> now + d \<and> pool_stuck step c'"
proof -
  from sleep_phase [OF assms, of now] obtain c1 where c1:
    "timed_reach delay step (timed_start now c) (timed_start now c1)" "inv c1" "\<forall>t \<in> set (snd c1). late t" by blast
  obtain s ts where c: "c1 = (s, ts)" by (cases c1)
  have "\<exists>now' since' c'. timed_reach delay step (now, replicate (length ts) now, s, ts) (now', since', c') \<and>
      now' \<le> now + d \<and> pool_stuck step c'"
    using c1(2,3) delay_le [OF c1(2)] by (intro wake_phase) (auto simp: c)
  with c1(1) show ?thesis unfolding c timed_start_def snd_conv by (meson rtranclp_trans)
qed

end

section \<open>Nobody wakes up early\<close>

text \<open>
  \<open>awake\<close> tasks have slept, or know of somebody who has; \<open>woken\<close> is what the shared state shows of
  it. If only a sleeper or somebody awake can make either true, then all of it happens at least one
  sleep after the start.
\<close>

locale task_wakes = task_invariant +
  fixes delay :: "'b \<Rightarrow> nat" and awake :: "'b \<Rightarrow> bool" and woken :: "'a \<Rightarrow> bool" and d :: nat
  assumes wakes: "inv (s, ts) \<Longrightarrow> t \<in> set ts \<Longrightarrow> step s t = Some (s', t', new) \<Longrightarrow>
      (\<exists>u \<in> set (t' # new). awake u) \<or> woken s' \<Longrightarrow> awake t \<or> woken s \<or> d \<le> delay t"
begin

definition slept :: "nat \<Rightarrow> ('a, 'b) timed \<Rightarrow> bool" where
  "slept start c \<longleftrightarrow> (case c of (now, since, s, ts) \<Rightarrow> length since = length ts \<and> inv (s, ts) \<and>
     (\<forall>i < length ts. start \<le> since ! i \<and> since ! i \<le> now \<and> (awake (ts ! i) \<longrightarrow> start + d \<le> since ! i)) \<and>
     (woken s \<longrightarrow> start + d \<le> now))"

lemma slept_step:
  assumes "slept start c" and "timed_step delay step c c'"
  shows "slept start c'"
  using assms(2)
proof cases
  case (act now now' i ts since s s' t' new)
  from assms(1) have len: "length since = length ts" and inv: "inv (s, ts)"
    and all: "\<And>j. j < length ts \<Longrightarrow> start \<le> since ! j \<and> since ! j \<le> now \<and> (awake (ts ! j) \<longrightarrow> start + d \<le> since ! j)"
    and woken: "woken s \<longrightarrow> start + d \<le> now"
    unfolding act(1) by (simp_all add: slept_def)
  have later: "start + d \<le> now'" if "(\<exists>u \<in> set (t' # new). awake u) \<or> woken s'"
    using wakes [OF inv nth_mem [OF act(4)] act(6) that] all [OF act(4)] woken act(3,5) by auto
  have "inv (s', ts[i := t'] @ new)" using inv act(4,6) by (blast intro: inv_step run_task)
  moreover have "start \<le> (since[i := now'] @ replicate (length new) now') ! j \<and>
      (since[i := now'] @ replicate (length new) now') ! j \<le> now' \<and>
      (awake ((ts[i := t'] @ new) ! j) \<longrightarrow> start + d \<le> (since[i := now'] @ replicate (length new) now') ! j)"
    if j: "j < length (ts[i := t'] @ new)" for j
  proof (cases "j < length ts")
    case True
    with all [OF True] all [OF act(4)] len act(3) later show ?thesis
      by (cases "j = i") (auto simp: nth_append)
  next
    case False
    with j len have "(since[i := now'] @ replicate (length new) now') ! j = now'"
      "(ts[i := t'] @ new) ! j \<in> set new" by (auto simp: nth_append)
    with later all [OF act(4)] act(3) show ?thesis by auto
  qed
  ultimately show ?thesis unfolding act(2) slept_def using len later by simp
qed

lemma slept_reach: "slept start c \<Longrightarrow> timed_reach delay step c c' \<Longrightarrow> slept start c'"
  by (rotate_tac 1, induction rule: rtranclp_induct) (auto intro: slept_step)

lemma awake_later:
  assumes "timed_reach delay step (timed_start start (s0, ts0)) (now, since, s, ts)" and "inv (s0, ts0)"
    and "\<not> woken s0" "\<forall>t \<in> set ts0. \<not> awake t" and "i < length ts" "awake (ts ! i)"
  shows "start + d \<le> since ! i"
proof -
  have "slept start (timed_start start (s0, ts0))" using assms(2,3,4) by (simp add: slept_def timed_start_def)
  from slept_reach [OF this assms(1)] assms(5,6) show ?thesis by (simp add: slept_def)
qed

end

end
