(* ===== verification/Sleep_Clock.thy ===== *)
theory Sleep_Clock
  imports Sleep Timed_Tasks
begin

text \<open>
  The sleep benchmarks with a clock: how long they take. Asio converts the milliseconds to the
  nanoseconds of \<open>steady_clock\<close>, photon gets microseconds. The theorems: \<open>main\<close> gets past its wait
  for the tasks no earlier than one sleep after the start, and some schedule needs no more than
  that, since all tasks sleep at the same time.
\<close>

section \<open>Asio\<close>

text \<open>
  \<open>expires_after(std::chrono::milliseconds(sleep_ms))\<close>: the count of milliseconds and its conversion
  to nanoseconds are signed 64-bit numbers; \<open>None\<close> is overflow, which is undefined. A timer with a
  negative duration fires at once.
\<close>

definition timer_ns :: "u64 \<Rightarrow> int option" where
  "timer_ns ms =
     (let v = sint ms * 1000000 in if - (2 ^ 63) \<le> v \<and> v < 2 ^ 63 then Some v else None)"

fun asio_delay :: "sla_task \<Rightarrow> nat" where
  "asio_delay (AsioTimer ms) = (case timer_ns ms of None \<Rightarrow> 0 | Some v \<Rightarrow> nat v)"
| "asio_delay _ = 0"

lemma asio_delay_exact:
  assumes "unat ms * 1000000 < 2 ^ 63"
  shows "asio_delay (AsioTimer ms) = unat ms * 1000000"
proof -
  have "unat ms < 9223372036854775808" using assms by simp
  then have "int (unat ms) < 9223372036854775808" "- 9223372036854775808 \<le> int (unat ms)" by linarith+
  then have "uint ms < 2 ^ 63" "- (2 ^ 63) \<le> uint ms" by simp_all
  then have "signed_take_bit 63 (uint ms) = uint ms" by (intro signed_take_bit_int_eq_self) simp_all
  moreover define k where "k = unat ms"
  ultimately have "sint ms = int k" by (simp add: sint_uint)
  with assms [folded k_def] show ?thesis unfolding k_def [symmetric] by (simp add: timer_ns_def Let_def nat_mult_distrib)
qed

fun sla_late :: "sla_task \<Rightarrow> bool" where
  "sla_late AsioSleep = False"
| "sla_late (SpawnSleeps _) = False"
| "sla_late _ = True"

fun sla_awake :: "sla_task \<Rightarrow> bool" where
  "sla_awake AsioCount = True"
| "sla_awake AsioReturn = True"
| "sla_awake AsioReturned = True"
| "sla_awake (SleepsExit _) = True"
| "sla_awake _ = False"

context asio_join begin

definition sla_timed_inv :: "u64 \<Rightarrow> u64 \<Rightarrow> ('j sla_state, sla_task) pool \<Rightarrow> bool" where
  "sla_timed_inv n ms c \<longleftrightarrow> sla_inv n c \<and> (\<forall>m. AsioTimer m \<in> set (snd c) \<longrightarrow> m = ms)"

lemma sla_timer_kept:
  assumes "sla_step jn n ms s t = Some (s', t', new)" and "AsioTimer m \<in> set (t' # new)"
  shows "m = ms"
  using assms by (cases t) (auto split: if_splits option.splits)

lemma sla_timed_step:
  assumes "sla_timed_inv n ms c" and "pool_step (sla_step jn n ms) c c'"
  shows "sla_timed_inv n ms c'"
  using assms(2)
proof cases
  case (run_task i ts s s' t' new)
  have "m = ms" if "AsioTimer m \<in> set (ts[i := t'] @ new)" for m
    using that set_upd_subset [of ts i t' new] sla_timer_kept [OF run_task(4), of m] assms(1)
    by (auto simp: sla_timed_inv_def run_task)
  with assms sla_inv_step [of n c ms c'] show ?thesis by (auto simp: sla_timed_inv_def run_task)
qed

lemma sla_exit_counts:
  assumes "sla_inv n (s, ts)" and "JoinSleeps \<in> set ts"
    and "sla_step jn n ms s JoinSleeps = Some (s', t', new)"
  shows "counter s = n"
proof -
  from assms(2) obtain i where i: "i < length ts" "ts ! i = JoinSleeps" by (auto simp: in_set_conv_nth)
  have "pool_step (sla_step jn n ms) (s, ts) (s', ts[i := t'] @ new)"
    using run_task [OF i(1), of "sla_step jn n ms" s] assms(3) i(2) by simp
  with assms(1) have "sla_inv n (s', ts[i := t'] @ new)" using sla_inv_step by blast
  moreover have "t' \<in> set (ts[i := t'] @ new)" using i(1) by (simp add: set_update_memI)
  ultimately have "sla_ok n t'" by (simp add: sla_inv_def)
  with assms(3) show ?thesis by (auto split: option.splits if_splits)
qed

end

sublocale asio_join \<subseteq> sla_timed: task_sleeps "sla_step jn n ms" "sla_timed_inv n ms"
    "\<lambda>c. tsum (sla_weight n) (snd c)" sla_finished asio_delay sla_late "asio_delay (AsioTimer ms)"
  for n ms
proof unfold_locales
  show "sla_timed_inv n ms c'" if "sla_timed_inv n ms c" "pool_step (sla_step jn n ms) c c'" for c c'
    using that by (rule sla_timed_step)
  show "tsum (sla_weight n) (snd c') < tsum (sla_weight n) (snd c)"
    if "sla_timed_inv n ms c" "pool_step (sla_step jn n ms) c c'" for c c'
    using sla_inv_step [of n c ms c'] that by (simp add: sla_timed_inv_def)
  show "sla_step jn n ms s t = None" if "sla_finished t" for s t using that by (rule sla.finished_stops)
  show "sla_finished t"
    if "sla_timed_inv n ms c" "pool_stuck (sla_step jn n ms) c" "t \<in> set (snd c)" for c t
    using that sla.progress [of n c ms t] by (simp add: sla_timed_inv_def)
  show "asio_delay t = 0 \<and> sla_step jn n ms s t \<noteq> None" if "\<not> sla_late t" for t s
    using that by (cases t) auto
  show "sla_late t' \<and> asio_delay t' = 0 \<and> (\<forall>u \<in> set new. sla_late u \<and> asio_delay u = 0)"
    if "sla_late t" "sla_step jn n ms s t = Some (s', t', new)" for t s s' t' new
    using that by (cases t) (auto split: option.splits)
  show "asio_delay t \<le> asio_delay (AsioTimer ms)" if "sla_timed_inv n ms c" "t \<in> set (snd c)" for c t
    using that by (cases t) (auto simp: sla_timed_inv_def)
qed

text \<open>With some task, only a timer wakes anybody, and \<open>main\<close> only ends when the counter moved.\<close>

locale asio_sleepers = asio_join +
  fixes n ms :: u64
  assumes some_task: "n \<noteq> 0"

sublocale asio_sleepers \<subseteq> wakes: task_wakes "sla_step jn n ms" "sla_timed_inv n ms" asio_delay sla_awake
    "\<lambda>s. counter s \<noteq> 0" "asio_delay (AsioTimer ms)"
proof unfold_locales
  fix s ts t s' t' new
  assume inv: "sla_timed_inv n ms (s, ts)" and t: "t \<in> set ts"
    and m: "sla_step jn n ms s t = Some (s', t', new)"
    and w: "(\<exists>u \<in> set (t' # new). sla_awake u) \<or> counter s' \<noteq> 0"
  show "sla_awake t \<or> counter s \<noteq> 0 \<or> asio_delay (AsioTimer ms) \<le> asio_delay t"
  proof (cases t)
    case JoinSleeps
    with inv t m sla_exit_counts [of n s ts ms s' t' new] some_task show ?thesis
      by (simp add: sla_timed_inv_def)
  next
    case (AsioTimer m)
    with inv t show ?thesis by (auto simp: sla_timed_inv_def)
  next
    case AsioSleep
    with m w show ?thesis by (cases "ms = 0") (auto simp: timer_ns_def word_gt_0)
  qed (use m w in \<open>auto split: if_splits\<close>)
qed

context asio_join begin

lemma sla_timed_start: "sla_timed_inv n ms (sla_start jn)"
  using sla_inv_start by (simp add: sla_timed_inv_def sla_start_def)

lemma sleeps_once:
  "\<exists>now since s ts. timed_reach asio_delay (sla_step jn n ms) (timed_start t0 (sla_start jn)) (now, since, s, ts) \<and>
    now \<le> t0 + asio_delay (AsioTimer ms) \<and> (\<forall>t \<in> set ts. sla_finished t) \<and> SleepsExit 0 \<in> set ts"
proof -
  obtain now since s ts where run: "timed_reach asio_delay (sla_step jn n ms) (timed_start t0 (sla_start jn))
      (now, since, s, ts)" "now \<le> t0 + asio_delay (AsioTimer ms)" and stuck: "pool_stuck (sla_step jn n ms) (s, ts)"
    using sla_timed.sleeps_together [OF sla_timed_start, of n ms t0] by auto
  from timed_forgets [OF run(1)] have "pool_reach (sla_step jn n ms) (sla_start jn) (s, ts)"
    by (simp add: timed_start_def)
  from sleeps_total(2) [OF this stuck] run show ?thesis by blast
qed

end

context asio_sleepers begin

lemma sleeps_no_less:
  assumes "timed_reach asio_delay (sla_step jn n ms) (timed_start t0 (sla_start jn)) (now, since, s, ts)"
    and "i < length ts" "ts ! i = SleepsExit code"
  shows "t0 + asio_delay (AsioTimer ms) \<le> since ! i"
  using wakes.awake_later [OF assms(1) [unfolded sla_start_def] _ _ _ assms(2)] sla_timed_start [of n ms] assms(3)
  by (simp add: sla_start_def)

end

interpretation three_sleepers: asio_sleepers nat_join "\<lambda>j. j" 3 10
  by unfold_locales simp

section \<open>Photon\<close>

text \<open>\<open>thread_usleep\<close> sleeps for a number of microseconds.\<close>

fun photon_delay :: "slp_task \<Rightarrow> nat" where
  "photon_delay (PhotonSleeping us) = unat us"
| "photon_delay _ = 0"

fun slp_late :: "slp_task \<Rightarrow> bool" where
  "slp_late PhotonSleeper = False"
| "slp_late (SpawnSleepers _) = False"
| "slp_late _ = True"

fun slp_awake :: "slp_task \<Rightarrow> bool" where
  "slp_awake PhotonSignal = True"
| "slp_awake PhotonSlept = True"
| "slp_awake (PhotonExit _) = True"
| "slp_awake _ = False"

lemma sleep_us_zero: "\<not> 0 < g_sleep_ms cfg \<Longrightarrow> unat (sleep_us cfg) = 0"
  by (simp add: sleep_us_def word_gt_0)

sublocale photon_sync \<subseteq> slp_timed: task_sleeps "slp_step ph cfg" "slp_inv cfg"
    "\<lambda>c. tsum (slp_weight cfg) (snd c)" slp_finished photon_delay slp_late "unat (sleep_us cfg)"
  for cfg
proof unfold_locales
  show "photon_delay t = 0 \<and> slp_step ph cfg s t \<noteq> None" if "\<not> slp_late t" for t s
    using that by (cases t) auto
  show "slp_late t' \<and> photon_delay t' = 0 \<and> (\<forall>u \<in> set new. slp_late u \<and> photon_delay u = 0)"
    if "slp_late t" "slp_step ph cfg s t = Some (s', t', new)" for t s s' t' new
    using that by (cases t) (auto split: option.splits)
  show "photon_delay t \<le> unat (sleep_us cfg)" if "slp_inv cfg c" "t \<in> set (snd c)" for c t
    using that by (cases t) (auto simp: slp_inv_def)
qed

locale photon_sleepers = photon_sync +
  fixes cfg :: slp_cfg
  assumes some_task: "g_tasks cfg \<noteq> 0"

sublocale photon_sleepers \<subseteq> wakes: task_wakes "slp_step ph cfg" "slp_inv cfg" photon_delay slp_awake
    "\<lambda>d. cnt d \<noteq> 0" "unat (sleep_us cfg)"
proof unfold_locales
  fix d ts t d' t' new
  assume inv: "slp_inv cfg (d, ts)" and t: "t \<in> set ts"
    and m: "slp_step ph cfg d t = Some (d', t', new)"
    and w: "(\<exists>u \<in> set (t' # new). slp_awake u) \<or> cnt d' \<noteq> 0"
  show "slp_awake t \<or> cnt d \<noteq> 0 \<or> unat (sleep_us cfg) \<le> photon_delay t"
  proof (cases t)
    case AwaitSleepers
    with m wait_None_iff [of d "g_tasks cfg"] some_task show ?thesis
      by (auto simp: unat_eq_0 split: option.splits)
  next
    case PhotonSleeper
    with m w sleep_us_zero [of cfg] show ?thesis by (cases "0 < g_sleep_ms cfg") auto
  next
    case (PhotonSleeping us)
    with inv t show ?thesis by (auto simp: slp_inv_def)
  qed (use m w in \<open>auto split: if_splits\<close>)
qed

context photon_sync begin

lemma sleepers_once:
  "\<exists>now since d ts. timed_reach photon_delay (slp_step ph cfg) (timed_start t0 (slp_start ph 0)) (now, since, d, ts) \<and>
    now \<le> t0 + unat (sleep_us cfg) \<and> (\<forall>t \<in> set ts. slp_finished t) \<and> PhotonExit 0 \<in> set ts"
proof -
  obtain now since d ts where run: "timed_reach photon_delay (slp_step ph cfg) (timed_start t0 (slp_start ph 0))
      (now, since, d, ts)" "now \<le> t0 + unat (sleep_us cfg)" and stuck: "pool_stuck (slp_step ph cfg) (d, ts)"
    using slp_timed.sleeps_together [OF slp_inv_start, of cfg t0] by auto
  from timed_forgets [OF run(1)] have "pool_reach (slp_step ph cfg) (slp_start ph 0) (d, ts)"
    by (simp add: timed_start_def)
  from sleepers_total(2) [OF this stuck] run show ?thesis by blast
qed

end

context photon_sleepers begin

lemma sleepers_no_less:
  assumes "timed_reach photon_delay (slp_step ph cfg) (timed_start t0 (slp_start ph 0)) (now, since, d, ts)"
    and "i < length ts" "ts ! i = PhotonExit code"
  shows "t0 + unat (sleep_us cfg) \<le> since ! i"
  using wakes.awake_later [OF assms(1) [unfolded slp_start_def] _ _ _ assms(2)] slp_inv_start [of cfg] assms(3)
  by (simp add: slp_start_def)

end

interpretation default_sleepers: photon_sleepers counter_ops "\<lambda>s. s" "\<lambda>m. m" slp_default
  by unfold_locales (simp add: slp_default_def)

section \<open>Properties\<close>

text \<open>
  C11. How long the Asio sleep benchmark takes, in nanoseconds: with some task and a duration whose
  nanoseconds fit 63 bits, \<open>main\<close> never gets past \<open>pool.join\<close> before one sleep has passed since the
  start, whatever the schedule, and some schedule runs all tasks to the end with exit code 0 within
  just one sleep, however many tasks there are.
\<close>

theorem sla_duration:
  assumes "asio_join jn running" and "n \<noteq> 0" and "unat ms * 1000000 < 2 ^ 63"
  shows "(timed_reach asio_delay (sla_step jn n ms) (timed_start t0 (sla_start jn)) (now, since, s, ts) \<longrightarrow>
      (\<forall>i < length ts. \<forall>code. ts ! i = SleepsExit code \<longrightarrow> t0 + unat ms * 1000000 \<le> since ! i)) \<and>
    (\<exists>now since s ts. timed_reach asio_delay (sla_step jn n ms) (timed_start t0 (sla_start jn)) (now, since, s, ts) \<and>
      now \<le> t0 + unat ms * 1000000 \<and> (\<forall>t \<in> set ts. sla_finished t) \<and> SleepsExit 0 \<in> set ts)"
  using asio_sleepers.sleeps_no_less [OF asio_sleepers.intro [OF assms(1) asio_sleepers_axioms.intro [OF assms(2)]], of ms]
    asio_join.sleeps_once [OF assms(1), of n ms t0]
  unfolding asio_delay_exact [OF assms(3)] by blast

theorem sla_duration_witness:
  "\<exists>now since s ts. timed_reach asio_delay (sla_step nat_join 10000 10) (timed_start 5 (sla_start nat_join)) (now, since, s, ts) \<and>
    SleepsExit 0 \<in> set ts \<and> now \<le> 5 + 10 * 1000000"
proof -
  have "unat (10 :: u64) * 1000000 < 2 ^ 63" "(10000 :: u64) \<noteq> 0" by simp_all
  from conjunct2 [OF sla_duration [OF natjn.asio_join_axioms this(2,1)], of 5] show ?thesis by auto
qed

text \<open>
  C30. How long the photon sleep benchmark takes, in microseconds: with some task, \<open>main\<close> never gets
  past \<open>done.wait\<close> before the time it asked photon to sleep has passed, and some schedule ends with
  exit code 0 within it. That time is \<open>g_sleep_ms * 1000\<close> modulo 2 to the 64th.
\<close>

theorem slp_duration:
  assumes "photon_sync ph cnt held" and "g_tasks cfg \<noteq> 0"
    and "us = unat (g_sleep_ms cfg) * 1000 mod 2 ^ 64"
  shows "(timed_reach photon_delay (slp_step ph cfg) (timed_start t0 (slp_start ph 0)) (now, since, d, ts) \<longrightarrow>
      (\<forall>i < length ts. \<forall>code. ts ! i = PhotonExit code \<longrightarrow> t0 + us \<le> since ! i)) \<and>
    (\<exists>now since d ts. timed_reach photon_delay (slp_step ph cfg) (timed_start t0 (slp_start ph 0)) (now, since, d, ts) \<and>
      now \<le> t0 + us \<and> (\<forall>t \<in> set ts. slp_finished t) \<and> PhotonExit 0 \<in> set ts)"
proof -
  have "us = unat (sleep_us cfg)" by (simp add: assms(3) sleep_us_def unat_word_ariths)
  with photon_sleepers.sleepers_no_less [OF photon_sleepers.intro [OF assms(1) photon_sleepers_axioms.intro [OF assms(2)]]]
    photon_sync.sleepers_once [OF assms(1), of cfg t0]
  show ?thesis by blast
qed

theorem slp_duration_witness:
  "\<exists>now since d ts. timed_reach photon_delay (slp_step counter_ops slp_default) (timed_start 0 (slp_start counter_ops 0))
      (now, since, d, ts) \<and> PhotonExit 0 \<in> set ts \<and> now \<le> 1000"
proof -
  have "g_tasks slp_default \<noteq> 0" "1000 = unat (g_sleep_ms slp_default) * 1000 mod 2 ^ 64"
    by (simp_all add: slp_default_def)
  from conjunct2 [OF slp_duration [OF counter.photon_sync_axioms this], of 0] show ?thesis by auto
qed

end
