(* ===== verification/Tcp_Server.thy ===== *)
theory Tcp_Server
  imports Prelude "HOL-Library.Sublist"
begin

text \<open>
  The TCP servers, \<open>cpp/tcp_server_photon.cpp\<close> and \<open>cpp/tcp_server_asio.cpp\<close>: the handler of a
  connection in its three modes, and the accept loop. The runtimes' sockets are parameters
  (\<open>stream_ops\<close>, \<open>socket_ops\<close>); \<open>tcp_stream\<close> states their contract over the bytes received and
  sent so far. The handlers may run for ever and are partial functions, \<open>None\<close> for not returning.
  The theorems: the echo handler sends back a prefix of what it received that lacks at most one
  buffer, the handlers return once the client closes, and both servers do the same on the same
  connection. \<open>Connections\<close> cuts the same handlers into steps, for many connections at once.
\<close>

type_synonym byte = "8 word"

definition BUF_SIZE :: nat where
  "BUF_SIZE = 64 * 1024"

datatype tcp_mode = Echo | Sink | Source

section \<open>The photon handler\<close>

text \<open>
  \<open>st_recv k cap\<close> gives \<open>n\<close>, the bytes written to the front of the buffer, and the stream;
  \<open>st_write\<close> gives the number of bytes written.
\<close>

record 'k stream_ops =
  st_recv :: "'k \<Rightarrow> nat \<Rightarrow> int \<times> byte list \<times> 'k"
  st_write :: "'k \<Rightarrow> byte list \<Rightarrow> int \<times> 'k"
  st_delete :: "'k \<Rightarrow> 'k"

partial_function (option) photon_echo_loop :: "'k stream_ops \<Rightarrow> byte list \<Rightarrow> 'k \<Rightarrow> 'k option" where
  [code]: "photon_echo_loop st buf k =
     (case st_recv st k BUF_SIZE of (n, data, k1) \<Rightarrow>
        let buf1 = data @ drop (length data) buf
        in if n \<le> 0 then Some k1
           else (case st_write st k1 (take (nat n) buf1) of (m, k2) \<Rightarrow>
                   if m \<noteq> n then Some k2 else photon_echo_loop st buf1 k2))"

partial_function (option) photon_sink_loop :: "'k stream_ops \<Rightarrow> 'k \<Rightarrow> 'k option" where
  [code]: "photon_sink_loop st k =
     (case st_recv st k BUF_SIZE of (n, data, k1) \<Rightarrow>
        if n \<le> 0 then Some k1 else photon_sink_loop st k1)"

partial_function (option) photon_source_loop :: "'k stream_ops \<Rightarrow> byte list \<Rightarrow> 'k \<Rightarrow> 'k option" where
  [code]: "photon_source_loop st buf k =
     (case st_write st k buf of (m, k1) \<Rightarrow>
        if m \<noteq> int BUF_SIZE then Some k1 else photon_source_loop st buf k1)"

definition photon_handler :: "'k stream_ops \<Rightarrow> tcp_mode \<Rightarrow> 'k \<Rightarrow> 'k option" where
  "photon_handler st mode k =
     (let buf = replicate BUF_SIZE 0
      in map_option (st_delete st)
        (case mode of
           Echo \<Rightarrow> photon_echo_loop st buf k
         | Sink \<Rightarrow> photon_sink_loop st k
         | Source \<Rightarrow> photon_source_loop st buf k))"

section \<open>The Asio handler\<close>

text \<open>
  Failures are exceptions: \<open>so_nodelay\<close> and \<open>so_write\<close> give \<open>False\<close> and \<open>so_read\<close> gives \<open>None\<close> when
  they throw. The loops are inside the \<open>try\<close>, \<open>set_option\<close> is not, so its exception leaves the
  handler (first component \<open>True\<close>); the socket is closed in either case when the coroutine ends.
\<close>

record 'k socket_ops =
  so_nodelay :: "'k \<Rightarrow> bool \<times> 'k"
  so_read :: "'k \<Rightarrow> nat \<Rightarrow> byte list option \<times> 'k"
  so_write :: "'k \<Rightarrow> byte list \<Rightarrow> bool \<times> 'k"
  so_close :: "'k \<Rightarrow> 'k"

partial_function (option) asio_echo_loop :: "'k socket_ops \<Rightarrow> byte list \<Rightarrow> 'k \<Rightarrow> 'k option" where
  [code]: "asio_echo_loop so buf k =
     (case so_read so k BUF_SIZE of
        (None, k1) \<Rightarrow> Some k1
      | (Some data, k1) \<Rightarrow>
          let n = length data; buf1 = data @ drop n buf
          in (case so_write so k1 (take n buf1) of (done, k2) \<Rightarrow>
                if done then asio_echo_loop so buf1 k2 else Some k2))"

partial_function (option) asio_sink_loop :: "'k socket_ops \<Rightarrow> 'k \<Rightarrow> 'k option" where
  [code]: "asio_sink_loop so k =
     (case so_read so k BUF_SIZE of (None, k1) \<Rightarrow> Some k1 | (Some data, k1) \<Rightarrow> asio_sink_loop so k1)"

partial_function (option) asio_source_loop :: "'k socket_ops \<Rightarrow> byte list \<Rightarrow> 'k \<Rightarrow> 'k option" where
  [code]: "asio_source_loop so buf k =
     (case so_write so k buf of (done, k1) \<Rightarrow> if done then asio_source_loop so buf k1 else Some k1)"

definition asio_handler :: "'k socket_ops \<Rightarrow> tcp_mode \<Rightarrow> 'k \<Rightarrow> (bool \<times> 'k) option" where
  "asio_handler so mode k =
     (case so_nodelay so k of
        (False, k1) \<Rightarrow> Some (True, so_close so k1)
      | (True, k1) \<Rightarrow>
          let buf = replicate BUF_SIZE 0
          in map_option (\<lambda>k2. (False, so_close so k2))
            (case mode of
               Echo \<Rightarrow> asio_echo_loop so buf k1
             | Sink \<Rightarrow> asio_sink_loop so k1
             | Source \<Rightarrow> asio_source_loop so buf k1))"

text \<open>The same connection seen through Asio: no data or an incomplete write becomes an exception.\<close>

definition socket_of :: "'k stream_ops \<Rightarrow> 'k socket_ops" where
  "socket_of st =
     \<lparr>so_nodelay = (\<lambda>k. (True, k)),
      so_read = (\<lambda>k cap. case st_recv st k cap of (n, data, k') \<Rightarrow> (if n \<le> 0 then None else Some data, k')),
      so_write = (\<lambda>k bs. case st_write st k bs of (m, k') \<Rightarrow> (m = int (length bs), k')),
      so_close = st_delete st\<rparr>"

section \<open>The contract of a stream\<close>

locale tcp_stream =
  fixes st :: "'k stream_ops"
    and rcvd :: "'k \<Rightarrow> byte list"
    and sent :: "'k \<Rightarrow> byte list"
    and deletes :: "'k \<Rightarrow> nat"
  assumes recv_data: "st_recv st k cap = (n, data, k') \<Longrightarrow>
      length data \<le> cap \<and> n \<le> int (length data) \<and> (0 < n \<longrightarrow> n = int (length data)) \<and> (n \<le> 0 \<longrightarrow> data = []) \<and>
      rcvd k' = rcvd k @ data \<and> sent k' = sent k \<and> deletes k' = deletes k"
    and write_data: "st_write st k bs = (m, k') \<Longrightarrow>
      (\<exists>j \<le> length bs. sent k' = sent k @ take j bs \<and> (m = int (length bs) \<longrightarrow> j = length bs)) \<and>
      rcvd k' = rcvd k \<and> deletes k' = deletes k"
    and delete_once [simp]: "deletes (st_delete st k) = Suc (deletes k)" "rcvd (st_delete st k) = rcvd k"
      "sent (st_delete st k) = sent k"
begin

text \<open>What one run of a loop adds to the bytes received and sent.\<close>

definition echoed :: "'k \<Rightarrow> 'k \<Rightarrow> bool" where
  "echoed k k' \<longleftrightarrow> deletes k' = deletes k \<and>
     (\<exists>xs ys. rcvd k' = rcvd k @ xs \<and> sent k' = sent k @ ys \<and> prefix ys xs \<and>
       length xs \<le> length ys + BUF_SIZE)"

lemma echoed_stop:
  assumes "st_recv st k BUF_SIZE = (n, data, k1)" and "n \<le> 0"
  shows "echoed k k1"
  using recv_data [OF assms(1)] assms(2) by (simp add: echoed_def)

lemma echo_round:
  assumes "st_recv st k BUF_SIZE = (n, data, k1)" and "0 < n"
    and "st_write st k1 (take (nat n) (data @ drop (length data) buf)) = (m, k2)"
  shows "\<exists>j \<le> length data. rcvd k2 = rcvd k @ data \<and> sent k2 = sent k @ take j data \<and>
    (m = n \<longrightarrow> j = length data) \<and> length data \<le> BUF_SIZE \<and> deletes k2 = deletes k"
  using recv_data [OF assms(1)] assms(2) write_data [OF assms(3)] by auto

lemma echoed_fail:
  assumes "st_recv st k BUF_SIZE = (n, data, k1)" and "0 < n"
    and "st_write st k1 (take (nat n) (data @ drop (length data) buf)) = (m, k2)"
  shows "echoed k k2"
proof -
  from echo_round [OF assms] obtain j where "j \<le> length data" "rcvd k2 = rcvd k @ data"
    "sent k2 = sent k @ take j data" "length data \<le> BUF_SIZE" "deletes k2 = deletes k" by blast
  then show ?thesis unfolding echoed_def
    by (intro conjI exI [of _ data] exI [of _ "take j data"]) (auto simp: take_is_prefix)
qed

lemma echoed_more:
  assumes "st_recv st k BUF_SIZE = (n, data, k1)" and "0 < n"
    and "st_write st k1 (take (nat n) (data @ drop (length data) buf)) = (n, k2)"
    and "echoed k2 k'"
  shows "echoed k k'"
proof -
  from echo_round [OF assms(1,2,3)] have "rcvd k2 = rcvd k @ data" "sent k2 = sent k @ data"
    "deletes k2 = deletes k" by auto
  moreover from assms(4) obtain xs ys where "rcvd k' = rcvd k2 @ xs" "sent k' = sent k2 @ ys" "prefix ys xs"
    "length xs \<le> length ys + BUF_SIZE" "deletes k' = deletes k2" by (auto simp: echoed_def)
  ultimately show ?thesis unfolding echoed_def
    by (intro conjI exI [of _ "data @ xs"] exI [of _ "data @ ys"]) auto
qed

lemma echo_partial:
  assumes "photon_echo_loop st buf k = Some k'"
  shows "echoed k k'"
proof -
  have "st = st \<longrightarrow> echoed k k'"
  proof (rule photon_echo_loop.raw_induct [where P = "\<lambda>s b k k'. s = st \<longrightarrow> echoed k k'", OF _ assms])
  fix loop and s :: "'k stream_ops" and buf and k k'
  assume IH: "\<And>s b k k'. loop s b k = Some k' \<Longrightarrow> s = st \<longrightarrow> echoed k k'"
    and run: "(case st_recv s k BUF_SIZE of (n, data, k1) \<Rightarrow>
        let buf1 = data @ drop (length data) buf
        in if n \<le> 0 then Some k1
           else (case st_write s k1 (take (nat n) buf1) of (m, k2) \<Rightarrow>
                   if m \<noteq> n then Some k2 else loop s buf1 k2)) = Some k'"
  show "s = st \<longrightarrow> echoed k k'"
  proof
    assume s: "s = st"
    obtain n data k1 where r: "st_recv st k BUF_SIZE = (n, data, k1)" by (cases "st_recv st k BUF_SIZE")
    show "echoed k k'"
    proof (cases "n \<le> 0")
      case True
      with run r echoed_stop [OF r] show ?thesis by (simp add: s Let_def)
    next
      case False
      obtain m k2 where w: "st_write st k1 (take (nat n) (data @ drop (length data) buf)) = (m, k2)"
        by fastforce
      show ?thesis
      proof (cases "m = n")
        case True
        with run r w False have "loop st (data @ drop (length data) buf) k2 = Some k'" by (simp add: s Let_def)
        with IH have "echoed k2 k'" by blast
        with echoed_more [OF r] False w True show ?thesis by simp
      next
        case False': False
        with run r w False have "k' = k2" by (simp add: s Let_def)
        with echoed_fail [OF r _ w] False show ?thesis by simp
      qed
    qed
  qed
  qed
  then show ?thesis by simp
qed

end

text \<open>A client that sends and takes only finitely many bytes before it closes.\<close>

locale closing_stream = tcp_stream +
  fixes incoming :: "'a \<Rightarrow> nat" and accepts :: "'a \<Rightarrow> nat"
  assumes recv_less: "st_recv st k cap = (n, data, k') \<Longrightarrow>
      incoming k' \<le> incoming k \<and> (0 < n \<longrightarrow> incoming k' < incoming k)"
    and write_less: "st_write st k bs = (m, k') \<Longrightarrow> incoming k' \<le> incoming k \<and>
      (bs \<noteq> [] \<longrightarrow> m = int (length bs) \<longrightarrow> accepts k' < accepts k)"
begin

lemma echo_returns: "\<exists>k'. photon_echo_loop st buf k = Some k'"
proof (induction "incoming k" arbitrary: buf k rule: less_induct)
  case less
  obtain n data k1 where r: "st_recv st k BUF_SIZE = (n, data, k1)" by (cases "st_recv st k BUF_SIZE")
  obtain m k2 where w: "st_write st k1 (take (nat n) (data @ drop (length data) buf)) = (m, k2)"
    by fastforce
  have "0 < n \<Longrightarrow> incoming k2 < incoming k" using recv_less [OF r] write_less [OF w] by simp
  with less [of k2] r w show ?case by (subst photon_echo_loop.simps) (auto simp: Let_def)
qed

lemma sink_returns: "\<exists>k'. photon_sink_loop st k = Some k' \<and> sent k' = sent k \<and> deletes k' = deletes k"
proof (induction "incoming k" arbitrary: k rule: less_induct)
  case less
  obtain n data k1 where r: "st_recv st k BUF_SIZE = (n, data, k1)" by (cases "st_recv st k BUF_SIZE")
  from less [of k1] recv_less [OF r] recv_data [OF r] r show ?case
    by (subst photon_sink_loop.simps) auto
qed

lemma source_returns:
  assumes buf: "buf = replicate BUF_SIZE 0"
  shows "\<exists>k' n. photon_source_loop st buf k = Some k' \<and> sent k' = sent k @ replicate n 0 \<and>
    rcvd k' = rcvd k \<and> deletes k' = deletes k"
proof (induction "accepts k" arbitrary: k rule: less_induct)
  case less
  obtain m k1 where w: "st_write st k buf = (m, k1)" by fastforce
  have b: "buf \<noteq> []" "length buf = BUF_SIZE" by (simp_all add: buf BUF_SIZE_def)
  from write_data [OF w] obtain j where j: "j \<le> BUF_SIZE" "sent k1 = sent k @ replicate j 0"
    "rcvd k1 = rcvd k" "deletes k1 = deletes k" by (auto simp: b buf)
  show ?case
  proof (cases "m = int BUF_SIZE")
    case True
    with write_less [OF w] b have "accepts k1 < accepts k" by simp
    from less [OF this] obtain k' n where "photon_source_loop st buf k1 = Some k'"
      "sent k' = sent k1 @ replicate n 0" "rcvd k' = rcvd k1" "deletes k' = deletes k1" by blast
    with True w j show ?thesis
      by (subst photon_source_loop.simps) (auto simp flip: replicate_add)
  next
    case False
    with w j show ?thesis by (subst photon_source_loop.simps) auto
  qed
qed

end

section \<open>Both handlers on the same connection\<close>

context tcp_stream begin

lemma read_socket_of:
  "so_read (socket_of st) k cap = (case st_recv st k cap of (n, data, k') \<Rightarrow> (if n \<le> 0 then None else Some data, k'))"
  "so_write (socket_of st) k bs = (case st_write st k bs of (m, k') \<Rightarrow> (m = int (length bs), k'))"
  by (simp_all add: socket_of_def)

lemma echo_body:
  assumes "st_recv st k BUF_SIZE = (n, data, k1)" and "0 < n"
  shows "nat n = length data" and "n = int (length data)"
    and "length (take (length data) (data @ drop (length data) buf)) = length data"
  using recv_data [OF assms(1)] assms(2) by auto

lemma echo_to_asio:
  assumes "photon_echo_loop st buf k = Some k'"
  shows "asio_echo_loop (socket_of st) buf k = Some k'"
proof -
  have "st = st \<longrightarrow> asio_echo_loop (socket_of st) buf k = Some k'"
  proof (rule photon_echo_loop.raw_induct [where
        P = "\<lambda>s b k k'. s = st \<longrightarrow> asio_echo_loop (socket_of st) b k = Some k'", OF _ assms])
    fix loop and s :: "'k stream_ops" and buf and k k'
    assume IH: "\<And>s b k k'. loop s b k = Some k' \<Longrightarrow> s = st \<longrightarrow> asio_echo_loop (socket_of st) b k = Some k'"
      and run: "(case st_recv s k BUF_SIZE of (n, data, k1) \<Rightarrow>
        let buf1 = data @ drop (length data) buf
        in if n \<le> 0 then Some k1
           else (case st_write s k1 (take (nat n) buf1) of (m, k2) \<Rightarrow>
                   if m \<noteq> n then Some k2 else loop s buf1 k2)) = Some k'"
    obtain n data k1 where r: "st_recv st k BUF_SIZE = (n, data, k1)" by (cases "st_recv st k BUF_SIZE")
    show "s = st \<longrightarrow> asio_echo_loop (socket_of st) buf k = Some k'"
      using run IH echo_body [OF r]
      by (subst asio_echo_loop.simps)
        (auto simp: read_socket_of r Let_def split: prod.splits if_splits)
  qed
  then show ?thesis by simp
qed

lemma echo_from_asio:
  assumes "asio_echo_loop (socket_of st) buf k = Some k'"
  shows "photon_echo_loop st buf k = Some k'"
proof -
  have "socket_of st = socket_of st \<longrightarrow> photon_echo_loop st buf k = Some k'"
  proof (rule asio_echo_loop.raw_induct [where
        P = "\<lambda>so b k k'. so = socket_of st \<longrightarrow> photon_echo_loop st b k = Some k'", OF _ assms])
    fix loop and so :: "'k socket_ops" and buf and k k'
    assume IH: "\<And>so b k k'. loop so b k = Some k' \<Longrightarrow> so = socket_of st \<longrightarrow> photon_echo_loop st b k = Some k'"
      and run: "(case so_read so k BUF_SIZE of
        (None, k1) \<Rightarrow> Some k1
      | (Some data, k1) \<Rightarrow>
          let n = length data; buf1 = data @ drop n buf
          in (case so_write so k1 (take n buf1) of (done, k2) \<Rightarrow>
                if done then loop so buf1 k2 else Some k2)) = Some k'"
    obtain n data k1 where r: "st_recv st k BUF_SIZE = (n, data, k1)" by (cases "st_recv st k BUF_SIZE")
    show "so = socket_of st \<longrightarrow> photon_echo_loop st buf k = Some k'"
      using run IH echo_body [OF r]
      by (subst photon_echo_loop.simps)
        (auto simp: read_socket_of r Let_def split: prod.splits if_splits)
  qed
  then show ?thesis by simp
qed

lemma sink_to_asio:
  assumes "photon_sink_loop st k = Some k'"
  shows "asio_sink_loop (socket_of st) k = Some k'"
proof -
  have "st = st \<longrightarrow> asio_sink_loop (socket_of st) k = Some k'"
  proof (rule photon_sink_loop.raw_induct [where
        P = "\<lambda>s k k'. s = st \<longrightarrow> asio_sink_loop (socket_of st) k = Some k'", OF _ assms])
    fix loop and s :: "'k stream_ops" and k k'
    assume "\<And>s k k'. loop s k = Some k' \<Longrightarrow> s = st \<longrightarrow> asio_sink_loop (socket_of st) k = Some k'"
      and "(case st_recv s k BUF_SIZE of (n, data, k1) \<Rightarrow> if n \<le> 0 then Some k1 else loop s k1) = Some k'"
    then show "s = st \<longrightarrow> asio_sink_loop (socket_of st) k = Some k'"
      by (subst asio_sink_loop.simps) (auto simp: read_socket_of split: prod.splits if_splits)
  qed
  then show ?thesis by simp
qed

lemma sink_from_asio:
  assumes "asio_sink_loop (socket_of st) k = Some k'"
  shows "photon_sink_loop st k = Some k'"
proof -
  have "socket_of st = socket_of st \<longrightarrow> photon_sink_loop st k = Some k'"
  proof (rule asio_sink_loop.raw_induct [where
        P = "\<lambda>so k k'. so = socket_of st \<longrightarrow> photon_sink_loop st k = Some k'", OF _ assms])
    fix loop and so :: "'k socket_ops" and k k'
    assume "\<And>so k k'. loop so k = Some k' \<Longrightarrow> so = socket_of st \<longrightarrow> photon_sink_loop st k = Some k'"
      and "(case so_read so k BUF_SIZE of (None, k1) \<Rightarrow> Some k1 | (Some data, k1) \<Rightarrow> loop so k1) = Some k'"
    then show "so = socket_of st \<longrightarrow> photon_sink_loop st k = Some k'"
      by (subst photon_sink_loop.simps) (auto simp: read_socket_of split: prod.splits if_splits)
  qed
  then show ?thesis by simp
qed

lemma source_to_asio:
  assumes "photon_source_loop st buf k = Some k'" and "length buf = BUF_SIZE"
  shows "asio_source_loop (socket_of st) buf k = Some k'"
proof -
  have "st = st \<longrightarrow> length buf = BUF_SIZE \<longrightarrow> asio_source_loop (socket_of st) buf k = Some k'"
  proof (rule photon_source_loop.raw_induct [where
        P = "\<lambda>s b k k'. s = st \<longrightarrow> length b = BUF_SIZE \<longrightarrow> asio_source_loop (socket_of st) b k = Some k'", OF _ assms(1)])
    fix loop and s :: "'k stream_ops" and b and k k'
    assume "\<And>s b k k'. loop s b k = Some k' \<Longrightarrow>
        s = st \<longrightarrow> length b = BUF_SIZE \<longrightarrow> asio_source_loop (socket_of st) b k = Some k'"
      and "(case st_write s k b of (m, k1) \<Rightarrow> if m \<noteq> int BUF_SIZE then Some k1 else loop s b k1) = Some k'"
    then show "s = st \<longrightarrow> length b = BUF_SIZE \<longrightarrow> asio_source_loop (socket_of st) b k = Some k'"
      by (subst asio_source_loop.simps) (auto simp: read_socket_of split: prod.splits if_splits)
  qed
  with assms(2) show ?thesis by simp
qed

lemma source_from_asio:
  assumes "asio_source_loop (socket_of st) buf k = Some k'" and "length buf = BUF_SIZE"
  shows "photon_source_loop st buf k = Some k'"
proof -
  have "socket_of st = socket_of st \<longrightarrow> length buf = BUF_SIZE \<longrightarrow> photon_source_loop st buf k = Some k'"
  proof (rule asio_source_loop.raw_induct [where
        P = "\<lambda>so b k k'. so = socket_of st \<longrightarrow> length b = BUF_SIZE \<longrightarrow> photon_source_loop st b k = Some k'", OF _ assms(1)])
    fix loop and so :: "'k socket_ops" and b and k k'
    assume "\<And>so b k k'. loop so b k = Some k' \<Longrightarrow>
        so = socket_of st \<longrightarrow> length b = BUF_SIZE \<longrightarrow> photon_source_loop st b k = Some k'"
      and "(case so_write so k b of (done, k1) \<Rightarrow> if done then loop so b k1 else Some k1) = Some k'"
    then show "so = socket_of st \<longrightarrow> length b = BUF_SIZE \<longrightarrow> photon_source_loop st b k = Some k'"
      by (subst photon_source_loop.simps) (auto simp: read_socket_of split: prod.splits if_splits)
  qed
  with assms(2) show ?thesis by simp
qed

lemma handlers_agree:
  "asio_handler (socket_of st) mode k = map_option (\<lambda>k'. (False, k')) (photon_handler st mode k)"
proof -
  have eq: "(\<And>y. x = Some y \<Longrightarrow> z = Some y) \<Longrightarrow> (\<And>y. z = Some y \<Longrightarrow> x = Some y) \<Longrightarrow> x = z"
    for x z :: "'k option"
    by (cases x; cases z) auto
  let ?b = "replicate BUF_SIZE (0 :: byte)"
  have "asio_echo_loop (socket_of st) ?b k = photon_echo_loop st ?b k"
    by (rule eq) (erule echo_from_asio, erule echo_to_asio)
  moreover have "asio_sink_loop (socket_of st) k = photon_sink_loop st k"
    by (rule eq) (erule sink_from_asio, erule sink_to_asio)
  moreover have "asio_source_loop (socket_of st) ?b k = photon_source_loop st ?b k"
    by (rule eq) (erule source_from_asio, simp, erule source_to_asio, simp)
  moreover have "so_nodelay (socket_of st) k = (True, k)" "so_close (socket_of st) = st_delete st"
    by (simp_all add: socket_of_def)
  ultimately show ?thesis
    by (cases mode) (simp_all add: asio_handler_def photon_handler_def Let_def option.map_comp comp_def)
qed

lemma echo_handler:
  assumes "photon_handler st Echo k = Some k'"
  shows "deletes k' = Suc (deletes k) \<and> (\<exists>xs ys. rcvd k' = rcvd k @ xs \<and> sent k' = sent k @ ys \<and>
    prefix ys xs \<and> length xs \<le> length ys + BUF_SIZE)"
  using assms by (auto simp: photon_handler_def Let_def echoed_def dest!: echo_partial)

end

context closing_stream begin

lemma handler_returns:
  "\<exists>k'. photon_handler st mode k = Some k' \<and> deletes k' = Suc (deletes k) \<and>
    (mode = Sink \<longrightarrow> sent k' = sent k) \<and>
    (mode = Source \<longrightarrow> rcvd k' = rcvd k \<and> (\<exists>n. sent k' = sent k @ replicate n 0))"
proof (cases mode)
  case Echo
  obtain k1 where k1: "photon_echo_loop st (replicate BUF_SIZE 0) k = Some k1" using echo_returns by blast
  from echo_partial [OF k1] k1 show ?thesis by (simp add: Echo photon_handler_def Let_def echoed_def)
next
  case Sink
  with sink_returns [of k] show ?thesis by (auto simp: photon_handler_def Let_def)
next
  case Source
  with source_returns [OF refl, of k] show ?thesis by (fastforce simp: photon_handler_def Let_def)
qed

end

text \<open>The contract can be met: a client with given input that takes \<open>quota\<close> bytes.\<close>

record conn =
  inbytes :: "byte list"
  quota :: nat
  got :: "byte list"
  out :: "byte list"
  gone_times :: nat

definition list_stream :: "conn stream_ops" where
  "list_stream =
     \<lparr>st_recv = (\<lambda>k cap. let data = take cap (inbytes k)
        in (int (length data), data, k\<lparr>inbytes := drop cap (inbytes k), got := got k @ data\<rparr>)),
      st_write = (\<lambda>k bs.
        if length bs \<le> quota k
        then (int (length bs), k\<lparr>quota := quota k - length bs, out := out k @ bs\<rparr>)
        else (int (quota k), k\<lparr>quota := 0, out := out k @ take (quota k) bs\<rparr>)),
      st_delete = (\<lambda>k. k\<lparr>gone_times := Suc (gone_times k)\<rparr>)\<rparr>"

interpretation list_conn: closing_stream list_stream got out gone_times "\<lambda>k. length (inbytes k)" quota
proof unfold_locales
  fix k cap n data k'
  assume "st_recv list_stream k cap = (n, data, k')"
  then show "length data \<le> cap \<and> n \<le> int (length data) \<and> (0 < n \<longrightarrow> n = int (length data)) \<and>
      (n \<le> 0 \<longrightarrow> data = []) \<and> got k' = got k @ data \<and> out k' = out k \<and> gone_times k' = gone_times k"
    and "length (inbytes k') \<le> length (inbytes k) \<and> (0 < n \<longrightarrow> length (inbytes k') < length (inbytes k))"
    by (auto simp: list_stream_def Let_def min_def split: if_splits)
next
  fix k bs m k'
  assume w: "st_write list_stream k bs = (m, k')"
  show "(\<exists>j \<le> length bs. out k' = out k @ take j bs \<and> (m = int (length bs) \<longrightarrow> j = length bs)) \<and>
      got k' = got k \<and> gone_times k' = gone_times k"
  proof (cases "length bs \<le> quota k")
    case True
    with w show ?thesis by (intro conjI exI [of _ "length bs"]) (auto simp: list_stream_def)
  next
    case False
    with w show ?thesis by (intro conjI exI [of _ "quota k"]) (auto simp: list_stream_def)
  qed
  show "length (inbytes k') \<le> length (inbytes k) \<and> (bs \<noteq> [] \<longrightarrow> m = int (length bs) \<longrightarrow> quota k' < quota k)"
    using w by (cases bs) (auto simp: list_stream_def split: if_splits)
qed (simp_all add: list_stream_def)

section \<open>The accept loops\<close>

text \<open>
  \<open>accept\<close> gives the next connection, or none when it fails: photon returns a null stream, Asio
  throws. Both loops then end, the photon one by \<open>break\<close> and Asio's by leaving the coroutine. The
  result lists the connections for which a handler was started.
\<close>

type_synonym ('a, 'k) accept_op = "'a \<Rightarrow> 'k option \<times> 'a"

partial_function (option) photon_accept_loop :: "('a, 'k) accept_op \<Rightarrow> 'a \<Rightarrow> 'k list \<Rightarrow> ('k list \<times> 'a) option" where
  [code]: "photon_accept_loop accept a spawned =
     (case accept a of
        (None, a1) \<Rightarrow> Some (spawned, a1)
      | (Some k, a1) \<Rightarrow> photon_accept_loop accept a1 (spawned @ [k]))"

partial_function (option) asio_server :: "('a, 'k) accept_op \<Rightarrow> 'a \<Rightarrow> 'k list \<Rightarrow> ('k list \<times> 'a) option" where
  [code]: "asio_server accept a spawned =
     (case accept a of
        (None, a1) \<Rightarrow> Some (spawned, a1)
      | (Some k, a1) \<Rightarrow> asio_server accept a1 (spawned @ [k]))"

text \<open>
  \<open>main\<close> of the photon server behind the command line: \<open>init\<close>, \<open>bind\<close> and \<open>listen\<close> are what the
  calls of those names returned.
\<close>

definition photon_tcp_main ::
  "int \<Rightarrow> int \<Rightarrow> int \<Rightarrow> ('a, 'k) accept_op \<Rightarrow> 'a \<Rightarrow> (int \<times> 'k list \<times> 'a) option"
where
  "photon_tcp_main init bind listen accept a =
     (if init \<noteq> 0 then Some (1, [], a)
      else if bind \<noteq> 0 \<or> listen \<noteq> 0 then Some (1, [], a)
      else map_option (\<lambda>(ks, a1). (0, ks, a1)) (photon_accept_loop accept a []))"

text \<open>The acceptor hands out the connections \<open>ks\<close> and then fails.\<close>

fun hands_out :: "('a, 'k) accept_op \<Rightarrow> 'a \<Rightarrow> 'k list \<Rightarrow> 'a \<Rightarrow> bool" where
  "hands_out accept a [] a' = (accept a = (None, a'))"
| "hands_out accept a (k # ks) a' = (case accept a of
     (Some k', a1) \<Rightarrow> k' = k \<and> hands_out accept a1 ks a' | (None, _) \<Rightarrow> False)"

lemma photon_accepts:
  "hands_out accept a ks a' \<Longrightarrow> photon_accept_loop accept a spawned = Some (spawned @ ks, a')"
proof (induction ks arbitrary: a spawned)
  case Nil
  then show ?case by (subst photon_accept_loop.simps) simp
next
  case (Cons k ks)
  then show ?case by (subst photon_accept_loop.simps) (auto split: prod.splits option.splits)
qed

lemma asio_accepts:
  "hands_out accept a ks a' \<Longrightarrow> asio_server accept a spawned = Some (spawned @ ks, a')"
proof (induction ks arbitrary: a spawned)
  case Nil
  then show ?case by (subst asio_server.simps) simp
next
  case (Cons k ks)
  then show ?case by (subst asio_server.simps) (auto split: prod.splits option.splits)
qed

text \<open>The loops end only by a failed accept.\<close>

lemma photon_never_ends:
  assumes "\<And>a. fst (accept a) \<noteq> None"
  shows "photon_accept_loop accept a spawned = None"
proof (cases "photon_accept_loop accept a spawned")
  case (Some r)
  have "ac = accept \<longrightarrow> False" if "photon_accept_loop ac a spawned = Some r" for ac
  proof (rule photon_accept_loop.raw_induct [where P = "\<lambda>ac a sp r. ac = accept \<longrightarrow> False", OF _ that])
    fix loop and ac :: "('a, 'b) accept_op" and a sp and r :: "'b list \<times> 'a"
    assume "\<And>ac a sp r. loop ac a sp = Some r \<Longrightarrow> ac = accept \<longrightarrow> False"
      and "(case ac a of (None, a1) \<Rightarrow> Some (sp, a1) | (Some k, a1) \<Rightarrow> loop ac a1 (sp @ [k])) = Some r"
    then show "ac = accept \<longrightarrow> False"
      using assms [of a] by (auto split: prod.splits option.splits)
  qed
  with Some show ?thesis by blast
qed

section \<open>Properties\<close>

text \<open>
  C26. Echo correctness of the photon handler: when it returns, it has deleted the stream once, and
  what it sent is a prefix of what it received that lacks at most one buffer of 65536 bytes.
\<close>

theorem tcp_echo_correct:
  assumes "tcp_stream st rcvd sent deletes" and "photon_handler st Echo k = Some k'"
  shows "deletes k' = Suc (deletes k) \<and> (\<exists>xs ys. rcvd k' = rcvd k @ xs \<and> sent k' = sent k @ ys \<and>
    prefix ys xs \<and> length xs \<le> length ys + 65536)"
  using tcp_stream.echo_handler [OF assms] by (simp add: BUF_SIZE_def)

definition demo_conn :: conn where
  "demo_conn = \<lparr>inbytes = [1, 2, 3], quota = 10, got = [], out = [], gone_times = 0\<rparr>"

lemma demo_echo:
  "photon_handler list_stream Echo demo_conn =
    Some \<lparr>inbytes = [], quota = 7, got = [1, 2, 3], out = [1, 2, 3], gone_times = 1\<rparr>"
proof -
  have b: "BUF_SIZE = Suc (Suc (Suc 65533))" by (simp add: BUF_SIZE_def)
  show ?thesis
    by (simp add: photon_handler_def Let_def photon_echo_loop.simps list_stream_def demo_conn_def b
      del: replicate.simps)
qed

theorem tcp_echo_correct_witness:
  "\<exists>k'. photon_handler list_stream Echo demo_conn = Some k' \<and> gone_times k' = Suc (gone_times demo_conn) \<and>
    out k' = [1, 2, 3]"
  using tcp_echo_correct [OF list_conn.tcp_stream_axioms demo_echo] demo_echo by simp

text \<open>
  C37. The handlers return, in every mode, when the client sends and takes finitely many bytes; the
  stream is then deleted once, the sink has sent nothing, and the source has read nothing and sent
  only zeros.
\<close>

theorem tcp_handler_returns:
  assumes "closing_stream st rcvd sent deletes incoming accepts"
  shows "\<exists>k'. photon_handler st mode k = Some k' \<and> deletes k' = Suc (deletes k) \<and>
    (mode = Sink \<longrightarrow> sent k' = sent k) \<and>
    (mode = Source \<longrightarrow> rcvd k' = rcvd k \<and> (\<exists>n. sent k' = sent k @ replicate n 0))"
  by (rule closing_stream.handler_returns [OF assms])

theorem tcp_handler_returns_witness:
  "\<exists>k'. photon_handler list_stream Sink demo_conn = Some k' \<and> out k' = [] \<and> gone_times k' = 1"
  using tcp_handler_returns [OF list_conn.closing_stream_axioms, of Sink demo_conn]
  by (auto simp: demo_conn_def)

text \<open>
  C36. The two servers treat a connection alike: on the same stream, with failures reported as
  exceptions, the Asio handler ends exactly when the photon one does and in the same state, in
  every mode, and lets no exception escape.
\<close>

theorem tcp_handlers_agree:
  assumes "tcp_stream st rcvd sent deletes"
  shows "asio_handler (socket_of st) mode k = map_option (\<lambda>k'. (False, k')) (photon_handler st mode k)"
  by (rule tcp_stream.handlers_agree [OF assms])

theorem tcp_handlers_agree_witness:
  "\<exists>k'. asio_handler (socket_of list_stream) Echo demo_conn = Some (False, k') \<and> out k' = [1, 2, 3]"
  by (simp add: tcp_handlers_agree [OF list_conn.tcp_stream_axioms] demo_echo)

text \<open>
  The accept loop of the photon server: it starts a handler for every accepted connection, in
  order, and \<open>main\<close> returns 0 at the first accept that fails, and never without one; a failed
  \<open>init\<close>, \<open>bind\<close> or \<open>listen\<close> gives exit code 1. The Asio server coroutine starts the same handlers.
\<close>

theorem tcp_accept_loop:
  "(hands_out accept a ks a' \<longrightarrow> photon_tcp_main 0 0 0 accept a = Some (0, ks, a') \<and>
      asio_server accept a [] = Some (ks, a')) \<and>
    ((\<forall>b. fst (accept b) \<noteq> None) \<longrightarrow> photon_tcp_main 0 0 0 accept a = None) \<and>
    (init \<noteq> 0 \<or> bind \<noteq> 0 \<or> listen \<noteq> 0 \<longrightarrow> photon_tcp_main init bind listen accept a = Some (1, [], a))"
  using photon_accepts [of accept a ks a' "[]"] asio_accepts [of accept a ks a' "[]"] photon_never_ends [of accept a "[]"]
  by (auto simp: photon_tcp_main_def)

theorem tcp_accept_loop_witness:
  "photon_tcp_main 0 0 0 (\<lambda>n :: nat. (if n = 0 then None else Some n, n - 1)) 3 = Some (0, [3, 2, 1], 0)"
proof -
  have "hands_out (\<lambda>n :: nat. (if n = 0 then None else Some n, n - 1)) 3 [3, 2, 1] 0" by simp
  with tcp_accept_loop [of "\<lambda>n :: nat. (if n = 0 then None else Some n, n - 1)" 3 "[3, 2, 1]" 0]
  show ?thesis by blast
qed

end
