(* ===== verification/Connections.thy ===== *)
theory Connections
  imports Tasks Tcp_Server
begin

text \<open>
  The connection handlers of the TCP servers as coroutines: the same handlers as in \<open>Tcp_Server\<close>, cut
  at the calls they suspend in, so that the handlers of several connections can interleave. The
  theorems about a single handler carry over: its steps reach their end exactly when the handler of
  \<open>Tcp_Server\<close> returns, in the same state.
\<close>

section \<open>The handlers, call by call\<close>

text \<open>
  \<open>ConnRead buf\<close> is at the read into \<open>buf\<close>, \<open>ConnWrite buf n\<close> at the write of its first \<open>n\<close> bytes
  back, \<open>ConnSend buf\<close> at the write of the source mode, \<open>ConnEnd e\<close> past the loop, where the
  connection is closed; \<open>e\<close> tells whether an exception leaves the handler.
\<close>

datatype conn_pc =
    ConnStart
  | ConnRead "byte list"
  | ConnWrite "byte list" nat
  | ConnSend "byte list"
  | ConnEnd bool
  | ConnGone bool

definition conn_loop :: "tcp_mode \<Rightarrow> conn_pc" where
  "conn_loop mode =
     (let buf = replicate BUF_SIZE 0
      in case mode of Echo \<Rightarrow> ConnRead buf | Sink \<Rightarrow> ConnRead buf | Source \<Rightarrow> ConnSend buf)"

fun photon_conn_step :: "'k stream_ops \<Rightarrow> tcp_mode \<Rightarrow> 'k \<Rightarrow> conn_pc \<Rightarrow> ('k \<times> conn_pc) option" where
  "photon_conn_step st mode k ConnStart = Some (k, conn_loop mode)"
| "photon_conn_step st mode k (ConnRead buf) =
     (case st_recv st k BUF_SIZE of (n, data, k1) \<Rightarrow>
        let buf1 = data @ drop (length data) buf
        in Some (k1, if n \<le> 0 then ConnEnd False
                     else if mode = Echo then ConnWrite buf1 (nat n) else ConnRead buf1))"
| "photon_conn_step st mode k (ConnWrite buf n) =
     (case st_write st k (take n buf) of (m, k1) \<Rightarrow>
        Some (k1, if m \<noteq> int n then ConnEnd False else ConnRead buf))"
| "photon_conn_step st mode k (ConnSend buf) =
     (case st_write st k buf of (m, k1) \<Rightarrow>
        Some (k1, if m \<noteq> int BUF_SIZE then ConnEnd False else ConnSend buf))"
| "photon_conn_step st mode k (ConnEnd e) = Some (st_delete st k, ConnGone e)"
| "photon_conn_step st mode k (ConnGone e) = None"

fun asio_conn_step :: "'k socket_ops \<Rightarrow> tcp_mode \<Rightarrow> 'k \<Rightarrow> conn_pc \<Rightarrow> ('k \<times> conn_pc) option" where
  "asio_conn_step so mode k ConnStart =
     (case so_nodelay so k of (ok, k1) \<Rightarrow> Some (k1, if ok then conn_loop mode else ConnEnd True))"
| "asio_conn_step so mode k (ConnRead buf) =
     (case so_read so k BUF_SIZE of
        (None, k1) \<Rightarrow> Some (k1, ConnEnd False)
      | (Some data, k1) \<Rightarrow>
          let n = length data; buf1 = data @ drop n buf
          in Some (k1, if mode = Echo then ConnWrite buf1 n else ConnRead buf1))"
| "asio_conn_step so mode k (ConnWrite buf n) =
     (case so_write so k (take n buf) of (done, k1) \<Rightarrow> Some (k1, if done then ConnRead buf else ConnEnd False))"
| "asio_conn_step so mode k (ConnSend buf) =
     (case so_write so k buf of (done, k1) \<Rightarrow> Some (k1, if done then ConnSend buf else ConnEnd False))"
| "asio_conn_step so mode k (ConnEnd e) = Some (so_close so k, ConnGone e)"
| "asio_conn_step so mode k (ConnGone e) = None"

type_synonym 'k conn_step = "'k \<Rightarrow> conn_pc \<Rightarrow> ('k \<times> conn_pc) option"

text \<open>\<open>n\<close> steps of one handler.\<close>

fun conn_run :: "'k conn_step \<Rightarrow> nat \<Rightarrow> 'k \<times> conn_pc \<Rightarrow> ('k \<times> conn_pc) option" where
  "conn_run cs 0 c = Some c"
| "conn_run cs (Suc n) (k, pc) = (case cs k pc of None \<Rightarrow> None | Some c \<Rightarrow> conn_run cs n c)"

lemma conn_run_snoc:
  "conn_run cs n c = Some (k, pc) \<Longrightarrow> cs k pc = Some c' \<Longrightarrow> conn_run cs (Suc n) c = Some c'"
proof (induction n arbitrary: c)
  case (Suc n)
  obtain k0 p0 where c: "c = (k0, p0)" by (cases c)
  with Suc.prems(1) obtain d where "cs k0 p0 = Some d" "conn_run cs n d = Some (k, pc)" by (auto split: option.splits)
  with Suc.IH [of d] Suc.prems(2) show ?case by (simp add: c del: conn_run.simps(2)) (simp add: c)
qed auto

lemma conn_run_add:
  "conn_run cs (m + n) c = (case conn_run cs m c of None \<Rightarrow> None | Some d \<Rightarrow> conn_run cs n d)"
proof (induction m arbitrary: c)
  case (Suc m)
  then show ?case by (cases c) (auto split: option.splits)
qed simp

section \<open>The steps compute what the handler returns\<close>

text \<open>What is left to do of the photon handler at a suspension point.\<close>

fun photon_rest :: "'k stream_ops \<Rightarrow> tcp_mode \<Rightarrow> 'k \<Rightarrow> conn_pc \<Rightarrow> 'k option" where
  "photon_rest st mode k ConnStart = photon_handler st mode k"
| "photon_rest st mode k (ConnRead buf) =
     map_option (st_delete st) (if mode = Echo then photon_echo_loop st buf k else photon_sink_loop st k)"
| "photon_rest st mode k (ConnWrite buf n) =
     map_option (st_delete st) (case st_write st k (take n buf) of (m, k1) \<Rightarrow>
       if m \<noteq> int n then Some k1
       else if mode = Echo then photon_echo_loop st buf k1 else photon_sink_loop st k1)"
| "photon_rest st mode k (ConnSend buf) = map_option (st_delete st) (photon_source_loop st buf k)"
| "photon_rest st mode k (ConnEnd e) = Some (st_delete st k)"
| "photon_rest st mode k (ConnGone e) = Some k"

lemma photon_rest_step:
  assumes "photon_conn_step st mode k pc = Some (k', pc')"
  shows "photon_rest st mode k pc = photon_rest st mode k' pc'"
proof (cases pc)
  case ConnStart
  with assms show ?thesis by (cases mode) (auto simp: photon_handler_def conn_loop_def Let_def)
next
  case (ConnRead buf)
  with assms show ?thesis
    by (auto simp: Let_def photon_echo_loop.simps [of st buf] photon_sink_loop.simps [of st k] split: prod.splits)
next
  case (ConnSend buf)
  with assms show ?thesis by (auto simp: photon_source_loop.simps [of st buf k] split: prod.splits)
qed (use assms in \<open>auto split: prod.splits\<close>)

lemma photon_rest_run:
  "conn_run (photon_conn_step st mode) n (k, pc) = Some (k', pc') \<Longrightarrow>
    photon_rest st mode k pc = photon_rest st mode k' pc'"
proof (induction n arbitrary: k pc)
  case (Suc n)
  then obtain k1 p1 where "photon_conn_step st mode k pc = Some (k1, p1)"
    "conn_run (photon_conn_step st mode) n (k1, p1) = Some (k', pc')" by (auto split: option.splits)
  with Suc.IH [of k1 p1] photon_rest_step show ?case by metis
qed simp

text \<open>And of the Asio handler.\<close>

fun asio_rest :: "'k socket_ops \<Rightarrow> tcp_mode \<Rightarrow> 'k \<Rightarrow> conn_pc \<Rightarrow> (bool \<times> 'k) option" where
  "asio_rest so mode k ConnStart = asio_handler so mode k"
| "asio_rest so mode k (ConnRead buf) =
     map_option (\<lambda>k. (False, so_close so k)) (if mode = Echo then asio_echo_loop so buf k else asio_sink_loop so k)"
| "asio_rest so mode k (ConnWrite buf n) =
     map_option (\<lambda>k. (False, so_close so k)) (case so_write so k (take n buf) of (done, k1) \<Rightarrow>
       if \<not> done then Some k1
       else if mode = Echo then asio_echo_loop so buf k1 else asio_sink_loop so k1)"
| "asio_rest so mode k (ConnSend buf) = map_option (\<lambda>k. (False, so_close so k)) (asio_source_loop so buf k)"
| "asio_rest so mode k (ConnEnd e) = Some (e, so_close so k)"
| "asio_rest so mode k (ConnGone e) = Some (e, k)"

lemma asio_rest_step:
  assumes "asio_conn_step so mode k pc = Some (k', pc')"
  shows "asio_rest so mode k pc = asio_rest so mode k' pc'"
proof (cases pc)
  case ConnStart
  with assms show ?thesis by (cases mode) (auto simp: asio_handler_def conn_loop_def Let_def split: prod.splits if_splits bool.splits)
next
  case (ConnRead buf)
  with assms show ?thesis
    by (auto simp: Let_def asio_echo_loop.simps [of so buf] asio_sink_loop.simps [of so k] split: prod.splits option.splits)
next
  case (ConnSend buf)
  with assms show ?thesis by (auto simp: asio_source_loop.simps [of so buf k] split: prod.splits)
qed (use assms in \<open>auto split: prod.splits\<close>)

lemma asio_rest_run:
  "conn_run (asio_conn_step so mode) n (k, pc) = Some (k', pc') \<Longrightarrow>
    asio_rest so mode k pc = asio_rest so mode k' pc'"
proof (induction n arbitrary: k pc)
  case (Suc n)
  then obtain k1 p1 where "asio_conn_step so mode k pc = Some (k1, p1)"
    "conn_run (asio_conn_step so mode) n (k1, p1) = Some (k', pc')" by (auto split: option.splits)
  with Suc.IH [of k1 p1] asio_rest_step show ?case by metis
qed simp

section \<open>A handler that returns gets to its end\<close>

definition reaches_end :: "'k conn_step \<Rightarrow> 'k \<Rightarrow> conn_pc \<Rightarrow> 'k \<Rightarrow> bool" where
  "reaches_end cs k pc k' \<longleftrightarrow> (\<exists>n. conn_run cs n (k, pc) = Some (k', ConnEnd False))"

lemma end_now: "reaches_end cs k (ConnEnd False) k"
  unfolding reaches_end_def by (rule exI [of _ 0]) simp

lemma end_later: "cs k pc = Some (k1, p1) \<Longrightarrow> reaches_end cs k1 p1 k' \<Longrightarrow> reaches_end cs k pc k'"
  unfolding reaches_end_def by (metis conn_run.simps(2) option.case(2))

lemma asio_echo_ends:
  assumes "asio_echo_loop so buf k = Some k'"
  shows "reaches_end (asio_conn_step so Echo) k (ConnRead buf) k'"
proof -
  have "so = so \<longrightarrow> reaches_end (asio_conn_step so Echo) k (ConnRead buf) k'"
  proof (rule asio_echo_loop.raw_induct [where
        P = "\<lambda>s b k k'. s = so \<longrightarrow> reaches_end (asio_conn_step so Echo) k (ConnRead b) k'", OF _ assms])
    fix loop and s :: "'a socket_ops" and b k k'
    assume IH: "\<And>s b k k'. loop s b k = Some k' \<Longrightarrow> s = so \<longrightarrow> reaches_end (asio_conn_step so Echo) k (ConnRead b) k'"
      and run: "(case so_read s k BUF_SIZE of (None, k1) \<Rightarrow> Some k1
        | (Some data, k1) \<Rightarrow> let n = length data; buf1 = data @ drop n b
          in (case so_write s k1 (take n buf1) of (done, k2) \<Rightarrow> if done then loop s buf1 k2 else Some k2)) = Some k'"
    show "s = so \<longrightarrow> reaches_end (asio_conn_step so Echo) k (ConnRead b) k'"
    proof
      assume s: "s = so"
      obtain r k1 where r: "so_read so k BUF_SIZE = (r, k1)" by fastforce
      show "reaches_end (asio_conn_step so Echo) k (ConnRead b) k'"
      proof (cases r)
        case None
        with run r show ?thesis by (auto simp: s intro!: end_later [of _ k] end_now)
      next
        case (Some data)
        let ?b = "data @ drop (length data) b"
        obtain ok k2 where w: "so_write so k1 (take (length data) ?b) = (ok, k2)" by fastforce
        have "reaches_end (asio_conn_step so Echo) k2 (if ok then ConnRead ?b else ConnEnd False) k'"
          using run r w Some IH [of so ?b k2 k'] by (auto simp: s Let_def intro: end_now)
        then have "reaches_end (asio_conn_step so Echo) k1 (ConnWrite ?b (length data)) k'"
          by (rule end_later [rotated]) (simp add: w del: take_append)
        then show ?thesis by (rule end_later [rotated]) (simp add: r Some Let_def)
      qed
    qed
  qed
  then show ?thesis by simp
qed

lemma asio_sink_ends:
  assumes "asio_sink_loop so k = Some k'"
  shows "reaches_end (asio_conn_step so Sink) k (ConnRead buf) k'"
proof -
  have "so = so \<longrightarrow> (\<forall>b. reaches_end (asio_conn_step so Sink) k (ConnRead b) k')"
  proof (rule asio_sink_loop.raw_induct [where
        P = "\<lambda>s k k'. s = so \<longrightarrow> (\<forall>b. reaches_end (asio_conn_step so Sink) k (ConnRead b) k')", OF _ assms])
    fix loop and s :: "'a socket_ops" and k k'
    assume IH: "\<And>s k k'. loop s k = Some k' \<Longrightarrow> s = so \<longrightarrow> (\<forall>b. reaches_end (asio_conn_step so Sink) k (ConnRead b) k')"
      and run: "(case so_read s k BUF_SIZE of (None, k1) \<Rightarrow> Some k1 | (Some data, k1) \<Rightarrow> loop s k1) = Some k'"
    show "s = so \<longrightarrow> (\<forall>b. reaches_end (asio_conn_step so Sink) k (ConnRead b) k')"
      using run IH
      by (auto simp: Let_def split: prod.splits option.splits intro: end_now intro!: end_later [of _ k])
  qed
  then show ?thesis by simp
qed

lemma asio_source_ends:
  assumes "asio_source_loop so buf k = Some k'"
  shows "reaches_end (asio_conn_step so Source) k (ConnSend buf) k'"
proof -
  have "so = so \<longrightarrow> reaches_end (asio_conn_step so Source) k (ConnSend buf) k'"
  proof (rule asio_source_loop.raw_induct [where
        P = "\<lambda>s b k k'. s = so \<longrightarrow> reaches_end (asio_conn_step so Source) k (ConnSend b) k'", OF _ assms])
    fix loop and s :: "'a socket_ops" and b k k'
    assume IH: "\<And>s b k k'. loop s b k = Some k' \<Longrightarrow> s = so \<longrightarrow> reaches_end (asio_conn_step so Source) k (ConnSend b) k'"
      and run: "(case so_write s k b of (done, k1) \<Rightarrow> if done then loop s b k1 else Some k1) = Some k'"
    show "s = so \<longrightarrow> reaches_end (asio_conn_step so Source) k (ConnSend b) k'"
      using run IH by (auto split: prod.splits if_splits intro: end_now intro!: end_later [of _ k])
  qed
  then show ?thesis by simp
qed

text \<open>The handler returns exactly when its steps reach their end, and in the same state.\<close>

lemma asio_handler_steps:
  "asio_handler so mode k = Some (e, k') \<longleftrightarrow>
    (\<exists>n. conn_run (asio_conn_step so mode) n (k, ConnStart) = Some (k', ConnGone e))"
proof
  assume "\<exists>n. conn_run (asio_conn_step so mode) n (k, ConnStart) = Some (k', ConnGone e)"
  then show "asio_handler so mode k = Some (e, k')" using asio_rest_run by fastforce
next
  assume h: "asio_handler so mode k = Some (e, k')"
  let ?cs = "asio_conn_step so mode"
  obtain ok k1 where ok: "so_nodelay so k = (ok, k1)" by fastforce
  have close: "conn_run ?cs n (k, ConnStart) = Some (k2, ConnEnd x) \<Longrightarrow>
      conn_run ?cs (Suc n) (k, ConnStart) = Some (so_close so k2, ConnGone x)" for n k2 x
    using conn_run_snoc [of ?cs n "(k, ConnStart)" k2 "ConnEnd x"] by (simp del: conn_run.simps)
  show "\<exists>n. conn_run ?cs n (k, ConnStart) = Some (k', ConnGone e)"
  proof (cases ok)
    case False
    then have "conn_run ?cs 1 (k, ConnStart) = Some (k1, ConnEnd True)" by (simp add: ok)
    from close [OF this] have "\<exists>n. conn_run ?cs n (k, ConnStart) = Some (so_close so k1, ConnGone True)" by blast
    moreover have "k' = so_close so k1" "e = True" using h ok False by (auto simp: asio_handler_def)
    ultimately show ?thesis by simp
  next
    case True
    then obtain k2 where k2: "k' = so_close so k2" "e = False"
      and "case mode of Echo \<Rightarrow> asio_echo_loop so (replicate BUF_SIZE 0) k1 = Some k2
        | Sink \<Rightarrow> asio_sink_loop so k1 = Some k2
        | Source \<Rightarrow> asio_source_loop so (replicate BUF_SIZE 0) k1 = Some k2"
      using h ok by (cases mode) (auto simp: asio_handler_def Let_def)
    then have "reaches_end ?cs k1 (conn_loop mode) k2"
      by (cases mode) (auto simp: conn_loop_def Let_def intro: asio_echo_ends asio_sink_ends asio_source_ends)
    then obtain n where "conn_run ?cs n (k1, conn_loop mode) = Some (k2, ConnEnd False)"
      by (auto simp: reaches_end_def)
    with True ok have "conn_run ?cs (Suc n) (k, ConnStart) = Some (k2, ConnEnd False)" by simp
    from close [OF this] k2 show ?thesis by blast
  qed
qed

text \<open>How many steps a handler that returns has left.\<close>

definition steps_left :: "'k conn_step \<Rightarrow> 'k \<Rightarrow> conn_pc \<Rightarrow> nat" where
  "steps_left cs k pc = (LEAST n. \<exists>k' e. conn_run cs n (k, pc) = Some (k', ConnGone e))"

lemma steps_left_step:
  assumes stop: "\<And>k e. cs k (ConnGone e) = None"
    and ends: "conn_run cs n0 (k0, ConnStart) = Some (k', ConnGone e)"
    and now: "conn_run cs n (k0, ConnStart) = Some (k, pc)" and m: "cs k pc = Some (k1, pc1)"
  shows "steps_left cs k pc = Suc (steps_left cs k1 pc1)"
proof -
  have "n < n0"
  proof (rule ccontr)
    assume "\<not> n < n0"
    then have "conn_run cs (n0 + (n - n0)) (k0, ConnStart) = Some (k, pc)" using now by simp
    then have "conn_run cs (n - n0) (k', ConnGone e) = Some (k, pc)" unfolding conn_run_add ends by simp
    with stop m show False by (cases "n - n0") auto
  qed
  then have "conn_run cs (n + (n0 - n)) (k0, ConnStart) = Some (k', ConnGone e)" using ends by simp
  then have rest: "conn_run cs (n0 - n) (k, pc) = Some (k', ConnGone e)" unfolding conn_run_add now by simp
  have "\<not> (\<exists>k' e. conn_run cs 0 (k, pc) = Some (k', ConnGone e))" using m stop by auto
  then have "steps_left cs k pc = Suc (LEAST n. \<exists>k' e. conn_run cs (Suc n) (k, pc) = Some (k', ConnGone e))"
    unfolding steps_left_def
    by (intro Least_Suc [of "\<lambda>n. \<exists>k' e. conn_run cs n (k, pc) = Some (k', ConnGone e)"]) (use rest in blast)+
  then show ?thesis using m by (simp add: steps_left_def)
qed

section \<open>Many connections at once\<close>

text \<open>The acceptor has handed out \<open>ks\<close> so far.\<close>

fun took :: "('a, 'k) accept_op \<Rightarrow> 'a \<Rightarrow> 'k list \<Rightarrow> 'a \<Rightarrow> bool" where
  "took accept a [] a' \<longleftrightarrow> a = a'"
| "took accept a (k # ks) a' \<longleftrightarrow> (case accept a of
     (Some k', a1) \<Rightarrow> k' = k \<and> took accept a1 ks a' | (None, _) \<Rightarrow> False)"

lemma took_more: "took accept a ks a' \<Longrightarrow> accept a' = (Some k, a'') \<Longrightarrow> took accept a (ks @ [k]) a''"
  by (induction ks arbitrary: a) (auto split: prod.splits option.splits)

lemma took_end: "took accept a ks a' \<Longrightarrow> accept a' = (None, a'') \<Longrightarrow> hands_out accept a ks a''"
  by (induction ks arbitrary: a) (auto split: prod.splits option.splits)

lemma took_prefix: "took accept a ks a' \<Longrightarrow> hands_out accept a all b \<Longrightarrow> prefix ks all"
proof (induction ks arbitrary: a all)
  case (Cons k ks)
  then show ?case by (cases all) (auto split: prod.splits option.splits)
qed simp

lemma took_all: "took accept a ks a' \<Longrightarrow> hands_out accept a all b \<Longrightarrow>
    (case accept a' of (None, c) \<Rightarrow> all = ks | (Some k, c) \<Rightarrow> prefix (ks @ [k]) all)"
proof (induction ks arbitrary: a all)
  case Nil
  then show ?case by (cases all) (auto split: prod.splits option.splits)
next
  case (Cons k ks)
  then show ?case by (cases all) (auto split: prod.splits option.splits)
qed

lemma hands_out_unique: "hands_out accept a ks a' \<Longrightarrow> hands_out accept a all b \<Longrightarrow> ks = all"
proof (induction ks arbitrary: a all)
  case Nil
  then show ?case by (cases all) (auto split: prod.splits option.splits)
next
  case (Cons k ks)
  then show ?case by (cases all) (auto split: prod.splits option.splits)
qed

text \<open>
  A server: one task accepts (\<open>serving\<close>) and starts a handler task for every connection; a handler
  task (\<open>conn_of\<close>, its connection and suspension point) only touches its own connection. \<open>J k0 k pc\<close>
  is what is known of a connection that was accepted as \<open>k0\<close>; the handlers keep it.
\<close>

locale conn_tasks =
  fixes J :: "'k \<Rightarrow> 'k \<Rightarrow> 'p \<Rightarrow> bool"
    and start :: 'p
    and step :: "('s, 't) task_step"
    and conns :: "'s \<Rightarrow> 'k list"
    and acc :: "'s \<Rightarrow> 'a"
    and accept :: "('a, 'k) accept_op"
    and conn_of :: "'t \<Rightarrow> (nat \<times> 'p) option"
    and serving :: "'t \<Rightarrow> nat"
  assumes J_start: "J k k start"
    and conn_keeps: "conn_of t = Some (i, pc) \<Longrightarrow> step s t = Some (s', t', new) \<Longrightarrow>
      serving t = 0 \<and> serving t' = 0 \<and> new = [] \<and> acc s' = acc s \<and>
      (\<exists>k' pc'. (\<forall>k0. J k0 (conns s ! i) pc \<longrightarrow> J k0 k' pc') \<and> conns s' = (conns s)[i := k'] \<and> conn_of t' = Some (i, pc'))"
    and other_moves: "conn_of t = None \<Longrightarrow> step s t = Some (s', t', new) \<Longrightarrow> conn_of t' = None \<and>
      (conns s' = conns s \<and> acc s' = acc s \<and> (\<forall>u \<in> set new. conn_of u = None \<and> serving u = 0) \<and> serving t' = serving t \<or>
       (\<exists>k u. serving t = 1 \<and> serving t' = 1 \<and> serving u = 0 \<and> accept (acc s) = (Some k, acc s') \<and>
          conns s' = conns s @ [k] \<and> new = [u] \<and> conn_of u = Some (length (conns s), start)) \<or>
       serving t = 1 \<and> serving t' = 0 \<and> new = [] \<and> accept (acc s) = (None, acc s') \<and> conns s' = conns s)"
begin

definition at_conn :: "nat \<Rightarrow> 't \<Rightarrow> nat" where
  "at_conn i t = (case conn_of t of Some (j, _) \<Rightarrow> if j = i then 1 else 0 | None \<Rightarrow> 0)"

definition alone :: "'k list \<Rightarrow> 's \<Rightarrow> 't \<Rightarrow> bool" where
  "alone ks s t \<longleftrightarrow> (\<forall>i pc. conn_of t = Some (i, pc) \<longrightarrow>
     i < length ks \<and> J (ks ! i) (conns s ! i) pc)"

text \<open>Every accepted connection has one handler, and what is known of it holds.\<close>

definition served :: "'a \<Rightarrow> 'k list \<Rightarrow> ('s, 't) pool \<Rightarrow> bool" where
  "served a ks c \<longleftrightarrow> (case c of (s, ts) \<Rightarrow> length (conns s) = length ks \<and> (\<forall>t \<in> set ts. alone ks s t) \<and>
     (\<forall>i < length ks. tsum (at_conn i) ts = 1) \<and>
     (tsum serving ts = 1 \<and> took accept a ks (acc s) \<or> tsum serving ts = 0 \<and> hands_out accept a ks (acc s)))"

lemma alone_None: "conn_of t = None \<Longrightarrow> alone ks s t"
  by (simp add: alone_def)

lemma alone_other:
  assumes "alone ks s u" and "conns s' = (conns s)[i := k']" and "at_conn i u = 0"
  shows "alone ks s' u"
  using assms by (auto simp: alone_def at_conn_def split: if_splits)

lemma alone_more:
  assumes "alone ks s u" and "length (conns s) = length ks" and "conns s' = conns s @ [k]"
  shows "alone (ks @ [k]) s' u"
  using assms by (fastforce simp: alone_def nth_append)

lemma served_conn_step:
  assumes inv: "served a ks (s, ts)" and j: "j < length ts" and m: "step s (ts ! j) = Some (s', t', new)"
    and conn: "conn_of (ts ! j) = Some (i, pc)"
  shows "served a ks (s', ts[j := t'] @ new)"
proof -
  from conn_keeps [OF conn m] obtain k' pc' where new: "new = []" "acc s' = acc s" "serving t' = 0" "serving (ts ! j) = 0"
    and keep: "\<And>k0. J k0 (conns s ! i) pc \<Longrightarrow> J k0 k' pc'" and s': "conns s' = (conns s)[i := k']"
    and t': "conn_of t' = Some (i, pc')" by blast
  from inv have len: "length (conns s) = length ks" and alone: "\<And>t. t \<in> set ts \<Longrightarrow> alone ks s t"
    and one: "\<And>i. i < length ks \<Longrightarrow> tsum (at_conn i) ts = 1" by (simp_all add: served_def)
  from alone [OF nth_mem [OF j]] conn have i: "i < length ks" and here: "J (ks ! i) (conns s ! i) pc"
    by (auto simp: alone_def)
  have at: "at_conn l (ts ! j) = at_conn l t'" for l using conn t' by (simp add: at_conn_def)
  have none: "tsum (at_conn i) (others j ts) = 0"
    using one [OF i] conn by (simp add: tsum_at [OF j] at_conn_def)
  have others: "alone ks s' u" if u: "u \<in> set (others j ts)" for u
  proof (rule alone_other)
    show "alone ks s u" by (rule alone [OF subsetD [OF others_subset u]])
    show "conns s' = (conns s)[i := k']" by (rule s')
    show "at_conn i u = 0" by (rule tsum_zeroD [OF none u])
  qed
  have "alone ks s' t'"
    using keep [OF here] t' s' i len by (simp add: alone_def)
  moreover have "set (ts[j := t']) = insert t' (set (others j ts))"
    using j by (auto simp: others_def upd_conv_take_nth_drop)
  ultimately have "\<forall>t \<in> set (ts[j := t'] @ new). alone ks s' t" using others new by auto
  moreover have "tsum (at_conn l) (ts[j := t'] @ new) = tsum (at_conn l) ts" for l
    using at new by (simp only: tsum_upd [OF j] tsum_at [OF j]) simp
  moreover have "tsum serving (ts[j := t'] @ new) = tsum serving ts"
    using new by (simp only: tsum_upd [OF j] tsum_at [OF j]) simp
  ultimately show ?thesis using inv new len s' by (simp add: served_def del: sum_list_eq_0_iff)
qed

lemma at_conn_other: "alone ks s t \<Longrightarrow> at_conn (length ks) t = 0"
  by (auto simp: alone_def at_conn_def split: option.splits)

lemma served_other_step:
  assumes inv: "served a ks (s, ts)" and j: "j < length ts" and m: "step s (ts ! j) = Some (s', t', new)"
    and conn: "conn_of (ts ! j) = None"
  shows "\<exists>ks'. served a ks' (s', ts[j := t'] @ new)"
proof -
  from inv have len: "length (conns s) = length ks" and alone: "\<And>t. t \<in> set ts \<Longrightarrow> alone ks s t"
    and one: "\<And>i. i < length ks \<Longrightarrow> tsum (at_conn i) ts = 1"
    and srv: "tsum serving ts = 1 \<and> took accept a ks (acc s) \<or> tsum serving ts = 0 \<and> hands_out accept a ks (acc s)"
    by (simp_all add: served_def del: sum_list_eq_0_iff)
  from other_moves [OF conn m] have t': "conn_of t' = None" by blast
  have zero: "at_conn l (ts ! j) = 0" "at_conn l t' = 0" for l using conn t' by (simp_all add: at_conn_def)
  have busy: "tsum serving ts = 1" "took accept a ks (acc s)" if "serving (ts ! j) = 1"
    using srv that tsum_member_le [OF nth_mem [OF j], of serving] by (auto simp del: sum_list_eq_0_iff)
  consider (quiet) "conns s' = conns s" "acc s' = acc s" "\<forall>u \<in> set new. conn_of u = None \<and> serving u = 0"
      "serving t' = serving (ts ! j)"
    | (new_conn) k u where "serving (ts ! j) = 1" "serving t' = 1" "serving u = 0" "accept (acc s) = (Some k, acc s')"
      "conns s' = conns s @ [k]" "new = [u]" "conn_of u = Some (length (conns s), start)"
    | (stop) "serving (ts ! j) = 1" "serving t' = 0" "new = []" "accept (acc s) = (None, acc s')" "conns s' = conns s"
    using other_moves [OF conn m] by (elim conjE disjE exE) metis+
  then show ?thesis
  proof cases
    case quiet
    have "tsum (at_conn l) new = 0" "tsum serving new = 0" for l
      using quiet(3) by (auto intro!: tsum_zeroI simp: at_conn_def simp del: sum_list_eq_0_iff)
    then have sums: "tsum (at_conn l) (ts[j := t'] @ new) = tsum (at_conn l) ts"
      "tsum serving (ts[j := t'] @ new) = tsum serving ts" for l
      unfolding tsum_upd [OF j] tsum_at [OF j] by (simp_all only: zero quiet(4) add_0_right)
    have "alone ks s' u" if "u \<in> set (ts[j := t'] @ new)" for u
      using that set_upd_subset [of ts j t' new] alone t' quiet(1,3) by (auto simp: alone_def)
    then have "served a ks (s', ts[j := t'] @ new)"
      unfolding served_def prod.case sums quiet(1,2) using len one srv by blast
    then show ?thesis ..
  next
    case new_conn
    have u: "at_conn l u = (if l = length ks then 1 else 0)" for l using new_conn(7) len by (simp add: at_conn_def)
    have "alone (ks @ [k]) s' u" using new_conn(5,7) len
      by (auto simp: alone_def nth_append J_start)
    then have "alone (ks @ [k]) s' v" if "v \<in> set (ts[j := t'] @ new)" for v
      using that set_upd_subset [of ts j t' new] alone_more [OF alone len new_conn(5)] new_conn(6)
        alone_None [OF t'] by auto
    moreover have "tsum (at_conn l) (ts[j := t'] @ new) = 1" if "l < length (ks @ [k])" for l
    proof (cases "l = length ks")
      case True
      have "tsum (at_conn l) (others j ts) = 0"
        using alone others_subset [of j ts] True by (intro tsum_zeroI) (auto intro: at_conn_other)
      with u [of l] True show ?thesis unfolding tsum_upd [OF j] by (simp add: zero new_conn(6) del: sum_list_eq_0_iff)
    next
      case False
      with that have "l < length ks" by simp
      with one [OF this, unfolded tsum_at [OF j]] u [of l] False show ?thesis
        unfolding tsum_upd [OF j] by (simp add: zero new_conn(6))
    qed
    moreover have "tsum serving (ts[j := t'] @ new) = tsum serving ts"
      unfolding tsum_upd [OF j] tsum_at [OF j] using new_conn(1,2,3,6) by simp
    moreover have "tsum serving ts = 1" "took accept a (ks @ [k]) (acc s')"
      using busy new_conn(1,4) took_more [of accept a ks "acc s"] by blast+
    ultimately have "served a (ks @ [k]) (s', ts[j := t'] @ new)"
      using len new_conn(5) by (simp add: served_def del: sum_list_eq_0_iff)
    then show ?thesis ..
  next
    case stop
    have sums: "tsum (at_conn l) (ts[j := t'] @ new) = tsum (at_conn l) ts" for l
      unfolding tsum_upd [OF j] tsum_at [OF j] by (simp add: zero stop(3))
    have "tsum serving (ts[j := t'] @ new) = 0"
      using busy(1) [OF stop(1)] stop(1,2,3) unfolding tsum_upd [OF j] tsum_at [OF j] by simp
    moreover have "hands_out accept a ks (acc s')" by (rule took_end [OF busy(2) [OF stop(1)] stop(4)])
    moreover have "alone ks s' u" if "u \<in> set (ts[j := t'] @ new)" for u
      using that set_upd_subset [of ts j t' new] alone t' stop(3,5) by (auto simp: alone_def)
    ultimately have "served a ks (s', ts[j := t'] @ new)"
      unfolding served_def prod.case sums stop(5) using len one by blast
    then show ?thesis ..
  qed
qed

lemma served_step:
  assumes "served a ks c" and "pool_step step c c'"
  shows "\<exists>ks'. served a ks' c'"
  using assms(2)
proof cases
  case (run_task j ts s s' t' new)
  with assms(1) served_conn_step [of a ks s ts j s' t' new] served_other_step [of a ks s ts j s' t' new]
  show ?thesis by (cases "conn_of (ts ! j)") auto
qed

lemma served_reach: "pool_reach step c c' \<Longrightarrow> served a [] c \<Longrightarrow> \<exists>ks. served a ks c'"
  by (induction rule: rtranclp_induct) (use served_step in blast)+

text \<open>Facts about a served pool that its users need.\<close>

lemma servedD:
  assumes "served a ks (s, ts)"
  shows "length (conns s) = length ks"
    and "t \<in> set ts \<Longrightarrow> conn_of t = Some (i, pc) \<Longrightarrow> i < length ks \<and>
      J (ks ! i) (conns s ! i) pc"
    and "i < length ks \<Longrightarrow> \<exists>t \<in> set ts. \<exists>pc. conn_of t = Some (i, pc)"
    and "t \<in> set ts \<Longrightarrow> serving t = 1 \<Longrightarrow> took accept a ks (acc s)"
    and "took accept a ks (acc s) \<or> hands_out accept a ks (acc s)"
    and "\<forall>t \<in> set ts. serving t = 0 \<Longrightarrow> hands_out accept a ks (acc s)"
proof -
  show "length (conns s) = length ks" using assms by (simp add: served_def)
  show "i < length ks \<and> J (ks ! i) (conns s ! i) pc"
    if "t \<in> set ts" "conn_of t = Some (i, pc)" using assms that by (auto simp: served_def alone_def)
  show "\<exists>t \<in> set ts. \<exists>pc. conn_of t = Some (i, pc)" if "i < length ks"
  proof -
    have "tsum (at_conn i) ts \<noteq> 0" using assms that by (simp add: served_def)
    then obtain t where "t \<in> set ts" "at_conn i t \<noteq> 0" unfolding tsum_zero_iff by blast
    moreover from this obtain pc where "conn_of t = Some (i, pc)"
      by (auto simp: at_conn_def split: option.splits if_splits)
    ultimately show ?thesis by blast
  qed
  have srv: "tsum serving ts = 1 \<and> took accept a ks (acc s) \<or> tsum serving ts = 0 \<and> hands_out accept a ks (acc s)"
    using assms by (simp add: served_def del: sum_list_eq_0_iff)
  then show "took accept a ks (acc s) \<or> hands_out accept a ks (acc s)" by blast
  show "took accept a ks (acc s)" if "t \<in> set ts" "serving t = 1"
    using srv tsum_zeroD [of serving ts t] that by auto
  show "hands_out accept a ks (acc s)" if "\<forall>t \<in> set ts. serving t = 0"
    using srv tsum_zeroI [of ts serving] that by auto
qed

lemma served_prefix:
  assumes "served a ks c" and "hands_out accept a all b"
  shows "prefix ks all"
  using servedD(5) [of a ks "fst c" "snd c"] assms took_prefix [of accept a ks _ all b]
    hands_out_unique [of accept a ks _ all b] by auto

text \<open>A step of a handler leaves the connections of the others alone.\<close>

lemma served_others:
  assumes "served a ks (s, ts)" and "j < length ts" and "conn_of (ts ! j) = Some (i, pc)"
    and "u \<in> set (others j ts)" and "conn_of u = Some (l, q)"
  shows "l \<noteq> i"
proof -
  have "i < length ks" using servedD(2) [OF assms(1) nth_mem [OF assms(2)] assms(3)] by blast
  then have "tsum (at_conn i) ts = 1" using assms(1) by (simp add: served_def)
  then have "tsum (at_conn i) (others j ts) = 0"
    using assms(3) by (simp add: tsum_at [OF assms(2)] at_conn_def)
  from tsum_zeroD [OF this assms(4)] assms(5) show ?thesis by (auto simp: at_conn_def)
qed

end

text \<open>
  A server whose handlers take the steps \<open>cs\<close>: every handler is where it would be, with its connection in
  the state it would have, after some steps on its own.
\<close>

locale conn_server =
  fixes cs :: "'k conn_step"
    and step :: "('s, 't) task_step"
    and conns :: "'s \<Rightarrow> 'k list"
    and acc :: "'s \<Rightarrow> 'a"
    and accept :: "('a, 'k) accept_op"
    and conn_of :: "'t \<Rightarrow> (nat \<times> conn_pc) option"
    and serving :: "'t \<Rightarrow> nat"
  assumes conn_moves: "conn_of t = Some (i, pc) \<Longrightarrow> step s t = Some (s', t', new) \<Longrightarrow>
      serving t = 0 \<and> serving t' = 0 \<and> new = [] \<and> acc s' = acc s \<and>
      (\<exists>k' pc'. cs (conns s ! i) pc = Some (k', pc') \<and> conns s' = (conns s)[i := k'] \<and> conn_of t' = Some (i, pc'))"
    and other_server_moves: "conn_of t = None \<Longrightarrow> step s t = Some (s', t', new) \<Longrightarrow> conn_of t' = None \<and>
      (conns s' = conns s \<and> acc s' = acc s \<and> (\<forall>u \<in> set new. conn_of u = None \<and> serving u = 0) \<and> serving t' = serving t \<or>
       (\<exists>k u. serving t = 1 \<and> serving t' = 1 \<and> serving u = 0 \<and> accept (acc s) = (Some k, acc s') \<and>
          conns s' = conns s @ [k] \<and> new = [u] \<and> conn_of u = Some (length (conns s), ConnStart)) \<or>
       serving t = 1 \<and> serving t' = 0 \<and> new = [] \<and> accept (acc s) = (None, acc s') \<and> conns s' = conns s)"

sublocale conn_server \<subseteq> conn_tasks "\<lambda>k0 k pc. \<exists>n. conn_run cs n (k0, ConnStart) = Some (k, pc)" ConnStart
    step conns acc accept conn_of serving
proof unfold_locales
  show "\<exists>n. conn_run cs n (k, ConnStart) = Some (k, ConnStart)" for k
    by (rule exI [of _ 0]) simp
  show "serving t = 0 \<and> serving t' = 0 \<and> new = [] \<and> acc s' = acc s \<and>
      (\<exists>k' pc'. (\<forall>k0. (\<exists>n. conn_run cs n (k0, ConnStart) = Some (conns s ! i, pc)) \<longrightarrow>
          (\<exists>n. conn_run cs n (k0, ConnStart) = Some (k', pc'))) \<and>
        conns s' = (conns s)[i := k'] \<and> conn_of t' = Some (i, pc'))"
    if "conn_of t = Some (i, pc)" "step s t = Some (s', t', new)" for t i pc s s' t' new
    using conn_moves [OF that] conn_run_snoc [of cs] by metis
qed (rule other_server_moves)

end
