(* ===== verification/Tcp_Program_Asio.thy ===== *)
theory Tcp_Program_Asio
  imports Connections Asio_Runtime
begin

text \<open>
  \<open>cpp/tcp_server_asio.cpp\<close> as a whole: \<open>main\<close> starts the accept coroutine and the threads that run
  the \<open>io_context\<close>; every accepted connection gets a handler coroutine. The threads are tasks of
  the pool like the coroutines: a coroutine only moves while some thread is inside \<open>ctx.run()\<close>, and
  \<open>ctx.run()\<close> returns when no coroutine is left. The theorems: every connection is served as if it
  were alone, \<open>main\<close> returns 0 only when the accept has failed and every handler is done, and it
  does when finitely many connections are handed out whose handlers return.
\<close>

section \<open>The program\<close>

text \<open>
  \<open>work\<close> counts the coroutines the context still has to run, \<open>in_run\<close> the threads inside
  \<open>ctx.run()\<close>, \<open>ended\<close> tells which of the started threads have ended. A coroutine started with
  \<open>asio::detached\<close> drops the exception it ends with.
\<close>

record ('a, 'k, 'j) tcp_state =
  acceptor :: 'a
  socks :: "'k list"
  work :: 'j
  in_run :: nat
  ended :: "bool list"

datatype tcp_task =
    Serving
  | ServerGone
  | Handling nat conn_pc
  | SpawnThreads u32
  | RunMain
  | MainRunning
  | JoinThreads nat
  | ServerExit int
  | ThreadStart nat
  | ThreadRun nat
  | ThreadEnded nat

fun is_gone :: "conn_pc \<Rightarrow> bool" where
  "is_gone (ConnGone e) = True"
| "is_gone _ = False"

fun tcp_coroutine_step ::
  "'k socket_ops \<Rightarrow> tcp_mode \<Rightarrow> ('a, 'k) accept_op \<Rightarrow> 'j join_ops \<Rightarrow> (('a, 'k, 'j) tcp_state, tcp_task) task_step"
where
  "tcp_coroutine_step so mode accept jn s Serving =
     (case accept (acceptor s) of
        (None, a) \<Rightarrow> Some (s\<lparr>acceptor := a, work := join_return jn (work s)\<rparr>, ServerGone, [])
      | (Some k, a) \<Rightarrow>
          Some (s\<lparr>acceptor := a, socks := socks s @ [k], work := join_spawn jn (work s)\<rparr>, Serving,
            [Handling (length (socks s)) ConnStart]))"
| "tcp_coroutine_step so mode accept jn s (Handling i pc) =
     (case asio_conn_step so mode (socks s ! i) pc of
        None \<Rightarrow> None
      | Some (k, pc') \<Rightarrow>
          Some (s\<lparr>socks := (socks s)[i := k], work := (if is_gone pc' then join_return jn (work s) else work s)\<rparr>,
            Handling i pc', []))"
| "tcp_coroutine_step so mode accept jn s _ = None"

fun tcp_main_step :: "'j join_ops \<Rightarrow> u32 \<Rightarrow> (('a, 'k, 'j) tcp_state, tcp_task) task_step" where
  "tcp_main_step jn threads s (SpawnThreads i) =
     Some (if i < threads
           then (s\<lparr>ended := ended s @ [False]\<rparr>, SpawnThreads (i + 1), [ThreadStart (length (ended s))])
           else (s, RunMain, []))"
| "tcp_main_step jn threads s RunMain = Some (s\<lparr>in_run := in_run s + 1\<rparr>, MainRunning, [])"
| "tcp_main_step jn threads s MainRunning =
     (case join_wait jn (work s) of
        None \<Rightarrow> None
      | Some j \<Rightarrow> Some (s\<lparr>work := j, in_run := in_run s - 1\<rparr>, JoinThreads 0, []))"
| "tcp_main_step jn threads s (JoinThreads t) =
     (if t < length (ended s) then (if ended s ! t then Some (s, JoinThreads (t + 1), []) else None)
      else Some (s, ServerExit 0, []))"
| "tcp_main_step jn threads s _ = None"

fun tcp_thread_step :: "'j join_ops \<Rightarrow> (('a, 'k, 'j) tcp_state, tcp_task) task_step" where
  "tcp_thread_step jn s (ThreadStart t) = Some (s\<lparr>in_run := in_run s + 1\<rparr>, ThreadRun t, [])"
| "tcp_thread_step jn s (ThreadRun t) =
     (case join_wait jn (work s) of
        None \<Rightarrow> None
      | Some j \<Rightarrow> Some (s\<lparr>work := j, in_run := in_run s - 1, ended := (ended s)[t := True]\<rparr>, ThreadEnded t, []))"
| "tcp_thread_step jn s _ = None"

definition tcp_step ::
  "'k socket_ops \<Rightarrow> tcp_mode \<Rightarrow> ('a, 'k) accept_op \<Rightarrow> 'j join_ops \<Rightarrow> u32 \<Rightarrow>
    (('a, 'k, 'j) tcp_state, tcp_task) task_step"
where
  "tcp_step so mode accept jn threads s t =
     (case t of
        Serving \<Rightarrow> if in_run s = 0 then None else tcp_coroutine_step so mode accept jn s t
      | Handling i pc \<Rightarrow> if in_run s = 0 then None else tcp_coroutine_step so mode accept jn s t
      | ThreadStart i \<Rightarrow> tcp_thread_step jn s t
      | ThreadRun i \<Rightarrow> tcp_thread_step jn s t
      | _ \<Rightarrow> tcp_main_step jn threads s t)"

definition tcp_start :: "'j join_ops \<Rightarrow> 'a \<Rightarrow> (('a, 'k, 'j) tcp_state, tcp_task) pool" where
  "tcp_start jn a =
     (\<lparr>acceptor = a, socks = [], work = join_spawn jn (join_new jn), in_run = 0, ended = []\<rparr>,
      [SpawnThreads 1, Serving])"

fun tcp_finished :: "tcp_task \<Rightarrow> bool" where
  "tcp_finished ServerGone = True"
| "tcp_finished (Handling i pc) = is_gone pc"
| "tcp_finished (ServerExit c) = True"
| "tcp_finished (ThreadEnded t) = True"
| "tcp_finished _ = False"

fun tcp_conn_of :: "tcp_task \<Rightarrow> (nat \<times> conn_pc) option" where
  "tcp_conn_of (Handling i pc) = Some (i, pc)"
| "tcp_conn_of _ = None"

fun tcp_serving :: "tcp_task \<Rightarrow> nat" where
  "tcp_serving Serving = 1"
| "tcp_serving _ = 0"

lemma tcp_conn_of_iff: "tcp_conn_of t = Some (i, pc) \<longleftrightarrow> t = Handling i pc"
  by (cases t) auto

interpretation tcp_conns: conn_server "asio_conn_step so mode" "tcp_step so mode accept jn threads"
    socks acceptor accept tcp_conn_of tcp_serving
proof unfold_locales
  fix t i pc s s' t' new
  assume "tcp_conn_of t = Some (i, pc)" and "tcp_step so mode accept jn threads s t = Some (s', t', new)"
  then show "tcp_serving t = 0 \<and> tcp_serving t' = 0 \<and> new = [] \<and> acceptor s' = acceptor s \<and>
      (\<exists>k' pc'. asio_conn_step so mode (socks s ! i) pc = Some (k', pc') \<and> socks s' = (socks s)[i := k'] \<and>
        tcp_conn_of t' = Some (i, pc'))"
    by (cases t) (auto simp: tcp_step_def split: if_splits option.splits)
next
  fix t s s' t' new
  assume "tcp_conn_of t = None" and "tcp_step so mode accept jn threads s t = Some (s', t', new)"
  then show "tcp_conn_of t' = None \<and>
      (socks s' = socks s \<and> acceptor s' = acceptor s \<and>
         (\<forall>u \<in> set new. tcp_conn_of u = None \<and> tcp_serving u = 0) \<and> tcp_serving t' = tcp_serving t \<or>
       (\<exists>k u. tcp_serving t = 1 \<and> tcp_serving t' = 1 \<and> tcp_serving u = 0 \<and>
          accept (acceptor s) = (Some k, acceptor s') \<and> socks s' = socks s @ [k] \<and> new = [u] \<and>
          tcp_conn_of u = Some (length (socks s), ConnStart)) \<or>
       tcp_serving t = 1 \<and> tcp_serving t' = 0 \<and> new = [] \<and> accept (acceptor s) = (None, acceptor s') \<and>
         socks s' = socks s)"
    by (cases t) (auto simp: tcp_step_def split: if_splits option.splits prod.splits)
qed

section \<open>The invariant of the threads\<close>

fun tcp_alive :: "tcp_task \<Rightarrow> nat" where
  "tcp_alive Serving = 1"
| "tcp_alive (Handling i pc) = (if is_gone pc then 0 else 1)"
| "tcp_alive _ = 0"

fun tcp_running :: "tcp_task \<Rightarrow> nat" where
  "tcp_running MainRunning = 1"
| "tcp_running (ThreadRun t) = 1"
| "tcp_running _ = 0"

text \<open>\<open>main\<close>, and \<open>main\<close> behind its own \<open>ctx.run()\<close>\<close>

fun tcp_main :: "tcp_task \<Rightarrow> nat" where
  "tcp_main (SpawnThreads i) = 1"
| "tcp_main RunMain = 1"
| "tcp_main MainRunning = 1"
| "tcp_main (JoinThreads t) = 1"
| "tcp_main (ServerExit c) = 1"
| "tcp_main _ = 0"

fun tcp_past :: "tcp_task \<Rightarrow> nat" where
  "tcp_past (JoinThreads t) = 1"
| "tcp_past (ServerExit c) = 1"
| "tcp_past _ = 0"

fun tcp_thread :: "nat \<Rightarrow> tcp_task \<Rightarrow> nat" where
  "tcp_thread i (ThreadStart t) = (if t = i then 1 else 0)"
| "tcp_thread i (ThreadRun t) = (if t = i then 1 else 0)"
| "tcp_thread i (ThreadEnded t) = (if t = i then 1 else 0)"
| "tcp_thread i _ = 0"

fun tcp_ok :: "bool list \<Rightarrow> tcp_task \<Rightarrow> bool" where
  "tcp_ok en (ThreadStart t) = (t < length en \<and> \<not> en ! t)"
| "tcp_ok en (ThreadRun t) = (t < length en \<and> \<not> en ! t)"
| "tcp_ok en (ThreadEnded t) = (t < length en \<and> en ! t)"
| "tcp_ok en (JoinThreads t) = (t \<le> length en \<and> (\<forall>l < t. en ! l))"
| "tcp_ok en (ServerExit c) = (c = 0 \<and> (\<forall>l < length en. en ! l))"
| "tcp_ok en _ = True"

lemma tcp_ok_thread: "tcp_ok en t \<Longrightarrow> tcp_thread (length en) t = 0"
  by (cases t) auto

lemma tcp_ok_spawn: "tcp_ok en t \<Longrightarrow> tcp_main t = 0 \<Longrightarrow> tcp_ok (en @ [False]) t"
  by (cases t) (auto simp: nth_append)

lemma tcp_ok_end: "tcp_ok en t \<Longrightarrow> tcp_thread i t = 0 \<Longrightarrow> i < length en \<Longrightarrow> tcp_ok (en[i := True]) t"
  by (cases t) (auto simp: nth_list_update split: if_splits)

context asio_join begin

definition tcp_inv :: "(('a, 'k, 'j) tcp_state, tcp_task) pool \<Rightarrow> bool" where
  "tcp_inv c \<longleftrightarrow> (case c of (s, ts) \<Rightarrow>
     tsum tcp_main ts = 1 \<and> running (work s) = tsum tcp_alive ts \<and> in_run s = tsum tcp_running ts \<and>
     (tsum tcp_past ts = 0 \<or> tsum tcp_alive ts = 0) \<and>
     (\<forall>i < length (ended s). tsum (tcp_thread i) ts = 1) \<and> (\<forall>t \<in> set ts. tcp_ok (ended s) t))"

text \<open>One step, with the sums over the other tasks as \<open>M\<close>, \<open>A\<close>, \<open>R\<close>, \<open>P\<close>.\<close>

lemma tcp_sums_step:
  assumes "tcp_step so mode accept jn threads s t = Some (s', t', new)" and "M + tcp_main t = 1"
    and "running (work s) = A + tcp_alive t" and "in_run s = R + tcp_running t"
    and "P + tcp_past t = 0 \<or> A + tcp_alive t = 0" and "tcp_ok (ended s) t"
  shows "M + (tcp_main t' + tsum tcp_main new) = 1 \<and> running (work s') = A + (tcp_alive t' + tsum tcp_alive new) \<and>
    in_run s' = R + (tcp_running t' + tsum tcp_running new) \<and>
    (P + (tcp_past t' + tsum tcp_past new) = 0 \<or> A + (tcp_alive t' + tsum tcp_alive new) = 0)"
proof (cases t)
  case (Handling i pc)
  then have "\<not> is_gone pc" using assms(1) by (cases pc) (auto simp: tcp_step_def split: if_splits)
  with Handling assms show ?thesis
    by (auto simp: tcp_step_def split: if_splits option.splits)
qed (use assms join_Some in \<open>auto simp: tcp_step_def split: if_splits option.splits prod.splits\<close>)

lemma tcp_threads_step:
  assumes m: "tcp_step so mode accept jn threads s (ts ! j) = Some (s', t', new)" and j: "j < length ts"
    and main: "tsum tcp_main ts = 1" and one: "\<forall>i < length (ended s). tsum (tcp_thread i) ts = 1"
    and ok: "\<forall>t \<in> set ts. tcp_ok (ended s) t"
  shows "(\<forall>i < length (ended s'). tsum (tcp_thread i) (ts[j := t'] @ new) = 1) \<and>
    (\<forall>t \<in> set (ts[j := t'] @ new). tcp_ok (ended s') t)"
proof -
  have okj: "tcp_ok (ended s) (ts ! j)" using ok j by simp
  have set: "set (ts[j := t'] @ new) = insert t' (set (others j ts) \<union> set new)"
    using j by (auto simp: others_def upd_conv_take_nth_drop)
  have oko: "tcp_ok (ended s) u" if "u \<in> set (others j ts)" for u
    using ok subsetD [OF others_subset that] by blast
  consider (spawn) i where "ts ! j = SpawnThreads i" "i < threads"
    | (finish) i where "ts ! j = ThreadRun i"
    | (quiet) "\<not> (\<exists>i. ts ! j = SpawnThreads i \<and> i < threads)" "\<not> (\<exists>i. ts ! j = ThreadRun i)" by blast
  then show ?thesis
  proof cases
    case spawn
    with m have e: "ended s' = ended s @ [False]" "t' = SpawnThreads (i + 1)" "new = [ThreadStart (length (ended s))]"
      by (auto simp: tcp_step_def)
    have "tsum tcp_main (others j ts) = 0" using main spawn by (simp add: tsum_at [OF j])
    then have "tcp_ok (ended s') u" if "u \<in> set (others j ts)" for u
      using oko [OF that] that tsum_zeroD [of tcp_main "others j ts" u] tcp_ok_spawn e(1) by simp
    moreover have "tsum (tcp_thread (length (ended s))) (others j ts) = 0"
      using oko by (intro tsum_zeroI tcp_ok_thread)
    ultimately show ?thesis
      unfolding set tsum_upd [OF j] using one spawn
      by (auto simp: tsum_at [OF j] e nth_append less_Suc_eq simp del: sum_list_eq_0_iff)
  next
    case finish
    with m okj have e: "ended s' = (ended s)[i := True]" "t' = ThreadEnded i" "new = []" and i: "i < length (ended s)"
      by (auto simp: tcp_step_def split: option.splits)
    have "tsum (tcp_thread i) (others j ts) = 0"
      using one [rule_format, OF i, unfolded tsum_at [OF j] finish] by (simp del: sum_list_eq_0_iff)
    then have "tcp_ok (ended s') u" if "u \<in> set (others j ts)" for u
      using oko [OF that] that tsum_zeroD [of "tcp_thread i" "others j ts" u] tcp_ok_end i e(1) by simp
    then show ?thesis
      unfolding set tsum_upd [OF j] using one i finish
      by (auto simp: tsum_at [OF j] e simp del: sum_list_eq_0_iff)
  next
    case quiet
    with m okj have e: "ended s' = ended s" "tcp_ok (ended s) t'" "\<forall>u \<in> set new. tcp_ok (ended s) u"
      "\<And>i. tcp_thread i t' = tcp_thread i (ts ! j)" "\<And>i. tsum (tcp_thread i) new = 0"
      by (cases "ts ! j"; auto simp: tcp_step_def less_Suc_eq split: if_splits option.splits prod.splits)+
    then show ?thesis unfolding set tsum_upd [OF j] using one oko
      by (auto simp: tsum_at [OF j] simp del: sum_list_eq_0_iff)
  qed
qed

lemma tcp_inv_step:
  assumes "tcp_inv c" and "pool_step (tcp_step so mode accept jn threads) c c'"
  shows "tcp_inv c'"
  using assms(2)
proof cases
  case (run_task j ts s s' t' new)
  note j = run_task(3)
  have inv: "tsum tcp_main ts = 1" "running (work s) = tsum tcp_alive ts" "in_run s = tsum tcp_running ts"
    "tsum tcp_past ts = 0 \<or> tsum tcp_alive ts = 0"
    "\<forall>i < length (ended s). tsum (tcp_thread i) ts = 1" "\<forall>t \<in> set ts. tcp_ok (ended s) t"
    using assms(1) unfolding run_task tcp_inv_def by (simp_all del: sum_list_eq_0_iff)
  have "tcp_ok (ended s) (ts ! j)" using inv(6) j by simp
  from tcp_sums_step [OF run_task(4) inv(1-4) [unfolded tsum_at [OF j]] this]
    tcp_threads_step [OF run_task(4) j inv(1,5,6)]
  show ?thesis unfolding run_task tcp_inv_def prod.case tsum_upd [OF j] add.assoc by (elim conjE, intro conjI) assumption+
qed

lemma tcp_inv_start: "tcp_inv (tcp_start jn a)"
  by (simp add: tcp_inv_def tcp_start_def)

lemma tcp_finished_stops: "tcp_finished t \<Longrightarrow> tcp_step so mode accept jn threads s t = None"
proof (cases t)
  case (Handling i pc)
  then show "tcp_finished t \<Longrightarrow> ?thesis" by (cases pc) (simp_all add: tcp_step_def)
qed (simp_all add: tcp_step_def)

lemma tcp_alive_01: "tcp_alive t = 0 \<or> tcp_alive t = 1"
  by (cases t) auto

lemma tcp_alive_moves:
  assumes "0 < in_run s" and "tcp_alive t = 1"
  shows "tcp_step so mode accept jn threads s t \<noteq> None"
proof (cases t)
  case Serving
  with assms show ?thesis by (auto simp: tcp_step_def split: prod.splits option.splits)
next
  case (Handling i pc)
  have "asio_conn_step so mode (socks s ! i) pc \<noteq> None" using assms(2) Handling
    by (cases pc) (auto simp: Let_def split: prod.splits option.splits)
  with assms Handling show ?thesis by (auto simp: tcp_step_def)
qed (use assms in simp_all)

text \<open>When \<open>main\<close> has returned, everything is over.\<close>

lemma tcp_exit_done:
  assumes inv: "tcp_inv (s, ts)" and exit: "ServerExit c \<in> set ts" and t: "t \<in> set ts"
  shows "c = 0 \<and> tcp_finished t"
proof -
  have ok: "\<And>u. u \<in> set ts \<Longrightarrow> tcp_ok (ended s) u" and main: "tsum tcp_main ts = 1"
    and past: "tsum tcp_past ts = 0 \<or> tsum tcp_alive ts = 0" using inv by (simp_all add: tcp_inv_def del: sum_list_eq_0_iff)
  have "tsum tcp_past ts \<noteq> 0" using tsum_zeroD [OF _ exit, of tcp_past] by (metis tcp_past.simps(2) zero_neq_one)
  with past have "tcp_alive t = 0" using tsum_zeroD t by metis
  moreover have "tcp_main t = 0 \<or> t = ServerExit c"
  proof (rule ccontr)
    assume neg: "\<not> (tcp_main t = 0 \<or> t = ServerExit c)"
    obtain i j where "i < length ts" "ts ! i = t" "j < length ts" "ts ! j = ServerExit c"
      using t exit by (meson in_set_conv_nth)
    with neg tsum_two_members [of i ts j tcp_main] main show False by (cases "i = j") auto
  qed
  ultimately show ?thesis using ok [OF t] ok [OF exit] by (cases t) (auto split: if_splits)
qed

lemma tcp_stuck_done:
  assumes inv: "tcp_inv (s, ts)" and stuck: "pool_stuck (tcp_step so mode accept jn threads) (s, ts)"
  shows "(\<forall>t \<in> set ts. tcp_finished t) \<and> ServerExit 0 \<in> set ts"
proof -
  have none: "tcp_step so mode accept jn threads s u = None" if "u \<in> set ts" for u
    using stuck that by (simp add: pool_stuck_def)
  have ok: "\<And>u. u \<in> set ts \<Longrightarrow> tcp_ok (ended s) u" and main: "tsum tcp_main ts = 1"
    and past: "tsum tcp_past ts = 0 \<or> tsum tcp_alive ts = 0"
    and work: "running (work s) = tsum tcp_alive ts" and run: "in_run s = tsum tcp_running ts"
    and one: "\<forall>i < length (ended s). tsum (tcp_thread i) ts = 1"
    using inv by (simp_all add: tcp_inv_def del: sum_list_eq_0_iff)
  obtain m where m: "m \<in> set ts" "tcp_main m \<noteq> 0" using main tsum_zeroI [of ts tcp_main] by fastforce
  have quiet: "tsum tcp_alive ts = 0"
  proof (cases "tcp_past m = 0")
    case True
    with m(2) none [OF m(1)] have "m = MainRunning" by (cases m) (auto simp: tcp_step_def)
    then have "0 < in_run s" using tsum_member_le [OF m(1), of tcp_running] run by simp
    then have "tcp_alive u \<noteq> 1" if "u \<in> set ts" for u using tcp_alive_moves none [OF that] by blast
    then have "tcp_alive u = 0" if "u \<in> set ts" for u using that tcp_alive_01 by blast
    then show ?thesis by (rule tsum_zeroI)
  next
    case False
    with past tsum_member_le [OF m(1), of tcp_past] show ?thesis by linarith
  qed
  then have "join_wait jn (work s) \<noteq> None" by (simp add: work join_None_iff del: sum_list_eq_0_iff)
  then have thr: "tcp_thread i u = 0 \<or> u = ThreadEnded i" if "u \<in> set ts" for u i
    using none [OF that] by (cases u) (auto simp: tcp_step_def split: if_splits)
  have "ended s ! i" if "i < length (ended s)" for i
  proof -
    from one that have "tsum (tcp_thread i) ts \<noteq> 0" by simp
    then obtain u where "u \<in> set ts" "tcp_thread i u \<noteq> 0" unfolding tsum_zero_iff by blast
    with thr [of u i] ok [of u] show ?thesis by auto
  qed
  with none [OF m(1)] m(2) \<open>join_wait jn (work s) \<noteq> None\<close> obtain c where "m = ServerExit c"
    by (cases m) (auto simp: tcp_step_def split: if_splits)
  with tcp_exit_done [OF inv, of c] m(1) show ?thesis by metis
qed

end

text \<open>The connections: what each handler has done, and what it has done when it is over.\<close>

lemma tcp_served_start: "tcp_conns.served so mode accept a [] (tcp_start jn a)"
  by (simp add: tcp_conns.served_def tcp_conns.alone_def tcp_start_def)

lemma tcp_served:
  assumes "pool_reach (tcp_step so mode accept jn threads) (tcp_start jn a) (s, ts)"
  shows "\<exists>ks. tcp_conns.served so mode accept a ks (s, ts)"
  by (rule tcp_conns.served_reach [OF assms tcp_served_start])

lemma tcp_handled:
  assumes "tcp_conns.served so mode accept a ks (s, ts)" and "Handling i pc \<in> set ts"
  shows "i < length ks" and "\<exists>n. conn_run (asio_conn_step so mode) n (ks ! i, ConnStart) = Some (socks s ! i, pc)"
    and "pc = ConnGone e \<Longrightarrow> asio_handler so mode (ks ! i) = Some (e, socks s ! i)"
  using tcp_conns.servedD(2) [OF assms, of i pc] by (auto simp: asio_handler_steps)

lemma tcp_all_handled:
  assumes ks: "tcp_conns.served so mode accept a ks (s, ts)" and fin: "\<forall>t \<in> set ts. tcp_finished t"
  shows "hands_out accept a ks (acceptor s)"
    and "list_all2 (\<lambda>k k'. \<exists>e. asio_handler so mode k = Some (e, k')) ks (socks s)"
proof -
  have "tcp_serving t = 0" if "tcp_finished t" for t using that by (cases t) auto
  with fin tcp_conns.servedD(6) [OF ks] show "hands_out accept a ks (acceptor s)" by blast
  show "list_all2 (\<lambda>k k'. \<exists>e. asio_handler so mode k = Some (e, k')) ks (socks s)"
  proof (rule list_all2_all_nthI)
    show "length ks = length (socks s)" using tcp_conns.servedD(1) [OF ks] by simp
    fix i assume "i < length ks"
    from tcp_conns.servedD(3) [OF ks this] obtain pc where pc: "Handling i pc \<in> set ts"
      by (auto simp: tcp_conn_of_iff)
    with fin have "is_gone pc" by fastforce
    then obtain e where "pc = ConnGone e" by (cases pc) auto
    with tcp_handled(3) [OF ks pc] show "\<exists>e. asio_handler so mode (ks ! i) = Some (e, socks s ! i)" by blast
  qed
qed

section \<open>Finitely many connections\<close>

text \<open>What is left to do: steps of handlers, accepts, and steps of \<open>main\<close> and the threads.\<close>

fun tcp_cost :: "'k conn_step \<Rightarrow> u32 \<Rightarrow> 'k list \<Rightarrow> nat \<Rightarrow> tcp_task \<Rightarrow> nat" where
  "tcp_cost cs n ks m Serving = 1"
| "tcp_cost cs n ks m (Handling i pc) = steps_left cs (ks ! i) pc"
| "tcp_cost cs n ks m (SpawnThreads i) = 5 * (unat n - unat i) + m + 5"
| "tcp_cost cs n ks m RunMain = m + 4"
| "tcp_cost cs n ks m MainRunning = m + 3"
| "tcp_cost cs n ks m (JoinThreads t) = m - t + 1"
| "tcp_cost cs n ks m (ThreadStart t) = 2"
| "tcp_cost cs n ks m (ThreadRun t) = 1"
| "tcp_cost cs n ks m _ = 0"

definition coming_cost :: "'k conn_step \<Rightarrow> 'k list \<Rightarrow> nat" where
  "coming_cost cs ks = sum_list (map (\<lambda>k. steps_left cs k ConnStart + 1) ks)"

locale tcp_finite = asio_join jn running
  for jn :: "'j join_ops" and running :: "'j \<Rightarrow> nat" +
  fixes so :: "'k socket_ops" and mode :: tcp_mode and accept :: "('a, 'k) accept_op" and threads :: u32
    and a b :: 'a and all :: "'k list"
  assumes hands: "hands_out accept a all b" and returns: "k \<in> set all \<Longrightarrow> asio_handler so mode k \<noteq> None"
begin

abbreviation (input) "cs \<equiv> asio_conn_step so mode"

abbreviation (input) "cost s \<equiv> tcp_cost cs threads (socks s) (length (ended s))"

definition tcp_fin :: "(('a, 'k, 'j) tcp_state, tcp_task) pool \<Rightarrow> bool" where
  "tcp_fin c \<longleftrightarrow> tcp_inv c \<and> (\<exists>ks. tcp_conns.served so mode accept a ks c)"

lemma tcp_fin_start: "tcp_fin (tcp_start jn a)"
  unfolding tcp_fin_def by (intro conjI exI [of _ "[]"] tcp_inv_start tcp_served_start)

definition tcp_weight :: "(('a, 'k, 'j) tcp_state, tcp_task) pool \<Rightarrow> nat" where
  "tcp_weight c = (case c of (s, ts) \<Rightarrow> tsum (cost s) ts + coming_cost cs (drop (length (socks s)) all))"

lemma tcp_weight_step:
  assumes j: "j < length ts" and others: "\<And>u. u \<in> set (others j ts) \<Longrightarrow> cost s' u = cost s u"
    and less: "cost s' t' + tsum (cost s') new + coming_cost cs (drop (length (socks s')) all) <
      cost s (ts ! j) + coming_cost cs (drop (length (socks s)) all)"
  shows "tcp_weight (s', ts[j := t'] @ new) < tcp_weight (s, ts)"
proof -
  have "map (cost s') (others j ts) = map (cost s) (others j ts)" using others by simp
  then have "tsum (cost s') (others j ts) = tsum (cost s) (others j ts)" by (rule arg_cong)
  with less show ?thesis unfolding tcp_weight_def prod.case tsum_upd [OF j] tsum_at [OF j] by linarith
qed

lemma tcp_conn_less:
  assumes served: "tcp_conns.served so mode accept a ks (s, ts)" and j: "j < length ts"
    and m: "tcp_step so mode accept jn threads s (ts ! j) = Some (s', t', new)" and h: "ts ! j = Handling i pc"
  shows "tcp_weight (s', ts[j := t'] @ new) < tcp_weight (s, ts)"
proof -
  note hd = tcp_handled [OF served nth_mem [OF j, unfolded h]]
  have len: "length (socks s) = length ks" by (rule tcp_conns.servedD(1) [OF served])
  from m h obtain k pc' where k: "cs (socks s ! i) pc = Some (k, pc')" "t' = Handling i pc'" "new = []"
    "socks s' = (socks s)[i := k]" "ended s' = ended s"
    by (auto simp: tcp_step_def split: if_splits option.splits)
  from tcp_conns.served_prefix [OF served hands] hd(1) have "ks ! i \<in> set all"
    by (auto elim!: prefixE)
  from returns [OF this] obtain e k' n0 where "conn_run cs n0 (ks ! i, ConnStart) = Some (k', ConnGone e)"
    using asio_handler_steps [of so mode "ks ! i"] by fastforce
  moreover from hd(2) obtain n where "conn_run cs n (ks ! i, ConnStart) = Some (socks s ! i, pc)" ..
  ultimately have "steps_left cs (socks s ! i) pc = Suc (steps_left cs k pc')"
    using k(1) by (rule steps_left_step [rotated]) simp
  moreover have "cost s' u = cost s u" if "u \<in> set (others j ts)" for u
  proof (cases u)
    case (Handling l q)
    with tcp_conns.served_others [OF served j, of i pc u l q] that h have "l \<noteq> i" by simp
    with Handling k(4) show ?thesis by simp
  qed (simp_all add: k(5))
  ultimately show ?thesis using k hd(1) len h by (intro tcp_weight_step [OF j]) simp_all
qed

lemma tcp_accept_less:
  assumes inv: "tcp_inv (s, ts)" and served: "tcp_conns.served so mode accept a ks (s, ts)" and j: "j < length ts"
    and m: "tcp_step so mode accept jn threads s (ts ! j) = Some (s', t', new)" and h: "ts ! j = Serving"
  shows "tcp_weight (s', ts[j := t'] @ new) < tcp_weight (s, ts)"
proof -
  have len: "length (socks s) = length ks" by (rule tcp_conns.servedD(1) [OF served])
  have took: "took accept a ks (acceptor s)"
    using tcp_conns.servedD(4) [OF served nth_mem [OF j]] h by simp
  obtain r a' where r: "accept (acceptor s) = (r, a')" by fastforce
  show ?thesis
  proof (cases r)
    case None
    with m h r have e: "t' = ServerGone" "new = []" "socks s' = socks s" "ended s' = ended s"
      by (auto simp: tcp_step_def split: if_splits)
    then show ?thesis by (intro tcp_weight_step [OF j]) (simp_all add: h)
  next
    case (Some k)
    with m h r have e: "t' = Serving" "new = [Handling (length (socks s)) ConnStart]" "socks s' = socks s @ [k]"
      "ended s' = ended s" by (auto simp: tcp_step_def split: if_splits)
    from took_all [OF took hands] r Some obtain rest where all: "all = ks @ k # rest" by (auto elim!: prefixE)
    have "cost s' u = cost s u" if u: "u \<in> set (others j ts)" for u
    proof (cases u)
      case (Handling l q)
      with tcp_handled(1) [OF served, of l q] subsetD [OF others_subset u] len have "l < length (socks s)" by simp
      with Handling e(3,4) show ?thesis by (simp add: nth_append)
    qed (simp_all add: e(4))
    moreover have "(socks s @ [k]) ! length ks = k" using len by (metis nth_append_length)
    ultimately show ?thesis
      using e len all by (intro tcp_weight_step [OF j]) (simp_all add: h coming_cost_def)
  qed
qed

lemma tcp_thread_less:
  assumes inv: "tcp_inv (s, ts)" and j: "j < length ts"
    and m: "tcp_step so mode accept jn threads s (ts ! j) = Some (s', t', new)"
    and h: "tcp_conn_of (ts ! j) = None" "tcp_serving (ts ! j) = 0"
  shows "tcp_weight (s', ts[j := t'] @ new) < tcp_weight (s, ts)"
proof -
  have main: "tsum tcp_main ts = 1" and ok: "tcp_ok (ended s) (ts ! j)"
    using inv j by (simp_all add: tcp_inv_def)
  have socks: "socks s' = socks s" using m h
    by (cases "ts ! j") (auto simp: tcp_step_def split: if_splits option.splits)
  have "cost s' u = cost s u" if u: "u \<in> set (others j ts)" for u
  proof (cases "tcp_main (ts ! j) = 0")
    case True
    then have "length (ended s') = length (ended s)" using m h
      by (cases "ts ! j") (auto simp: tcp_step_def split: if_splits option.splits)
    then show ?thesis by (simp add: socks)
  next
    case False
    with main [unfolded tsum_at [OF j]] have "tsum tcp_main (others j ts) = 0" by linarith
    from tsum_zeroD [OF this u] show ?thesis by (cases u) (simp_all add: socks)
  qed
  moreover have "cost s' t' + tsum (cost s') new < cost s (ts ! j)"
  proof (cases "ts ! j")
    case (SpawnThreads i)
    show ?thesis
    proof (cases "i < threads")
      case True
      then have "unat threads - unat i = Suc (unat threads - Suc (unat i))" by (simp add: word_less_nat_alt)
      with True SpawnThreads m unat_inc [OF True] show ?thesis by (auto simp: tcp_step_def)
    next
      case False
      with SpawnThreads m show ?thesis by (auto simp: tcp_step_def)
    qed
  qed (use m h ok in \<open>auto simp: tcp_step_def split: if_splits option.splits\<close>)
  ultimately show ?thesis by (intro tcp_weight_step [OF j]) (simp_all add: socks)
qed

end

sublocale tcp_finite \<subseteq> tcp: task_live "tcp_step so mode accept jn threads" tcp_fin tcp_weight tcp_finished
proof unfold_locales
  fix c c'
  assume inv: "tcp_fin c" and move: "pool_step (tcp_step so mode accept jn threads) c c'"
  then show "tcp_fin c'"
    using tcp_inv_step [of c so mode accept threads c'] tcp_conns.served_step [of so mode accept a _ c jn threads c']
    by (auto simp: tcp_fin_def)
  from move show "tcp_weight c' < tcp_weight c"
  proof cases
    case (run_task j ts s s' t' new)
    from inv obtain ks where i: "tcp_inv (s, ts)" "tcp_conns.served so mode accept a ks (s, ts)"
      by (auto simp: tcp_fin_def run_task)
    consider (conn) i pc where "ts ! j = Handling i pc" | (serve) "ts ! j = Serving"
      | (thread) "tcp_conn_of (ts ! j) = None" "tcp_serving (ts ! j) = 0" by (cases "ts ! j") auto
    then show ?thesis
    proof cases
      case conn
      with tcp_conn_less [OF i(2) run_task(3,4)] show ?thesis by (simp add: run_task)
    next
      case serve
      with tcp_accept_less [OF i run_task(3,4)] show ?thesis by (simp add: run_task)
    next
      case thread
      with tcp_thread_less [OF i(1) run_task(3,4)] show ?thesis by (simp add: run_task)
    qed
  qed
next
  show "tcp_step so mode accept jn threads s t = None" if "tcp_finished t" for s t
    using that by (rule tcp_finished_stops)
  show "tcp_finished t" if "tcp_fin c" "pool_stuck (tcp_step so mode accept jn threads) c" "t \<in> set (snd c)" for c t
    using tcp_stuck_done [of "fst c" "snd c" so mode accept threads] that by (simp add: tcp_fin_def)
qed

context tcp_finite begin

lemma tcp_bounded:
  "pool_run (tcp_step so mode accept jn threads) sched (tcp_start jn a) = Some c \<Longrightarrow>
    length sched \<le> tcp_weight (tcp_start jn a)"
  using tcp.run_length [OF tcp_fin_start, of sched c] by simp

lemma tcp_ends:
  assumes "pool_reach (tcp_step so mode accept jn threads) (tcp_start jn a) c"
  shows "\<exists>s ts. pool_reach (tcp_step so mode accept jn threads) c (s, ts) \<and> ServerExit 0 \<in> set ts \<and>
    list_all2 (\<lambda>k k'. \<exists>e. asio_handler so mode k = Some (e, k')) all (socks s)"
proof -
  from tcp.can_finish [OF tcp_fin_start assms] obtain s ts where d: "pool_reach (tcp_step so mode accept jn threads) c (s, ts)"
    and fin: "\<forall>t \<in> set ts. tcp_finished t" by auto
  have "tcp_fin (s, ts)" by (rule tcp.inv_reach [OF tcp_fin_start rtranclp_trans [OF assms d]])
  then obtain ks where inv: "tcp_inv (s, ts)" and ks: "tcp_conns.served so mode accept a ks (s, ts)"
    by (auto simp: tcp_fin_def)
  have "pool_stuck (tcp_step so mode accept jn threads) (s, ts)"
    using fin by (simp add: pool_stuck_def tcp_finished_stops)
  from tcp_stuck_done [OF inv this] have "ServerExit 0 \<in> set ts" ..
  moreover have "ks = all" by (rule hands_out_unique [OF tcp_all_handled(1) [OF ks fin] hands])
  ultimately show ?thesis using tcp_all_handled(2) [OF ks fin] d by blast
qed

end

section \<open>Properties\<close>

text \<open>
  C9. Connections are isolated in the Asio server. In every reachable state of the program, the
  acceptor has handed out some connections, each has exactly its handler, and whatever the other
  handlers and threads did, that handler is where it would be, and its connection in the state it
  would be in, after some steps on its own; a handler that is over has done to its connection
  exactly what \<open>asio_handler\<close> does.
\<close>

theorem asio_tcp_isolated:
  assumes "pool_reach (tcp_step so mode accept jn threads) (tcp_start jn a) (s, ts)"
  shows "\<exists>ks. (took accept a ks (acceptor s) \<or> hands_out accept a ks (acceptor s)) \<and>
    length (socks s) = length ks \<and>
    (\<forall>i < length ks. \<exists>pc. Handling i pc \<in> set ts \<and>
      (\<exists>n. conn_run (asio_conn_step so mode) n (ks ! i, ConnStart) = Some (socks s ! i, pc)) \<and>
      (\<forall>e. pc = ConnGone e \<longrightarrow> asio_handler so mode (ks ! i) = Some (e, socks s ! i)))"
proof -
  from tcp_served [OF assms] obtain ks where ks: "tcp_conns.served so mode accept a ks (s, ts)" ..
  have "\<exists>pc. Handling i pc \<in> set ts" if i: "i < length ks" for i
    using tcp_conns.servedD(3) [OF ks i] by (auto simp: tcp_conn_of_iff)
  then have "\<exists>pc. Handling i pc \<in> set ts \<and>
      (\<exists>n. conn_run (asio_conn_step so mode) n (ks ! i, ConnStart) = Some (socks s ! i, pc)) \<and>
      (\<forall>e. pc = ConnGone e \<longrightarrow> asio_handler so mode (ks ! i) = Some (e, socks s ! i))" if "i < length ks" for i
    using that tcp_handled(2,3) [OF ks, of i] by metis
  with tcp_conns.servedD(1,5) [OF ks] show ?thesis by blast
qed

text \<open>Two clients; one is served while the other has not been read from yet.\<close>

definition demo_accept :: "(conn list, conn) accept_op" where
  "demo_accept ks = (case ks of [] \<Rightarrow> (None, []) | k # ks' \<Rightarrow> (Some k, ks'))"

lemma demo_run:
  "\<exists>s ts. pool_run (tcp_step (socket_of list_stream) Sink demo_accept nat_join 1) [0, 0, 1, 1, 2, 2, 2, 2]
      (tcp_start nat_join [demo_conn, demo_conn]) = Some (s, ts) \<and>
    ts = [MainRunning, Serving, Handling 0 (ConnGone False), Handling 1 ConnStart] \<and> length (socks s) = 2 \<and>
    acceptor s = []"
proof -
  have b: "BUF_SIZE = Suc (Suc (Suc 65533))" by (simp add: BUF_SIZE_def)
  show ?thesis
    by (simp add: tcp_start_def tcp_step_def demo_accept_def nat_join_def socket_of_def list_stream_def
        conn_loop_def Let_def demo_conn_def b del: replicate.simps)
qed

theorem asio_tcp_isolated_witness:
  "\<exists>s ts. pool_reach (tcp_step (socket_of list_stream) Sink demo_accept nat_join 1)
      (tcp_start nat_join [demo_conn, demo_conn]) (s, ts) \<and> Handling 1 ConnStart \<in> set ts \<and>
    asio_handler (socket_of list_stream) Sink demo_conn = Some (False, socks s ! 0)"
proof -
  obtain s ts where run: "pool_run (tcp_step (socket_of list_stream) Sink demo_accept nat_join 1) [0, 0, 1, 1, 2, 2, 2, 2]
      (tcp_start nat_join [demo_conn, demo_conn]) = Some (s, ts)"
    and ts: "ts = [MainRunning, Serving, Handling 0 (ConnGone False), Handling 1 ConnStart]"
    and s: "length (socks s) = 2" "acceptor s = []"
    using demo_run by blast
  note reach = pool_run_reach [OF run]
  from asio_tcp_isolated [OF reach] s obtain ks where
    ks: "took demo_accept [demo_conn, demo_conn] ks [] \<or> hands_out demo_accept [demo_conn, demo_conn] ks []"
    "length ks = 2" and h: "\<exists>pc. Handling 0 pc \<in> set ts \<and>
      (\<forall>e. pc = ConnGone e \<longrightarrow> asio_handler (socket_of list_stream) Sink (ks ! 0) = Some (e, socks s ! 0))"
    by fastforce
  from ks have "ks ! 0 = demo_conn" by (cases ks) (auto simp: demo_accept_def)
  with h ts have "asio_handler (socket_of list_stream) Sink demo_conn = Some (False, socks s ! 0)" by auto
  with reach ts show ?thesis by (intro exI [of _ s] exI [of _ ts]) simp
qed

text \<open>
  C27. How the Asio server ends. \<open>main\<close> only returns with 0, and only when all threads and coroutines
  are over: the accept has failed and every connection handed out before has been handled to the end
  by \<open>asio_handler\<close>. No reachable state is stuck before that.
\<close>

theorem asio_tcp_exit:
  assumes "asio_join jn running"
    and "pool_reach (tcp_step so mode accept jn threads) (tcp_start jn a) (s, ts)"
  shows "(\<forall>c. ServerExit c \<in> set ts \<longrightarrow> c = 0 \<and> (\<forall>t \<in> set ts. tcp_finished t) \<and>
      (\<exists>ks. hands_out accept a ks (acceptor s) \<and>
        list_all2 (\<lambda>k k'. \<exists>e. asio_handler so mode k = Some (e, k')) ks (socks s))) \<and>
    (pool_stuck (tcp_step so mode accept jn threads) (s, ts) \<longrightarrow> ServerExit 0 \<in> set ts)"
proof -
  have inv: "asio_join.tcp_inv running (s, ts)"
    using assms(2) asio_join.tcp_inv_start [OF assms(1), of a]
    by (induction rule: rtranclp_induct) (auto intro: asio_join.tcp_inv_step [OF assms(1)])
  from tcp_served [OF assms(2)] obtain ks where "tcp_conns.served so mode accept a ks (s, ts)" ..
  from tcp_all_handled [OF this] asio_join.tcp_exit_done [OF assms(1) inv] asio_join.tcp_stuck_done [OF assms(1) inv]
  show ?thesis by blast
qed

lemma demo_handler_returns: "asio_handler (socket_of list_stream) mode k \<noteq> None"
  using list_conn.handler_returns [of mode k] by (auto simp: list_conn.handlers_agree)

interpretation demo_tcp: tcp_finite nat_join "\<lambda>j. j" "socket_of list_stream" Echo demo_accept 4
    "[demo_conn, demo_conn]" "[]" "[demo_conn, demo_conn]"
  by unfold_locales (simp_all add: demo_accept_def demo_handler_returns)

theorem asio_tcp_exit_witness:
  "\<exists>s ts. pool_reach (tcp_step (socket_of list_stream) Echo demo_accept nat_join 4)
      (tcp_start nat_join [demo_conn, demo_conn]) (s, ts) \<and> ServerExit 0 \<in> set ts \<and>
    (\<exists>ks. hands_out demo_accept [demo_conn, demo_conn] ks (acceptor s))"
proof -
  obtain s ts where run: "pool_reach (tcp_step (socket_of list_stream) Echo demo_accept nat_join 4)
      (tcp_start nat_join [demo_conn, demo_conn]) (s, ts)"
    and stuck: "pool_stuck (tcp_step (socket_of list_stream) Echo demo_accept nat_join 4) (s, ts)"
    using demo_tcp.tcp.reaches_stuck [OF demo_tcp.tcp_fin_start] by force
  from asio_tcp_exit [OF natjn.asio_join_axioms run] run stuck show ?thesis by blast
qed

text \<open>
  C10. Liveness of the Asio server. When the acceptor hands out finitely many connections, before it
  fails, and the handler of each would return, then all runs of the program, with any number of
  threads, are bounded, and from every reachable state a run leads to the end, where \<open>main\<close> has
  returned 0 and every one of these connections has been handled by \<open>asio_handler\<close>.
\<close>

theorem asio_tcp_ends:
  assumes "asio_join jn running" and "hands_out accept a ks b"
    and "\<forall>k \<in> set ks. asio_handler so mode k \<noteq> None"
  shows "(\<exists>B. \<forall>sched c. pool_run (tcp_step so mode accept jn threads) sched (tcp_start jn a) = Some c \<longrightarrow>
      length sched \<le> B) \<and>
    (\<forall>c. pool_reach (tcp_step so mode accept jn threads) (tcp_start jn a) c \<longrightarrow>
      (\<exists>s ts. pool_reach (tcp_step so mode accept jn threads) c (s, ts) \<and> ServerExit 0 \<in> set ts \<and>
        list_all2 (\<lambda>k k'. \<exists>e. asio_handler so mode k = Some (e, k')) ks (socks s)))"
proof -
  have "tcp_finite jn running so mode accept a b ks"
    using assms by (intro tcp_finite.intro tcp_finite_axioms.intro) blast+
  from tcp_finite.tcp_bounded [OF this] tcp_finite.tcp_ends [OF this] show ?thesis by blast
qed

theorem asio_tcp_ends_witness:
  "\<exists>s ts. pool_reach (tcp_step (socket_of list_stream) Echo demo_accept nat_join 4)
      (tcp_start nat_join [demo_conn, demo_conn]) (s, ts) \<and> ServerExit 0 \<in> set ts \<and>
    length (socks s) = 2"
proof -
  have h1: "hands_out demo_accept [demo_conn, demo_conn] [demo_conn, demo_conn] []" by (simp add: demo_accept_def)
  have h2: "\<forall>k \<in> set [demo_conn, demo_conn]. asio_handler (socket_of list_stream) Echo k \<noteq> None"
    using demo_handler_returns by blast
  from conjunct2 [OF asio_tcp_ends [OF natjn.asio_join_axioms h1 h2, of 4], rule_format, OF rtranclp.rtrancl_refl]
  obtain s ts where "pool_reach (tcp_step (socket_of list_stream) Echo demo_accept nat_join 4)
      (tcp_start nat_join [demo_conn, demo_conn]) (s, ts)" "ServerExit 0 \<in> set ts"
    "list_all2 (\<lambda>k k'. \<exists>e. asio_handler (socket_of list_stream) Echo k = Some (e, k')) [demo_conn, demo_conn] (socks s)"
    by blast
  then show ?thesis using list_all2_lengthD by fastforce
qed

end
