(* ===== verification/Tcp_Program_Photon.thy ===== *)
theory Tcp_Program_Photon
  imports Connections
begin

text \<open>
  \<open>cpp/tcp_server_photon.cpp\<close> as a whole: \<open>main\<close> accepts connections and creates a coroutine for
  each; when an accept fails it returns, which ends the process, and with it the handlers that are
  not done. The theorem: until then every connection is served as if it were alone. The example
  shows a connection that is given up between the bytes received and the bytes sent back.
\<close>

section \<open>The program\<close>

record ('a, 'k) ptcp_state =
  p_acceptor :: 'a
  p_streams :: "'k list"
  p_exited :: bool

datatype ptcp_task =
    PAccept
  | PExit int
  | PHandling nat conn_pc

fun ptcp_main_step :: "('a, 'k) accept_op \<Rightarrow> (('a, 'k) ptcp_state, ptcp_task) task_step" where
  "ptcp_main_step accept s PAccept =
     (case accept (p_acceptor s) of
        (None, a) \<Rightarrow> Some (s\<lparr>p_acceptor := a, p_exited := True\<rparr>, PExit 0, [])
      | (Some k, a) \<Rightarrow>
          Some (s\<lparr>p_acceptor := a, p_streams := p_streams s @ [k]\<rparr>, PAccept,
            [PHandling (length (p_streams s)) ConnStart]))"
| "ptcp_main_step accept s _ = None"

fun ptcp_step ::
  "'k stream_ops \<Rightarrow> tcp_mode \<Rightarrow> ('a, 'k) accept_op \<Rightarrow> (('a, 'k) ptcp_state, ptcp_task) task_step"
where
  "ptcp_step st mode accept s (PHandling i pc) =
     (if p_exited s then None
      else case photon_conn_step st mode (p_streams s ! i) pc of
        None \<Rightarrow> None
      | Some (k, pc') \<Rightarrow> Some (s\<lparr>p_streams := (p_streams s)[i := k]\<rparr>, PHandling i pc', []))"
| "ptcp_step st mode accept s t = ptcp_main_step accept s t"

text \<open>\<open>main\<close> in front of its accept loop: \<open>init\<close>, \<open>bind\<close> and \<open>listen\<close> are what these calls returned.\<close>

definition ptcp_start :: "int \<Rightarrow> int \<Rightarrow> int \<Rightarrow> 'a \<Rightarrow> (('a, 'k) ptcp_state, ptcp_task) pool" where
  "ptcp_start init bind listen a =
     (if init \<noteq> 0 \<or> bind \<noteq> 0 \<or> listen \<noteq> 0
      then (\<lparr>p_acceptor = a, p_streams = [], p_exited = True\<rparr>, [PExit 1])
      else (\<lparr>p_acceptor = a, p_streams = [], p_exited = False\<rparr>, [PAccept]))"

fun ptcp_conn_of :: "ptcp_task \<Rightarrow> (nat \<times> conn_pc) option" where
  "ptcp_conn_of (PHandling i pc) = Some (i, pc)"
| "ptcp_conn_of _ = None"

fun ptcp_serving :: "ptcp_task \<Rightarrow> nat" where
  "ptcp_serving PAccept = 1"
| "ptcp_serving _ = 0"

lemma ptcp_conn_of_iff: "ptcp_conn_of t = Some (i, pc) \<longleftrightarrow> t = PHandling i pc"
  by (cases t) auto

interpretation ptcp_conns: conn_server "photon_conn_step st mode" "ptcp_step st mode accept"
    p_streams p_acceptor accept ptcp_conn_of ptcp_serving
proof unfold_locales
  fix t i pc s s' t' new
  assume "ptcp_conn_of t = Some (i, pc)" and "ptcp_step st mode accept s t = Some (s', t', new)"
  then show "ptcp_serving t = 0 \<and> ptcp_serving t' = 0 \<and> new = [] \<and> p_acceptor s' = p_acceptor s \<and>
      (\<exists>k' pc'. photon_conn_step st mode (p_streams s ! i) pc = Some (k', pc') \<and>
        p_streams s' = (p_streams s)[i := k'] \<and> ptcp_conn_of t' = Some (i, pc'))"
    by (cases t) (auto split: if_splits option.splits)
next
  fix t s s' t' new
  assume "ptcp_conn_of t = None" and "ptcp_step st mode accept s t = Some (s', t', new)"
  then show "ptcp_conn_of t' = None \<and>
      (p_streams s' = p_streams s \<and> p_acceptor s' = p_acceptor s \<and>
         (\<forall>u \<in> set new. ptcp_conn_of u = None \<and> ptcp_serving u = 0) \<and> ptcp_serving t' = ptcp_serving t \<or>
       (\<exists>k u. ptcp_serving t = 1 \<and> ptcp_serving t' = 1 \<and> ptcp_serving u = 0 \<and>
          accept (p_acceptor s) = (Some k, p_acceptor s') \<and> p_streams s' = p_streams s @ [k] \<and> new = [u] \<and>
          ptcp_conn_of u = Some (length (p_streams s), ConnStart)) \<or>
       ptcp_serving t = 1 \<and> ptcp_serving t' = 0 \<and> new = [] \<and> accept (p_acceptor s) = (None, p_acceptor s') \<and>
         p_streams s' = p_streams s)"
    by (cases t) (auto split: option.splits prod.splits)
qed

text \<open>\<open>main\<close> is at its accept or has exited, in which case nothing moves any more.\<close>

definition ptcp_ok :: "('a, 'k) ptcp_state \<Rightarrow> ptcp_task \<Rightarrow> bool" where
  "ptcp_ok s t \<longleftrightarrow> (t = PAccept \<longrightarrow> \<not> p_exited s) \<and> (\<forall>x. t = PExit x \<longrightarrow> x = 0 \<and> p_exited s)"

definition ptcp_inv :: "(('a, 'k) ptcp_state, ptcp_task) pool \<Rightarrow> bool" where
  "ptcp_inv c \<longleftrightarrow> (\<forall>t \<in> set (snd c). ptcp_ok (fst c) t) \<and> tsum ptcp_serving (snd c) \<le> 1"

interpretation ptcp: task_invariant "ptcp_step st mode accept" ptcp_inv
proof
  fix c c' assume inv: "ptcp_inv c" and "pool_step (ptcp_step st mode accept) c c'"
  from this(2) show "ptcp_inv c'"
  proof cases
    case (run_task j ts s s' t' new)
    note j = run_task(3)
    have set: "set (ts[j := t'] @ new) = insert t' (set (others j ts) \<union> set new)"
      using j by (auto simp: others_def upd_conv_take_nth_drop)
    have all: "\<forall>t \<in> set ts. ptcp_ok s t" and one: "tsum ptcp_serving ts \<le> 1"
      using inv by (simp_all add: ptcp_inv_def run_task)
    then have old: "\<forall>t \<in> set (others j ts). ptcp_ok s t" and mine: "ptcp_ok s (ts ! j)"
      using subsetD [OF others_subset [of j ts]] j by auto
    have one: "tsum ptcp_serving (others j ts) + ptcp_serving (ts ! j) \<le> 1"
      using one unfolding tsum_at [OF j] .
    have alone: "PAccept \<notin> set (others j ts)" if "ts ! j = PAccept"
      using one that tsum_member_le [of PAccept "others j ts" ptcp_serving] by fastforce
    have "(\<forall>t \<in> set (t' # new). ptcp_ok s' t) \<and> (\<forall>t \<in> set (others j ts). ptcp_ok s' t) \<and>
        ptcp_serving t' + tsum ptcp_serving new \<le> ptcp_serving (ts ! j)"
    proof (cases "ts ! j")
      case PAccept
      with mine have "\<not> p_exited s" by (simp add: ptcp_ok_def)
      with old have "PExit x \<notin> set (others j ts)" for x by (auto simp: ptcp_ok_def)
      with alone [OF PAccept] have "ptcp_ok s' t" if "t \<in> set (others j ts)" for t
        using that by (cases t) (auto simp: ptcp_ok_def)
      with PAccept run_task(4) \<open>\<not> p_exited s\<close> show ?thesis
        by (auto simp: ptcp_ok_def split: option.splits prod.splits)
    next
      case (PHandling i pc)
      with run_task(4) have "p_exited s' = p_exited s" "t' = PHandling i (case t' of PHandling _ q \<Rightarrow> q)" "new = []"
        by (auto split: if_splits option.splits)
      with old PHandling show ?thesis by (cases t') (auto simp: ptcp_ok_def)
    qed (use run_task(4) in simp)
    then show ?thesis
      using one unfolding ptcp_inv_def run_task fst_conv snd_conv set tsum_upd [OF j] by auto
  qed
qed

lemma ptcp_served:
  assumes "pool_reach (ptcp_step st mode accept) (ptcp_start 0 0 0 a) (s, ts)"
  shows "\<exists>ks. ptcp_conns.served st mode accept a ks (s, ts)" and "ptcp_inv (s, ts)"
proof -
  have "ptcp_conns.served st mode accept a [] (ptcp_start 0 0 0 a)"
    by (simp add: ptcp_conns.served_def ptcp_conns.alone_def ptcp_start_def)
  from ptcp_conns.served_reach [OF assms this] show "\<exists>ks. ptcp_conns.served st mode accept a ks (s, ts)" .
  have "ptcp_inv (ptcp_start 0 0 0 a)" by (simp add: ptcp_inv_def ptcp_ok_def ptcp_start_def)
  from ptcp.inv_reach [OF this assms] show "ptcp_inv (s, ts)" .
qed

section \<open>Properties\<close>

text \<open>
  C28. The photon server serves every connection as if it were alone, and ends with its first failed
  accept. In every reachable state each connection handed out so far has its handler, which is where
  it would be, with the stream as it would be, after some steps on its own, and has done what
  \<open>photon_handler\<close> does when it is over. The exit code is 0; then the accept loop has returned
  with exactly these connections, and no handler moves any more, finished or not.
\<close>

theorem photon_tcp_isolated:
  assumes "pool_reach (ptcp_step st mode accept) (ptcp_start 0 0 0 a) (s, ts)"
  shows "\<exists>ks. length (p_streams s) = length ks \<and>
    (\<forall>i < length ks. \<exists>pc. PHandling i pc \<in> set ts \<and>
      (\<exists>n. conn_run (photon_conn_step st mode) n (ks ! i, ConnStart) = Some (p_streams s ! i, pc)) \<and>
      (\<forall>e. pc = ConnGone e \<longrightarrow> photon_handler st mode (ks ! i) = Some (p_streams s ! i))) \<and>
    (\<forall>c. PExit c \<in> set ts \<longrightarrow> c = 0 \<and> photon_accept_loop accept a [] = Some (ks, p_acceptor s) \<and>
      pool_stuck (ptcp_step st mode accept) (s, ts))"
proof -
  from ptcp_served [OF assms] obtain ks where ks: "ptcp_conns.served st mode accept a ks (s, ts)"
    and inv: "ptcp_inv (s, ts)" by blast
  note inv = inv [unfolded ptcp_inv_def fst_conv snd_conv ptcp_ok_def]
  have "\<exists>pc. PHandling i pc \<in> set ts \<and>
      (\<exists>n. conn_run (photon_conn_step st mode) n (ks ! i, ConnStart) = Some (p_streams s ! i, pc)) \<and>
      (\<forall>e. pc = ConnGone e \<longrightarrow> photon_handler st mode (ks ! i) = Some (p_streams s ! i))" if i: "i < length ks" for i
  proof -
    from ptcp_conns.servedD(3) [OF ks i] obtain pc where pc: "PHandling i pc \<in> set ts"
      by (auto simp: ptcp_conn_of_iff)
    with ptcp_conns.servedD(2) [OF ks pc, of i pc] photon_rest_run [of st mode _ "ks ! i" ConnStart "p_streams s ! i" pc]
    show ?thesis by (intro exI [of _ pc]) auto
  qed
  moreover have "c = 0 \<and> photon_accept_loop accept a [] = Some (ks, p_acceptor s) \<and>
      pool_stuck (ptcp_step st mode accept) (s, ts)" if c: "PExit c \<in> set ts" for c
  proof -
    have exited: "p_exited s" "c = 0" using inv c by blast+
    then have "ptcp_serving t = 0" if "t \<in> set ts" for t using inv that by (cases t) auto
    with ptcp_conns.servedD(6) [OF ks] photon_accepts [of accept a ks "p_acceptor s" "[]"]
    have "photon_accept_loop accept a [] = Some (ks, p_acceptor s)" by simp
    moreover have "ptcp_step st mode accept s t = None" if "t \<in> set ts" for t
      using inv that exited by (cases t) auto
    ultimately show ?thesis using exited by (simp add: pool_stuck_def)
  qed
  ultimately show ?thesis using ptcp_conns.servedD(1) [OF ks] by blast
qed

text \<open>One client, whose three bytes have been received when \<open>main\<close> exits and are never sent back.\<close>

definition one_client :: "(conn list, conn) accept_op" where
  "one_client ks = (case ks of [] \<Rightarrow> (None, []) | k # ks' \<Rightarrow> (Some k, ks'))"

theorem photon_tcp_isolated_witness:
  "\<exists>s ts buf. pool_reach (ptcp_step list_stream Echo one_client) (ptcp_start 0 0 0 [demo_conn]) (s, ts) \<and>
    PExit 0 \<in> set ts \<and> PHandling 0 (ConnWrite buf 3) \<in> set ts \<and> got (p_streams s ! 0) = [1, 2, 3] \<and>
    out (p_streams s ! 0) = [] \<and> pool_stuck (ptcp_step list_stream Echo one_client) (s, ts)"
proof -
  have b: "BUF_SIZE = Suc (Suc (Suc 65533))" by (simp add: BUF_SIZE_def)
  have "\<exists>s ts buf. pool_run (ptcp_step list_stream Echo one_client) [0, 1, 1, 0] (ptcp_start 0 0 0 [demo_conn]) = Some (s, ts) \<and>
    PExit 0 \<in> set ts \<and> PHandling 0 (ConnWrite buf 3) \<in> set ts \<and> got (p_streams s ! 0) = [1, 2, 3] \<and>
    out (p_streams s ! 0) = []"
    by (simp add: ptcp_start_def one_client_def conn_loop_def list_stream_def demo_conn_def Let_def b del: replicate.simps)
  then obtain s ts buf where run: "pool_run (ptcp_step list_stream Echo one_client) [0, 1, 1, 0]
      (ptcp_start 0 0 0 [demo_conn]) = Some (s, ts)" and s: "PExit 0 \<in> set ts" "PHandling 0 (ConnWrite buf 3) \<in> set ts"
    "got (p_streams s ! 0) = [1, 2, 3]" "out (p_streams s ! 0) = []" by blast
  from photon_tcp_isolated [OF pool_run_reach [OF run]] s(1)
  have "pool_stuck (ptcp_step list_stream Echo one_client) (s, ts)" by blast
  with s pool_run_reach [OF run] show ?thesis by blast
qed

end
