(* ===== verification/Command_Line.thy ===== *)
theory Command_Line
  imports Cstdlib Worker_Pool_Photon Worker_Pool_Asio Ping_Pong_Photon Ping_Pong_Asio Sleep_Clock Tcp_Program_Asio
    Tcp_Program_Photon
begin

text \<open>
  The command lines: the argument loop of every \<open>main\<close> and how its result starts the program,
  with the C library functions and the generic loop of \<open>Cstdlib\<close>.
\<close>

section \<open>Worker pools\<close>

definition wpp_arg :: "string \<Rightarrow> wpp_cfg \<Rightarrow> stop + wpp_cfg" where
  "wpp_arg a cfg =
     (if strncmp_eq a ''--num-items='' 12 then Inr (cfg\<lparr>g_items := strtoull (drop 12 a)\<rparr>)
      else if strncmp_eq a ''--num-producers='' 16 then Inr (cfg\<lparr>g_producers := strtoull (drop 16 a)\<rparr>)
      else if strncmp_eq a ''--num-consumers='' 16 then Inr (cfg\<lparr>g_consumers := strtoull (drop 16 a)\<rparr>)
      else if strncmp_eq a ''--work='' 7 then Inr (cfg\<lparr>g_work := strtoull (drop 7 a)\<rparr>)
      else Inl (ExitCode 1))"

text \<open>
  \<open>main\<close>: parse, initialise photon (\<open>init\<close> is what \<open>photon::init\<close> returned), run. The result is
  an exit code or the configuration and the pool to run.
\<close>

definition wpp_main ::
  "('s, 'm) photon_ops \<Rightarrow> int \<Rightarrow> string list \<Rightarrow> stop + wpp_cfg \<times> (('s, 'm) wpp_state, wpp_task) pool"
where
  "wpp_main ph init args =
     (case parse_args wpp_arg args wpp_default of
        Inl e \<Rightarrow> Inl e
      | Inr cfg \<Rightarrow> if init \<noteq> 0 then Inl (ExitCode 1) else Inr (cfg, wpp_start ph))"

definition wpa_default :: wpa_cfg where
  "wpa_default = \<lparr>n_items = 100000, n_producers = 1, n_consumers = 1000, work_iters = 64\<rparr>"

definition wpa_arg :: "string \<Rightarrow> bool \<times> wpa_cfg \<Rightarrow> stop + bool \<times> wpa_cfg" where
  "wpa_arg a opt = (case opt of (one_thread, cfg) \<Rightarrow>
     if strcmp_eq a ''--st'' then Inr (True, cfg)
     else if strncmp_eq a ''--num-items='' 12 then Inr (one_thread, cfg\<lparr>n_items := strtoull (drop 12 a)\<rparr>)
     else if strncmp_eq a ''--num-producers='' 16 then Inr (one_thread, cfg\<lparr>n_producers := strtoull (drop 16 a)\<rparr>)
     else if strncmp_eq a ''--num-consumers='' 16 then Inr (one_thread, cfg\<lparr>n_consumers := strtoull (drop 16 a)\<rparr>)
     else if strncmp_eq a ''--work='' 7 then Inr (one_thread, cfg\<lparr>work_iters := strtoull (drop 7 a)\<rparr>)
     else Inl (ExitCode 1))"

definition wpa_main ::
  "'c channel_ops \<Rightarrow> 'j join_ops \<Rightarrow> string list \<Rightarrow> stop + wpa_cfg \<times> (('c, 'j) wpa_state, wpa_task) pool"
where
  "wpa_main ch jn args =
     (case parse_args wpa_arg args (False, wpa_default) of
        Inl e \<Rightarrow> Inl e
      | Inr (one_thread, cfg) \<Rightarrow> Inr (cfg, wpa_start ch jn cfg))"

definition pool_flag :: "string \<Rightarrow> bool" where
  "pool_flag a \<longleftrightarrow> prefix ''--num-items='' a \<or> prefix ''--num-producers='' a \<or>
     prefix ''--num-consumers='' a \<or> prefix ''--work='' a"

lemmas arg_simps = wpp_arg_def wpa_arg_def pool_flag_def strncmp_is_prefix strcmp_eq_def

interpretation wpp_items: flag_field wpp_arg pool_flag 1 g_items "''--num-items=''"
  by unfold_locales (auto simp: arg_simps elim!: prefixE split: if_splits)

interpretation wpp_producers: flag_field wpp_arg pool_flag 1 g_producers "''--num-producers=''"
  by unfold_locales (auto simp: arg_simps elim!: prefixE split: if_splits)

interpretation wpp_consumers: flag_field wpp_arg pool_flag 1 g_consumers "''--num-consumers=''"
  by unfold_locales (auto simp: arg_simps elim!: prefixE split: if_splits)

interpretation wpp_work: flag_field wpp_arg pool_flag 1 g_work "''--work=''"
  by unfold_locales (auto simp: arg_simps elim!: prefixE split: if_splits)

interpretation wpa_items: flag_field wpa_arg "\<lambda>a. a = ''--st'' \<or> pool_flag a" 1 "\<lambda>x. n_items (snd x)" "''--num-items=''"
  by unfold_locales (auto simp: arg_simps elim!: prefixE split: if_splits)

interpretation wpa_producers: flag_field wpa_arg "\<lambda>a. a = ''--st'' \<or> pool_flag a" 1 "\<lambda>x. n_producers (snd x)" "''--num-producers=''"
  by unfold_locales (auto simp: arg_simps elim!: prefixE split: if_splits)

interpretation wpa_consumers: flag_field wpa_arg "\<lambda>a. a = ''--st'' \<or> pool_flag a" 1 "\<lambda>x. n_consumers (snd x)" "''--num-consumers=''"
  by unfold_locales (auto simp: arg_simps elim!: prefixE split: if_splits)

interpretation wpa_work: flag_field wpa_arg "\<lambda>a. a = ''--st'' \<or> pool_flag a" 1 "\<lambda>x. work_iters (snd x)" "''--work=''"
  by unfold_locales (auto simp: arg_simps elim!: prefixE split: if_splits)

section \<open>Ping-pongs\<close>

text \<open>Unknown arguments are ignored here.\<close>

definition ppp_arg :: "string \<Rightarrow> u64 \<Rightarrow> stop + u64" where
  "ppp_arg a pairs = Inr (if strncmp_eq a ''--pairs='' 8 then strtoull (drop 8 a) else pairs)"

definition ppp_main ::
  "('s, 'm) photon_ops \<Rightarrow> string list \<Rightarrow> stop + u64 \<times> ('s ppp_state, ppp_task) pool"
where
  "ppp_main ph args =
     (case parse_args ppp_arg args 1 of
        Inl e \<Rightarrow> Inl e
      | Inr pairs \<Rightarrow> let pairs = photon_pairs pairs in Inr (pairs, ppp_start ph pairs))"

definition ppa_arg :: "string \<Rightarrow> bool \<times> u64 \<Rightarrow> stop + bool \<times> u64" where
  "ppa_arg a opt = (case opt of (one_thread, pairs) \<Rightarrow>
     if strcmp_eq a ''--st'' then Inr (True, pairs)
     else if strncmp_eq a ''--pairs='' 8 then Inr (one_thread, strtoull (drop 8 a))
     else Inr (one_thread, pairs))"

definition ppa_main ::
  "'c channel_ops \<Rightarrow> 'j join_ops \<Rightarrow> string list \<Rightarrow> stop + u64 \<times> (('c, 'j) ppa_state, ppa_task) pool"
where
  "ppa_main ch jn args =
     (case parse_args ppa_arg args (False, 1) of
        Inl e \<Rightarrow> Inl e
      | Inr (one_thread, pairs) \<Rightarrow>
          let pairs = asio_pairs pairs in Inr (pairs, ppa_start ch jn pairs))"

interpretation ppp_flag: flag_field ppp_arg "\<lambda>_. True" 0 "\<lambda>pairs. pairs" "''--pairs=''"
  by unfold_locales (auto simp: ppp_arg_def strncmp_is_prefix elim!: prefixE)

interpretation ppa_flag: flag_field ppa_arg "\<lambda>_. True" 0 snd "''--pairs=''"
  by unfold_locales
    (auto simp: ppa_arg_def strncmp_is_prefix strcmp_eq_def elim!: prefixE split: if_splits prod.splits)

section \<open>Sleep\<close>

definition sla_arg :: "string \<Rightarrow> bool \<times> u64 \<times> u64 \<Rightarrow> stop + bool \<times> u64 \<times> u64" where
  "sla_arg a opt = (case opt of (one_thread, num_tasks, sleep_ms) \<Rightarrow>
     if strcmp_eq a ''--st'' then Inr (True, num_tasks, sleep_ms)
     else if strncmp_eq a ''--tasks='' 8 then Inr (one_thread, strtoull (drop 8 a), sleep_ms)
     else if strncmp_eq a ''--sleep-ms='' 11 then Inr (one_thread, num_tasks, strtoull (drop 11 a))
     else Inl (ExitCode 1))"

definition slp_arg :: "string \<Rightarrow> slp_cfg \<Rightarrow> stop + slp_cfg" where
  "slp_arg a cfg =
     (if strncmp_eq a ''--tasks='' 8 then Inr (cfg\<lparr>g_tasks := strtoull (drop 8 a)\<rparr>)
      else if strncmp_eq a ''--sleep-ms='' 11 then Inr (cfg\<lparr>g_sleep_ms := strtoull (drop 11 a)\<rparr>)
      else Inl (ExitCode 2))"

definition sleep_flag :: "string \<Rightarrow> bool" where
  "sleep_flag a \<longleftrightarrow> prefix ''--tasks='' a \<or> prefix ''--sleep-ms='' a"

lemmas sleep_simps = sla_arg_def slp_arg_def sleep_flag_def strncmp_is_prefix strcmp_eq_def

interpretation sla_tasks: flag_field sla_arg "\<lambda>a. a = ''--st'' \<or> sleep_flag a" 1 "\<lambda>x. fst (snd x)" "''--tasks=''"
  by unfold_locales (auto simp: sleep_simps elim!: prefixE split: if_splits)

interpretation sla_ms: flag_field sla_arg "\<lambda>a. a = ''--st'' \<or> sleep_flag a" 1 "\<lambda>x. snd (snd x)" "''--sleep-ms=''"
  by unfold_locales (auto simp: sleep_simps elim!: prefixE split: if_splits)

interpretation slp_tasks: flag_field slp_arg sleep_flag 2 g_tasks "''--tasks=''"
  by unfold_locales (auto simp: sleep_simps elim!: prefixE split: if_splits)

interpretation slp_ms: flag_field slp_arg sleep_flag 2 g_sleep_ms "''--sleep-ms=''"
  by unfold_locales (auto simp: sleep_simps elim!: prefixE split: if_splits)

section \<open>TCP servers\<close>

text \<open>
  \<open>num_threads\<close> is an \<open>unsigned\<close> and \<open>port\<close> a \<open>uint16_t\<close>, both set from an \<open>int\<close>; an unknown mode
  or argument ends the program with 2.
\<close>

record tcp_opts =
  num_threads :: u32
  port :: u16
  g_mode :: tcp_mode

definition mode_arg :: "string \<Rightarrow> tcp_opts \<Rightarrow> stop + tcp_opts" where
  "mode_arg m opts =
     (if strcmp_eq m ''echo'' then Inr (opts\<lparr>g_mode := Echo\<rparr>)
      else if strcmp_eq m ''sink'' then Inr (opts\<lparr>g_mode := Sink\<rparr>)
      else if strcmp_eq m ''source'' then Inr (opts\<lparr>g_mode := Source\<rparr>)
      else Inl (ExitCode 2))"

definition tcp_asio_arg :: "string \<Rightarrow> tcp_opts \<Rightarrow> stop + tcp_opts" where
  "tcp_asio_arg a opts =
     (if strcmp_eq a ''--st'' then Inr (opts\<lparr>num_threads := 1\<rparr>)
      else if strncmp_eq a ''--threads='' 10 then
        (case atoi (drop 10 a) of None \<Rightarrow> Inl Undefined | Some v \<Rightarrow> Inr (opts\<lparr>num_threads := word_of_int v\<rparr>))
      else if strncmp_eq a ''--port='' 7 then
        (case atoi (drop 7 a) of None \<Rightarrow> Inl Undefined | Some v \<Rightarrow> Inr (opts\<lparr>port := word_of_int v\<rparr>))
      else if strncmp_eq a ''--mode='' 7 then mode_arg (drop 7 a) opts
      else Inl (ExitCode 2))"

definition tcp_photon_arg :: "string \<Rightarrow> bool \<times> tcp_opts \<Rightarrow> stop + bool \<times> tcp_opts" where
  "tcp_photon_arg a x = (case x of (uring, opts) \<Rightarrow>
     if strcmp_eq a ''--uring'' then Inr (True, opts)
     else if strncmp_eq a ''--port='' 7 then
       (case atoi (drop 7 a) of None \<Rightarrow> Inl Undefined | Some v \<Rightarrow> Inr (uring, opts\<lparr>port := word_of_int v\<rparr>))
     else if strncmp_eq a ''--mode='' 7 then
       (case mode_arg (drop 7 a) opts of Inl e \<Rightarrow> Inl e | Inr opts' \<Rightarrow> Inr (uring, opts'))
     else Inl (ExitCode 2))"

text \<open>The defaults; \<open>hw\<close> is what \<open>hardware_concurrency\<close> returned.\<close>

definition tcp_default :: "u32 \<Rightarrow> tcp_opts" where
  "tcp_default hw = \<lparr>num_threads = hw, port = 18800, g_mode = Echo\<rparr>"

text \<open>
  \<open>main\<close> of the Asio server from its arguments; \<open>bound\<close> and \<open>listening\<close> tell whether the constructor of the acceptor and
  \<open>listen\<close> returned. Their exceptions are not caught.
\<close>

definition asio_tcp_main ::
  "'j join_ops \<Rightarrow> u32 \<Rightarrow> bool \<Rightarrow> bool \<Rightarrow> 'a \<Rightarrow> string list \<Rightarrow>
    stop + tcp_opts \<times> (('a, 'k, 'j) tcp_state, tcp_task) pool"
where
  "asio_tcp_main jn hw bound listening a args =
     (case parse_args tcp_asio_arg args (tcp_default hw) of
        Inl e \<Rightarrow> Inl e
      | Inr opts \<Rightarrow> if \<not> bound \<or> \<not> listening then Inl Aborted else Inr (opts, tcp_start jn a))"

text \<open>
  \<open>main\<close> of the photon server from its arguments: it ends with 1 when \<open>init\<close>, \<open>bind\<close> or \<open>listen\<close>
  fails (\<open>ptcp_start\<close>). \<open>uring\<close> only chooses the event engine that is initialised.
\<close>

definition photon_tcp_program ::
  "(bool \<Rightarrow> int) \<Rightarrow> int \<Rightarrow> int \<Rightarrow> 'a \<Rightarrow> string list \<Rightarrow> stop + tcp_opts \<times> (('a, 'k) ptcp_state, ptcp_task) pool"
where
  "photon_tcp_program init bind listen a args =
     (case parse_args tcp_photon_arg args (False, tcp_default 0) of
        Inl e \<Rightarrow> Inl e
      | Inr (uring, opts) \<Rightarrow> Inr (opts, ptcp_start (init uring) bind listen a))"

lemma atoi_decimal: "n < 2 ^ 31 \<Longrightarrow> atoi (decimal n) = Some (int n)"
  by (simp add: atoi_def decimal_signed Let_def)

section \<open>Properties\<close>

text \<open>
  The argument loop of the photon worker pool: an argument without one of the four prefixes
  ends \<open>main\<close> with exit code 1; otherwise each number is the one its last option gives, or the
  default, whatever the order of the options.
\<close>

theorem wpp_parse_spec:
  "parse_args wpp_arg args cfg =
    (if \<forall>a \<in> set args. pool_flag a
     then Inr \<lparr>g_items = flag_value ''--num-items='' args (g_items cfg),
       g_producers = flag_value ''--num-producers='' args (g_producers cfg),
       g_consumers = flag_value ''--num-consumers='' args (g_consumers cfg),
       g_work = flag_value ''--work='' args (g_work cfg)\<rparr>
     else Inl (ExitCode 1))"
proof (cases "\<forall>a \<in> set args. pool_flag a")
  case True
  then obtain cfg' where c: "parse_args wpp_arg args cfg = Inr cfg'" using wpp_items.parse_goes by blast
  with True wpp_items.parse_field [OF c] wpp_producers.parse_field [OF c] wpp_consumers.parse_field [OF c]
    wpp_work.parse_field [OF c]
  show ?thesis by (cases cfg') simp
next
  case False
  then show ?thesis using wpp_items.parse_stops by simp
qed

theorem wpp_parse_spec_witness:
  "parse_args wpp_arg [''--work=7'', ''--num-items=5'', ''--work=0''] wpp_default =
    Inr (wpp_default\<lparr>g_items := 5, g_work := 0\<rparr>) \<and>
    parse_args wpp_arg [''--help''] wpp_default = Inl (ExitCode 1)"
  unfolding wpp_parse_spec
  by (simp add: pool_flag_def flag_value_def strtoull_def signed_digits_def digits_value_def is_space_def
      is_digit_def code_def wpp_default_def)

text \<open>
  Numbers on the command line round trip: the decimal notation of a 64-bit number is read back
  as that number, anything bigger as the largest one, and a minus sign negates modulo 2 to the
  64th, so that \<open>--num-items=-1\<close> asks for 2 to the 64th minus 1 items.
\<close>

theorem pool_number_roundtrip:
  "wpp_arg (''--num-items='' @ decimal n) cfg = Inr (cfg\<lparr>g_items := of_nat (min n (2 ^ 64 - 1))\<rparr>) \<and>
    wpp_arg (''--num-items=-'' @ decimal n) cfg =
      Inr (cfg\<lparr>g_items := (if n < 2 ^ 64 then - of_nat n else - 1)\<rparr>)"
proof -
  have "(of_nat (unat (strtoull (decimal n))) :: u64) = of_nat (min n (2 ^ 64 - 1))"
    by (simp only: strtoull_decimal)
  then have "strtoull (decimal n) = of_nat (min n (2 ^ 64 - 1))" by (simp only: of_nat_unat ucast_id)
  then show ?thesis
    using strtoull_decimal [of n] by (simp add: wpp_arg_def strncmp_is_prefix)
qed

text \<open>
  The two worker pools understand the same options: on arguments without \<open>--st\<close> the Asio
  program fails when the photon program fails, with the same exit code, and otherwise runs with
  the same numbers.
\<close>

theorem pool_options_agree:
  assumes "''--st'' \<notin> set args"
  shows "parse_args wpa_arg args (False, wpa_default) =
    (case parse_args wpp_arg args wpp_default of
       Inl e \<Rightarrow> Inl e
     | Inr cfg \<Rightarrow> Inr (False, \<lparr>n_items = g_items cfg, n_producers = g_producers cfg,
         n_consumers = g_consumers cfg, work_iters = g_work cfg\<rparr>))"
proof -
  have "parse_args wpa_arg args (False, \<lparr>n_items = a, n_producers = b, n_consumers = c, work_iters = d\<rparr>) =
      (case parse_args wpp_arg args \<lparr>g_items = a, g_producers = b, g_consumers = c, g_work = d\<rparr> of
         Inl e \<Rightarrow> Inl e
       | Inr cfg \<Rightarrow> Inr (False, \<lparr>n_items = g_items cfg, n_producers = g_producers cfg,
           n_consumers = g_consumers cfg, work_iters = g_work cfg\<rparr>))" for a b c d
    using assms
    by (induction args arbitrary: a b c d) (auto simp: wpa_arg_def wpp_arg_def strcmp_eq_def)
  then show ?thesis by (simp add: wpa_default_def wpp_default_def)
qed

theorem pool_options_agree_witness:
  "parse_args wpa_arg [''--num-items=5''] (False, wpa_default) = Inr (False, wpa_default\<lparr>n_items := 5\<rparr>)"
  using pool_options_agree [of "[''--num-items=5'']"]
  by (simp add: wpp_arg_def strncmp_is_prefix strtoull_def signed_digits_def digits_value_def is_space_def
      is_digit_def code_def wpp_default_def wpa_default_def)

text \<open>
  The sleep programs' options: an unknown argument ends the Asio program with 1 and the photon
  program with 2, and otherwise the number of tasks and the duration are the last ones given.
\<close>

theorem sleep_parse_spec:
  "(if \<forall>a \<in> set args. sleep_flag a
    then parse_args slp_arg args cfg = Inr \<lparr>g_tasks = flag_value ''--tasks='' args (g_tasks cfg),
      g_sleep_ms = flag_value ''--sleep-ms='' args (g_sleep_ms cfg)\<rparr>
    else parse_args slp_arg args cfg = Inl (ExitCode 2)) \<and>
   (if \<forall>a \<in> set args. a = ''--st'' \<or> sleep_flag a
    then \<exists>one_thread. parse_args sla_arg args opt = Inr (one_thread,
      flag_value ''--tasks='' args (fst (snd opt)), flag_value ''--sleep-ms='' args (snd (snd opt)))
    else parse_args sla_arg args opt = Inl (ExitCode 1))"
proof (rule conjI)
  show "if \<forall>a \<in> set args. sleep_flag a
    then parse_args slp_arg args cfg = Inr \<lparr>g_tasks = flag_value ''--tasks='' args (g_tasks cfg),
      g_sleep_ms = flag_value ''--sleep-ms='' args (g_sleep_ms cfg)\<rparr>
    else parse_args slp_arg args cfg = Inl (ExitCode 2)"
  proof (cases "\<forall>a \<in> set args. sleep_flag a")
    case True
    then obtain cfg' where c: "parse_args slp_arg args cfg = Inr cfg'" using slp_tasks.parse_goes by blast
    with True slp_tasks.parse_field [OF c] slp_ms.parse_field [OF c] show ?thesis by (cases cfg') simp
  next
    case False
    with slp_tasks.parse_stops [OF False] show ?thesis by auto
  qed
  show "if \<forall>a \<in> set args. a = ''--st'' \<or> sleep_flag a
    then \<exists>one_thread. parse_args sla_arg args opt = Inr (one_thread,
      flag_value ''--tasks='' args (fst (snd opt)), flag_value ''--sleep-ms='' args (snd (snd opt)))
    else parse_args sla_arg args opt = Inl (ExitCode 1)"
  proof (cases "\<forall>a \<in> set args. a = ''--st'' \<or> sleep_flag a")
    case True
    then obtain opt' where c: "parse_args sla_arg args opt = Inr opt'" using sla_tasks.parse_goes by blast
    from sla_tasks.parse_field [OF c] sla_ms.parse_field [OF c]
    have "opt' = (fst opt', flag_value ''--tasks='' args (fst (snd opt)),
        flag_value ''--sleep-ms='' args (snd (snd opt)))" by (cases opt') simp
    with c True show ?thesis by auto
  next
    case False
    with sla_tasks.parse_stops [OF False] show ?thesis by auto
  qed
qed

theorem sleep_parse_spec_witness:
  "parse_args slp_arg [''--sleep-ms=0''] slp_default = Inr (slp_default\<lparr>g_sleep_ms := 0\<rparr>) \<and>
    parse_args slp_arg [''-h''] slp_default = Inl (ExitCode 2)"
  using sleep_parse_spec [of "[''--sleep-ms=0'']" slp_default] sleep_parse_spec [of "[''-h'']" slp_default]
  by (simp add: sleep_flag_def flag_value_def strtoull_def signed_digits_def digits_value_def is_space_def
      is_digit_def code_def slp_default_def)

text \<open>
  A TCP port is taken modulo 65536: \<open>--port=70000\<close> is accepted and means 4464. An unknown mode
  ends both servers with exit code 2.
\<close>

theorem tcp_port_wraps:
  assumes "n < 2 ^ 31"
  shows "\<exists>opts'. tcp_asio_arg (''--port='' @ decimal n) opts = Inr opts' \<and>
      tcp_photon_arg (''--port='' @ decimal n) (False, opts) = Inr (False, opts') \<and>
      unat (port opts') = n mod 65536"
proof -
  have "unat (word_of_int (int n) :: u16) = n mod 65536"
    by (simp add: unat_of_nat)
  then show ?thesis
    using atoi_decimal [OF assms]
    by (auto simp: tcp_asio_arg_def tcp_photon_arg_def strcmp_eq_def strncmp_is_prefix)
qed

theorem tcp_port_wraps_witness:
  "\<exists>opts'. tcp_asio_arg (''--port='' @ decimal 70000) (tcp_default 4) = Inr opts' \<and> unat (port opts') = 4464"
  using tcp_port_wraps [of 70000 "tcp_default 4"] by auto

end
