(* ===== verification/Report.thy ===== *)
theory Report
  imports Bench_Output Command_Line
begin

text \<open>
  What the programs print, and how the benchmark runner reads it. Every \<open>main\<close> ends with a
  \<open>printf\<close> of the measured duration, the numbers it ran with and, for the worker pools, the
  checksum in hexadecimal; \<open>parse_ms\<close> of \<open>bench.py\<close> searches the output for the duration. The
  duration is given in thousandths of a millisecond, which is what \<open>%.3f\<close> prints; the message rate,
  which \<open>%.0f\<close> prints, is given as text. The theorems: the runner reads back the printed duration
  from every program, and two pools print the same line exactly when they have the same checksum.
\<close>

section \<open>The lines the programs print\<close>

definition wpp_report :: "nat \<Rightarrow> string \<Rightarrow> wpp_cfg \<Rightarrow> ('s, 'm) wpp_state \<Rightarrow> string" where
  "wpp_report d rate cfg s =
     ''Duration: '' @ fixed3 d @ ''ms ('' @ lu (g_items cfg) @ '' items, '' @ lu (g_producers cfg) @
     '' producers, '' @ lu (g_consumers cfg) @ '' consumers, work='' @ lu (g_work cfg) @ '', '' @ rate @
     '' msgs/s, checksum='' @ hexadecimal (unat (g_checksum s)) @ '')'' @ newline"

definition wpa_report :: "nat \<Rightarrow> string \<Rightarrow> wpa_cfg \<Rightarrow> ('c, 'j) wpa_state \<Rightarrow> string" where
  "wpa_report d rate cfg s =
     ''Duration: '' @ fixed3 d @ ''ms ('' @ lu (n_items cfg) @ '' items, '' @ lu (n_producers cfg) @
     '' producers, '' @ lu (n_consumers cfg) @ '' consumers, work='' @ lu (work_iters cfg) @ '', '' @ rate @
     '' msgs/s, checksum='' @ hexadecimal (unat (checksum s)) @ '')'' @ newline"

definition ppp_report :: "nat \<Rightarrow> u64 \<Rightarrow> string" where
  "ppp_report d pairs =
     ''Duration: '' @ fixed3 d @ ''ms (photon, '' @ lu pairs @ '' pairs, '' @ lu (photon_per_pair pairs) @
     '' msgs each)'' @ newline"

definition ppa_report :: "nat \<Rightarrow> bool \<Rightarrow> u64 \<Rightarrow> string" where
  "ppa_report d st pairs =
     ''Duration: '' @ fixed3 d @ ''ms (asio'' @ (if st then ''-st'' else '''') @ '', '' @ lu pairs @
     '' pairs, '' @ lu (asio_per_pair pairs) @ '' msgs each)'' @ newline"

definition sla_report :: "nat \<Rightarrow> bool \<Rightarrow> u64 \<Rightarrow> u64 \<Rightarrow> string" where
  "sla_report d st num_tasks sleep_ms =
     ''Duration: '' @ fixed3 d @ ''ms (asio'' @ (if st then ''-st'' else '''') @ '', '' @ lu num_tasks @
     '' tasks, sleep '' @ lu sleep_ms @ '' ms)'' @ newline"

definition slp_report :: "nat \<Rightarrow> slp_cfg \<Rightarrow> string" where
  "slp_report d cfg =
     ''Duration: '' @ fixed3 d @ ''ms ('' @ lu (g_tasks cfg) @ '' tasks, sleep '' @ lu (g_sleep_ms cfg) @
     ''ms)'' @ newline"

text \<open>The TCP servers announce their port.\<close>

definition asio_banner :: "tcp_opts \<Rightarrow> string" where
  "asio_banner opts = ''tcp_server_asio listening on 127.0.0.1:'' @ decimal (unat (port opts)) @ newline"

definition photon_banner :: "tcp_opts \<Rightarrow> string" where
  "photon_banner opts = ''tcp_server_photon listening on 127.0.0.1:'' @ decimal (unat (port opts)) @ newline"

section \<open>Properties\<close>

lemma plain_decimal: "CHR 0x1B \<notin> set (decimal n)"
  using decimal_digits [of "CHR 0x1B" n] by (auto simp: is_digit_def code_def)

lemma plain_hexadecimal: "CHR 0x1B \<notin> set (hexadecimal n)"
proof -
  have "digit_char d \<noteq> CHR 0x1B" if "d < 16" for d
  proof
    assume "digit_char d = CHR 0x1B"
    then have "code (digit_char d) = 27" by (simp add: code_def)
    with that show False by (simp add: digit_char_def code_def of_char_of split: if_splits)
  qed
  then show ?thesis
    by (induction n rule: hexadecimal.induct) (subst hexadecimal.simps, auto simp: eq_commute [of "CHR 0x1B"])
qed

lemmas report_defs = wpp_report_def wpa_report_def ppp_report_def ppa_report_def sla_report_def slp_report_def
lemmas plain_text = plain_decimal plain_hexadecimal lu_def newline_def

text \<open>
  C29. The runner reads the duration back: on the line any of the six programs prints, \<open>parse_ms\<close> of
  \<open>bench.py\<close> returns exactly the printed number of milliseconds, whatever the other numbers are.
\<close>

theorem reports_parsed:
  assumes "CHR 0x1B \<notin> set rate"
  shows "parse_ms (wpp_report d rate cfg s) = Milliseconds (of_nat d / 1000) \<and>
    parse_ms (wpa_report d rate cfg' s') = Milliseconds (of_nat d / 1000) \<and>
    parse_ms (ppp_report d pairs) = Milliseconds (of_nat d / 1000) \<and>
    parse_ms (ppa_report d st pairs) = Milliseconds (of_nat d / 1000) \<and>
    parse_ms (sla_report d st n ms) = Milliseconds (of_nat d / 1000) \<and>
    parse_ms (slp_report d scfg) = Milliseconds (of_nat d / 1000)"
  using assms
    parse_printed [of "lu (g_items cfg) @ '' items, '' @ lu (g_producers cfg) @ '' producers, '' @ lu (g_consumers cfg) @
      '' consumers, work='' @ lu (g_work cfg) @ '', '' @ rate @ '' msgs/s, checksum='' @
      hexadecimal (unat (g_checksum s)) @ '')'' @ newline" d]
    parse_printed [of "lu (n_items cfg') @ '' items, '' @ lu (n_producers cfg') @ '' producers, '' @ lu (n_consumers cfg') @
      '' consumers, work='' @ lu (work_iters cfg') @ '', '' @ rate @ '' msgs/s, checksum='' @
      hexadecimal (unat (checksum s')) @ '')'' @ newline" d]
    parse_printed [of "''photon, '' @ lu pairs @ '' pairs, '' @ lu (photon_per_pair pairs) @ '' msgs each)'' @ newline" d]
    parse_printed [of "''asio'' @ (if st then ''-st'' else '''') @ '', '' @ lu pairs @ '' pairs, '' @
      lu (asio_per_pair pairs) @ '' msgs each)'' @ newline" d]
    parse_printed [of "''asio'' @ (if st then ''-st'' else '''') @ '', '' @ lu n @ '' tasks, sleep '' @ lu ms @
      '' ms)'' @ newline" d]
    parse_printed [of "lu (g_tasks scfg) @ '' tasks, sleep '' @ lu (g_sleep_ms scfg) @ ''ms)'' @ newline" d]
  by (simp add: report_defs plain_text)

theorem reports_parsed_witness:
  "parse_ms (slp_report 12345 slp_default) = Milliseconds (12345 / 1000)"
proof -
  have "CHR 0x1B \<notin> set ''8''" by simp
  from reports_parsed [OF this] show ?thesis by (metis of_nat_numeral)
qed

text \<open>Two pools that ran with the same numbers, in the same time, print the same line exactly when
  they have the same checksum.\<close>

lemma pool_lines:
  assumes "cfg' = \<lparr>n_items = g_items cfg, n_producers = g_producers cfg, n_consumers = g_consumers cfg,
    work_iters = g_work cfg\<rparr>"
  shows "wpp_report d rate cfg s = wpa_report d rate cfg' s' \<longleftrightarrow> g_checksum s = checksum s'"
  using hexadecimal_inj [of "unat (g_checksum s)" "unat (checksum s')"]
  by (auto simp: report_defs assms intro: unsigned_word_eqI [where 'a = nat])

text \<open>
  The TCP servers on \<open>--mode\<close> and \<open>--port\<close>: with a known mode and a number that fits an \<open>int\<close>
  both start in that mode and announce the number modulo 65536 as their port, so \<open>--port=70000\<close>
  means 4464. A failed bind or listen aborts the Asio server and ends the photon server with 1.
\<close>

theorem tcp_mains_port:
  assumes "n < 2 ^ 31" and "(m, mode) \<in> {(''echo'', Echo), (''sink'', Sink), (''source'', Source)}"
    and "args = [''--mode='' @ m, ''--port='' @ decimal n]"
  shows "(\<exists>opts. asio_tcp_main jn hw True True a args = Inr (opts, tcp_start jn a) \<and> g_mode opts = mode \<and>
      num_threads opts = hw \<and>
      asio_banner opts = ''tcp_server_asio listening on 127.0.0.1:'' @ decimal (n mod 65536) @ newline) \<and>
    (\<exists>opts. photon_tcp_program (\<lambda>_. 0) 0 0 a args = Inr (opts, ptcp_start 0 0 0 a) \<and> g_mode opts = mode \<and>
      photon_banner opts = ''tcp_server_photon listening on 127.0.0.1:'' @ decimal (n mod 65536) @ newline) \<and>
    (\<not> bound \<or> \<not> listening \<longrightarrow> asio_tcp_main jn hw bound listening a args = Inl Aborted) \<and>
    (bind \<noteq> 0 \<or> listen \<noteq> 0 \<longrightarrow> (\<exists>opts s. photon_tcp_program (\<lambda>_. 0) bind listen a args = Inr (opts, s, [PExit 1])))"
proof -
  have p: "unat (word_of_nat n :: u16) = n mod 65536" by (simp add: unat_of_nat)
  have asio: "parse_args tcp_asio_arg args (tcp_default hw) =
      Inr ((tcp_default hw)\<lparr>g_mode := mode, port := word_of_int (int n)\<rparr>)" for hw
    using assms(2) atoi_decimal [OF assms(1)]
    by (auto simp: assms(3) tcp_asio_arg_def mode_arg_def strcmp_eq_def strncmp_is_prefix)
  have photon: "parse_args tcp_photon_arg args (False, tcp_default 0) =
      Inr (False, (tcp_default 0)\<lparr>g_mode := mode, port := word_of_int (int n)\<rparr>)"
    using assms(2) atoi_decimal [OF assms(1)]
    by (auto simp: assms(3) tcp_photon_arg_def mode_arg_def strcmp_eq_def strncmp_is_prefix)
  let ?w = "word_of_int (int n) :: u16"
  let ?a = "(tcp_default hw)\<lparr>g_mode := mode, port := ?w\<rparr>" and ?p = "(tcp_default 0)\<lparr>g_mode := mode, port := ?w\<rparr>"
  have "asio_tcp_main jn hw True True a args = Inr (?a, tcp_start jn a)"
    by (simp only: asio_tcp_main_def asio sum.case simp_thms if_False)
  then have "\<exists>opts. asio_tcp_main jn hw True True a args = Inr (opts, tcp_start jn a) \<and> g_mode opts = mode \<and>
      num_threads opts = hw \<and>
      asio_banner opts = ''tcp_server_asio listening on 127.0.0.1:'' @ decimal (n mod 65536) @ newline"
    by (intro exI [of _ ?a]) (simp add: asio_banner_def p tcp_default_def)
  moreover have main: "photon_tcp_program (\<lambda>_. 0) b l a args = Inr (?p, ptcp_start 0 b l a)" for b l
    by (simp only: photon_tcp_program_def photon sum.case prod.case)
  then have "\<exists>opts. photon_tcp_program (\<lambda>_. 0) 0 0 a args = Inr (opts, ptcp_start 0 0 0 a) \<and> g_mode opts = mode \<and>
      photon_banner opts = ''tcp_server_photon listening on 127.0.0.1:'' @ decimal (n mod 65536) @ newline"
    by (intro exI [of _ ?p]) (simp add: photon_banner_def p)
  moreover have "\<not> bound \<or> \<not> listening \<longrightarrow> asio_tcp_main jn hw bound listening a args = Inl Aborted"
    by (simp only: asio_tcp_main_def asio sum.case) simp
  moreover have "bind \<noteq> 0 \<or> listen \<noteq> 0 \<longrightarrow>
      (\<exists>opts s. photon_tcp_program (\<lambda>_. 0) bind listen a args = Inr (opts, s, [PExit 1]))"
    by (simp only: main) (simp add: ptcp_start_def)
  ultimately show ?thesis by blast
qed

theorem tcp_mains_port_witness:
  "\<exists>opts. asio_tcp_main nat_join 4 True True (0 :: nat) [''--mode=sink'', ''--port='' @ decimal 70000] =
      Inr (opts, tcp_start nat_join 0) \<and>
    asio_banner opts = ''tcp_server_asio listening on 127.0.0.1:'' @ decimal 4464 @ newline"
proof -
  have "(70000 :: nat) < 2 ^ 31" by simp
  note ports = conjunct1 [OF tcp_mains_port [OF this _ refl, of "''sink''" Sink nat_join 4 0]]
  have "decimal (70000 mod 65536) = decimal 4464" by simp
  with ports show ?thesis by (auto simp del: decimal.simps)
qed

end
