(* ===== verification/Futex_Channel.thy ===== *)
theory Futex_Channel
  imports Tasks
begin

text \<open>
  \<open>src/futex_channel.zig\<close>, the bounded channel of the Zig benchmarks: a ring buffer, two lists of
  waiters, and one futex word per waiter, all under one mutex. A waiter is a record on the stack of
  the call that blocks; its address is its index in \<open>frames\<close>, so an address is never used twice.
  Items are copied as values; \<open>junk\<close> is whatever the uninitialised destination of \<open>receive\<close> holds.

  The clients are tasks that each make a list of calls, in any interleaving. \<open>std.Io\<close> is modelled as
  the channel uses it: a mutex; \<open>futexWait\<close>, which puts the caller to sleep on a word that is 0;
  \<open>futexWake\<close>; and requests to cancel a task, which make a call of \<open>Mutex.lock\<close> or \<open>futexWait\<close> fail.
  Two kinds of environment tasks send a cancel request or wake a sleeper for no reason. A request
  that is noticed late is one that is sent late.
\<close>

section \<open>Data\<close>

record 'e waiter =
  w_futex :: u32
  w_data :: 'e
  w_done :: bool
  w_queued :: bool

record 'e fchan =
  f_buffer :: "'e list"
  f_capacity :: nat
  f_head :: nat
  f_tail :: nat
  f_count :: nat
  f_closed :: bool
  f_mutex :: bool
  f_senders :: "nat list"
  f_receivers :: "nat list"

text \<open>\<open>init\<close>: the capacity is the length of the buffer, 0 for an unbuffered channel.\<close>

definition fx_init :: "'e list \<Rightarrow> 'e fchan" where
  "fx_init buffer =
     \<lparr>f_buffer = buffer, f_capacity = length buffer, f_head = 0, f_tail = 0, f_count = 0, f_closed = False,
       f_mutex = False, f_senders = [], f_receivers = []\<rparr>"

text \<open>
  The channel, the waiters, the waiters asleep in \<open>futexWait\<close> and the tasks with a pending cancel
  request. \<open>given\<close> and \<open>taken\<close> are auxiliary: the items accepted from senders and delivered to
  receivers so far, in this order. No step depends on them.
\<close>

record 'e fsys =
  fx_chan :: "'e fchan"
  frames :: "'e waiter list"
  asleep :: "nat set"
  cancels :: "nat set"
  given :: "'e list"
  taken :: "'e list"

datatype 'e call = Send 'e | Receive | Close

datatype 'e result = Sent | Got 'e | WasClosed | WasCanceled | ClosedIt

text \<open>
  The suspension points of a call. \<open>FStore w r\<close> and \<open>FWake w r\<close> are the two actions of \<open>wake\<close>,
  on waiter \<open>w\<close>, with what follows: the call's result, or nothing inside the loop of \<open>close\<close>.
  From \<open>FUnlockPark\<close> on the call waits, as waiter \<open>w\<close>.
\<close>

datatype 'e fpc =
    FLock
  | FBody
  | FClosing
  | FStore nat "'e result option"
  | FWake nat "'e result option"
  | FUnlock "'e result"
  | FUnlockPark nat
  | FLoad nat
  | FWait nat
  | FAsleep nat
  | FCancelLock nat
  | FCancelBody nat
  | FSync nat
  | FSyncUnlock nat

datatype 'e ftask =
    FTask nat "'e call list" "'e fpc" "('e call \<times> 'e result) list"
  | Canceller nat
  | Disturber nat
  | EnvDone

section \<open>Under the mutex\<close>

definition push_slot :: "'e \<Rightarrow> 'e fchan \<Rightarrow> 'e fchan" where
  "push_slot v c =
     c\<lparr>f_buffer := (f_buffer c)[f_tail c := v], f_tail := (f_tail c + 1) mod f_capacity c, f_count := f_count c + 1\<rparr>"

definition pop_slot :: "'e fchan \<Rightarrow> 'e fchan" where
  "pop_slot c = c\<lparr>f_head := (f_head c + 1) mod f_capacity c, f_count := f_count c - 1\<rparr>"

text \<open>Hand a value to a receiver, take one from a sender, or release a waiter of a closed channel.\<close>

definition hand_over :: "'e \<Rightarrow> 'e waiter \<Rightarrow> 'e waiter" where
  "hand_over v w = w\<lparr>w_data := v, w_done := True, w_queued := False\<rparr>"

definition take_over :: "'e waiter \<Rightarrow> 'e waiter" where
  "take_over w = w\<lparr>w_done := True, w_queued := False\<rparr>"

definition drop_waiter :: "'e waiter \<Rightarrow> 'e waiter" where
  "drop_waiter w = w\<lparr>w_done := False, w_queued := False\<rparr>"

definition new_waiter :: "'e \<Rightarrow> 'e waiter" where
  "new_waiter v = \<lparr>w_futex = 0, w_data = v, w_done = False, w_queued = True\<rparr>"

definition on_frame :: "nat \<Rightarrow> ('e waiter \<Rightarrow> 'e waiter) \<Rightarrow> 'e fsys \<Rightarrow> 'e fsys" where
  "on_frame w f s = s\<lparr>frames := (frames s)[w := f (frames s ! w)]\<rparr>"

definition send_body :: "'e fsys \<Rightarrow> 'e \<Rightarrow> 'e fsys \<times> 'e fpc" where
  "send_body s v =
     (let c = fx_chan s in
      if f_closed c then (s, FUnlock WasClosed)
      else case f_receivers c of
        r # rs \<Rightarrow>
          (on_frame r (hand_over v) (s\<lparr>fx_chan := c\<lparr>f_receivers := rs\<rparr>, given := given s @ [v], taken := taken s @ [v]\<rparr>),
            FStore r (Some Sent))
      | [] \<Rightarrow>
          if f_count c < f_capacity c
          then (s\<lparr>fx_chan := push_slot v c, given := given s @ [v]\<rparr>, FUnlock Sent)
          else (let w = length (frames s)
                in (s\<lparr>fx_chan := c\<lparr>f_senders := f_senders c @ [w]\<rparr>, frames := frames s @ [new_waiter v]\<rparr>, FUnlockPark w)))"

definition receive_body :: "'e \<Rightarrow> 'e fsys \<Rightarrow> 'e fsys \<times> 'e fpc" where
  "receive_body junk s =
     (let c = fx_chan s in
      if 0 < f_count c then
        (let x = f_buffer c ! f_head c; c1 = pop_slot c
         in case f_senders c1 of
              w # ws \<Rightarrow>
                (let v = w_data (frames s ! w)
                 in (on_frame w take_over (s\<lparr>fx_chan := (push_slot v c1)\<lparr>f_senders := ws\<rparr>,
                       given := given s @ [v], taken := taken s @ [x]\<rparr>), FStore w (Some (Got x))))
            | [] \<Rightarrow> (s\<lparr>fx_chan := c1, taken := taken s @ [x]\<rparr>, FUnlock (Got x)))
      else case f_senders c of
        w # ws \<Rightarrow>
          (let v = w_data (frames s ! w)
           in (on_frame w take_over (s\<lparr>fx_chan := c\<lparr>f_senders := ws\<rparr>, given := given s @ [v], taken := taken s @ [v]\<rparr>),
                FStore w (Some (Got v))))
      | [] \<Rightarrow>
          if f_closed c then (s, FUnlock WasClosed)
          else (let w = length (frames s)
                in (s\<lparr>fx_chan := c\<lparr>f_receivers := f_receivers c @ [w]\<rparr>, frames := frames s @ [new_waiter junk]\<rparr>,
                     FUnlockPark w)))"

definition close_body :: "'e fsys \<Rightarrow> 'e fsys \<times> 'e fpc" where
  "close_body s =
     (let c = fx_chan s in
      if f_closed c then (s, FUnlock ClosedIt) else (s\<lparr>fx_chan := c\<lparr>f_closed := True\<rparr>\<rparr>, FClosing))"

text \<open>One round of the loops of \<open>close\<close>.\<close>

definition close_next :: "'e fsys \<Rightarrow> 'e fsys \<times> 'e fpc" where
  "close_next s =
     (let c = fx_chan s in
      case f_receivers c of
        r # rs \<Rightarrow> (on_frame r drop_waiter (s\<lparr>fx_chan := c\<lparr>f_receivers := rs\<rparr>\<rparr>), FStore r None)
      | [] \<Rightarrow> (case f_senders c of
          w # ws \<Rightarrow> (on_frame w drop_waiter (s\<lparr>fx_chan := c\<lparr>f_senders := ws\<rparr>\<rparr>), FStore w None)
        | [] \<Rightarrow> (s, FUnlock ClosedIt)))"

fun call_body :: "'e \<Rightarrow> 'e fsys \<Rightarrow> 'e call \<Rightarrow> 'e fsys \<times> 'e fpc" where
  "call_body junk s (Send v) = send_body s v"
| "call_body junk s Receive = receive_body junk s"
| "call_body junk s Close = close_body s"

text \<open>What a call that waited returns.\<close>

fun waited :: "'e call \<Rightarrow> 'e waiter \<Rightarrow> 'e result" where
  "waited (Send v) w = (if w_done w then Sent else WasClosed)"
| "waited Receive w = (if w_done w then Got (w_data w) else WasClosed)"
| "waited Close w = WasClosed"

text \<open>\<open>queue.remove\<close>, on the list the call waits in\<close>

fun unlink :: "'e call \<Rightarrow> nat \<Rightarrow> 'e fchan \<Rightarrow> 'e fchan" where
  "unlink (Send v) w c = c\<lparr>f_senders := remove1 w (f_senders c)\<rparr>"
| "unlink Receive w c = c\<lparr>f_receivers := remove1 w (f_receivers c)\<rparr>"
| "unlink Close w c = c"

section \<open>The calls, action by action\<close>

definition lock :: "'e fsys \<Rightarrow> 'e fsys option" where
  "lock s = (if f_mutex (fx_chan s) then None else Some (s\<lparr>fx_chan := (fx_chan s)\<lparr>f_mutex := True\<rparr>\<rparr>))"

definition unlock :: "'e fsys \<Rightarrow> 'e fsys" where
  "unlock s = s\<lparr>fx_chan := (fx_chan s)\<lparr>f_mutex := False\<rparr>\<rparr>"

text \<open>\<open>Inl\<close> is the next suspension point, \<open>Inr\<close> the result of the call.\<close>

fun fx_call_step :: "'e \<Rightarrow> nat \<Rightarrow> 'e fsys \<Rightarrow> 'e call \<Rightarrow> 'e fpc \<Rightarrow> ('e fsys \<times> ('e fpc + 'e result)) option" where
  "fx_call_step junk tid s call FLock =
     (if call \<noteq> Close \<and> tid \<in> cancels s then Some (s\<lparr>cancels := cancels s - {tid}\<rparr>, Inr WasCanceled)
      else map_option (\<lambda>s. (s, Inl FBody)) (lock s))"
| "fx_call_step junk tid s call FBody = (case call_body junk s call of (s', pc) \<Rightarrow> Some (s', Inl pc))"
| "fx_call_step junk tid s call FClosing = (case close_next s of (s', pc) \<Rightarrow> Some (s', Inl pc))"
| "fx_call_step junk tid s call (FStore w k) = Some (on_frame w (\<lambda>f. f\<lparr>w_futex := 1\<rparr>) s, Inl (FWake w k))"
| "fx_call_step junk tid s call (FWake w k) =
     Some (s\<lparr>asleep := asleep s - {w}\<rparr>, Inl (case k of None \<Rightarrow> FClosing | Some r \<Rightarrow> FUnlock r))"
| "fx_call_step junk tid s call (FUnlock r) = Some (unlock s, Inr r)"
| "fx_call_step junk tid s call (FUnlockPark w) = Some (unlock s, Inl (FLoad w))"
| "fx_call_step junk tid s call (FLoad w) =
     Some (s, Inl (if w_futex (frames s ! w) = 0 then FWait w else FSync w))"
| "fx_call_step junk tid s call (FWait w) =
     (if tid \<in> cancels s then Some (s\<lparr>cancels := cancels s - {tid}\<rparr>, Inl (FCancelLock w))
      else if w_futex (frames s ! w) = 0 then Some (s\<lparr>asleep := insert w (asleep s)\<rparr>, Inl (FAsleep w))
      else Some (s, Inl (FLoad w)))"
| "fx_call_step junk tid s call (FAsleep w) =
     (if tid \<in> cancels s
      then Some (s\<lparr>cancels := cancels s - {tid}, asleep := asleep s - {w}\<rparr>, Inl (FCancelLock w))
      else if w \<in> asleep s then None else Some (s, Inl (FLoad w)))"
| "fx_call_step junk tid s call (FCancelLock w) = map_option (\<lambda>s. (s, Inl (FCancelBody w))) (lock s)"
| "fx_call_step junk tid s call (FCancelBody w) =
     (if w_queued (frames s ! w)
      then Some (on_frame w (\<lambda>f. f\<lparr>w_queued := False\<rparr>) (s\<lparr>fx_chan := unlink call w (fx_chan s)\<rparr>), Inl (FUnlock WasCanceled))
      else Some (s, Inl (FSyncUnlock w)))"
| "fx_call_step junk tid s call (FSync w) = map_option (\<lambda>s. (s, Inl (FSyncUnlock w))) (lock s)"
| "fx_call_step junk tid s call (FSyncUnlock w) = Some (unlock s, Inr (waited call (frames s ! w)))"

fun fx_step :: "'e \<Rightarrow> ('e fsys, 'e ftask) task_step" where
  "fx_step junk s (FTask tid [] pc log) = None"
| "fx_step junk s (FTask tid (c # cs) pc log) =
     (case fx_call_step junk tid s c pc of
        None \<Rightarrow> None
      | Some (s', Inl pc') \<Rightarrow> Some (s', FTask tid (c # cs) pc' log, [])
      | Some (s', Inr r) \<Rightarrow> Some (s', FTask tid cs FLock (log @ [(c, r)]), []))"
| "fx_step junk s (Canceller tid) = Some (s\<lparr>cancels := insert tid (cancels s)\<rparr>, EnvDone, [])"
| "fx_step junk s (Disturber w) = Some (s\<lparr>asleep := asleep s - {w}\<rparr>, EnvDone, [])"
| "fx_step junk s EnvDone = None"

text \<open>A new channel, its clients with the calls they make, and the environment.\<close>

fun fx_fresh :: "'e ftask \<Rightarrow> bool" where
  "fx_fresh (FTask tid todo pc log) \<longleftrightarrow> pc = FLock \<and> log = []"
| "fx_fresh t = True"

definition fx_start :: "'e list \<Rightarrow> 'e fsys" where
  "fx_start buffer =
     \<lparr>fx_chan = fx_init buffer, frames = [], asleep = {}, cancels = {}, given = [], taken = []\<rparr>"

fun fx_finished :: "'e ftask \<Rightarrow> bool" where
  "fx_finished (FTask tid todo pc log) \<longleftrightarrow> todo = []"
| "fx_finished EnvDone = True"
| "fx_finished t = False"

end
