(* ===== verification/Futex_Invariant.thy ===== *)
theory Futex_Invariant
  imports Futex_Channel
begin

text \<open>
  The invariant of the futex channel, for any clients in any interleaving: the mutex excludes, the
  ring buffer and the waiter lists fit together, every waiter in a list belongs to a call that
  waits, a waker only touches waiters whose call has not returned, and no wake-up is lost.
\<close>

section \<open>The ring buffer\<close>

definition fx_contents :: "'e fchan \<Rightarrow> 'e list" where
  "fx_contents c = map (\<lambda>k. f_buffer c ! ((f_head c + k) mod f_capacity c)) [0..<f_count c]"

definition fx_ring :: "'e fchan \<Rightarrow> bool" where
  "fx_ring c \<longleftrightarrow> length (f_buffer c) = f_capacity c \<and> f_count c \<le> f_capacity c \<and>
     (f_head c < f_capacity c \<or> f_head c = 0 \<and> f_capacity c = 0) \<and>
     f_tail c = (f_head c + f_count c) mod f_capacity c"

lemma length_fx_contents [simp]: "length (fx_contents c) = f_count c"
  by (simp add: fx_contents_def)

lemma fx_contents_cong [simp]:
  "fx_contents (c\<lparr>f_senders := x\<rparr>) = fx_contents c" "fx_contents (c\<lparr>f_receivers := x\<rparr>) = fx_contents c"
  "fx_contents (c\<lparr>f_mutex := b\<rparr>) = fx_contents c" "fx_contents (c\<lparr>f_closed := b\<rparr>) = fx_contents c"
  by (simp_all add: fx_contents_def)

lemma fx_ring_cong [simp]:
  "fx_ring (c\<lparr>f_senders := x\<rparr>) = fx_ring c" "fx_ring (c\<lparr>f_receivers := x\<rparr>) = fx_ring c"
  "fx_ring (c\<lparr>f_mutex := b\<rparr>) = fx_ring c" "fx_ring (c\<lparr>f_closed := b\<rparr>) = fx_ring c"
  by (simp_all add: fx_ring_def)

lemma push_slot_simps [simp]:
  "f_count (push_slot v c) = f_count c + 1" "f_capacity (push_slot v c) = f_capacity c"
  "f_senders (push_slot v c) = f_senders c" "f_receivers (push_slot v c) = f_receivers c"
  "f_mutex (push_slot v c) = f_mutex c" "f_closed (push_slot v c) = f_closed c"
  by (simp_all add: push_slot_def)

lemma pop_slot_simps [simp]:
  "f_count (pop_slot c) = f_count c - 1" "f_capacity (pop_slot c) = f_capacity c"
  "f_senders (pop_slot c) = f_senders c" "f_receivers (pop_slot c) = f_receivers c"
  "f_mutex (pop_slot c) = f_mutex c" "f_closed (pop_slot c) = f_closed c"
  by (simp_all add: pop_slot_def)

lemma push_ring:
  assumes "fx_ring c" and "f_count c < f_capacity c"
  shows "fx_ring (push_slot v c)" and "fx_contents (push_slot v c) = fx_contents c @ [v]"
proof -
  note c = assms(1) [unfolded fx_ring_def]
  show "fx_ring (push_slot v c)" using c assms(2) by (simp add: fx_ring_def push_slot_def mod_Suc_eq)
  have "(f_buffer c)[f_tail c := v] ! ((f_head c + k) mod f_capacity c) =
      f_buffer c ! ((f_head c + k) mod f_capacity c)" if "k < f_count c" for k
    using ring_slots_differ [OF that assms(2), of "f_head c"] c by simp
  moreover have "(f_buffer c)[f_tail c := v] ! ((f_head c + f_count c) mod f_capacity c) = v"
    using c assms(2) by simp
  ultimately show "fx_contents (push_slot v c) = fx_contents c @ [v]"
    by (simp add: fx_contents_def push_slot_def)
qed

lemma pop_ring:
  assumes "fx_ring c" and "0 < f_count c"
  shows "fx_ring (pop_slot c)" and "fx_contents c = f_buffer c ! f_head c # fx_contents (pop_slot c)"
proof -
  note c = assms(1) [unfolded fx_ring_def]
  obtain n where n: "f_count c = Suc n" using assms(2) by (cases "f_count c") auto
  have shift: "((f_head c + 1) mod f_capacity c + k) mod f_capacity c = (f_head c + Suc k) mod f_capacity c" for k
    by (simp add: mod_simps)
  show "fx_ring (pop_slot c)" using c n shift [of n] by (auto simp: fx_ring_def pop_slot_def)
  have "fx_contents (pop_slot c) = map (\<lambda>k. f_buffer c ! ((f_head c + Suc k) mod f_capacity c)) [0..<n]"
    unfolding fx_contents_def pop_slot_def using shift by (simp add: n)
  moreover have "f_head c mod f_capacity c = f_head c" using c by auto
  ultimately show "fx_contents c = f_buffer c ! f_head c # fx_contents (pop_slot c)"
    by (simp add: fx_contents_def n map_upt_Suc del: upt_Suc)
qed

section \<open>Where the calls are\<close>

text \<open>\<open>fx_at f t\<close> is a quantity of the call task \<open>t\<close> is in; it is 0 at \<open>FLock\<close> for every \<open>f\<close> below.\<close>

fun fx_at :: "('e call \<Rightarrow> 'e fpc \<Rightarrow> nat) \<Rightarrow> 'e ftask \<Rightarrow> nat" where
  "fx_at f (FTask tid (c # cs) pc log) = f c pc"
| "fx_at f t = 0"

text \<open>inside the mutex\<close>

fun fx_inside :: "'e call \<Rightarrow> 'e fpc \<Rightarrow> nat" where
  "fx_inside c FBody = 1"
| "fx_inside c FClosing = 1"
| "fx_inside c (FStore w k) = 1"
| "fx_inside c (FWake w k) = 1"
| "fx_inside c (FUnlock r) = 1"
| "fx_inside c (FUnlockPark w) = 1"
| "fx_inside c (FCancelBody w) = 1"
| "fx_inside c (FSyncUnlock w) = 1"
| "fx_inside c pc = 0"

text \<open>in the loop of \<open>close\<close>\<close>

fun fx_closing :: "'e call \<Rightarrow> 'e fpc \<Rightarrow> nat" where
  "fx_closing c FClosing = 1"
| "fx_closing c (FStore w None) = 1"
| "fx_closing c (FWake w None) = 1"
| "fx_closing c pc = 0"

text \<open>waiting as a waiter\<close>

fun fx_waiter :: "'e fpc \<Rightarrow> nat option" where
  "fx_waiter (FUnlockPark w) = Some w"
| "fx_waiter (FLoad w) = Some w"
| "fx_waiter (FWait w) = Some w"
| "fx_waiter (FAsleep w) = Some w"
| "fx_waiter (FCancelLock w) = Some w"
| "fx_waiter (FCancelBody w) = Some w"
| "fx_waiter (FSync w) = Some w"
| "fx_waiter (FSyncUnlock w) = Some w"
| "fx_waiter pc = None"

fun fx_sends :: "nat \<Rightarrow> 'e call \<Rightarrow> 'e fpc \<Rightarrow> nat" where
  "fx_sends w (Send v) pc = (if fx_waiter pc = Some w then 1 else 0)"
| "fx_sends w c pc = 0"

fun fx_receives :: "nat \<Rightarrow> 'e call \<Rightarrow> 'e fpc \<Rightarrow> nat" where
  "fx_receives w Receive pc = (if fx_waiter pc = Some w then 1 else 0)"
| "fx_receives w c pc = 0"

text \<open>waking a waiter\<close>

fun fx_stores :: "nat \<Rightarrow> 'e call \<Rightarrow> 'e fpc \<Rightarrow> nat" where
  "fx_stores w c (FStore u k) = (if u = w then 1 else 0)"
| "fx_stores w c pc = 0"

fun fx_wakes :: "nat \<Rightarrow> 'e call \<Rightarrow> 'e fpc \<Rightarrow> nat" where
  "fx_wakes w c (FWake u k) = (if u = w then 1 else 0)"
| "fx_wakes w c pc = 0"

lemma waker_inside: "fx_stores w c pc + fx_wakes w c pc \<le> fx_inside c pc"
  by (cases pc) auto

lemma closing_inside: "fx_closing c pc \<le> fx_inside c pc"
  by (induction c pc rule: fx_closing.induct) auto

fun fx_res :: "('e call \<Rightarrow> 'e fpc \<Rightarrow> nat) \<Rightarrow> 'e call \<Rightarrow> 'e fpc + 'e result \<Rightarrow> nat" where
  "fx_res f c (Inl pc) = f c pc"
| "fx_res f c (Inr r) = 0"

section \<open>The invariant, quantity by quantity\<close>

text \<open>
  The channel, given how many calls are in the loop of \<open>close\<close>: waiting senders mean a full buffer,
  waiting receivers an empty one and no waiting senders, and a closed channel has no waiters.
\<close>

definition fx_lists :: "'e fchan \<Rightarrow> nat \<Rightarrow> bool" where
  "fx_lists c closing \<longleftrightarrow>
     (f_senders c \<noteq> [] \<longrightarrow> f_count c = f_capacity c) \<and>
     (f_receivers c \<noteq> [] \<longrightarrow> f_count c = 0 \<and> f_senders c = []) \<and>
     distinct (f_senders c) \<and> distinct (f_receivers c) \<and>
     (f_closed c \<and> closing = 0 \<longrightarrow> f_senders c = [] \<and> f_receivers c = [])"

text \<open>
  Waiter \<open>w\<close>, given how many calls send and receive as \<open>w\<close> and how many are storing to and waking it.
\<close>

definition fx_frame :: "'e fsys \<Rightarrow> nat \<Rightarrow> nat \<Rightarrow> nat \<Rightarrow> nat \<Rightarrow> nat \<Rightarrow> bool" where
  "fx_frame s w sd rc st wk \<longleftrightarrow>
     (\<not> w < length (frames s) \<longrightarrow> sd + rc = 0 \<and> w \<notin> set (f_senders (fx_chan s)) \<and> w \<notin> set (f_receivers (fx_chan s))) \<and>
     sd + rc \<le> 1 \<and> st + wk \<le> sd + rc \<and>
     (w \<in> set (f_senders (fx_chan s)) \<longrightarrow> sd = 1) \<and>
     (w \<in> set (f_receivers (fx_chan s)) \<longrightarrow> rc = 1) \<and>
     (w < length (frames s) \<longrightarrow>
        w_queued (frames s ! w) = (w \<in> set (f_senders (fx_chan s)) \<union> set (f_receivers (fx_chan s))) \<and>
        (w_queued (frames s ! w) \<longrightarrow> w_futex (frames s ! w) = 0 \<and> \<not> w_done (frames s ! w) \<and> st + wk = 0) \<and>
        (sd + rc = 0 \<or> w_queued (frames s ! w) \<or> w_futex (frames s ! w) \<noteq> 0 \<or> st \<noteq> 0) \<and>
        (w \<in> asleep s \<and> w_futex (frames s ! w) \<noteq> 0 \<longrightarrow> wk \<noteq> 0))"

text \<open>What a call that waits knows of its waiter.\<close>

fun fx_knows :: "'e fsys \<Rightarrow> 'e ftask \<Rightarrow> bool" where
  "fx_knows s (FTask tid (c # cs) pc log) \<longleftrightarrow>
     (\<forall>w. fx_waiter pc = Some w \<longrightarrow> c \<noteq> Close \<and> w < length (frames s) \<and>
        (\<forall>v. c = Send v \<longrightarrow> w_data (frames s ! w) = v)) \<and>
     (\<forall>w. pc = FSync w \<or> pc = FSyncUnlock w \<longrightarrow> \<not> w_queued (frames s ! w)) \<and>
     (fx_closing c pc \<noteq> 0 \<longrightarrow> c = Close)"
| "fx_knows s t = True"

definition fx_sums :: "'e fsys \<Rightarrow> 'e ftask list \<Rightarrow> bool" where
  "fx_sums s ts \<longleftrightarrow>
     tsum (fx_at fx_inside) ts = (if f_mutex (fx_chan s) then 1 else 0) \<and>
     fx_lists (fx_chan s) (tsum (fx_at fx_closing) ts) \<and>
     (\<forall>w. fx_frame s w (tsum (fx_at (fx_sends w)) ts) (tsum (fx_at (fx_receives w)) ts)
        (tsum (fx_at (fx_stores w)) ts) (tsum (fx_at (fx_wakes w)) ts))"

section \<open>One action\<close>

lemmas fx_step_defs = send_body_def receive_body_def close_body_def close_next_def lock_def unlock_def Let_def

lemma mutex_call:
  assumes "fx_call_step junk tid s c pc = Some (s', res)"
    and "r + fx_inside c pc = (if f_mutex (fx_chan s) then 1 else 0)"
  shows "r + fx_res fx_inside c res = (if f_mutex (fx_chan s') then 1 else 0)"
  using assms
  by (cases pc; cases c) (auto simp: fx_step_defs on_frame_def split: if_splits list.splits option.splits)

lemma lists_send:
  assumes "send_body s v = (s', pc)" and "fx_lists (fx_chan s) 0" and "fx_ring (fx_chan s)"
    and "length (frames s) \<notin> set (f_senders (fx_chan s))"
  shows "fx_lists (fx_chan s') 0 \<and> fx_closing c pc = 0"
  using assms
  by (auto simp: send_body_def Let_def on_frame_def fx_lists_def fx_ring_def split: if_splits list.splits)

lemma lists_receive:
  assumes "receive_body junk s = (s', pc)" and "fx_lists (fx_chan s) 0" and "fx_ring (fx_chan s)"
    and "length (frames s) \<notin> set (f_receivers (fx_chan s))"
  shows "fx_lists (fx_chan s') 0 \<and> fx_closing c pc = 0"
  using assms
  by (auto simp: receive_body_def Let_def on_frame_def fx_lists_def fx_ring_def split: if_splits list.splits)

lemma lists_close:
  assumes "close_body s = (s', pc)" and "fx_lists (fx_chan s) 0"
  shows "fx_lists (fx_chan s') (fx_closing c pc)"
  using assms by (auto simp: close_body_def Let_def fx_lists_def split: if_splits)

lemma lists_next:
  assumes "close_next s = (s', pc)" and "fx_lists (fx_chan s) 1"
  shows "fx_lists (fx_chan s') (fx_closing c pc)"
  using assms by (auto simp: close_next_def Let_def on_frame_def fx_lists_def split: list.splits)

lemma lists_unlink: "fx_lists c k \<Longrightarrow> fx_lists (unlink call w c) k"
  by (cases call) (auto simp: fx_lists_def)

lemma fx_lists_cong [simp]: "fx_lists (c\<lparr>f_mutex := b\<rparr>) k = fx_lists c k"
  by (simp add: fx_lists_def)

lemma lists_call:
  assumes "fx_call_step junk tid s c pc = Some (s', res)"
    and "fx_lists (fx_chan s) (r + fx_closing c pc)" and "fx_ring (fx_chan s)"
    and "r \<noteq> 0 \<Longrightarrow> fx_inside c pc = 0"
    and "length (frames s) \<notin> set (f_senders (fx_chan s)) \<union> set (f_receivers (fx_chan s))"
  shows "fx_lists (fx_chan s') (r + fx_res fx_closing c res)"
proof (cases pc)
  case FBody
  then have r: "r = 0" using assms(4) by auto
  show ?thesis
    using assms FBody r lists_send [of s _ s' _ c] lists_receive [of junk s s' _ c] lists_close [of s s' _ c]
    by (cases c) (auto split: prod.splits)
next
  case FClosing
  then have r: "r = 0" using assms(4) by auto
  with FClosing assms lists_next [of s s' _ c] show ?thesis by (auto split: prod.splits)
next
  case (FWake w k)
  with assms show ?thesis by (cases k) auto
next
  case (FStore w k)
  with assms show ?thesis by (cases k) (auto simp: on_frame_def)
qed (use assms lists_unlink in \<open>auto simp: lock_def unlock_def on_frame_def split: if_splits\<close>)

section \<open>One waiter\<close>

lemma frame_pop:
  assumes "fx_frame s w sd rc 0 0" and "w = u \<longrightarrow> w_queued (frames s ! u)"
    and "u \<in> set (f_senders (fx_chan s)) \<union> set (f_receivers (fx_chan s))"
    and "frames s' = (frames s)[u := f]" and "w_futex f = 0" and "\<not> w_queued f" and "asleep s' = asleep s"
    and "set (f_senders (fx_chan s')) \<union> set (f_receivers (fx_chan s')) =
      set (f_senders (fx_chan s)) \<union> set (f_receivers (fx_chan s)) - {u}"
    and "set (f_senders (fx_chan s')) \<subseteq> set (f_senders (fx_chan s))"
    and "set (f_receivers (fx_chan s')) \<subseteq> set (f_receivers (fx_chan s))"
  shows "fx_frame s' w sd rc (if u = w then 1 else 0) 0"
  using assms by (cases "u = w") (auto simp: fx_frame_def)

lemma frame_append:
  assumes "fx_frame s w sd rc 0 0" and "frames s' = frames s @ [new_waiter v]" and "asleep s' = asleep s"
    and "f_senders (fx_chan s') = f_senders (fx_chan s) @ (if a then [length (frames s)] else [])"
    and "f_receivers (fx_chan s') = f_receivers (fx_chan s) @ (if a then [] else [length (frames s)])"
  shows "fx_frame s' w (sd + (if a \<and> length (frames s) = w then 1 else 0))
    (rc + (if \<not> a \<and> length (frames s) = w then 1 else 0)) 0 0"
proof (cases "w < length (frames s)")
  case True
  with assms show ?thesis by (auto simp: fx_frame_def nth_append)
next
  case False
  with assms show ?thesis by (cases "w = length (frames s)") (auto simp: fx_frame_def nth_append new_waiter_def)
qed

lemma frame_same:
  assumes "fx_frame s w sd rc st wk" and "frames s' = frames s" and "asleep s' = asleep s"
    and "f_senders (fx_chan s') = f_senders (fx_chan s)" and "f_receivers (fx_chan s') = f_receivers (fx_chan s)"
  shows "fx_frame s' w sd rc st wk"
  using assms(1) unfolding fx_frame_def assms(2-5) .

lemma frame_queued:
  assumes "fx_frame s u sd rc st wk" and "u \<in> set (f_senders (fx_chan s)) \<union> set (f_receivers (fx_chan s))"
  shows "w_queued (frames s ! u)" and "w_futex (frames s ! u) = 0"
  using assms by (auto simp: fx_frame_def)

lemma frame_receiver: "fx_frame s w sd rc st wk \<Longrightarrow> w \<in> set (f_receivers (fx_chan s)) \<Longrightarrow> sd = 0"
  by (auto simp: fx_frame_def)

lemma frame_asleep:
  "fx_frame s w sd rc st wk \<Longrightarrow> w < length (frames s) \<Longrightarrow> w_queued (frames s ! w) \<Longrightarrow> w_futex (frames s ! w) = 0"
  by (auto simp: fx_frame_def)

text \<open>A pop from either list, in the form the bodies have it.\<close>

lemma frame_pop_senders:
  assumes "fx_frame s w sd rc 0 0" and "\<And>u. \<exists>sd rc. fx_frame s u sd rc 0 0" and "fx_lists (fx_chan s) k"
    and "f_senders (fx_chan s) = u # us" and "frames s' = (frames s)[u := f (frames s ! u)]"
    and "\<And>f'. w_futex (f f') = w_futex f'" and "\<And>f'. \<not> w_queued (f f')" and "asleep s' = asleep s"
    and "f_senders (fx_chan s') = us" and "f_receivers (fx_chan s') = f_receivers (fx_chan s)"
  shows "fx_frame s' w sd rc (if u = w then 1 else 0) 0"
proof -
  from assms(2) obtain sd' rc' where u: "fx_frame s u sd' rc' 0 0" by blast
  with assms(4) have "u \<notin> set (f_receivers (fx_chan s))" by (auto simp: fx_frame_def)
  moreover have "u \<notin> set us" using assms(3,4) by (auto simp: fx_lists_def)
  ultimately show ?thesis
    using frame_queued [OF u] assms(4-10) by (intro frame_pop [OF assms(1), of u s' "f (frames s ! u)"]) auto
qed

lemma frame_pop_receivers:
  assumes "fx_frame s w sd rc 0 0" and "\<And>u. \<exists>sd rc. fx_frame s u sd rc 0 0" and "fx_lists (fx_chan s) k"
    and "f_receivers (fx_chan s) = u # us" and "frames s' = (frames s)[u := f (frames s ! u)]"
    and "\<And>f'. w_futex (f f') = w_futex f'" and "\<And>f'. \<not> w_queued (f f')" and "asleep s' = asleep s"
    and "f_receivers (fx_chan s') = us" and "f_senders (fx_chan s') = f_senders (fx_chan s)"
  shows "fx_frame s' w sd rc (if u = w then 1 else 0) 0"
proof -
  from assms(2) obtain sd' rc' where u: "fx_frame s u sd' rc' 0 0" by blast
  with assms(4) have "u \<notin> set (f_senders (fx_chan s))" by (auto simp: fx_frame_def)
  moreover have "u \<notin> set us" using assms(3,4) by (auto simp: fx_lists_def)
  ultimately show ?thesis
    using frame_queued [OF u] assms(4-10) by (intro frame_pop [OF assms(1), of u s' "f (frames s ! u)"]) auto
qed

lemma waiter_updates [simp]:
  "w_futex (hand_over v f) = w_futex f" "w_futex (take_over f) = w_futex f" "w_futex (drop_waiter f) = w_futex f"
  "\<not> w_queued (hand_over v f)" "\<not> w_queued (take_over f)" "\<not> w_queued (drop_waiter f)"
  "w_data (take_over f) = w_data f" "w_data (drop_waiter f) = w_data f" "w_data (hand_over v f) = v"
  "w_done (take_over f)" "w_done (hand_over v f)" "\<not> w_done (drop_waiter f)"
  by (simp_all add: hand_over_def take_over_def drop_waiter_def)

lemma frame_send:
  assumes "send_body s v = (s', pc)" and "fx_frame s w sd rc 0 0" and "\<And>u. \<exists>sd rc. fx_frame s u sd rc 0 0"
    and "fx_lists (fx_chan s) k"
  shows "fx_frame s' w (sd + fx_sends w (Send v) pc) (rc + fx_receives w (Send v) pc)
    (fx_stores w (Send v) pc) (fx_wakes w (Send v) pc)"
  using assms(1) frame_same [OF assms(2), of s'] frame_append [OF assms(2), of s' v True]
    frame_pop_receivers [OF assms(2-4), of _ _ s' "hand_over v"]
  by (auto simp: send_body_def Let_def on_frame_def split: if_splits list.splits)

lemma frame_receive:
  assumes "receive_body junk s = (s', pc)" and "fx_frame s w sd rc 0 0" and "\<And>u. \<exists>sd rc. fx_frame s u sd rc 0 0"
    and "fx_lists (fx_chan s) k"
  shows "fx_frame s' w (sd + fx_sends w Receive pc) (rc + fx_receives w Receive pc)
    (fx_stores w Receive pc) (fx_wakes w Receive pc)"
  using assms(1) frame_same [OF assms(2), of s'] frame_append [OF assms(2), of s' junk False]
    frame_pop_senders [OF assms(2-4), of _ _ s' take_over]
  by (auto simp: receive_body_def Let_def on_frame_def split: if_splits list.splits)

lemma frame_close:
  assumes "close_body s = (s', pc)" and "fx_frame s w sd rc 0 0"
  shows "fx_frame s' w sd rc (fx_stores w c pc) (fx_wakes w c pc) \<and> fx_sends w c pc = 0 \<and> fx_receives w c pc = 0"
  using assms(1) frame_same [OF assms(2), of s']
  by (cases c) (auto simp: close_body_def Let_def split: if_splits)

lemma frame_next:
  assumes "close_next s = (s', pc)" and "fx_frame s w sd rc 0 0" and "\<And>u. \<exists>sd rc. fx_frame s u sd rc 0 0"
    and "fx_lists (fx_chan s) k"
  shows "fx_frame s' w sd rc (fx_stores w c pc) (fx_wakes w c pc) \<and> fx_sends w c pc = 0 \<and> fx_receives w c pc = 0"
  using assms(1) frame_same [OF assms(2), of s'] frame_pop_senders [OF assms(2-4), of _ _ s' drop_waiter]
    frame_pop_receivers [OF assms(2-4), of _ _ s' drop_waiter]
  by (cases c) (auto simp: close_next_def Let_def on_frame_def split: list.splits)

lemma frame_store:
  assumes "fx_frame s w sd rc (st + (if u = w then 1 else 0)) wk"
  shows "fx_frame (on_frame u (\<lambda>f. f\<lparr>w_futex := 1\<rparr>) s) w sd rc st (wk + (if u = w then 1 else 0))"
  using assms by (cases "u = w") (auto simp: fx_frame_def on_frame_def)

lemma frame_wake:
  assumes "fx_frame s w sd rc st (wk + (if u = w then 1 else 0))"
  shows "fx_frame (s\<lparr>asleep := asleep s - {u}\<rparr>) w sd rc st wk"
  using assms by (auto simp: fx_frame_def)

lemma frame_sleep:
  assumes "fx_frame s w sd rc st wk" and "w_futex (frames s ! u) = 0"
  shows "fx_frame (s\<lparr>asleep := insert u (asleep s)\<rparr>) w sd rc st wk"
  using assms by (auto simp: fx_frame_def)

lemma frame_rouse:
  assumes "fx_frame s w sd rc st wk"
  shows "fx_frame (s\<lparr>cancels := x, asleep := asleep s - {u}\<rparr>) w sd rc st wk"
    and "fx_frame (s\<lparr>asleep := asleep s - {u}\<rparr>) w sd rc st wk"
  using assms by (auto simp: fx_frame_def)

lemma frame_unlink:
  assumes "fx_frame s w (sd + fx_sends w c (FCancelBody u)) (rc + fx_receives w c (FCancelBody u)) 0 0"
    and "fx_lists (fx_chan s) k" and "c \<noteq> Close" and "u < length (frames s)"
  shows "fx_frame (on_frame u (\<lambda>f. f\<lparr>w_queued := False\<rparr>) (s\<lparr>fx_chan := unlink c u (fx_chan s)\<rparr>)) w sd rc 0 0"
  using assms by (cases c; cases "u = w") (auto simp: fx_frame_def on_frame_def fx_lists_def)

lemma frame_leave:
  assumes "fx_frame s w (sd + fx_sends w c (FSyncUnlock u)) (rc + fx_receives w c (FSyncUnlock u)) 0 0"
    and "c \<noteq> Close" and "u < length (frames s)" and "\<not> w_queued (frames s ! u)"
  shows "fx_frame s w sd rc 0 0"
  using assms by (cases c; cases "u = w") (auto simp: fx_frame_def)

lemma frame_lock: "fx_frame (s\<lparr>fx_chan := (fx_chan s)\<lparr>f_mutex := b\<rparr>\<rparr>) w = fx_frame s w"
  "fx_frame (s\<lparr>cancels := x\<rparr>) w = fx_frame s w"
  by (simp_all add: fx_frame_def fun_eq_iff)

lemma waits_res:
  assumes "fx_waiter pc = fx_waiter pc'"
  shows "fx_sends w c pc = fx_sends w c pc'" and "fx_receives w c pc = fx_receives w c pc'"
  by (cases c; simp add: assms)+

lemma waits_none [simp]:
  assumes "fx_waiter pc = None"
  shows "fx_sends w c pc = 0" and "fx_receives w c pc = 0"
  by (cases c; simp add: assms)+

lemma frame_call:
  assumes step: "fx_call_step junk tid s c pc = Some (s', res)"
    and frame: "\<And>w. fx_frame s w (a w + fx_sends w c pc) (b w + fx_receives w c pc) (d w + fx_stores w c pc) (e w + fx_wakes w c pc)"
    and alone: "\<And>w. fx_inside c pc \<noteq> 0 \<Longrightarrow> d w = 0 \<and> e w = 0"
    and lists: "fx_lists (fx_chan s) k" and knows: "fx_knows s (FTask tid (c # cs) pc log)"
  shows "fx_frame s' w (a w + fx_res (fx_sends w) c res) (b w + fx_res (fx_receives w) c res)
    (d w + fx_res (fx_stores w) c res) (e w + fx_res (fx_wakes w) c res)"
proof (cases pc)
  case FBody
  then have f: "fx_frame s w (a w) (b w) 0 0" for w using frame [of w] alone [of w] by simp
  then have ex: "\<And>u. \<exists>sd rc. fx_frame s u sd rc 0 0" by blast
  from FBody step obtain pc' where c: "call_body junk s c = (s', pc')" "res = Inl pc'" by (auto split: prod.splits)
  from c f [of w] show ?thesis
    using frame_send [OF _ f ex lists, of _ s' pc' w] frame_receive [OF _ f ex lists, of junk s' pc' w]
      frame_close [OF _ f, of s' pc' w c] alone [of w] FBody
    by (cases c) auto
next
  case FClosing
  then have f: "fx_frame s w (a w) (b w) 0 0" for w using frame [of w] alone [of w] by simp
  then have ex: "\<And>u. \<exists>sd rc. fx_frame s u sd rc 0 0" by blast
  from FClosing step obtain pc' where "close_next s = (s', pc')" "res = Inl pc'" by (auto split: prod.splits)
  with frame_next [OF _ f ex lists, of s' pc' w c] alone [of w] FClosing show ?thesis by auto
next
  case (FStore u k)
  with step frame_store [of s w _ _ "d w" u "e w"] frame [of w] show ?thesis by auto
next
  case (FWake u k)
  with step frame_wake [of s w _ _ "d w" "e w" u] frame [of w] show ?thesis by (auto split: option.splits)
next
  case (FWait u)
  with step frame [of w] frame_sleep [of s w _ _ _ _ u] show ?thesis
    by (cases c) (auto simp: frame_lock split: if_splits)
next
  case (FAsleep u)
  with step frame [of w] frame_rouse [where s = s and w = w and u = u] show ?thesis
    by (cases c) (auto split: if_splits)
next
  case (FCancelBody u)
  with step frame [of w] frame_unlink [OF _ lists, of w "a w" c u "b w"] alone [of w] knows waits_res [of pc "FSyncUnlock u" w c]
  show ?thesis by (auto split: if_splits)
next
  case (FSyncUnlock u)
  with step frame [of w] frame_leave [of s w "a w" c u "b w"] alone [of w] knows show ?thesis
    by (auto simp: unlock_def frame_lock)
qed (use step frame [of w] waits_res [of pc _ w c] in \<open>cases c; auto simp: lock_def unlock_def frame_lock split: if_splits\<close>)+

text \<open>What one action does to the waiters of others.\<close>

definition fx_keeps :: "'e fsys \<Rightarrow> 'e fsys \<Rightarrow> bool" where
  "fx_keeps s s' \<longleftrightarrow> length (frames s) \<le> length (frames s') \<and>
     (\<forall>w < length (frames s). (w_queued (frames s' ! w) \<longrightarrow> w_queued (frames s ! w)) \<and>
        (w \<notin> set (f_receivers (fx_chan s)) \<longrightarrow> w_data (frames s' ! w) = w_data (frames s ! w)) \<and>
        (w_futex (frames s' ! w) = w_futex (frames s ! w) \<or> w_futex (frames s' ! w) \<noteq> 0))"

lemma keeps_same: "frames s' = frames s \<Longrightarrow> fx_keeps s s'"
  by (simp add: fx_keeps_def)

lemma keeps_append: "frames s' = frames s @ [f] \<Longrightarrow> fx_keeps s s'"
  by (simp add: fx_keeps_def nth_append)

lemma keeps_upd:
  assumes "frames s' = (frames s)[u := f]" and "w_queued f \<longrightarrow> w_queued (frames s ! u)"
    and "w_data f = w_data (frames s ! u) \<or> u \<in> set (f_receivers (fx_chan s))"
    and "w_futex f = w_futex (frames s ! u) \<or> w_futex f \<noteq> 0"
  shows "fx_keeps s s'"
  using assms by (cases "u < length (frames s)") (auto simp: fx_keeps_def nth_list_update)

lemma keeps_send: "send_body s v = (s', pc) \<Longrightarrow> fx_keeps s s'"
  using keeps_same [of s' s] keeps_append [of s' s "new_waiter v"] keeps_upd [of s' s]
  by (auto simp: send_body_def Let_def on_frame_def split: if_splits list.splits)

lemma keeps_receive: "receive_body junk s = (s', pc) \<Longrightarrow> fx_keeps s s'"
  using keeps_same [of s' s] keeps_append [of s' s "new_waiter junk"] keeps_upd [of s' s]
  by (auto simp: receive_body_def Let_def on_frame_def split: if_splits list.splits)

lemma keeps_next: "close_next s = (s', pc) \<Longrightarrow> fx_keeps s s'"
  using keeps_same [of s' s] keeps_upd [of s' s]
  by (auto simp: close_next_def Let_def on_frame_def split: list.splits)

lemma keeps_body: "call_body junk s c = (s', pc) \<Longrightarrow> fx_keeps s s'"
  using keeps_send [of s _ s' pc] keeps_receive [of junk s s' pc] keeps_same [of s' s]
  by (cases c) (auto simp: close_body_def Let_def split: if_splits)

lemma keeps_call:
  assumes "fx_call_step junk tid s c pc = Some (s', res)"
  shows "fx_keeps s s'"
proof (cases pc)
  case FBody
  with assms keeps_body [of junk s c s'] show ?thesis by (auto split: prod.splits)
next
  case FClosing
  with assms keeps_next [of s s'] show ?thesis by (auto split: prod.splits)
next
  case (FStore u k)
  with assms keeps_upd [of s' s u] show ?thesis by (auto simp: on_frame_def)
next
  case (FCancelBody u)
  with assms keeps_upd [of s' s u] keeps_same [of s' s] show ?thesis by (auto simp: on_frame_def split: if_splits)
qed (use assms keeps_same [of s' s] in \<open>auto simp: lock_def unlock_def split: if_splits\<close>)

lemma knows_other:
  assumes "fx_keeps s s'" and "fx_knows s t"
    and "\<And>w. w \<in> set (f_receivers (fx_chan s)) \<Longrightarrow> fx_at (fx_sends w) t = 0"
  shows "fx_knows s' t"
proof (cases t)
  case (FTask tid todo pc log)
  show ?thesis
  proof (cases todo)
    case (Cons c cs)
    have "w \<notin> set (f_receivers (fx_chan s))" if "fx_waiter pc = Some w" "c = Send v" for w v
      using assms(3) [of w] FTask Cons that by auto
    with assms(1,2) FTask Cons show ?thesis by (auto simp: fx_keeps_def)
  qed (simp add: FTask)
qed simp_all

lemma body_knows:
  assumes "call_body junk s c = (s', pc)"
  shows "fx_knows s' (FTask tid (c # cs) pc log)"
proof (cases c)
  case (Send v)
  with assms show ?thesis
    by (auto simp: send_body_def Let_def on_frame_def new_waiter_def split: if_splits list.splits)
next
  case Receive
  with assms show ?thesis
    by (auto simp: receive_body_def Let_def on_frame_def split: if_splits list.splits)
next
  case Close
  with assms show ?thesis by (auto simp: close_body_def Let_def split: if_splits)
qed

lemma knows_own:
  assumes "fx_call_step junk tid s c pc = Some (s', Inl pc')" and "fx_knows s (FTask tid (c # cs) pc log)"
    and "\<And>w. w < length (frames s) \<Longrightarrow> w_queued (frames s ! w) \<Longrightarrow> w_futex (frames s ! w) = 0"
  shows "fx_knows s' (FTask tid (c # cs) pc' log)"
proof (cases pc)
  case FBody
  with assms(1) body_knows [of junk s c s' pc' tid cs log] show ?thesis by (auto split: prod.splits)
next
  case FClosing
  with assms(1,2) show ?thesis
    by (auto simp: close_next_def Let_def on_frame_def split: prod.splits list.splits)
next
  case (FStore u k)
  with assms(1,2) show ?thesis by (cases k) (auto simp: on_frame_def)
next
  case (FWake u k)
  with assms(1,2) show ?thesis by (cases k) auto
next
  case (FCancelBody u)
  with assms(1,2) show ?thesis by (cases "w_queued (frames s ! u)"; cases c) auto
next
  case (FLoad u)
  with assms show ?thesis by (cases c) (auto split: if_splits)
qed (use assms(1,2) in \<open>cases c; auto simp: lock_def unlock_def split: if_splits\<close>)+

lemma body_ring:
  assumes "call_body junk s c = (s', pc)" and "fx_ring (fx_chan s)" and "fx_lists (fx_chan s) k"
  shows "fx_ring (fx_chan s')"
proof (cases c)
  case (Send v)
  with assms push_ring [of "fx_chan s" v] show ?thesis
    by (auto simp: send_body_def Let_def on_frame_def split: if_splits list.splits)
next
  case Receive
  have "f_count (pop_slot (fx_chan s)) < f_capacity (pop_slot (fx_chan s))" if "0 < f_count (fx_chan s)"
    using that assms(2) by (auto simp: fx_ring_def)
  with Receive assms pop_ring(1) [of "fx_chan s"] push_ring(1) [of "pop_slot (fx_chan s)"] show ?thesis
    by (auto simp: receive_body_def Let_def on_frame_def split: if_splits list.splits)
next
  case Close
  with assms show ?thesis by (auto simp: close_body_def Let_def split: if_splits)
qed

lemma ring_call:
  assumes "fx_call_step junk tid s c pc = Some (s', res)" and "fx_ring (fx_chan s)"
    and "fx_lists (fx_chan s) k"
  shows "fx_ring (fx_chan s')"
proof (cases pc)
  case FBody
  with assms body_ring [of junk s c s' _ k] show ?thesis by (auto split: prod.splits)
next
  case FClosing
  with assms show ?thesis by (auto simp: close_next_def Let_def on_frame_def split: list.splits)
next
  case (FCancelBody u)
  with assms show ?thesis by (cases c) (auto simp: on_frame_def split: if_splits)
qed (use assms in \<open>auto simp: lock_def unlock_def on_frame_def split: if_splits\<close>)

section \<open>All calls\<close>

fun fx_inv :: "('e fsys, 'e ftask) pool \<Rightarrow> bool" where
  "fx_inv (s, ts) \<longleftrightarrow> fx_ring (fx_chan s) \<and> fx_sums s ts \<and> (\<forall>t \<in> set ts. fx_knows s t)"

declare fx_inv.simps [simp del]

lemma ftask_cases:
  obtains (call) tid c cs pc log where "t = FTask tid (c # cs) pc log"
  | (over) tid pc log where "t = FTask tid [] pc log"
  | (canceller) tid where "t = Canceller tid" | (disturber) w where "t = Disturber w" | (env_done) "t = EnvDone"
proof (cases t)
  case (FTask tid todo pc log)
  then show ?thesis using call over by (cases todo) auto
qed (use canceller disturber env_done in auto)

lemma fx_at_le:
  assumes "\<And>c pc. f c pc \<le> g c pc"
  shows "fx_at f t \<le> fx_at g t"
  using assms by (cases t rule: ftask_cases) auto

lemma fx_at_sum_le:
  assumes "\<And>c pc. f c pc \<le> g c pc"
  shows "tsum (fx_at f) ts \<le> tsum (fx_at g) ts"
  by (rule tsum_le_mono) (rule fx_at_le [OF assms])

lemma stores_inside: "fx_stores w c pc \<le> fx_inside c pc" "fx_wakes w c pc \<le> fx_inside c pc"
  using waker_inside [of w c pc] by simp_all

text \<open>A step is an action of the environment or of a call.\<close>

lemma fx_step_cases:
  assumes "fx_step junk s t = Some (s', t', new)"
  obtains (cancel) tid where "t = Canceller tid" "s' = s\<lparr>cancels := insert tid (cancels s)\<rparr>" "t' = EnvDone" "new = []"
  | (disturb) w where "t = Disturber w" "s' = s\<lparr>asleep := asleep s - {w}\<rparr>" "t' = EnvDone" "new = []"
  | (call) tid c cs pc log res where "t = FTask tid (c # cs) pc log" "fx_call_step junk tid s c pc = Some (s', res)"
      "t' = (case res of Inl pc' \<Rightarrow> FTask tid (c # cs) pc' log | Inr r \<Rightarrow> FTask tid cs FLock (log @ [(c, r)]))" "new = []"
  using assms by (cases t rule: ftask_cases) (auto split: option.splits sum.splits)

lemma fx_at_call:
  assumes "\<And>c. f c FLock = 0"
  shows "fx_at f (case res of Inl pc' \<Rightarrow> FTask tid (c # cs) pc' log | Inr r \<Rightarrow> FTask tid cs FLock (log @ [(c, r)])) =
    fx_res f c res"
  using assms by (cases res; cases cs) auto

lemma fx_at_calls:
  "fx_at fx_inside (case res of Inl pc' \<Rightarrow> FTask tid (c # cs) pc' log | Inr r \<Rightarrow> FTask tid cs FLock (log @ [(c, r)])) =
    fx_res fx_inside c res"
  "fx_at fx_closing (case res of Inl pc' \<Rightarrow> FTask tid (c # cs) pc' log | Inr r \<Rightarrow> FTask tid cs FLock (log @ [(c, r)])) =
    fx_res fx_closing c res"
  "fx_at (fx_sends w) (case res of Inl pc' \<Rightarrow> FTask tid (c # cs) pc' log | Inr r \<Rightarrow> FTask tid cs FLock (log @ [(c, r)])) =
    fx_res (fx_sends w) c res"
  "fx_at (fx_receives w) (case res of Inl pc' \<Rightarrow> FTask tid (c # cs) pc' log | Inr r \<Rightarrow> FTask tid cs FLock (log @ [(c, r)])) =
    fx_res (fx_receives w) c res"
  "fx_at (fx_stores w) (case res of Inl pc' \<Rightarrow> FTask tid (c # cs) pc' log | Inr r \<Rightarrow> FTask tid cs FLock (log @ [(c, r)])) =
    fx_res (fx_stores w) c res"
  "fx_at (fx_wakes w) (case res of Inl pc' \<Rightarrow> FTask tid (c # cs) pc' log | Inr r \<Rightarrow> FTask tid cs FLock (log @ [(c, r)])) =
    fx_res (fx_wakes w) c res"
  by (rule fx_at_call; simp)+

lemma fx_inv_env:
  assumes "fx_inv (s, ts)" and "i < length ts" and "\<And>f. fx_at f (ts ! i) = 0"
    and "s' = s\<lparr>cancels := x\<rparr> \<or> s' = s\<lparr>asleep := asleep s - {w}\<rparr>"
  shows "fx_inv (s', ts[i := EnvDone])"
proof -
  have sums: "tsum (fx_at f) (ts[i := EnvDone]) = tsum (fx_at f) ts" for f :: "'a call \<Rightarrow> 'a fpc \<Rightarrow> nat"
    using tsum_at [OF assms(2), of "fx_at f"] tsum_upd [OF assms(2), of "fx_at f" EnvDone "[]"] assms(3) by simp
  have knows: "fx_knows s' t" if "fx_knows s t" for t
    using that assms(4) by (cases t rule: ftask_cases) auto
  have "fx_inv (s', ts) \<longrightarrow> fx_inv (s', ts[i := EnvDone])"
    using sums set_upd_subset [of ts i EnvDone "[]"] by (auto simp: fx_inv.simps fx_sums_def)
  moreover have "fx_inv (s', ts)"
    using assms(1,4) knows by (auto simp: fx_inv.simps fx_sums_def frame_lock intro: frame_rouse)
  ultimately show ?thesis by blast
qed

lemma fx_inv_call:
  assumes inv: "fx_inv (s, ts)" and i: "i < length ts" "ts ! i = FTask tid (c # cs) pc log"
    and step: "fx_call_step junk tid s c pc = Some (s', res)"
    and t': "t' = (case res of Inl pc' \<Rightarrow> FTask tid (c # cs) pc' log | Inr r \<Rightarrow> FTask tid cs FLock (log @ [(c, r)]))"
  shows "fx_inv (s', ts[i := t'])"
proof -
  let ?r = "\<lambda>f. tsum (fx_at f) (others i ts)"
  have at: "tsum (fx_at f) ts = ?r f + f c pc" for f using tsum_at [OF i(1), of "fx_at f"] i(2) by simp
  have upd: "tsum (fx_at f) (ts[i := t']) = ?r f + fx_at f t'" for f :: "'a call \<Rightarrow> 'a fpc \<Rightarrow> nat"
    using tsum_upd [OF i(1), of "fx_at f" t' "[]"] by simp
  note inv = inv [unfolded fx_inv.simps fx_sums_def at]
  then have ring: "fx_ring (fx_chan s)" and lists: "fx_lists (fx_chan s) (?r fx_closing + fx_closing c pc)"
    and mutex: "?r fx_inside + fx_inside c pc = (if f_mutex (fx_chan s) then 1 else 0)"
    and frame: "\<And>w. fx_frame s w (?r (fx_sends w) + fx_sends w c pc) (?r (fx_receives w) + fx_receives w c pc)
      (?r (fx_stores w) + fx_stores w c pc) (?r (fx_wakes w) + fx_wakes w c pc)"
    and all: "\<forall>t \<in> set ts. fx_knows s t" by blast+
  have knows: "fx_knows s (FTask tid (c # cs) pc log)" using all i by (metis nth_mem)
  have alone: "?r fx_inside = 0" if "fx_inside c pc \<noteq> 0"
  proof -
    have "?r fx_inside + fx_inside c pc \<le> 1" using mutex by simp
    with that show ?thesis by linarith
  qed
  have less: "?r fx_closing \<le> ?r fx_inside" "?r (fx_stores w) \<le> ?r fx_inside" "?r (fx_wakes w) \<le> ?r fx_inside" for w
    by (rule fx_at_sum_le; simp add: closing_inside stores_inside)+
  have none: "?r fx_closing = 0" "?r (fx_stores w) = 0" "?r (fx_wakes w) = 0" if "fx_inside c pc \<noteq> 0" for w
    using less(1) less(2,3) [of w] alone [OF that] by (simp_all only: le_zero_eq)
  have fresh: "length (frames s) \<notin> set (f_senders (fx_chan s)) \<union> set (f_receivers (fx_chan s))"
    using frame [of "length (frames s)"] by (simp add: fx_frame_def)
  have "fx_sums s' (ts[i := t'])"
    unfolding fx_sums_def upd unfolding t' fx_at_calls
  proof (intro conjI allI)
    show "?r fx_inside + fx_res fx_inside c res = (if f_mutex (fx_chan s') then 1 else 0)"
      by (rule mutex_call [OF step mutex])
    show "fx_lists (fx_chan s') (?r fx_closing + fx_res fx_closing c res)"
      by (rule lists_call [OF step lists ring _ fresh]) (rule ccontr, drule none(1), erule notE)
    show "fx_frame s' w (?r (fx_sends w) + fx_res (fx_sends w) c res) (?r (fx_receives w) + fx_res (fx_receives w) c res)
        (?r (fx_stores w) + fx_res (fx_stores w) c res) (?r (fx_wakes w) + fx_res (fx_wakes w) c res)" for w
      by (rule frame_call [OF step frame _ lists knows]) (rule conjI [OF none(2,3)])
  qed
  moreover have "fx_knows s' t" if "t \<in> set (ts[i := t'])" for t
  proof -
    have "fx_knows s' u" if u: "u \<in> set (others i ts)" for u
    proof (rule knows_other [OF keeps_call [OF step]])
      show "fx_knows s u" using all u others_subset [of i ts] by blast
      show "fx_at (fx_sends w) u = 0" if w: "w \<in> set (f_receivers (fx_chan s))" for w
        using frame_receiver [OF frame [of w] w] tsum_member_le [OF u, of "fx_at (fx_sends w)"] by linarith
    qed
    moreover have "fx_knows s' t'"
    proof (cases res)
      case (Inl pc')
      show ?thesis
        unfolding t' Inl sum.case by (rule knows_own [OF step [unfolded Inl] knows frame_asleep [OF frame]])
    next
      case (Inr r)
      then show ?thesis by (cases cs) (simp_all add: t')
    qed
    ultimately show ?thesis using that i(1) by (auto simp: others_def upd_conv_take_nth_drop)
  qed
  ultimately show ?thesis using ring_call [OF step ring lists] by (simp add: fx_inv.simps)
qed

lemma fx_inv_step:
  assumes "fx_inv c" and "pool_step (fx_step junk) c c'"
  shows "fx_inv c'"
  using assms(2)
proof cases
  case (run_task i ts s s' t' new)
  from run_task(4) show ?thesis
  proof (cases rule: fx_step_cases)
    case (cancel tid)
    with run_task assms(1) fx_inv_env [of s ts i s'] show ?thesis by auto
  next
    case (disturb w)
    with run_task assms(1) fx_inv_env [of s ts i s' _ w] show ?thesis by auto
  next
    case (call tid c cs pc log res)
    with run_task assms(1) fx_inv_call [of s ts i tid c cs pc log junk s' res t'] show ?thesis by simp
  qed
qed

lemma fx_at_fresh: "fx_fresh t \<Longrightarrow> (\<And>c. f c FLock = 0) \<Longrightarrow> fx_at f t = 0"
  by (cases t rule: ftask_cases) auto

lemma fx_inv_start:
  assumes "\<forall>t \<in> set ts. fx_fresh t"
  shows "fx_inv (fx_start buffer, ts)"
proof -
  have sums: "tsum (fx_at f) ts = 0" if "\<And>c. f c FLock = 0" for f :: "'a call \<Rightarrow> 'a fpc \<Rightarrow> nat"
    using assms fx_at_fresh that by (intro tsum_zeroI) blast
  have "fx_sums (fx_start buffer) ts"
    by (simp add: fx_sums_def sums fx_start_def fx_init_def fx_lists_def fx_frame_def)
  moreover have "fx_knows (fx_start buffer) t" if "t \<in> set ts" for t
    using that assms by (cases t rule: ftask_cases) fastforce+
  ultimately show ?thesis by (auto simp: fx_inv.simps fx_start_def fx_init_def fx_ring_def)
qed

interpretation fx: task_invariant "fx_step junk" fx_inv
  by unfold_locales (rule fx_inv_step)

section \<open>Properties\<close>

text \<open>
  C34. The futex channel is safe for any clients in any interleaving, with cancel requests and
  spurious wake-ups: at most one call is inside the mutex, the ring buffer is within its bounds,
  waiting senders mean a full buffer and waiting receivers an empty one, and whoever stores to the
  futex word of a waiter or wakes it does so while exactly one call waits as that waiter, so the
  stack frame it touches is alive.
\<close>

theorem futex_safe:
  assumes "\<forall>t \<in> set ts0. fx_fresh t" and "pool_reach (fx_step junk) (fx_start buffer, ts0) (s, ts)"
  shows "tsum (fx_at fx_inside) ts = (if f_mutex (fx_chan s) then 1 else 0) \<and>
    f_count (fx_chan s) \<le> f_capacity (fx_chan s) \<and> length (f_buffer (fx_chan s)) = f_capacity (fx_chan s) \<and>
    (f_senders (fx_chan s) \<noteq> [] \<longrightarrow> f_count (fx_chan s) = f_capacity (fx_chan s)) \<and>
    (f_receivers (fx_chan s) \<noteq> [] \<longrightarrow> f_count (fx_chan s) = 0 \<and> f_senders (fx_chan s) = []) \<and>
    (\<forall>w. tsum (fx_at (fx_stores w)) ts + tsum (fx_at (fx_wakes w)) ts \<noteq> 0 \<longrightarrow>
      w < length (frames s) \<and> tsum (fx_at (fx_sends w)) ts + tsum (fx_at (fx_receives w)) ts = 1)"
proof -
  from fx.inv_reach [OF fx_inv_start [OF assms(1)] assms(2)] have inv: "fx_inv (s, ts)" .
  have "w < length (frames s) \<and> tsum (fx_at (fx_sends w)) ts + tsum (fx_at (fx_receives w)) ts = 1"
    if "tsum (fx_at (fx_stores w)) ts + tsum (fx_at (fx_wakes w)) ts \<noteq> 0" for w
  proof -
    let ?sd = "tsum (fx_at (fx_sends w)) ts" and ?rc = "tsum (fx_at (fx_receives w)) ts"
      and ?st = "tsum (fx_at (fx_stores w)) ts" and ?wk = "tsum (fx_at (fx_wakes w)) ts"
    have "fx_frame s w ?sd ?rc ?st ?wk" using inv unfolding fx_inv.simps fx_sums_def by blast
    then have "\<not> w < length (frames s) \<longrightarrow> ?sd + ?rc = 0" and "?sd + ?rc \<le> 1" and "?st + ?wk \<le> ?sd + ?rc"
      unfolding fx_frame_def by blast+
    with that show ?thesis by linarith
  qed
  moreover from inv have "fx_ring (fx_chan s)" and "tsum (fx_at fx_inside) ts = (if f_mutex (fx_chan s) then 1 else 0)"
    and "fx_lists (fx_chan s) (tsum (fx_at fx_closing) ts)"
    unfolding fx_inv.simps fx_sums_def by blast+
  ultimately show ?thesis unfolding fx_ring_def fx_lists_def by blast
qed

text \<open>An unbuffered channel: a receiver has taken the item of a sleeping sender and is waking it.\<close>

definition handoff_run :: "nat list" where
  "handoff_run = [0, 0, 0, 0, 0, 1, 1, 1]"

definition handoff_tasks :: "nat ftask list" where
  "handoff_tasks = [FTask 0 [Send 7] FLock [], FTask 1 [Receive] FLock [], Canceller 0]"

lemmas fx_run_defs = fx_start_def fx_init_def lock_def unlock_def on_frame_def send_body_def receive_body_def
  new_waiter_def take_over_def push_slot_def pop_slot_def

lemma handoff_result:
  "\<exists>s ts. pool_run (fx_step 0) handoff_run (fx_start [], handoff_tasks) = Some (s, ts) \<and>
    ts = [FTask 0 [Send 7] (FAsleep 0) [], FTask 1 [Receive] (FWake 0 (Some (Got 7))) [], Canceller 0]"
  by (simp add: handoff_run_def handoff_tasks_def fx_run_defs)

lemma handoff_fresh: "\<forall>t \<in> set handoff_tasks. fx_fresh t"
  by (simp add: handoff_tasks_def)

theorem futex_safe_witness:
  "\<exists>s ts. pool_reach (fx_step 0) (fx_start [], handoff_tasks) (s, ts) \<and>
    tsum (fx_at (fx_wakes 0)) ts = 1 \<and> tsum (fx_at (fx_sends 0)) ts + tsum (fx_at (fx_receives 0)) ts = 1"
proof -
  obtain s ts where run: "pool_run (fx_step 0) handoff_run (fx_start [], handoff_tasks) = Some (s, ts)"
    and ts: "ts = [FTask 0 [Send 7] (FAsleep 0) [], FTask 1 [Receive] (FWake 0 (Some (Got 7))) [], Canceller 0]"
    using handoff_result by blast
  have "tsum (fx_at (fx_stores 0)) ts + tsum (fx_at (fx_wakes 0)) ts \<noteq> 0" "tsum (fx_at (fx_wakes 0)) ts = 1"
    by (simp_all add: ts)
  with futex_safe [OF handoff_fresh pool_run_reach [OF run]] pool_run_reach [OF run] show ?thesis by blast
qed

end
