(* ===== verification/Futex_Fifo.thy ===== *)
theory Futex_Fifo
  imports Futex_Invariant
begin

text \<open>
  The futex channel as a bounded FIFO that can be closed: calls that nobody disturbs, one after the
  other, against a list of items and a flag. A call either returns, with one of its results, or goes to
  sleep in \<open>futexWait\<close>, linked into the list of waiters of its kind; the theorem says which of the two,
  and with which result, for every script of calls and every capacity, 0 included.
\<close>

section \<open>Undisturbed calls\<close>

text \<open>
  A call run until it returns (\<open>Inr\<close>, its result) or cannot go on (\<open>Inl\<close>, where it is); \<open>None\<close> would be
  a call that does neither.
\<close>

partial_function (option) fx_alone ::
  "'e \<Rightarrow> 'e fsys \<Rightarrow> 'e call \<Rightarrow> 'e fpc \<Rightarrow> (('e fpc + 'e result) \<times> 'e fsys) option"
where
  [code]: "fx_alone junk s c pc =
     (case fx_call_step junk 0 s c pc of
        None \<Rightarrow> Some (Inl pc, s)
      | Some (s', Inl pc') \<Rightarrow> fx_alone junk s' c pc'
      | Some (s', Inr r) \<Rightarrow> Some (Inr r, s'))"

lemmas fx_alone_at = fx_alone.simps [of _ _ _ FLock] fx_alone.simps [of _ _ _ FBody] fx_alone.simps [of _ _ _ FClosing]
  fx_alone.simps [of _ _ _ "FUnlock r" for r] fx_alone.simps [of _ _ _ "FUnlockPark w" for w]
  fx_alone.simps [of _ _ _ "FLoad w" for w] fx_alone.simps [of _ _ _ "FWait w" for w] fx_alone.simps [of _ _ _ "FAsleep w" for w]

text \<open>A call on a channel nobody else uses.\<close>

definition fx_do :: "'e \<Rightarrow> 'e call \<Rightarrow> 'e fchan \<Rightarrow> (('e fpc + 'e result) \<times> 'e fchan) option" where
  "fx_do junk c ch =
     map_option (\<lambda>(r, s). (r, fx_chan s))
       (fx_alone junk \<lparr>fx_chan = ch, frames = [], asleep = {}, cancels = {}, given = [], taken = []\<rparr> c FLock)"

text \<open>A script of calls, up to the first that does not return: the results, and the call that waits and where.\<close>

fun fx_script :: "'e \<Rightarrow> 'e call list \<Rightarrow> 'e fchan \<Rightarrow> ('e result list \<times> ('e call \<times> 'e fpc) option \<times> 'e fchan) option" where
  "fx_script junk [] ch = Some ([], None, ch)"
| "fx_script junk (c # cs) ch =
     (case fx_do junk c ch of
        None \<Rightarrow> None
      | Some (Inl pc, ch') \<Rightarrow> Some ([], Some (c, pc), ch')
      | Some (Inr r, ch') \<Rightarrow> map_option (\<lambda>(rs, w, d). (r # rs, w, d)) (fx_script junk cs ch'))"

section \<open>The specification\<close>

text \<open>The items and whether the FIFO is closed; \<open>None\<close> is a call that has to wait.\<close>

fun fifo_call :: "nat \<Rightarrow> 'e call \<Rightarrow> 'e list \<times> bool \<Rightarrow> ('e result \<times> 'e list \<times> bool) option" where
  "fifo_call cap (Send v) (xs, shut) =
     (if shut then Some (WasClosed, xs, shut)
      else if length xs < cap then Some (Sent, xs @ [v], shut)
      else None)"
| "fifo_call cap Receive (x # xs, shut) = Some (Got x, xs, shut)"
| "fifo_call cap Receive ([], shut) = (if shut then Some (WasClosed, [], shut) else None)"
| "fifo_call cap Close (xs, shut) = Some (ClosedIt, xs, True)"

fun fifo_script :: "nat \<Rightarrow> 'e call list \<Rightarrow> 'e list \<times> bool \<Rightarrow> 'e result list \<times> 'e call option \<times> 'e list \<times> bool" where
  "fifo_script cap [] st = ([], None, st)"
| "fifo_script cap (c # cs) st =
     (case fifo_call cap c st of
        None \<Rightarrow> ([], Some c, st)
      | Some (r, st') \<Rightarrow> (case fifo_script cap cs st' of (rs, w, st'') \<Rightarrow> (r # rs, w, st'')))"

section \<open>The channel implements it\<close>

definition fx_idle :: "nat \<Rightarrow> 'e fchan \<Rightarrow> bool" where
  "fx_idle cap c \<longleftrightarrow> fx_ring c \<and> f_capacity c = cap \<and> f_senders c = [] \<and> f_receivers c = [] \<and> \<not> f_mutex c"

text \<open>The channel with the waiting call in the list of its kind.\<close>

fun fx_linked :: "'e call \<Rightarrow> 'e fchan \<Rightarrow> 'e fchan" where
  "fx_linked (Send v) c = c\<lparr>f_senders := [0]\<rparr>"
| "fx_linked Receive c = c\<lparr>f_receivers := [0]\<rparr>"
| "fx_linked Close c = c"

lemma send_alone:
  assumes "fx_idle cap c"
  shows "fx_do junk (Send v) c = Some
    (if f_closed c then (Inr WasClosed, c)
     else if f_count c < f_capacity c then (Inr Sent, push_slot v c)
     else (Inl (FAsleep 0), fx_linked (Send v) c))"
  using assms
  by (cases c) (auto simp: fx_do_def fx_alone_at fx_idle_def lock_def unlock_def send_body_def push_slot_def new_waiter_def Let_def)

lemma receive_alone:
  assumes "fx_idle cap c"
  shows "fx_do junk Receive c = Some
    (if 0 < f_count c then (Inr (Got (f_buffer c ! f_head c)), pop_slot c)
     else if f_closed c then (Inr WasClosed, c)
     else (Inl (FAsleep 0), fx_linked Receive c))"
  using assms
  by (cases c) (auto simp: fx_do_def fx_alone_at fx_idle_def lock_def unlock_def receive_body_def pop_slot_def new_waiter_def Let_def)

lemma close_alone:
  assumes "fx_idle cap c"
  shows "fx_do junk Close c = Some (Inr ClosedIt, c\<lparr>f_closed := True\<rparr>)"
  using assms
  by (cases c) (auto simp: fx_do_def fx_alone_at fx_idle_def lock_def unlock_def close_body_def close_next_def Let_def)

lemma fx_contents_frame [simp]:
  "fx_contents (c\<lparr>f_closed := b\<rparr>) = fx_contents c"
  "fx_contents (c\<lparr>f_senders := ws\<rparr>) = fx_contents c"
  "fx_contents (c\<lparr>f_receivers := ws\<rparr>) = fx_contents c"
  by (simp_all add: fx_contents_def)

lemma fx_linked_frame [simp]:
  "fx_contents (fx_linked call c) = fx_contents c" "f_closed (fx_linked call c) = f_closed c"
  by (cases call; simp)+

text \<open>One call.\<close>

lemma fx_do_refines:
  assumes "fx_idle cap c"
  shows "case fifo_call cap call (fx_contents c, f_closed c) of
      None \<Rightarrow> fx_do junk call c = Some (Inl (FAsleep 0), fx_linked call c)
    | Some (r, xs, shut) \<Rightarrow> \<exists>c'. fx_do junk call c = Some (Inr r, c') \<and> fx_idle cap c' \<and> fx_contents c' = xs \<and> f_closed c' = shut"
proof -
  have ring: "fx_ring c" and cap: "f_capacity c = cap" using assms by (simp_all add: fx_idle_def)
  show ?thesis
  proof (cases call)
    case (Send v)
    with assms cap push_ring [OF ring, of v] show ?thesis
      by (auto simp: send_alone [OF assms] fx_idle_def push_slot_def)
  next
    case Receive
    show ?thesis
    proof (cases "fx_contents c")
      case Nil
      then have "f_count c = 0" using length_fx_contents [of c] by simp
      with Nil Receive assms show ?thesis by (auto simp: receive_alone [OF assms])
    next
      case (Cons x xs)
      then have "0 < f_count c" using length_fx_contents [of c] by simp
      with Cons Receive assms pop_ring [OF ring this] show ?thesis
        by (auto simp: receive_alone [OF assms] fx_idle_def pop_slot_def)
    qed
  next
    case Close
    have "fx_ring (c\<lparr>f_closed := True\<rparr>)" using ring by (simp add: fx_ring_def)
    with Close assms show ?thesis by (simp add: close_alone [OF assms] fx_idle_def)
  qed
qed

text \<open>What can be seen of a script that has ended.\<close>

definition fx_outcome ::
  "'e result list \<times> ('e call \<times> 'e fpc) option \<times> 'e fchan \<Rightarrow>
    ('e result list \<times> ('e call \<times> 'e fpc) option \<times> 'e list \<times> bool) \<times> nat list \<times> nat list"
where
  "fx_outcome x = (case x of (rs, w, c) \<Rightarrow> ((rs, w, fx_contents c, f_closed c), f_senders c, f_receivers c))"

definition fifo_outcome ::
  "'e result list \<times> 'e call option \<times> 'e list \<times> bool \<Rightarrow>
    ('e result list \<times> ('e call \<times> 'e fpc) option \<times> 'e list \<times> bool) \<times> nat list \<times> nat list"
where
  "fifo_outcome x = (case x of (rs, w, st) \<Rightarrow>
     ((rs, map_option (\<lambda>c. (c, FAsleep 0)) w, st),
      (case w of Some (Send v) \<Rightarrow> [0] | _ \<Rightarrow> []), (case w of Some Receive \<Rightarrow> [0] | _ \<Rightarrow> [])))"

lemma fx_script_refines:
  "fx_idle cap c \<Longrightarrow> map_option fx_outcome (fx_script junk calls c) =
    Some (fifo_outcome (fifo_script cap calls (fx_contents c, f_closed c)))"
proof (induction calls arbitrary: c)
  case Nil
  then show ?case by (simp add: fx_outcome_def fifo_outcome_def fx_idle_def)
next
  case (Cons call calls)
  note one = fx_do_refines [OF Cons.prems, of junk call]
  show ?case
  proof (cases "fifo_call cap call (fx_contents c, f_closed c)")
    case None
    with one Cons.prems show ?thesis
      by (cases call) (auto simp: fx_outcome_def fifo_outcome_def fx_idle_def)
  next
    case (Some a)
    then obtain r xs shut where a: "fifo_call cap call (fx_contents c, f_closed c) = Some (r, xs, shut)" by (cases a) auto
    with one obtain c' where c': "fx_do junk call c = Some (Inr r, c')" "fx_idle cap c'" "fx_contents c' = xs" "f_closed c' = shut"
      by auto
    from Cons.IH [OF c'(2)] obtain rs w d where "fx_script junk calls c' = Some (rs, w, d)"
      "fx_outcome (rs, w, d) = fifo_outcome (fifo_script cap calls (xs, shut))"
      using c'(3,4) by auto
    with a c'(1) show ?thesis by (auto simp: fx_outcome_def fifo_outcome_def split: prod.splits)
  qed
qed

section \<open>Properties\<close>

text \<open>
  C35. Undisturbed calls of the futex channel implement the bounded FIFO of its capacity that can be
  closed. For any script of sends, receives and closes on a new channel, the calls return exactly the
  results of the specification, \<open>error.Closed\<close> included; the first one that has to wait by the
  specification, and no other, is asleep in \<open>futexWait\<close> and is the only waiter, in the list of its kind;
  and the channel holds the items of the specification.
\<close>

theorem futex_refines:
  "map_option fx_outcome (fx_script junk calls (fx_init buffer)) =
    Some (fifo_outcome (fifo_script (length buffer) calls ([], False)))"
proof -
  have "fx_idle (length buffer) (fx_init buffer)" "fx_contents (fx_init buffer) = []" "\<not> f_closed (fx_init buffer)"
    by (auto simp: fx_idle_def fx_init_def fx_ring_def fx_contents_def)
  with fx_script_refines [of "length buffer" "fx_init buffer" junk calls] show ?thesis by simp
qed

text \<open>A full channel makes a send wait; a closed one gives what it holds and then \<open>error.Closed\<close>.\<close>

lemma futex_script_examples:
  "fifo_script 1 [Send 1, Send (2 :: u64), Receive] ([], False) = ([Sent], Some (Send 2), [1], False)"
  "fifo_script 1 [Send (1 :: u64), Close, Send 2, Receive, Receive] ([], False) =
    ([Sent, ClosedIt, WasClosed, Got 1, WasClosed], None, [], True)"
  by simp_all

end
