(* ===== verification/Futex_Delivery.thy ===== *)
theory Futex_Delivery
  imports Futex_Invariant
begin

text \<open>
  What the futex channel does with the items, for any clients in any interleaving, cancelled or not:
  the items accepted from senders are, in order, the items delivered to receivers followed by the
  buffer's, and a send has delivered its item exactly when it says so. So nothing is lost, doubled,
  invented or reordered, also when a cancel request races with a hand-over.
\<close>

section \<open>What the calls have sent and got\<close>

fun sent_by :: "'e call \<Rightarrow> 'e result \<Rightarrow> 'e multiset" where
  "sent_by (Send v) Sent = {#v#}"
| "sent_by c r = {#}"

fun got_by :: "'e call \<Rightarrow> 'e result \<Rightarrow> 'e multiset" where
  "got_by Receive (Got x) = {#x#}"
| "got_by c r = {#}"

definition log_sum :: "('e call \<Rightarrow> 'e result \<Rightarrow> 'e multiset) \<Rightarrow> ('e call \<times> 'e result) list \<Rightarrow> 'e multiset" where
  "log_sum f log = (\<Sum>(c, r)\<leftarrow>log. f c r)"

text \<open>The result a call is certain of before it returns.\<close>

fun fx_result :: "'e waiter list \<Rightarrow> 'e call \<Rightarrow> 'e fpc \<Rightarrow> 'e result option" where
  "fx_result fr c (FStore w k) = k"
| "fx_result fr c (FWake w k) = k"
| "fx_result fr c (FUnlock r) = Some r"
| "fx_result fr c pc =
     (case fx_waiter pc of None \<Rightarrow> None | Some w \<Rightarrow> if w_done (fr ! w) then Some (waited c (fr ! w)) else None)"

fun fx_book :: "('e call \<Rightarrow> 'e result \<Rightarrow> 'e multiset) \<Rightarrow> 'e waiter list \<Rightarrow> 'e ftask \<Rightarrow> 'e multiset" where
  "fx_book f fr (FTask tid todo pc log) =
     log_sum f log +
     (case todo of [] \<Rightarrow> {#} | c # cs \<Rightarrow> (case fx_result fr c pc of None \<Rightarrow> {#} | Some r \<Rightarrow> f c r))"
| "fx_book f fr t = {#}"

definition fx_books :: "'e fsys \<Rightarrow> 'e ftask list \<Rightarrow> bool" where
  "fx_books s ts \<longleftrightarrow> given s = taken s @ fx_contents (fx_chan s) \<and>
     tsum (fx_book sent_by (frames s)) ts = mset (given s) \<and>
     tsum (fx_book got_by (frames s)) ts = mset (taken s)"

lemma log_sum_simps [simp]:
  "log_sum f [] = {#}" "log_sum f (log @ [(c, r)]) = log_sum f log + f c r"
  by (simp_all add: log_sum_def)

section \<open>How an action changes them\<close>

lemma waiting_result:
  "fx_waiter pc = Some w \<Longrightarrow>
    fx_result fr c pc = (if w_done (fr ! w) then Some (waited c (fr ! w)) else None)"
  by (cases pc) auto

lemma no_waiter_result:
  "fx_waiter pc = None \<Longrightarrow> fx_result fr' c pc = fx_result fr c pc"
  by (cases pc) auto

lemma result_same:
  assumes "\<And>w. fx_waiter pc = Some w \<Longrightarrow> w_done (fr' ! w) = w_done (fr ! w) \<and> w_data (fr' ! w) = w_data (fr ! w)"
  shows "fx_result fr' c pc = fx_result fr c pc"
proof (cases "fx_waiter pc")
  case None
  then show ?thesis by (rule no_waiter_result)
next
  case (Some w)
  from assms [OF Some] have "w_done (fr' ! w) = w_done (fr ! w)" "waited c (fr' ! w) = waited c (fr ! w)"
    by (cases c; simp)+
  with Some show ?thesis by (simp add: waiting_result)
qed

lemma book_same:
  assumes "fx_knows s t" and "length (frames s) \<le> length fr'"
    and "\<And>w. w < length (frames s) \<Longrightarrow> w_done (fr' ! w) = w_done (frames s ! w) \<and> w_data (fr' ! w) = w_data (frames s ! w)"
  shows "fx_book f fr' t = fx_book f (frames s) t"
proof (cases t rule: ftask_cases)
  case (call tid c cs pc log)
  with assms have "fx_result fr' c pc = fx_result (frames s) c pc" by (intro result_same) auto
  with call show ?thesis by simp
qed simp_all

lemma book_done:
  assumes "fx_knows s t" and "u < length (frames s)" and "\<not> w_done (frames s ! u)"
    and "\<And>tid c cs pc log. t = FTask tid (c # cs) pc log \<Longrightarrow> fx_waiter pc = Some u \<Longrightarrow> c \<noteq> Close \<Longrightarrow>
      (\<forall>v. c = Send v \<longrightarrow> w_data (frames s ! u) = v) \<Longrightarrow>
      (if w_done g then f c (waited c g) else {#}) = repeat_mset (n c pc) X"
    and "\<And>c pc. fx_waiter pc \<noteq> Some u \<Longrightarrow> n c pc = 0"
  shows "fx_book f ((frames s)[u := g]) t = fx_book f (frames s) t + repeat_mset (fx_at n t) X"
proof (cases t rule: ftask_cases)
  case (call tid c cs pc log)
  show ?thesis
  proof (cases "fx_waiter pc = Some u")
    case True
    with call assms(1-3) assms(4) [OF call True] show ?thesis by (auto simp: waiting_result)
  next
    case False
    have "fx_result ((frames s)[u := g]) c pc = fx_result (frames s) c pc"
      using False by (intro result_same) (metis nth_list_update_neq)
    with call False assms(5) show ?thesis by simp
  qed
qed simp_all

lemma book_hand:
  assumes "fx_knows s t" and "u < length (frames s)" and "\<not> w_done (frames s ! u)" and "fx_at (fx_sends u) t = 0"
  shows "fx_book got_by ((frames s)[u := hand_over v (frames s ! u)]) t =
      fx_book got_by (frames s) t + repeat_mset (fx_at (fx_receives u) t) {#v#}"
    and "fx_book sent_by ((frames s)[u := hand_over v (frames s ! u)]) t = fx_book sent_by (frames s) t"
proof -
  show "fx_book got_by ((frames s)[u := hand_over v (frames s ! u)]) t =
      fx_book got_by (frames s) t + repeat_mset (fx_at (fx_receives u) t) {#v#}"
    by (rule book_done [OF assms(1-3)]; (case_tac c)?; simp)
  have "fx_book sent_by ((frames s)[u := hand_over v (frames s ! u)]) t =
      fx_book sent_by (frames s) t + repeat_mset (fx_at (\<lambda>c pc. 0) t) {#v#}"
  proof (rule book_done [OF assms(1-3)])
    fix tid c cs pc log
    assume "t = FTask tid (c # cs) pc log" "fx_waiter pc = Some u"
    with assms(4) show "(if w_done (hand_over v (frames s ! u)) then sent_by c (waited c (hand_over v (frames s ! u))) else {#}) =
        repeat_mset 0 {#v#}" by (cases c) auto
  qed simp
  moreover have "fx_at (\<lambda>c pc. 0) t = 0" by (cases t rule: ftask_cases) auto
  ultimately show "fx_book sent_by ((frames s)[u := hand_over v (frames s ! u)]) t = fx_book sent_by (frames s) t"
    by simp
qed

lemma book_take:
  assumes "fx_knows s t" and "u < length (frames s)" and "\<not> w_done (frames s ! u)" and "fx_at (fx_receives u) t = 0"
  shows "fx_book sent_by ((frames s)[u := take_over (frames s ! u)]) t =
      fx_book sent_by (frames s) t + repeat_mset (fx_at (fx_sends u) t) {#w_data (frames s ! u)#}"
    and "fx_book got_by ((frames s)[u := take_over (frames s ! u)]) t = fx_book got_by (frames s) t"
proof -
  show "fx_book sent_by ((frames s)[u := take_over (frames s ! u)]) t =
      fx_book sent_by (frames s) t + repeat_mset (fx_at (fx_sends u) t) {#w_data (frames s ! u)#}"
    by (rule book_done [OF assms(1-3)]; (case_tac c)?; simp)
  have "fx_book got_by ((frames s)[u := take_over (frames s ! u)]) t =
      fx_book got_by (frames s) t + repeat_mset (fx_at (\<lambda>c pc. 0) t) {#w_data (frames s ! u)#}"
  proof (rule book_done [OF assms(1-3)])
    fix tid c cs pc log
    assume "t = FTask tid (c # cs) pc log" "fx_waiter pc = Some u"
    with assms(4) show "(if w_done (take_over (frames s ! u)) then got_by c (waited c (take_over (frames s ! u))) else {#}) =
        repeat_mset 0 {#w_data (frames s ! u)#}" by (cases c) auto
  qed simp
  moreover have "fx_at (\<lambda>c pc. 0) t = 0" by (cases t rule: ftask_cases) auto
  ultimately show "fx_book got_by ((frames s)[u := take_over (frames s ! u)]) t = fx_book got_by (frames s) t"
    by simp
qed

text \<open>The same, summed over all tasks but the one that acts.\<close>

lemma tsum_bump:
  assumes "\<And>t. t \<in> set ts \<Longrightarrow> f t = g t + repeat_mset (n t) X"
  shows "tsum f ts = tsum g ts + repeat_mset (tsum n ts) X"
  using assms by (induction ts) (auto simp: ac_simps left_add_mult_distrib_mset)

definition fx_own :: "('e call \<Rightarrow> 'e result \<Rightarrow> 'e multiset) \<Rightarrow> 'e waiter list \<Rightarrow> 'e call \<Rightarrow> 'e fpc \<Rightarrow> 'e multiset" where
  "fx_own f fr c pc = (case fx_result fr c pc of None \<Rightarrow> {#} | Some r \<Rightarrow> f c r)"

abbreviation fx_balance ::
  "('e call \<Rightarrow> 'e result \<Rightarrow> 'e multiset) \<Rightarrow> 'e ftask list \<Rightarrow> 'e waiter list \<Rightarrow> 'e list \<Rightarrow> 'e waiter list \<Rightarrow> 'e list \<Rightarrow>
    'e multiset \<Rightarrow> bool"
where
  "fx_balance f ts fr h fr' h' own \<equiv>
     tsum (fx_book f fr') ts + own + mset h = tsum (fx_book f fr) ts + mset h'"

definition fx_quiet :: "'e fsys \<Rightarrow> 'e ftask list \<Rightarrow> bool" where
  "fx_quiet s ts \<longleftrightarrow> (\<forall>t \<in> set ts. fx_knows s t) \<and>
     (\<forall>u. fx_frame s u (tsum (fx_at (fx_sends u)) ts) (tsum (fx_at (fx_receives u)) ts) 0 0)"

lemma quiet_frame:
  assumes "fx_quiet s ts" and "u \<in> set (f_senders (fx_chan s)) \<union> set (f_receivers (fx_chan s))"
  shows "u < length (frames s)" and "\<not> w_done (frames s ! u)"
  using assms by (auto simp: fx_quiet_def fx_frame_def)

lemma quiet_receiver:
  assumes "fx_quiet s ts" and "u \<in> set (f_receivers (fx_chan s))"
  shows "tsum (fx_at (fx_receives u)) ts = 1" and "t \<in> set ts \<Longrightarrow> fx_at (fx_sends u) t = 0"
proof -
  have f: "fx_frame s u (tsum (fx_at (fx_sends u)) ts) (tsum (fx_at (fx_receives u)) ts) 0 0"
    using assms(1) by (simp add: fx_quiet_def)
  then show "tsum (fx_at (fx_receives u)) ts = 1" using assms(2) by (simp add: fx_frame_def)
  from frame_receiver [OF f assms(2)] show "t \<in> set ts \<Longrightarrow> fx_at (fx_sends u) t = 0" by (rule tsum_zeroD)
qed

lemma quiet_sender:
  assumes "fx_quiet s ts" and "u \<in> set (f_senders (fx_chan s))"
  shows "tsum (fx_at (fx_sends u)) ts = 1" and "t \<in> set ts \<Longrightarrow> fx_at (fx_receives u) t = 0"
proof -
  have f: "fx_frame s u (tsum (fx_at (fx_sends u)) ts) (tsum (fx_at (fx_receives u)) ts) 0 0"
    using assms(1) by (simp add: fx_quiet_def)
  then show sd: "tsum (fx_at (fx_sends u)) ts = 1" using assms(2) by (simp add: fx_frame_def)
  then have "tsum (fx_at (fx_receives u)) ts = 0" using f unfolding fx_frame_def by linarith
  then show "t \<in> set ts \<Longrightarrow> fx_at (fx_receives u) t = 0" by (rule tsum_zeroD)
qed

lemma books_hand:
  assumes q: "fx_quiet s ts" and u: "u \<in> set (f_receivers (fx_chan s))"
    and fr': "fr' = (frames s)[u := hand_over v (frames s ! u)]"
  shows "tsum (fx_book got_by fr') ts = tsum (fx_book got_by (frames s)) ts + {#v#}"
    and "tsum (fx_book sent_by fr') ts = tsum (fx_book sent_by (frames s)) ts"
proof -
  have t: "fx_knows s t" "fx_at (fx_sends u) t = 0" if "t \<in> set ts" for t
    using q quiet_receiver(2) [OF q u that] that by (simp_all add: fx_quiet_def)
  have f: "u < length (frames s)" "\<not> w_done (frames s ! u)" using quiet_frame [OF q, of u] u by simp_all
  have "tsum (fx_book got_by fr') ts =
      tsum (fx_book got_by (frames s)) ts + repeat_mset (tsum (fx_at (fx_receives u)) ts) {#v#}"
    unfolding fr' by (rule tsum_bump) (rule book_hand(1) [OF t(1) f t(2)])
  then show "tsum (fx_book got_by fr') ts = tsum (fx_book got_by (frames s)) ts + {#v#}"
    by (simp add: quiet_receiver(1) [OF q u])
  show "tsum (fx_book sent_by fr') ts = tsum (fx_book sent_by (frames s)) ts"
    unfolding fr' by (rule arg_cong [where f = sum_list]) (rule map_cong [OF refl], rule book_hand(2) [OF t(1) f t(2)])
qed

lemma books_take:
  assumes q: "fx_quiet s ts" and u: "u \<in> set (f_senders (fx_chan s))"
    and fr': "fr' = (frames s)[u := take_over (frames s ! u)]"
  shows "tsum (fx_book sent_by fr') ts = tsum (fx_book sent_by (frames s)) ts + {#w_data (frames s ! u)#}"
    and "tsum (fx_book got_by fr') ts = tsum (fx_book got_by (frames s)) ts"
proof -
  have t: "fx_knows s t" "fx_at (fx_receives u) t = 0" if "t \<in> set ts" for t
    using q quiet_sender(2) [OF q u that] that by (simp_all add: fx_quiet_def)
  have f: "u < length (frames s)" "\<not> w_done (frames s ! u)" using quiet_frame [OF q, of u] u by simp_all
  have "tsum (fx_book sent_by fr') ts =
      tsum (fx_book sent_by (frames s)) ts + repeat_mset (tsum (fx_at (fx_sends u)) ts) {#w_data (frames s ! u)#}"
    unfolding fr' by (rule tsum_bump) (rule book_take(1) [OF t(1) f t(2)])
  then show "tsum (fx_book sent_by fr') ts = tsum (fx_book sent_by (frames s)) ts + {#w_data (frames s ! u)#}"
    by (simp add: quiet_sender(1) [OF q u])
  show "tsum (fx_book got_by fr') ts = tsum (fx_book got_by (frames s)) ts"
    unfolding fr' by (rule arg_cong [where f = sum_list]) (rule map_cong [OF refl], rule book_take(2) [OF t(1) f t(2)])
qed

lemma books_same:
  assumes "\<forall>t \<in> set ts. fx_knows s t" and "length (frames s) \<le> length fr'"
    and "\<And>w. w < length (frames s) \<Longrightarrow> w_done (fr' ! w) = w_done (frames s ! w) \<and> w_data (fr' ! w) = w_data (frames s ! w)"
  shows "tsum (fx_book f fr') ts = tsum (fx_book f (frames s)) ts"
  using assms book_same [OF _ assms(2,3)] by (intro arg_cong [where f = sum_list] map_cong) auto

lemma books_append:
  assumes "fx_quiet s ts"
  shows "tsum (fx_book f (frames s @ [g])) ts = tsum (fx_book f (frames s)) ts"
  using assms by (intro books_same) (auto simp: fx_quiet_def nth_append)

section \<open>The bodies\<close>

lemma send_books:
  assumes "send_body s v = (s', pc)" and q: "fx_quiet s ts" and "fx_ring (fx_chan s)" and "fx_lists (fx_chan s) k"
    and "given s = taken s @ fx_contents (fx_chan s)"
  shows "given s' = taken s' @ fx_contents (fx_chan s')"
    and "fx_balance sent_by ts (frames s) (given s) (frames s') (given s') (fx_own sent_by (frames s') (Send v) pc)"
    and "fx_balance got_by ts (frames s) (taken s) (frames s') (taken s') (fx_own got_by (frames s') (Send v) pc)"
proof -
  have empty: "fx_contents (fx_chan s) = []" if "f_receivers (fx_chan s) \<noteq> []"
    using that assms(4) by (simp add: fx_lists_def fx_contents_def)
  show "given s' = taken s' @ fx_contents (fx_chan s')"
    using assms(1,3,5) empty push_ring(2) [of "fx_chan s" v]
    by (auto simp: send_body_def Let_def on_frame_def split: if_splits list.splits)
  show "fx_balance sent_by ts (frames s) (given s) (frames s') (given s') (fx_own sent_by (frames s') (Send v) pc)"
    using assms(1) books_hand(2) [OF q _ refl, of _ v] books_append [OF q]
    by (auto simp: send_body_def Let_def on_frame_def fx_own_def nth_append new_waiter_def split: if_splits list.splits)
  show "fx_balance got_by ts (frames s) (taken s) (frames s') (taken s') (fx_own got_by (frames s') (Send v) pc)"
    using assms(1) books_hand(1) [OF q _ refl, of _ v] books_append [OF q]
    by (auto simp: send_body_def Let_def on_frame_def fx_own_def nth_append new_waiter_def split: if_splits list.splits)
qed

lemma receive_books:
  assumes "receive_body junk s = (s', pc)" and q: "fx_quiet s ts" and "fx_ring (fx_chan s)" and "fx_lists (fx_chan s) k"
    and "given s = taken s @ fx_contents (fx_chan s)"
  shows "given s' = taken s' @ fx_contents (fx_chan s')"
    and "fx_balance sent_by ts (frames s) (given s) (frames s') (given s') (fx_own sent_by (frames s') Receive pc)"
    and "fx_balance got_by ts (frames s) (taken s) (frames s') (taken s') (fx_own got_by (frames s') Receive pc)"
proof -
  have push: "fx_contents (push_slot v (pop_slot (fx_chan s))) = fx_contents (pop_slot (fx_chan s)) @ [v]"
    if "0 < f_count (fx_chan s)" for v
    using that assms(3) pop_ring(1) [OF assms(3) that] by (intro push_ring(2)) (auto simp: fx_ring_def)
  have empty: "fx_contents (fx_chan s) = []" if "f_count (fx_chan s) = 0"
    using that by (simp add: fx_contents_def)
  show "given s' = taken s' @ fx_contents (fx_chan s')"
    using assms(1,5) empty push pop_ring(2) [OF assms(3)]
    by (auto simp: receive_body_def Let_def on_frame_def split: if_splits list.splits)
  show "fx_balance sent_by ts (frames s) (given s) (frames s') (given s') (fx_own sent_by (frames s') Receive pc)"
    using assms(1) books_take(1) [OF q _ refl] books_append [OF q]
    by (auto simp: receive_body_def Let_def on_frame_def fx_own_def nth_append new_waiter_def split: if_splits list.splits)
  show "fx_balance got_by ts (frames s) (taken s) (frames s') (taken s') (fx_own got_by (frames s') Receive pc)"
    using assms(1) books_take(2) [OF q _ refl] books_append [OF q]
    by (auto simp: receive_body_def Let_def on_frame_def fx_own_def nth_append new_waiter_def split: if_splits list.splits)
qed

section \<open>All actions\<close>

definition fx_steady :: "'e fsys \<Rightarrow> 'e fsys \<Rightarrow> bool" where
  "fx_steady s s' \<longleftrightarrow> length (frames s') = length (frames s) \<and>
     (\<forall>w < length (frames s). w_done (frames s' ! w) = w_done (frames s ! w) \<and> w_data (frames s' ! w) = w_data (frames s ! w)) \<and>
     given s' = given s \<and> taken s' = taken s \<and> fx_contents (fx_chan s') = fx_contents (fx_chan s)"

lemma steady_upd:
  assumes "frames s' = (frames s)[u := g]" and "w_done g = w_done (frames s ! u)" and "w_data g = w_data (frames s ! u)"
    and "given s' = given s" and "taken s' = taken s" and "fx_contents (fx_chan s') = fx_contents (fx_chan s)"
  shows "fx_steady s s'"
  using assms by (cases "u < length (frames s)") (auto simp: fx_steady_def nth_list_update)

lemma steady_same:
  assumes "frames s' = frames s" and "given s' = given s" and "taken s' = taken s"
    and "fx_contents (fx_chan s') = fx_contents (fx_chan s)"
  shows "fx_steady s s'"
  using assms by (simp add: fx_steady_def)

lemma contents_unlink [simp]: "fx_contents (unlink c w ch) = fx_contents ch"
  by (cases c) simp_all

lemma steady_call:
  assumes "fx_call_step junk tid s c pc = Some (s', res)" and "pc \<noteq> FBody"
    and "\<And>u. u \<in> set (f_senders (fx_chan s)) \<union> set (f_receivers (fx_chan s)) \<Longrightarrow> \<not> w_done (frames s ! u)"
  shows "fx_steady s s'"
proof (cases pc)
  case FClosing
  with assms(1,3) steady_upd [of s' s] steady_same [of s' s] show ?thesis
    by (auto simp: close_next_def Let_def on_frame_def split: list.splits)
next
  case (FStore u k)
  with assms(1) steady_upd [of s' s u] show ?thesis by (auto simp: on_frame_def)
next
  case (FCancelBody u)
  with assms(1) steady_upd [of s' s u] steady_same [of s' s] show ?thesis
    by (auto simp: on_frame_def split: if_splits)
qed (use assms(1,2) steady_same [of s' s] in \<open>auto simp: lock_def unlock_def split: if_splits\<close>)

lemma own_call:
  assumes "fx_call_step junk tid s c pc = Some (s', res)" and "pc \<noteq> FBody" and "fx_steady s s'"
    and "fx_knows s (FTask tid (c # cs) pc log)" and "f Close = (\<lambda>r. {#})"
    and "\<And>r. r \<in> {WasClosed, WasCanceled, ClosedIt} \<Longrightarrow> f c r = {#}"
    and "\<And>w. fx_waiter pc = Some w \<Longrightarrow> w_queued (frames s ! w) \<Longrightarrow> \<not> w_done (frames s ! w)"
  shows "fx_book f (frames s') (case res of Inl pc' \<Rightarrow> FTask tid (c # cs) pc' log | Inr r \<Rightarrow> FTask tid cs FLock (log @ [(c, r)])) =
    fx_book f (frames s) (FTask tid (c # cs) pc log)"
proof -
  have over: "(case cs of [] \<Rightarrow> {#} | c # cs \<Rightarrow> (case fx_result fr c FLock of None \<Rightarrow> {#} | Some r \<Rightarrow> f c r)) = {#}" for fr
    by (cases cs) simp_all
  have same: "fx_result (frames s') c pc' = fx_result (frames s) c pc'" if "\<And>w. fx_waiter pc' = Some w \<Longrightarrow> fx_waiter pc = Some w" for pc'
    using assms(3,4) that by (intro result_same) (auto simp: fx_steady_def)
  show ?thesis
  proof (cases pc)
    case FLock
    with assms(1) assms(6) [of WasCanceled] show ?thesis by (auto simp: over lock_def split: if_splits)
  next
    case FClosing
    with assms(1,4,5) show ?thesis by (auto simp: close_next_def Let_def on_frame_def split: list.splits)
  next
    case (FStore u k)
    with assms(1) show ?thesis by auto
  next
    case (FWake u k)
    with assms(1) show ?thesis by (auto split: option.splits)
  next
    case (FUnlock r)
    with assms(1) show ?thesis by (auto simp: over)
  next
    case (FCancelBody u)
    with assms(1) assms(6) [of WasCanceled] assms(7) [of u] same [of "FSyncUnlock u"] show ?thesis
      by (cases "w_queued (frames s ! u)") (auto simp: waiting_result)
  next
    case (FSyncUnlock u)
    with assms(1) assms(6) [of WasClosed] show ?thesis by (cases c) (auto simp: over waiting_result unlock_def)
  qed (use assms(1,2) in \<open>auto simp: over waiting_result lock_def unlock_def split: if_splits\<close>)
qed

lemma fx_inv_quiet:
  assumes "fx_inv (s, ts)" and "i < length ts" and "ts ! i = FTask tid (c # cs) pc log" and "pc = FBody"
  shows "fx_quiet s (others i ts)"
proof -
  have at: "tsum (fx_at f) ts = tsum (fx_at f) (others i ts) + f c pc" for f
    using tsum_at [OF assms(2), of "fx_at f"] assms(3) by simp
  note inv = assms(1) [unfolded fx_inv.simps fx_sums_def at assms(4)]
  from inv have "tsum (fx_at fx_inside) (others i ts) + fx_inside c FBody \<le> 1" by simp
  then have "tsum (fx_at fx_inside) (others i ts) = 0" by (simp del: sum_list_eq_0_iff)
  then have "tsum (fx_at (fx_stores u)) (others i ts) = 0" "tsum (fx_at (fx_wakes u)) (others i ts) = 0" for u
    using fx_at_sum_le [of "fx_stores u" fx_inside "others i ts"] fx_at_sum_le [of "fx_wakes u" fx_inside "others i ts"]
      stores_inside by (metis le_zero_eq)+
  with inv have "fx_frame s u (tsum (fx_at (fx_sends u)) (others i ts)) (tsum (fx_at (fx_receives u)) (others i ts)) 0 0" for u
    by simp
  with inv others_subset [of i ts] show ?thesis unfolding fx_quiet_def by blast
qed

lemma body_books:
  assumes "call_body junk s c = (s', pc)" and "fx_quiet s ts" and "fx_ring (fx_chan s)" and "fx_lists (fx_chan s) k"
    and "given s = taken s @ fx_contents (fx_chan s)"
  shows "given s' = taken s' @ fx_contents (fx_chan s')"
    and "fx_balance sent_by ts (frames s) (given s) (frames s') (given s') (fx_own sent_by (frames s') c pc)"
    and "fx_balance got_by ts (frames s) (taken s) (frames s') (taken s') (fx_own got_by (frames s') c pc)"
proof -
  have "given s' = taken s' @ fx_contents (fx_chan s') \<and>
    fx_balance sent_by ts (frames s) (given s) (frames s') (given s') (fx_own sent_by (frames s') c pc) \<and>
    fx_balance got_by ts (frames s) (taken s) (frames s') (taken s') (fx_own got_by (frames s') c pc)"
  proof (cases c)
    case (Send v)
    with send_books [OF _ assms(2-5), of v s' pc] assms(1) show ?thesis by simp
  next
    case Receive
    with receive_books [OF _ assms(2-5), of junk s' pc] assms(1) show ?thesis by simp
  next
    case Close
    with assms(1,5) show ?thesis by (auto simp: close_body_def Let_def fx_own_def split: if_splits)
  qed
  then show "given s' = taken s' @ fx_contents (fx_chan s')"
    "fx_balance sent_by ts (frames s) (given s) (frames s') (given s') (fx_own sent_by (frames s') c pc)"
    "fx_balance got_by ts (frames s) (taken s) (frames s') (taken s') (fx_own got_by (frames s') c pc)"
    by blast+
qed

fun fx_ledger :: "('e fsys, 'e ftask) pool \<Rightarrow> bool" where
  "fx_ledger (s, ts) \<longleftrightarrow> fx_inv (s, ts) \<and> fx_books s ts"

declare fx_ledger.simps [simp del]

lemma balance_close:
  fixes a :: "'e multiset"
  assumes "a' + own + h = a + h'" and "a + log = h"
  shows "a' + (log + own) = h'"
proof -
  have "a + (a' + (log + own)) = a + h'" using assms(1) unfolding assms(2) [symmetric] by (simp add: ac_simps)
  then show ?thesis by (simp only: add_left_cancel)
qed

lemma books_call:
  assumes inv: "fx_inv (s, ts)" and books: "fx_books s ts" and i: "i < length ts" "ts ! i = FTask tid (c # cs) pc log"
    and step: "fx_call_step junk tid s c pc = Some (s', res)"
    and t': "t' = (case res of Inl pc' \<Rightarrow> FTask tid (c # cs) pc' log | Inr r \<Rightarrow> FTask tid cs FLock (log @ [(c, r)]))"
  shows "fx_books s' (ts[i := t'])"
proof -
  have at: "tsum (fx_book f (frames s)) ts = tsum (fx_book f (frames s)) (others i ts) + fx_book f (frames s) (FTask tid (c # cs) pc log)" for f
    using tsum_at [OF i(1), of "fx_book f (frames s)"] i(2) by simp
  have upd: "tsum (fx_book f fr) (ts[i := t']) = tsum (fx_book f fr) (others i ts) + fx_book f fr t'" for f fr
    using tsum_upd [OF i(1), of "fx_book f fr" t' "[]"] by simp
  note books = books [unfolded fx_books_def at]
  from inv have all: "\<forall>t \<in> set ts. fx_knows s t" and ring: "fx_ring (fx_chan s)"
    and frame: "\<And>w. \<exists>sd rc st wk. fx_frame s w sd rc st wk" and lists: "\<exists>k. fx_lists (fx_chan s) k"
    unfolding fx_inv.simps fx_sums_def by blast+
  show ?thesis
  proof (cases "pc = FBody")
    case True
    from step True obtain pc' where c: "call_body junk s c = (s', pc')" "res = Inl pc'" by (auto split: prod.splits)
    from lists obtain k where k: "fx_lists (fx_chan s) k" ..
    note b = body_books [OF c(1) fx_inv_quiet [OF inv i True] ring k conjunct1 [OF books]]
    have own: "fx_book f (frames s') t' = log_sum f log + fx_own f (frames s') c pc'" for f
      by (simp add: t' c(2) fx_own_def)
    have "fx_book f (frames s) (FTask tid (c # cs) pc log) = log_sum f log" for f by (simp add: True)
    note books = books [unfolded this]
    show ?thesis
      unfolding fx_books_def upd own
      using b(1) balance_close [OF b(2), of "log_sum sent_by log"] balance_close [OF b(3), of "log_sum got_by log"] books
      by blast
  next
    case False
    have undone: "\<not> w_done (frames s ! u)" if "u \<in> set (f_senders (fx_chan s)) \<union> set (f_receivers (fx_chan s))" for u
      using frame [of u] that by (auto simp: fx_frame_def)
    have steady: "fx_steady s s'" by (rule steady_call [OF step False undone])
    have knows: "fx_knows s (FTask tid (c # cs) pc log)" using all i by (metis nth_mem)
    have queued: "\<not> w_done (frames s ! w)" if "fx_waiter pc = Some w" "w_queued (frames s ! w)" for w
      using frame [of w] knows that by (auto simp: fx_frame_def)
    have "fx_book f (frames s') t' = fx_book f (frames s) (FTask tid (c # cs) pc log)"
      if "f \<in> {sent_by, got_by}" for f
      unfolding t' by (rule own_call [OF step False steady knows _ _ queued]) (use that in \<open>cases c; auto\<close>)+
    moreover have "tsum (fx_book f (frames s')) (others i ts) = tsum (fx_book f (frames s)) (others i ts)" for f
      using all others_subset [of i ts] steady by (intro books_same) (auto simp: fx_steady_def)
    ultimately show ?thesis using books steady unfolding fx_books_def upd by (simp add: fx_steady_def)
  qed
qed

lemma fx_ledger_step:
  assumes "fx_ledger c" and "pool_step (fx_step junk) c c'"
  shows "fx_ledger c'"
  using assms(2)
proof cases
  case (run_task i ts s s' t' new)
  note inv = assms(1) [unfolded run_task(1) fx_ledger.simps]
  have env: "fx_books s' (ts[i := EnvDone])"
    if "\<And>f fr. fx_book f fr (ts ! i) = {#}" "frames s' = frames s" "given s' = given s" "taken s' = taken s" "fx_chan s' = fx_chan s"
    using inv tsum_at [OF run_task(3), of "fx_book _ (frames s)"] tsum_upd [OF run_task(3), of "fx_book _ (frames s)" EnvDone "[]"] that
    by (simp add: fx_books_def)
  from run_task(4) have "fx_books s' (ts[i := t'])" "new = []"
  proof (atomize (full), cases rule: fx_step_cases)
    case (call tid c cs pc log res)
    with books_call [of s ts i tid c cs pc log junk s' res t'] inv run_task(3) show "fx_books s' (ts[i := t']) \<and> new = []" by simp
  qed (use env in auto)
  with fx_inv_step [OF _ assms(2)] inv run_task(1,2) show ?thesis by (simp add: fx_ledger.simps)
qed

interpretation fx_deliver: task_invariant "fx_step junk" fx_ledger
  by unfold_locales (rule fx_ledger_step)

lemma fx_ledger_start:
  assumes "\<forall>t \<in> set ts. fx_fresh t"
  shows "fx_ledger (fx_start buffer, ts)"
proof -
  have "tsum (fx_book f (frames (fx_start buffer))) ts = {#}" for f
  proof (rule tsum_mset_zero)
    show "fx_book f (frames (fx_start buffer)) t = {#}" if "t \<in> set ts" for t
      using assms that by (cases t rule: ftask_cases) fastforce+
  qed
  with fx_inv_start [OF assms] show ?thesis
    by (simp add: fx_ledger.simps fx_books_def fx_start_def fx_init_def fx_contents_def)
qed

section \<open>Properties\<close>

text \<open>The sends and receives that have returned.\<close>

fun fx_log :: "('e call \<Rightarrow> 'e result \<Rightarrow> 'e multiset) \<Rightarrow> 'e ftask \<Rightarrow> 'e multiset" where
  "fx_log f (FTask tid todo pc log) = log_sum f log"
| "fx_log f t = {#}"

lemma log_le_book: "fx_log f t \<subseteq># fx_book f fr t"
  by (cases t) auto

lemma tsum_subset_mset:
  assumes "\<And>t. f t \<subseteq># g t"
  shows "tsum f ts \<subseteq># tsum g ts"
  using assms by (induction ts) (auto intro: subset_mset.add_mono)

text \<open>
  C12. The futex channel delivers exactly once and in order, for any clients in any interleaving,
  with cancel requests and spurious wake-ups. In every reachable state the items accepted are the
  items delivered followed by the buffer's contents, sends that said so were accepted and items
  that receives returned were delivered; when all calls have returned, the items sent with success
  are exactly the items received and those left in the buffer, so a send or receive that reports
  \<open>Canceled\<close> or \<open>Closed\<close> moved nothing.
\<close>

theorem futex_delivers:
  assumes "\<forall>t \<in> set ts0. fx_fresh t" and "pool_reach (fx_step junk) (fx_start buffer, ts0) (s, ts)"
  shows "given s = taken s @ fx_contents (fx_chan s) \<and>
    tsum (fx_log sent_by) ts \<subseteq># mset (given s) \<and> tsum (fx_log got_by) ts \<subseteq># mset (taken s) \<and>
    ((\<forall>t \<in> set ts. fx_finished t) \<longrightarrow>
      tsum (fx_log sent_by) ts = tsum (fx_log got_by) ts + mset (fx_contents (fx_chan s)))"
proof -
  from fx_deliver.inv_reach [OF fx_ledger_start [OF assms(1)] assms(2)] have b: "fx_books s ts"
    by (simp add: fx_ledger.simps)
  have le: "tsum (fx_log f) ts \<subseteq># tsum (fx_book f (frames s)) ts" for f
    by (rule tsum_subset_mset) (rule log_le_book)
  have fin: "tsum (fx_log f) ts = tsum (fx_book f (frames s)) ts" if all: "\<forall>t \<in> set ts. fx_finished t" for f
  proof (rule arg_cong [where f = sum_list], rule map_cong [OF refl])
    fix t
    assume "t \<in> set ts"
    with all have "fx_finished t" by blast
    then show "fx_log f t = fx_book f (frames s) t" by (cases t) auto
  qed
  from b have given: "given s = taken s @ fx_contents (fx_chan s)"
    and sums: "tsum (fx_book sent_by (frames s)) ts = mset (given s)" "tsum (fx_book got_by (frames s)) ts = mset (taken s)"
    unfolding fx_books_def by blast+
  have "tsum (fx_log sent_by) ts = tsum (fx_log got_by) ts + mset (fx_contents (fx_chan s))"
    if "\<forall>t \<in> set ts. fx_finished t"
    using fin [OF that, of sent_by] fin [OF that, of got_by] by (simp add: sums given)
  with given le [of sent_by] le [of got_by] show ?thesis by (simp add: sums)
qed

text \<open>
  The same hand-over, and a cancel request for the sender that arrives when its item is already
  taken: the cancellation loses, and the send reports success.
\<close>

lemma cancel_race:
  "\<exists>s ts. pool_run (fx_step 0) (handoff_run @ [1, 1, 2, 0, 0, 0, 0]) (fx_start [], handoff_tasks) = Some (s, ts) \<and>
    ts = [FTask 0 [] FLock [(Send 7, Sent)], FTask 1 [] FLock [(Receive, Got 7)], EnvDone] \<and> f_count (fx_chan s) = 0"
  by (simp add: handoff_run_def handoff_tasks_def fx_run_defs)

theorem futex_delivers_witness:
  "\<exists>s ts. pool_reach (fx_step 0) (fx_start [], handoff_tasks) (s, ts) \<and> EnvDone \<in> set ts \<and>
    given s = taken s \<and> tsum (fx_log sent_by) ts = tsum (fx_log got_by) ts \<and> tsum (fx_log got_by) ts = {#7#}"
proof -
  obtain s ts where run: "pool_run (fx_step 0) (handoff_run @ [1, 1, 2, 0, 0, 0, 0]) (fx_start [], handoff_tasks) = Some (s, ts)"
    and ts: "ts = [FTask 0 [] FLock [(Send 7, Sent)], FTask 1 [] FLock [(Receive, Got 7)], EnvDone]"
    and count: "f_count (fx_chan s) = 0" using cancel_race by blast
  have "\<forall>t \<in> set ts. fx_finished t" "EnvDone \<in> set ts" "tsum (fx_log got_by) ts = {#7#}"
    by (simp_all add: ts log_sum_def)
  moreover have "fx_contents (fx_chan s) = []" using count by (simp add: fx_contents_def)
  ultimately show ?thesis
    using futex_delivers [OF handoff_fresh pool_run_reach [OF run]] pool_run_reach [OF run]
    by (intro exI [of _ s] exI [of _ ts]) simp
qed

end
