(* ===== verification/Futex_Progress.thy ===== *)
theory Futex_Progress
  imports Futex_Invariant
begin

text \<open>
  The futex channel neither runs for ever nor forgets a waiter, for any clients in any
  interleaving: every run is bounded, and in a run that cannot go on the calls that have not
  returned are all senders asleep at a full buffer or all receivers asleep at an empty one.
\<close>

section \<open>Where a run can stop\<close>

text \<open>A call asleep where it should be.\<close>

fun fx_blocked :: "'e fchan \<Rightarrow> 'e ftask \<Rightarrow> bool" where
  "fx_blocked c (FTask tid (Send v # cs) (FAsleep w) log) \<longleftrightarrow>
     w \<in> set (f_senders c) \<and> f_count c = f_capacity c \<and> f_receivers c = [] \<and> \<not> f_closed c"
| "fx_blocked c (FTask tid (Receive # cs) (FAsleep w) log) \<longleftrightarrow>
     w \<in> set (f_receivers c) \<and> f_count c = 0 \<and> f_senders c = [] \<and> \<not> f_closed c"
| "fx_blocked c t = False"

lemma inside_moves:
  assumes "fx_at fx_inside t \<noteq> 0"
  shows "fx_step junk s t \<noteq> None"
proof (cases t rule: ftask_cases)
  case (call tid c cs pc log)
  then have "fx_inside c pc \<noteq> 0" using assms by simp
  then have "fx_call_step junk tid s c pc \<noteq> None" by (cases pc) (auto split: prod.splits)
  with call show ?thesis by (auto split: option.splits sum.splits prod.splits)
qed (use assms in auto)

lemma stuck_unlocked:
  assumes "fx_inv (s, ts)" and "pool_stuck (fx_step junk) (s, ts)"
  shows "\<not> f_mutex (fx_chan s)" and "tsum (fx_at fx_inside) ts = 0"
proof -
  have "fx_at fx_inside t = 0" if "t \<in> set ts" for t
    using assms(2) inside_moves [of t junk s] that by (auto simp: pool_stuck_def)
  then show "tsum (fx_at fx_inside) ts = 0" by (rule tsum_zeroI)
  moreover have "tsum (fx_at fx_inside) ts = (if f_mutex (fx_chan s) then 1 else 0)"
    using assms(1) unfolding fx_inv.simps fx_sums_def by blast
  ultimately show "\<not> f_mutex (fx_chan s)" by (metis zero_neq_one)
qed

lemma unlocked_moves:
  assumes "\<not> f_mutex (fx_chan s)" and "fx_step junk s t = None" and "\<not> fx_finished t"
  shows "\<exists>tid c cs w log. t = FTask tid (c # cs) (FAsleep w) log \<and> w \<in> asleep s"
proof (cases t rule: ftask_cases)
  case (call tid c cs pc log)
  with assms have "fx_call_step junk tid s c pc = None" by (auto split: option.splits sum.splits)
  with assms(1) have "\<exists>w. pc = FAsleep w \<and> w \<in> asleep s"
    by (cases pc) (auto simp: lock_def split: if_splits prod.splits)
  with call show ?thesis by blast
qed (use assms in auto)

lemma sleeper_listed:
  assumes "fx_frame s w sd rc 0 0" and "w < length (frames s)" and "w \<in> asleep s"
  shows "sd \<noteq> 0 \<Longrightarrow> w \<in> set (f_senders (fx_chan s))" and "rc \<noteq> 0 \<Longrightarrow> w \<in> set (f_receivers (fx_chan s))"
proof -
  have one: "sd + rc \<le> 1" and lists: "w \<in> set (f_senders (fx_chan s)) \<longrightarrow> sd = 1" "w \<in> set (f_receivers (fx_chan s)) \<longrightarrow> rc = 1"
    and queued: "sd + rc \<noteq> 0 \<longrightarrow> w \<in> set (f_senders (fx_chan s)) \<union> set (f_receivers (fx_chan s))"
    using assms unfolding fx_frame_def by auto
  show "sd \<noteq> 0 \<Longrightarrow> w \<in> set (f_senders (fx_chan s))" using one lists queued by auto
  show "rc \<noteq> 0 \<Longrightarrow> w \<in> set (f_receivers (fx_chan s))" using one lists queued by auto
qed

lemma stuck_blocked:
  assumes inv: "fx_inv (s, ts)" and stuck: "pool_stuck (fx_step junk) (s, ts)" and t: "t \<in> set ts"
  shows "fx_finished t \<or> fx_blocked (fx_chan s) t"
proof (rule disjCI)
  assume "\<not> fx_blocked (fx_chan s) t"
  show "fx_finished t"
  proof (rule ccontr)
    assume unfinished: "\<not> fx_finished t"
    have "fx_step junk s t = None" using stuck t by (simp add: pool_stuck_def)
    from unlocked_moves [OF stuck_unlocked(1) [OF inv stuck] this unfinished]
    obtain tid c cs w log where c: "t = FTask tid (c # cs) (FAsleep w) log" "w \<in> asleep s" by blast
    from inv have lists': "fx_lists (fx_chan s) (tsum (fx_at fx_closing) ts)" and knows: "fx_knows s t"
      and frame': "fx_frame s w (tsum (fx_at (fx_sends w)) ts) (tsum (fx_at (fx_receives w)) ts)
        (tsum (fx_at (fx_stores w)) ts) (tsum (fx_at (fx_wakes w)) ts)"
      unfolding fx_inv.simps fx_sums_def using t by blast+
    have zero: "tsum (fx_at (fx_stores w)) ts = 0" "tsum (fx_at (fx_wakes w)) ts = 0" "tsum (fx_at fx_closing) ts = 0"
      using fx_at_sum_le [of "fx_stores w" fx_inside ts] fx_at_sum_le [of "fx_wakes w" fx_inside ts]
        fx_at_sum_le [of fx_closing fx_inside ts] stuck_unlocked(2) [OF inv stuck]
      by (simp_all add: stores_inside closing_inside del: sum_list_eq_0_iff)
    from knows c have k: "c \<noteq> Close" "w < length (frames s)" by simp_all
    have lists: "fx_lists (fx_chan s) 0" using lists' unfolding zero(3) .
    have frame: "fx_frame s w (tsum (fx_at (fx_sends w)) ts) (tsum (fx_at (fx_receives w)) ts) 0 0"
      using frame' unfolding zero(1,2) .
    have own: "fx_sends w c (FAsleep w) \<le> tsum (fx_at (fx_sends w)) ts"
      "fx_receives w c (FAsleep w) \<le> tsum (fx_at (fx_receives w)) ts"
      using tsum_member_le [OF t, of "fx_at (fx_sends w)"] tsum_member_le [OF t, of "fx_at (fx_receives w)"] c(1) by simp_all
    note list = sleeper_listed [OF frame k(2) c(2)]
    show False
    proof (cases c)
      case (Send v)
      with own(1) have "w \<in> set (f_senders (fx_chan s))" by (intro list(1)) (simp del: sum_list_eq_0_iff)
      with lists Send c(1) \<open>\<not> fx_blocked (fx_chan s) t\<close> show False by (auto simp: fx_lists_def)
    next
      case Receive
      with own(2) have "w \<in> set (f_receivers (fx_chan s))" by (intro list(2)) (simp del: sum_list_eq_0_iff)
      with lists Receive c(1) \<open>\<not> fx_blocked (fx_chan s) t\<close> show False by (auto simp: fx_lists_def)
    qed (use k in simp)
  qed
qed

section \<open>How long a run can be\<close>

text \<open>
  The actions a task may still take: 17 for every call it has not begun, and what its current call
  has left. A waiter in a list counts 6, which pays for the two actions of the call that removes
  it; whoever wakes a sleeper pays 3 for the turn through the loop of \<open>park\<close> this may cost.
\<close>

fun fx_left :: "'e fsys \<Rightarrow> 'e fpc \<Rightarrow> nat" where
  "fx_left s FLock = 17"
| "fx_left s FBody = 16"
| "fx_left s FClosing = 2"
| "fx_left s (FStore w k) = (if k = None then 7 else 6)"
| "fx_left s (FWake w k) = (if k = None then 6 else 5)"
| "fx_left s (FUnlock r) = 1"
| "fx_left s (FUnlockPark w) = 9"
| "fx_left s (FLoad w) = (if w_futex (frames s ! w) = 0 then 8 else 3)"
| "fx_left s (FWait w) = (if w_futex (frames s ! w) = 0 then 7 else 4)"
| "fx_left s (FAsleep w) = (if w \<in> asleep s then 6 else 9)"
| "fx_left s (FCancelLock w) = 3"
| "fx_left s (FCancelBody w) = 2"
| "fx_left s (FSync w) = 2"
| "fx_left s (FSyncUnlock w) = 1"

fun fx_weight :: "'e fsys \<Rightarrow> 'e ftask \<Rightarrow> nat" where
  "fx_weight s (FTask tid todo pc log) = (case todo of [] \<Rightarrow> 0 | c # cs \<Rightarrow> 17 * length cs + fx_left s pc)"
| "fx_weight s (Canceller tid) = 1"
| "fx_weight s (Disturber w) = 4"
| "fx_weight s EnvDone = 0"

definition fx_waiters :: "'e fchan \<Rightarrow> nat" where
  "fx_waiters c = length (f_senders c) + length (f_receivers c)"

definition fx_total :: "('e fsys, 'e ftask) pool \<Rightarrow> nat" where
  "fx_total c = tsum (fx_weight (fst c)) (snd c) + 6 * fx_waiters (fx_chan (fst c))"

lemma weight_other:
  assumes "fx_knows s t" and "fx_keeps s s'" and "asleep s - {u} \<subseteq> asleep s'"
  shows "fx_weight s' t \<le> fx_weight s t + 3 * (fx_at (fx_sends u) t + fx_at (fx_receives u) t)"
proof (cases t rule: ftask_cases)
  case (call tid c cs pc log)
  have "fx_left s' pc \<le> fx_left s pc + 3 * (fx_sends u c pc + fx_receives u c pc)"
  proof (cases pc)
    case (FAsleep w)
    with assms(1,3) call show ?thesis by (cases c) auto
  next
    case (FLoad w)
    with assms(1,2) call show ?thesis by (auto simp: fx_keeps_def)
  next
    case (FWait w)
    with assms(1,2) call show ?thesis by (auto simp: fx_keeps_def)
  qed auto
  with call show ?thesis by simp
qed simp_all

lemma weight_others:
  assumes "\<forall>t \<in> set ts. fx_knows s t" and "fx_keeps s s'" and "asleep s - {u} \<subseteq> asleep s'"
    and "tsum (fx_at (fx_sends u)) ts + tsum (fx_at (fx_receives u)) ts \<le> n"
  shows "tsum (fx_weight s') ts \<le> tsum (fx_weight s) ts + 3 * n"
proof -
  have "tsum (fx_weight s') ts \<le>
      tsum (fx_weight s) ts + 3 * (tsum (fx_at (fx_sends u)) ts + tsum (fx_at (fx_receives u)) ts)"
    using assms(1) weight_other [OF _ assms(2,3)] by (induction ts) (auto, fastforce)
  also have "\<dots> \<le> tsum (fx_weight s) ts + 3 * n" by (intro add_left_mono mult_le_mono2 assms(4))
  finally show ?thesis .
qed

text \<open>The action's own task, and the lists.\<close>

lemma body_left:
  assumes "call_body junk s c = (s', pc)"
  shows "fx_left s' pc + 6 * fx_waiters (fx_chan s') \<le> 15 + 6 * fx_waiters (fx_chan s)"
proof (cases c)
  case (Send v)
  with assms show ?thesis
    by (auto simp: send_body_def Let_def on_frame_def fx_waiters_def split: if_splits list.splits)
next
  case Receive
  with assms show ?thesis
    by (auto simp: receive_body_def Let_def on_frame_def fx_waiters_def split: if_splits list.splits)
next
  case Close
  with assms show ?thesis by (auto simp: close_body_def Let_def fx_waiters_def split: if_splits)
qed

fun fx_rouses :: "'e fpc \<Rightarrow> nat" where
  "fx_rouses (FWake w k) = 1"
| "fx_rouses pc = 0"

lemma call_left:
  assumes "fx_call_step junk tid s c pc = Some (s', res)"
  shows "(case res of Inl pc' \<Rightarrow> fx_left s' pc' | Inr r \<Rightarrow> 0) + 6 * fx_waiters (fx_chan s') + 3 * fx_rouses pc <
    fx_left s pc + 6 * fx_waiters (fx_chan s)"
proof (cases pc)
  case FBody
  with assms body_left [of junk s c s'] show ?thesis by (fastforce split: prod.splits)
next
  case FClosing
  with assms show ?thesis
    by (auto simp: close_next_def Let_def on_frame_def fx_waiters_def split: list.splits)
next
  case (FCancelBody u)
  with assms show ?thesis
    by (cases c) (auto simp: on_frame_def fx_waiters_def length_remove1 split: if_splits)
qed (use assms in \<open>auto simp: lock_def unlock_def on_frame_def fx_waiters_def split: if_splits option.splits\<close>)

text \<open>Which sleeper an action wakes, if any, and how many calls wait as it.\<close>

fun fx_roused :: "'e fsys \<Rightarrow> 'e fpc \<Rightarrow> nat" where
  "fx_roused s (FWake w k) = w"
| "fx_roused s (FAsleep w) = w"
| "fx_roused s pc = length (frames s)"

lemma call_rouses:
  assumes "fx_call_step junk tid s c pc = Some (s', res)"
  shows "asleep s - {fx_roused s pc} \<subseteq> asleep s'"
proof (cases pc)
  case FBody
  with assms show ?thesis
    by (cases c) (auto simp: send_body_def receive_body_def close_body_def Let_def on_frame_def
        split: if_splits list.splits)
next
  case FClosing
  with assms show ?thesis by (auto simp: close_next_def Let_def on_frame_def split: list.splits)
qed (use assms in \<open>auto simp: lock_def unlock_def on_frame_def split: if_splits\<close>)

lemma weight_call:
  assumes inv: "fx_inv (s, ts)" and i: "i < length ts" "ts ! i = FTask tid (c # cs) pc log"
    and step: "fx_call_step junk tid s c pc = Some (s', res)"
    and t': "t' = (case res of Inl pc' \<Rightarrow> FTask tid (c # cs) pc' log | Inr r \<Rightarrow> FTask tid cs FLock (log @ [(c, r)]))"
  shows "fx_total (s', ts[i := t']) < fx_total (s, ts)"
proof -
  let ?u = "fx_roused s pc" and ?r = "\<lambda>f. tsum (fx_at f) (others i ts)"
  have at: "tsum (fx_at f) ts = ?r f + f c pc" for f using tsum_at [OF i(1), of "fx_at f"] i(2) by simp
  from inv have all: "\<forall>t \<in> set ts. fx_knows s t"
    and frame: "fx_frame s ?u (?r (fx_sends ?u) + fx_sends ?u c pc) (?r (fx_receives ?u) + fx_receives ?u c pc)
      (tsum (fx_at (fx_stores ?u)) ts) (tsum (fx_at (fx_wakes ?u)) ts)"
    unfolding fx_inv.simps fx_sums_def at by blast+
  have knows: "fx_knows s (FTask tid (c # cs) pc log)" using all i by (metis nth_mem)
  have one: "?r (fx_sends ?u) + fx_sends ?u c pc + (?r (fx_receives ?u) + fx_receives ?u c pc) \<le> 1"
    and none: "\<not> ?u < length (frames s) \<Longrightarrow> ?r (fx_sends ?u) + fx_sends ?u c pc + (?r (fx_receives ?u) + fx_receives ?u c pc) = 0"
    using frame unfolding fx_frame_def by blast+
  have "?r (fx_sends ?u) + ?r (fx_receives ?u) \<le> fx_rouses pc"
  proof (cases pc)
    case (FWake w k)
    with one show ?thesis by (simp del: sum_list_eq_0_iff)
  next
    case (FAsleep w)
    then have "fx_sends ?u c pc + fx_receives ?u c pc = 1" using knows by (cases c) auto
    with one show ?thesis by (simp del: sum_list_eq_0_iff)
  qed (use none in \<open>simp_all del: sum_list_eq_0_iff\<close>)
  moreover have "\<forall>t \<in> set (others i ts). fx_knows s t" using all others_subset [of i ts] by blast
  ultimately have "tsum (fx_weight s') (others i ts) \<le> tsum (fx_weight s) (others i ts) + 3 * fx_rouses pc"
    using weight_others [OF _ keeps_call [OF step] call_rouses [OF step]] by blast
  moreover have "fx_weight s' t' + 6 * fx_waiters (fx_chan s') + 3 * fx_rouses pc <
      fx_weight s (FTask tid (c # cs) pc log) + 6 * fx_waiters (fx_chan s)"
    using call_left [OF step] by (cases res; cases cs) (auto simp: t')
  moreover have "tsum (fx_weight s) ts = tsum (fx_weight s) (others i ts) + fx_weight s (FTask tid (c # cs) pc log)"
    using tsum_at [OF i(1), of "fx_weight s"] i(2) by simp
  moreover have "tsum (fx_weight s') (ts[i := t']) = tsum (fx_weight s') (others i ts) + fx_weight s' t'"
    using tsum_upd [OF i(1), of "fx_weight s'" t' "[]"] by simp
  ultimately show ?thesis unfolding fx_total_def fst_conv snd_conv by linarith
qed

lemma weight_env:
  assumes inv: "fx_inv (s, ts)" and i: "i < length ts"
    and env: "ts ! i = Canceller tid \<and> s' = s\<lparr>cancels := x\<rparr> \<or> ts ! i = Disturber w \<and> s' = s\<lparr>asleep := asleep s - {w}\<rparr>"
  shows "fx_total (s', ts[i := EnvDone]) < fx_total (s, ts)"
proof -
  define u where "u = (if ts ! i = Disturber w then w else length (frames s))"
  define n :: nat where "n = (if ts ! i = Disturber w then 1 else 0)"
  have at: "tsum (fx_at f) ts = tsum (fx_at f) (others i ts)" for f
    using tsum_at [OF i, of "fx_at f"] env by auto
  from inv have all: "\<forall>t \<in> set ts. fx_knows s t"
    and frame: "fx_frame s u (tsum (fx_at (fx_sends u)) (others i ts)) (tsum (fx_at (fx_receives u)) (others i ts))
      (tsum (fx_at (fx_stores u)) (others i ts)) (tsum (fx_at (fx_wakes u)) (others i ts))"
    unfolding fx_inv.simps fx_sums_def at by blast+
  let ?n = "tsum (fx_at (fx_sends u)) (others i ts) + tsum (fx_at (fx_receives u)) (others i ts)"
  have "?n \<le> 1" and "\<not> u < length (frames s) \<Longrightarrow> ?n = 0"
    using frame unfolding fx_frame_def by blast+
  then have "?n \<le> n" by (cases "ts ! i = Disturber w") (simp_all add: u_def n_def del: sum_list_eq_0_iff)
  moreover have "fx_keeps s s'" "asleep s - {u} \<subseteq> asleep s'" using env by (auto simp: u_def intro: keeps_same)
  moreover have "\<forall>t \<in> set (others i ts). fx_knows s t" using all others_subset [of i ts] by blast
  ultimately have "tsum (fx_weight s') (others i ts) \<le> tsum (fx_weight s) (others i ts) + 3 * n"
    using weight_others [of "others i ts" s s' u n] by blast
  moreover have "3 * n < fx_weight s (ts ! i)" using env by (auto simp: n_def)
  moreover have "fx_chan s' = fx_chan s" using env by auto
  ultimately show ?thesis
    using tsum_at [OF i, of "fx_weight s"] tsum_upd [OF i, of "fx_weight s'" EnvDone "[]"]
    by (simp add: fx_total_def)
qed

lemma fx_total_step:
  assumes "fx_inv c" and "pool_step (fx_step junk) c c'"
  shows "fx_total c' < fx_total c"
  using assms(2)
proof cases
  case (run_task i ts s s' t' new)
  from run_task(4) show ?thesis
  proof (cases rule: fx_step_cases)
    case (cancel tid)
    with run_task assms(1) weight_env [of s ts i tid s'] show ?thesis by auto
  next
    case (disturb w)
    with run_task assms(1) weight_env [of s ts i _ s' _ w] show ?thesis by auto
  next
    case (call tid c cs pc log res)
    with run_task assms(1) weight_call [of s ts i tid c cs pc log junk s' res t'] show ?thesis by simp
  qed
qed

interpretation fx_ends: task_terminates "fx_step junk" fx_inv fx_total
  by unfold_locales (rule fx_total_step)

section \<open>Properties\<close>

text \<open>
  C13. No wake-up of the futex channel is lost. When no task can move, every call has returned or is
  asleep for a reason: a send in the list of senders of a full channel, a receive in the list of
  receivers of an empty one, never both, and neither once the channel is closed. From every
  reachable state such a state is reached.
\<close>

theorem futex_no_lost_wakeup:
  assumes "\<forall>t \<in> set ts0. fx_fresh t" and "pool_reach (fx_step junk) (fx_start buffer, ts0) (s, ts)"
  shows "(pool_stuck (fx_step junk) (s, ts) \<longrightarrow> (\<forall>t \<in> set ts. fx_finished t \<or> fx_blocked (fx_chan s) t)) \<and>
    (\<exists>s' ts'. pool_reach (fx_step junk) (s, ts) (s', ts') \<and> pool_stuck (fx_step junk) (s', ts') \<and>
      (\<forall>t \<in> set ts'. fx_finished t \<or> fx_blocked (fx_chan s') t))"
proof -
  from fx.inv_reach [OF fx_inv_start [OF assms(1)] assms(2)] have inv: "fx_inv (s, ts)" .
  from fx_ends.reaches_stuck [OF inv, of junk] obtain s' ts'
    where stuck: "pool_reach (fx_step junk) (s, ts) (s', ts')" "pool_stuck (fx_step junk) (s', ts')" by auto
  from fx.inv_reach [OF inv stuck(1)] have inv': "fx_inv (s', ts')" .
  show ?thesis using stuck_blocked [OF inv] stuck_blocked [OF inv'] stuck by blast
qed

theorem futex_no_lost_wakeup_witness:
  "\<exists>s ts. pool_reach (fx_step 0) (fx_start [], [FTask 0 [Receive] FLock [], FTask 1 [Close] FLock [], Disturber 0]) (s, ts) \<and>
    pool_stuck (fx_step 0) (s, ts) \<and> (\<forall>t \<in> set ts. fx_finished t \<or> fx_blocked (fx_chan s) t)"
proof -
  have "\<forall>t \<in> set [FTask 0 [Receive] FLock [], FTask 1 [Close] FLock [], Disturber 0]. fx_fresh t" by simp
  from futex_no_lost_wakeup [OF this rtranclp.rtrancl_refl, of 0 "[]"] show ?thesis by blast
qed

text \<open>
  The futex channel does not run for ever: whatever the interleaving, a run takes at most 17
  actions for every call the clients make, 4 for every spurious wake-up and 1 for every cancel
  request.
\<close>

theorem futex_run_bounded:
  assumes "\<forall>t \<in> set ts0. fx_fresh t" and "pool_run (fx_step junk) sched (fx_start buffer, ts0) = Some c"
  shows "length sched \<le> (\<Sum>t\<leftarrow>ts0. case t of FTask tid todo pc log \<Rightarrow> 17 * length todo
    | Canceller tid \<Rightarrow> 1 | Disturber w \<Rightarrow> 4 | EnvDone \<Rightarrow> 0)"
proof -
  let ?n = "\<lambda>t. case t of FTask tid todo pc log \<Rightarrow> 17 * length todo | Canceller tid \<Rightarrow> 1 | Disturber w \<Rightarrow> 4 | EnvDone \<Rightarrow> 0"
  have "fx_weight (fx_start buffer) t \<le> ?n t" if "t \<in> set ts0" for t
    using assms(1) that by (cases t rule: ftask_cases) fastforce+
  then have "tsum (fx_weight (fx_start buffer)) ts0 \<le> tsum ?n ts0" by (rule tsum_le_mono)
  moreover have "fx_total (fx_start buffer, ts0) = tsum (fx_weight (fx_start buffer)) ts0"
    by (simp add: fx_total_def fx_waiters_def fx_start_def fx_init_def)
  ultimately show ?thesis using fx_ends.run_length [OF fx_inv_start [OF assms(1)] assms(2)] by linarith
qed

theorem futex_run_bounded_witness:
  "\<exists>c. pool_run (fx_step 0) (handoff_run @ [1, 1, 2, 0, 0, 0, 0]) (fx_start [], handoff_tasks) = Some c \<and>
    length (handoff_run @ [1, 1, 2, 0, 0, 0, 0 :: nat]) \<le> 17 + 17 + 1"
proof -
  obtain c where c: "pool_run (fx_step 0) (handoff_run @ [1, 1, 2, 0, 0, 0, 0]) (fx_start [], handoff_tasks) = Some c"
    by (simp add: handoff_run_def handoff_tasks_def fx_run_defs)
  from futex_run_bounded [OF handoff_fresh this] c show ?thesis by (simp add: handoff_tasks_def)
qed

end
