(* ===== verification/Futex_Calls.thy ===== *)
theory Futex_Calls
  imports Futex_Delivery Futex_Progress
begin

text \<open>
  The calls of the futex channel as their caller sees them: when the result of a call is decided,
  and that the decision is the one of a queue. \<open>fx_result\<close> is the result a call is certain of; the
  lemmas say which actions decide it, for the acting call and for the waiter it serves, and that a
  call only returns \<open>Closed\<close> on a closed channel. A program that uses the channel needs no more.
\<close>

section \<open>Closed means closed\<close>

abbreviation fx_shut :: "'e fsys \<Rightarrow> bool" where
  "fx_shut s \<equiv> f_closed (fx_chan s)"

fun fx_told :: "'e fsys \<Rightarrow> 'e ftask \<Rightarrow> bool" where
  "fx_told s (FTask tid (c # cs) pc log) \<longleftrightarrow>
     (\<forall>w. fx_waiter pc = Some w \<and> \<not> w_queued (frames s ! w) \<and> \<not> w_done (frames s ! w) \<longrightarrow> fx_shut s) \<and>
     (fx_closing c pc \<noteq> 0 \<or> fx_result (frames s) c pc \<in> {Some WasClosed, Some ClosedIt} \<longrightarrow> fx_shut s)"
| "fx_told s t = True"

lemma body_release:
  assumes "call_body junk s c = (s', pc) \<or> close_next s = (s', pc) \<and> fx_shut s" and "w < length (frames s)"
    and "\<not> w_queued (frames s' ! w)" and "\<not> w_done (frames s' ! w)"
  shows "\<not> w_queued (frames s ! w) \<and> \<not> w_done (frames s ! w) \<or> fx_shut s'"
  using assms(1)
proof
  assume body: "call_body junk s c = (s', pc)"
  show ?thesis
  proof (cases c)
    case (Send v)
    with body assms(2-4) show ?thesis
      by (auto simp: send_body_def Let_def on_frame_def nth_append nth_upd split: if_splits list.splits)
  next
    case Receive
    with body assms(2-4) show ?thesis
      by (auto simp: receive_body_def Let_def on_frame_def nth_append nth_upd split: if_splits list.splits)
  next
    case Close
    with body assms(2-4) show ?thesis by (auto simp: close_body_def Let_def split: if_splits)
  qed
next
  assume "close_next s = (s', pc) \<and> fx_shut s"
  then have "fx_shut s'" by (auto simp: close_next_def Let_def on_frame_def split: list.splits)
  then show ?thesis ..
qed

lemma shut_body:
  assumes "call_body junk s c = (s', pc) \<or> close_next s = (s', pc)" and "fx_shut s"
  shows "fx_shut s'"
  using assms
  by (cases c) (auto simp: send_body_def receive_body_def close_body_def close_next_def Let_def on_frame_def
      split: if_splits list.splits)

lemma shut_call:
  assumes "fx_call_step junk tid s c pc = Some (s', res)" and "fx_shut s"
  shows "fx_shut s'"
proof (cases pc)
  case FBody
  with assms shut_body [of junk s c s'] show ?thesis by (auto split: prod.splits)
next
  case FClosing
  with assms shut_body [of junk s c s'] show ?thesis by (auto split: prod.splits)
next
  case (FCancelBody u)
  with assms show ?thesis by (cases c) (auto simp: on_frame_def split: if_splits)
qed (use assms in \<open>auto simp: lock_def unlock_def on_frame_def split: if_splits\<close>)

text \<open>An action leaves a waiter of another call undecided only if it was, or the channel is closed.\<close>

lemma call_release:
  assumes step: "fx_call_step junk tid s c pc = Some (s', res)" and "fx_told s (FTask tid (c # cs) pc log)"
    and "w < length (frames s)" and "fx_waiter pc \<noteq> Some w"
    and "\<not> w_queued (frames s' ! w)" and "\<not> w_done (frames s' ! w)"
  shows "\<not> w_queued (frames s ! w) \<and> \<not> w_done (frames s ! w) \<or> fx_shut s'"
proof (cases pc)
  case FBody
  with step body_release [of junk s c s' _ w] assms(3,5,6) show ?thesis by (auto split: prod.splits)
next
  case FClosing
  with step body_release [of junk s c s' _ w] assms(2,3,5,6) show ?thesis by (auto split: prod.splits)
next
  case (FStore u k)
  with assms(1,3,5,6) show ?thesis by (cases "u = w") (auto simp: on_frame_def)
next
  case (FCancelBody u)
  with assms(1,3,4,5,6) show ?thesis by (auto simp: on_frame_def split: if_splits)
qed (use step assms(5,6) in \<open>auto simp: lock_def unlock_def split: if_splits\<close>)

text \<open>The result of a call that is decided stays, and a call returns what was decided.\<close>

lemma body_result:
  assumes "call_body junk s c = (s', pc)" and "fx_result (frames s') c pc \<in> {Some WasClosed, Some ClosedIt}"
  shows "fx_shut s'"
proof (cases c)
  case (Send v)
  with assms show ?thesis
    by (auto simp: send_body_def Let_def on_frame_def new_waiter_def nth_append split: if_splits list.splits)
next
  case Receive
  with assms show ?thesis
    by (auto simp: receive_body_def Let_def on_frame_def new_waiter_def nth_append split: if_splits list.splits)
next
  case Close
  with assms show ?thesis by (auto simp: close_body_def Let_def split: if_splits)
qed

lemma body_waiter:
  assumes "call_body junk s c = (s', pc)" and "fx_waiter pc = Some w"
  shows "w_queued (frames s' ! w)"
proof (cases c)
  case (Send v)
  with assms show ?thesis
    by (auto simp: send_body_def Let_def on_frame_def new_waiter_def nth_append split: if_splits list.splits)
next
  case Receive
  with assms show ?thesis
    by (auto simp: receive_body_def Let_def on_frame_def new_waiter_def nth_append split: if_splits list.splits)
next
  case Close
  with assms show ?thesis by (auto simp: close_body_def Let_def split: if_splits)
qed

fun fx_calm :: "'e fpc \<Rightarrow> bool" where
  "fx_calm (FCancelLock w) = False"
| "fx_calm (FCancelBody w) = False"
| "fx_calm (FStore w k) = (k \<noteq> Some WasCanceled)"
| "fx_calm (FWake w k) = (k \<noteq> Some WasCanceled)"
| "fx_calm (FUnlock r) = (r \<noteq> WasCanceled)"
| "fx_calm pc = True"

text \<open>Without cancel requests, an action other than \<open>FBody\<close>, as its caller sees it.\<close>

lemma call_decides:
  assumes step: "fx_call_step junk tid s c pc = Some (s', res)" and "pc \<noteq> FBody" and "fx_calm pc" and "tid \<notin> cancels s"
    and knows: "fx_knows s (FTask tid (c # cs) pc log)" and told: "fx_told s (FTask tid (c # cs) pc log)"
    and steady: "fx_steady s s'"
  shows "case res of Inl pc' \<Rightarrow> fx_calm pc' \<and> (fx_result (frames s') c pc' = fx_result (frames s) c pc \<or>
        c = Close \<and> fx_result (frames s) c pc = None \<and> fx_result (frames s') c pc' = Some ClosedIt \<and> fx_shut s')
    | Inr r \<Rightarrow> r \<noteq> WasCanceled \<and> (fx_result (frames s) c pc = Some r \<or>
        fx_result (frames s) c pc = None \<and> r = WasClosed \<and> c \<noteq> Close \<and> fx_shut s)"
proof (cases pc)
  case FClosing
  with step knows told show ?thesis
    by (auto simp: close_next_def Let_def on_frame_def split: list.splits)
next
  case (FWake w k)
  with step assms(3) show ?thesis by (auto split: option.splits)
next
  case (FSyncUnlock w)
  with step knows told show ?thesis by (cases c) (auto simp: waiting_result)
qed (use step assms(2-4) in \<open>auto simp: waiting_result lock_def unlock_def split: if_splits\<close>)

lemma shut_same:
  assumes "fx_call_step junk tid s c pc = Some (s', res)" and "pc \<noteq> FBody"
  shows "fx_shut s' = fx_shut s"
proof (cases pc)
  case FClosing
  with assms show ?thesis by (auto simp: close_next_def Let_def on_frame_def split: list.splits)
next
  case (FCancelBody u)
  with assms show ?thesis by (cases c) (auto simp: on_frame_def split: if_splits)
qed (use assms in \<open>auto simp: lock_def unlock_def on_frame_def split: if_splits\<close>)

lemma told_result:
  assumes "fx_told s (FTask tid (c # cs) pc log)" and "fx_result (frames s) c pc \<in> {Some WasClosed, Some ClosedIt}"
  shows "fx_shut s"
  using assms unfolding fx_told.simps by blast

text \<open>That calls are only told the truth about the channel is kept by every action.\<close>

lemma told_own:
  assumes step: "fx_call_step junk tid s c pc = Some (s', Inl pc')"
    and knows: "fx_knows s (FTask tid (c # cs) pc log)" and told: "fx_told s (FTask tid (c # cs) pc log)"
  shows "fx_told s' (FTask tid (c # cs) pc' log)"
proof (cases pc)
  case FBody
  with step have b: "call_body junk s c = (s', pc')" by (auto split: prod.splits)
  have "fx_shut s'" if "fx_closing c pc' \<noteq> 0"
    using b that by (cases c) (auto simp: send_body_def receive_body_def close_body_def Let_def on_frame_def
        split: if_splits list.splits)
  with body_result [OF b] body_waiter [OF b] show ?thesis by auto
next
  case FClosing
  with step told show ?thesis
    by (auto simp: close_next_def Let_def on_frame_def split: list.splits)
next
  case (FStore w k)
  with step told show ?thesis by (cases k) (auto simp: on_frame_def)
next
  case (FWake w k)
  with step told show ?thesis by (cases k) auto
next
  case (FCancelBody w)
  with step told show ?thesis by (cases c) (auto simp: on_frame_def waiting_result split: if_splits)
qed (use step told in \<open>auto simp: waiting_result lock_def unlock_def split: if_splits\<close>)

lemma told_other:
  assumes step: "fx_call_step junk tid s c pc = Some (s', res)" and own: "fx_told s (FTask tid (c # cs) pc log)"
    and knows: "fx_knows s t" and told: "fx_told s t"
    and apart: "\<And>w. fx_waiter pc = Some w \<Longrightarrow> fx_at (fx_sends w) t + fx_at (fx_receives w) t = 0"
  shows "fx_told s' t"
proof (cases t rule: ftask_cases)
  case (call tid' d ds pc' log')
  note told = told [unfolded call fx_told.simps]
  show ?thesis
    unfolding call fx_told.simps
  proof (intro conjI allI impI)
    fix w
    assume w: "fx_waiter pc' = Some w \<and> \<not> w_queued (frames s' ! w) \<and> \<not> w_done (frames s' ! w)"
    with knows call have k: "d \<noteq> Close" "w < length (frames s)" by simp_all
    then have "fx_sends w d pc' + fx_receives w d pc' = 1" using w by (cases d) auto
    with apart [of w] call have "fx_waiter pc \<noteq> Some w" by auto
    from call_release [OF step own k(2) this] w told have "fx_shut s \<or> fx_shut s'" by blast
    with shut_call [OF step] show "fx_shut s'" by blast
  next
    assume r: "fx_closing d pc' \<noteq> 0 \<or> fx_result (frames s') d pc' \<in> {Some WasClosed, Some ClosedIt}"
    have "fx_closing d pc' \<noteq> 0 \<or> fx_result (frames s) d pc' \<in> {Some WasClosed, Some ClosedIt}"
    proof (cases "fx_waiter pc'")
      case None
      with r no_waiter_result [OF None, of "frames s'" d "frames s"] show ?thesis by simp
    next
      case (Some w)
      with knows call have "d \<noteq> Close" by simp
      with r show ?thesis by (cases d) (auto simp: waiting_result [OF Some] split: if_splits)
    qed
    with told shut_call [OF step] show "fx_shut s'" by blast
  qed
qed simp_all

section \<open>Deciding\<close>

text \<open>
  What the body of a call decides, on an open channel that no other call holds: a send gives its
  item to the waiting receiver or to the buffer, a receive takes the first item of the buffer.
\<close>

lemma send_decides:
  assumes "send_body s v = (s', pc)" and "fx_ring (fx_chan s)" and "\<not> fx_shut s" and "f_count (fx_chan s) < f_capacity (fx_chan s)"
  shows "fx_result (frames s') (Send v) pc = Some Sent \<and> given s' = given s @ [v] \<and> fx_calm pc \<and> \<not> fx_shut s' \<and> cancels s' = cancels s \<and>
    f_capacity (fx_chan s') = f_capacity (fx_chan s) \<and>
    (f_receivers (fx_chan s) = [] \<and> frames s' = frames s \<and> fx_contents (fx_chan s') = fx_contents (fx_chan s) @ [v] \<or>
     (\<exists>r rs. f_receivers (fx_chan s) = r # rs \<and> frames s' = (frames s)[r := hand_over v (frames s ! r)] \<and>
       fx_contents (fx_chan s') = fx_contents (fx_chan s)))"
  using assms push_ring(2) [OF assms(2), of v]
  by (auto simp: send_body_def Let_def on_frame_def split: if_splits list.splits)

lemma receive_decides:
  assumes "receive_body junk s = (s', pc)" and "fx_ring (fx_chan s)" and "f_senders (fx_chan s) = []"
  shows "given s' = given s \<and> fx_calm pc \<and> fx_shut s' = fx_shut s \<and> cancels s' = cancels s \<and> f_capacity (fx_chan s') = f_capacity (fx_chan s) \<and>
    (case fx_contents (fx_chan s) of
       x # xs \<Rightarrow> fx_result (frames s') Receive pc = Some (Got x) \<and> fx_contents (fx_chan s') = xs \<and> frames s' = frames s
     | [] \<Rightarrow> fx_contents (fx_chan s') = [] \<and>
         (if fx_shut s then fx_result (frames s') Receive pc = Some WasClosed \<and> frames s' = frames s
          else fx_result (frames s') Receive pc = None \<and> frames s' = frames s @ [new_waiter junk]))"
proof (cases "f_count (fx_chan s)")
  case 0
  then have "fx_contents (fx_chan s) = []" by (simp add: fx_contents_def)
  with 0 assms show ?thesis
    by (auto simp: receive_body_def Let_def new_waiter_def nth_append split: if_splits)
next
  case (Suc n)
  with assms pop_ring(2) [OF assms(2)] show ?thesis
    by (auto simp: receive_body_def Let_def split: if_splits)
qed

lemma close_decides:
  assumes "close_body s = (s', pc)"
  shows "given s' = given s \<and> fx_calm pc \<and> fx_shut s' \<and> cancels s' = cancels s \<and> f_capacity (fx_chan s') = f_capacity (fx_chan s) \<and>
    frames s' = frames s \<and> fx_contents (fx_chan s') = fx_contents (fx_chan s) \<and>
    fx_result (frames s') Close pc = (if fx_shut s then Some ClosedIt else None)"
  using assms by (auto simp: close_body_def Let_def split: if_splits)

section \<open>A channel and its callers\<close>

text \<open>The whole invariant of a channel whose callers nobody cancels.\<close>

definition fx_good :: "'e fsys \<Rightarrow> 'e ftask list \<Rightarrow> bool" where
  "fx_good s ts \<longleftrightarrow> fx_ledger (s, ts) \<and> (\<forall>t \<in> set ts. fx_told s t) \<and> cancels s = {}"

lemma cancels_body:
  assumes "call_body junk s c = (s', pc) \<or> close_next s = (s', pc)"
  shows "cancels s' = cancels s" and "f_capacity (fx_chan s') = f_capacity (fx_chan s)"
  using assms
  by (cases c; auto simp: send_body_def receive_body_def close_body_def close_next_def Let_def on_frame_def
      split: if_splits list.splits)+

lemma cancels_call:
  assumes "fx_call_step junk tid s c pc = Some (s', res)"
  shows "cancels s' \<subseteq> cancels s" and "f_capacity (fx_chan s') = f_capacity (fx_chan s)"
proof -
  have "cancels s' \<subseteq> cancels s \<and> f_capacity (fx_chan s') = f_capacity (fx_chan s)"
  proof (cases pc)
    case FBody
    with assms cancels_body [of junk s c s'] show ?thesis by (auto split: prod.splits)
  next
    case FClosing
    with assms cancels_body [of junk s c s'] show ?thesis by (auto split: prod.splits)
  next
    case (FCancelBody w)
    with assms show ?thesis by (cases c) (auto simp: on_frame_def split: if_splits)
  qed (use assms in \<open>auto simp: lock_def unlock_def on_frame_def split: if_splits\<close>)
  then show "cancels s' \<subseteq> cancels s" "f_capacity (fx_chan s') = f_capacity (fx_chan s)" by blast+
qed

lemma ledger_frame:
  assumes "fx_ledger (s, ts)"
  shows "fx_frame s w (tsum (fx_at (fx_sends w)) ts) (tsum (fx_at (fx_receives w)) ts)
    (tsum (fx_at (fx_stores w)) ts) (tsum (fx_at (fx_wakes w)) ts)"
    and "t \<in> set ts \<Longrightarrow> fx_knows s t"
  using assms unfolding fx_ledger.simps fx_inv.simps fx_sums_def by blast+

lemma good_call:
  assumes good: "fx_good s ts" and i: "i < length ts" "ts ! i = FTask tid (c # cs) pc log"
    and step: "fx_call_step junk tid s c pc = Some (s', res)"
    and t': "t' = (case res of Inl pc' \<Rightarrow> FTask tid (c # cs) pc' log | Inr r \<Rightarrow> FTask tid cs FLock (log @ [(c, r)]))"
  shows "fx_good s' (ts[i := t'])"
proof -
  from good have ledger: "fx_ledger (s, ts)" and all: "\<forall>t \<in> set ts. fx_told s t" by (simp_all add: fx_good_def)
  have own: "fx_told s (FTask tid (c # cs) pc log)" and knows: "fx_knows s (FTask tid (c # cs) pc log)"
    using all ledger_frame(2) [OF ledger] i by (metis nth_mem)+
  have "fx_ledger (s', ts[i := t'])"
    using ledger fx_inv_call [OF _ i step t'] books_call [OF _ _ i step t'] by (simp add: fx_ledger.simps)
  moreover have "fx_told s' u" if u: "u \<in> set (others i ts)" for u
  proof (rule told_other [OF step own])
    show "fx_told s u" "fx_knows s u" using all ledger_frame(2) [OF ledger] u others_subset [of i ts] by blast+
    fix w
    assume w: "fx_waiter pc = Some w"
    let ?r = "\<lambda>f. tsum (fx_at f) (others i ts)"
    have at: "tsum (fx_at f) ts = ?r f + f c pc" for f using tsum_at [OF i(1), of "fx_at f"] i(2) by simp
    have "?r (fx_sends w) + fx_sends w c pc + (?r (fx_receives w) + fx_receives w c pc) \<le> 1"
      using ledger_frame(1) [OF ledger, of w] unfolding at fx_frame_def by blast
    moreover have "fx_sends w c pc + fx_receives w c pc = 1" using w knows by (cases c) auto
    ultimately show "fx_at (fx_sends w) u + fx_at (fx_receives w) u = 0"
      using tsum_member_le [OF u, of "fx_at (fx_sends w)"] tsum_member_le [OF u, of "fx_at (fx_receives w)"] by linarith
  qed
  moreover have "fx_told s' t'"
  proof (cases res)
    case (Inl pc')
    with told_own [OF step [unfolded Inl] knows own] show ?thesis by (simp add: t')
  next
    case (Inr r)
    then show ?thesis by (cases cs) (simp_all add: t')
  qed
  ultimately show ?thesis
    using i(1) good cancels_call(1) [OF step] by (auto simp: fx_good_def others_def upd_conv_take_nth_drop)
qed

lemma good_begin:
  assumes good: "fx_good s ts" and i: "i < length ts" "ts ! i = FTask tid [] pc log"
  shows "fx_good s (ts[i := FTask tid [c] FLock log])"
proof -
  let ?t = "FTask tid [c] FLock log"
  have at: "tsum (fx_at f) (ts[i := ?t]) = tsum (fx_at f) ts" if "f c FLock = 0" for f
    using tsum_at [OF i(1), of "fx_at f"] tsum_upd [OF i(1), of "fx_at f" ?t "[]"] i(2) that by simp
  have book: "tsum (fx_book f fr) (ts[i := ?t]) = tsum (fx_book f fr) ts" for f fr
    using tsum_at [OF i(1), of "fx_book f fr"] tsum_upd [OF i(1), of "fx_book f fr" ?t "[]"] i(2) by simp
  have sub: "set (ts[i := ?t]) \<subseteq> set ts \<union> {?t}" using set_update_subset_insert [of ts i ?t] by auto
  have "fx_ledger (s, ts[i := ?t])"
    using good sub unfolding fx_good_def fx_ledger.simps fx_inv.simps fx_sums_def fx_books_def book
    by (auto simp: at)
  then show ?thesis using good sub by (auto simp: fx_good_def)
qed

text \<open>The calls behind the waiters in the lists.\<close>

lemma listed_waiter:
  assumes "fx_ledger (s, ts)" and "w \<in> set (f_senders (fx_chan s)) \<union> set (f_receivers (fx_chan s))"
  shows "w < length (frames s)" and "\<not> w_done (frames s ! w)"
  using ledger_frame(1) [OF assms(1), of w] assms(2) unfolding fx_frame_def by blast+

lemma fx_at_member:
  assumes "tsum (fx_at f) ts = 1"
  shows "\<exists>tid c cs pc log. FTask tid (c # cs) pc log \<in> set ts \<and> f c pc \<noteq> 0"
proof -
  have "\<exists>t \<in> set ts. fx_at f t \<noteq> 0"
  proof (rule ccontr)
    assume "\<not> ?thesis"
    then have "tsum (fx_at f) ts = 0" by (intro tsum_zeroI) blast
    with assms show False by simp
  qed
  then obtain t where t: "t \<in> set ts" "fx_at f t \<noteq> 0" by blast
  then show ?thesis
  proof (cases t rule: ftask_cases)
    case (call tid c cs pc log)
    with t show ?thesis by (intro exI [of _ tid] exI [of _ c] exI [of _ cs] exI [of _ pc] exI [of _ log]) simp
  qed (use t in simp_all)
qed

lemma waiting_receiver:
  assumes "fx_ledger (s, ts)" and "r \<in> set (f_receivers (fx_chan s))"
  shows "\<exists>tid cs pc log. FTask tid (Receive # cs) pc log \<in> set ts \<and> fx_waiter pc = Some r"
proof -
  have "tsum (fx_at (fx_receives r)) ts = 1"
    using ledger_frame(1) [OF assms(1), of r] assms(2) unfolding fx_frame_def by blast
  from fx_at_member [OF this] obtain tid c cs pc log
    where t: "FTask tid (c # cs) pc log \<in> set ts" "fx_receives r c pc \<noteq> 0" by blast
  show ?thesis
  proof (cases c)
    case Receive
    with t show ?thesis by (intro exI [of _ tid] exI [of _ cs] exI [of _ pc] exI [of _ log]) (auto split: if_splits)
  qed (use t in simp_all)
qed

lemma waiting_sender:
  assumes "fx_ledger (s, ts)" and "w \<in> set (f_senders (fx_chan s))"
  shows "\<exists>tid v cs pc log. FTask tid (Send v # cs) pc log \<in> set ts \<and> fx_waiter pc = Some w"
proof -
  have "tsum (fx_at (fx_sends w)) ts = 1"
    using ledger_frame(1) [OF assms(1), of w] assms(2) unfolding fx_frame_def by blast
  from fx_at_member [OF this] obtain tid c cs pc log
    where t: "FTask tid (c # cs) pc log \<in> set ts" "fx_sends w c pc \<noteq> 0" by blast
  show ?thesis
  proof (cases c)
    case (Send v)
    with t show ?thesis by (intro exI [of _ tid] exI [of _ v] exI [of _ cs] exI [of _ pc] exI [of _ log]) (auto split: if_splits)
  qed (use t in simp_all)
qed

lemma ledger_lists:
  assumes "fx_ledger (s, ts)"
  shows "fx_ring (fx_chan s)" and "f_senders (fx_chan s) \<noteq> [] \<Longrightarrow> f_count (fx_chan s) = f_capacity (fx_chan s)"
    and "f_receivers (fx_chan s) \<noteq> [] \<Longrightarrow> f_count (fx_chan s) = 0"
  using assms unfolding fx_ledger.simps fx_inv.simps fx_sums_def fx_lists_def by blast+

text \<open>How an action looks to the other calls.\<close>

lemma other_grown:
  assumes "fx_knows s (FTask tid (d # ds) pd log)" and "frames s' = frames s \<or> frames s' = frames s @ [g] \<or> fx_steady s s'"
  shows "fx_result (frames s') d pd = fx_result (frames s) d pd"
  using assms by (intro result_same) (auto simp: fx_steady_def nth_append)

lemma other_handed:
  assumes "fx_knows s (FTask tid (d # ds) pd log)" and "frames s' = (frames s)[r := hand_over v (frames s ! r)]"
  shows "fx_result (frames s') d pd = (if fx_waiter pd = Some r then Some (waited d (hand_over v (frames s ! r)))
    else fx_result (frames s) d pd)"
proof (cases "fx_waiter pd = Some r")
  case True
  with assms show ?thesis by (simp add: waiting_result)
next
  case False
  with assms have "fx_result (frames s') d pd = fx_result (frames s) d pd"
    by (intro result_same) (auto simp: nth_upd)
  with False show ?thesis by simp
qed

end
