(* ===== verification/Ping_Pong_Protocol.thy ===== *)
theory Ping_Pong_Protocol
  imports Futex_Channel
begin

text \<open>
  The protocol of the Zig ping-pong (\<open>src/queue_ping_pong_futex.zig\<close>), apart from how its channels
  work: a call is decided in one step (\<open>pp_abs\<close>), and whatever the order of these steps, the two
  tasks send the numbers below the limit in turn and then close and return (\<open>pp_conf\<close>).
\<close>

section \<open>What the tasks do\<close>

text \<open>The next call of either task after result \<open>r\<close> of call \<open>c\<close>.\<close>

fun pp_next :: "u64 \<Rightarrow> u64 call \<Rightarrow> u64 result \<Rightarrow> u64 call option" where
  "pp_next limit (Send v) Sent = Some Receive"
| "pp_next limit Receive (Got val) = Some (if limit \<le> val + 1 then Close else Send (val + 1))"
| "pp_next limit c r = None"

section \<open>The protocol\<close>

text \<open>
  What is seen of the two tasks: the call each is in, with its result once it is decided, what the
  channels contain, which are closed and what has been sent on them.
\<close>

record pp_view =
  vcall :: "bool \<Rightarrow> (u64 call \<times> u64 result option) option"
  vcont :: "bool \<Rightarrow> u64 list"
  vshut :: "bool \<Rightarrow> bool"
  vsent :: "bool \<Rightarrow> u64 list"

inductive pp_abs :: "u64 \<Rightarrow> pp_view \<Rightarrow> pp_view \<Rightarrow> bool" for limit where
  stays: "pp_abs limit p p"
| buffers: "vcall p x = Some (Send v, None) \<Longrightarrow>
    pp_abs limit p (p\<lparr>vcall := (vcall p)(x := Some (Send v, Some Sent)), vcont := (vcont p)(x := vcont p x @ [v]),
      vsent := (vsent p)(x := vsent p x @ [v])\<rparr>)"
| hands: "vcall p x = Some (Send v, None) \<Longrightarrow> vcall p (\<not> x) = Some (Receive, None) \<Longrightarrow>
    pp_abs limit p (p\<lparr>vcall := (vcall p)(x := Some (Send v, Some Sent), (\<not> x) := Some (Receive, Some (Got v))),
      vsent := (vsent p)(x := vsent p x @ [v])\<rparr>)"
| takes: "vcall p x = Some (Receive, None) \<Longrightarrow> vcont p (\<not> x) = v # vs \<Longrightarrow>
    pp_abs limit p (p\<lparr>vcall := (vcall p)(x := Some (Receive, Some (Got v))), vcont := (vcont p)(\<not> x := vs)\<rparr>)"
| finds_closed: "vcall p x = Some (Receive, None) \<Longrightarrow> vshut p (\<not> x) \<Longrightarrow>
    pp_abs limit p (p\<lparr>vcall := (vcall p)(x := Some (Receive, Some WasClosed))\<rparr>)"
| shuts: "vcall p x = Some (Close, None) \<Longrightarrow> pp_abs limit p (p\<lparr>vshut := (vshut p)(x := True)\<rparr>)"
| has_shut: "vcall p x = Some (Close, None) \<Longrightarrow> vshut p x \<Longrightarrow>
    pp_abs limit p (p\<lparr>vcall := (vcall p)(x := Some (Close, Some ClosedIt))\<rparr>)"
| returns: "vcall p x = Some (c, Some r) \<Longrightarrow>
    pp_abs limit p (p\<lparr>vcall := (vcall p)(x := map_option (\<lambda>c'. (c', None)) (pp_next limit c r))\<rparr>)"
| gives_up: "vcall p x = Some (Receive, None) \<Longrightarrow> vshut p (\<not> x) \<Longrightarrow>
    pp_abs limit p (p\<lparr>vcall := (vcall p)(x := None)\<rparr>)"

text \<open>The numbers below \<open>n\<close> that task A (the even ones) or B sends.\<close>

definition pp_msgs :: "bool \<Rightarrow> nat \<Rightarrow> u64 list" where
  "pp_msgs x n = map of_nat (filter (\<lambda>k. even k = x) [0..<n])"

lemma pp_msgs_Suc: "pp_msgs x (Suc n) = (if even n = x then pp_msgs x n @ [of_nat n] else pp_msgs x n)"
  by (simp add: pp_msgs_def)

text \<open>
  The task whose turn it is has number \<open>n\<close>; the other may still be returning from its last send.
  \<open>pp_turn\<close>: it has not sent yet. \<open>pp_flight\<close>: it has, and the other has not answered. \<open>pp_over\<close>:
  task \<open>y\<close> has the limit and closes its channel.
\<close>

definition pp_lag :: "pp_view \<Rightarrow> bool \<Rightarrow> bool" where
  "pp_lag p y \<longleftrightarrow> (\<exists>u. vcall p y = Some (Send u, Some Sent)) \<or> vcall p y = Some (Receive, None)"

definition pp_turn :: "u64 \<Rightarrow> pp_view \<Rightarrow> nat \<Rightarrow> bool \<Rightarrow> bool" where
  "pp_turn limit p n x \<longleftrightarrow> n < unat limit \<and> x = even n \<and> vcall p x = Some (Send (of_nat n), None) \<and> pp_lag p (\<not> x) \<and>
     (\<forall>z. vcont p z = [] \<and> \<not> vshut p z \<and> vsent p z = pp_msgs z n)"

definition pp_flight :: "u64 \<Rightarrow> pp_view \<Rightarrow> nat \<Rightarrow> bool \<Rightarrow> bool" where
  "pp_flight limit p n x \<longleftrightarrow> n < unat limit \<and> x = even n \<and> pp_lag p x \<and>
     (pp_lag p (\<not> x) \<and> vcont p x = [of_nat n] \<or> vcall p (\<not> x) = Some (Receive, Some (Got (of_nat n))) \<and> vcont p x = []) \<and>
     vcont p (\<not> x) = [] \<and> (\<forall>z. \<not> vshut p z \<and> vsent p z = pp_msgs z (Suc n))"

definition pp_over :: "u64 \<Rightarrow> pp_view \<Rightarrow> bool \<Rightarrow> bool" where
  "pp_over limit p y \<longleftrightarrow>
     (vcall p y = Some (Close, None) \<or> vcall p y \<in> {Some (Close, Some ClosedIt), None} \<and> vshut p y) \<and>
     (pp_lag p (\<not> y) \<or> vcall p (\<not> y) \<in> {Some (Receive, Some WasClosed), None} \<and> vshut p y) \<and>
     \<not> vshut p (\<not> y) \<and> (\<forall>z. vcont p z = [] \<and> vsent p z = pp_msgs z (unat limit))"

definition pp_conf :: "u64 \<Rightarrow> pp_view \<Rightarrow> bool" where
  "pp_conf limit p \<longleftrightarrow> (\<exists>n x. pp_turn limit p n x \<or> pp_flight limit p n x) \<or> (\<exists>y. pp_over limit p y)"

lemma all_bools: "(\<forall>z. P z) \<longleftrightarrow> P True \<and> P False"
  by (metis (full_types))

lemmas pp_defs = pp_turn_def pp_flight_def pp_over_def pp_lag_def all_bools pp_msgs_Suc

lemma turn_abs:
  assumes "pp_turn limit p n x" and "pp_abs limit p q"
  shows "pp_turn limit q n x \<or> pp_flight limit q n x"
  using assms(2)
proof cases
  case (buffers xa v)
  with assms(1) have "xa = x" "v = of_nat n" by (cases x; cases xa; auto simp: pp_defs)+
  with buffers assms(1) have "pp_flight limit q n x" by (cases x) (auto simp: pp_defs)
  then show ?thesis ..
next
  case (hands xa v)
  with assms(1) have "xa = x" "v = of_nat n" by (cases x; cases xa; auto simp: pp_defs)+
  with hands assms(1) have "pp_flight limit q n x" by (cases x) (auto simp: pp_defs)
  then show ?thesis ..
next
  case (returns xa c r)
  with assms(1) have "pp_turn limit q n x" by (cases x; cases xa) (auto simp: pp_defs)
  then show ?thesis ..
next
  case stays
  with assms(1) show ?thesis by simp
next
  case (takes xa v vs)
  with assms(1) show ?thesis by (cases x; cases xa) (auto simp: pp_defs)
next
  case (finds_closed xa)
  with assms(1) show ?thesis by (cases x; cases xa) (auto simp: pp_defs)
next
  case (shuts xa)
  with assms(1) show ?thesis by (cases x; cases xa) (auto simp: pp_defs)
next
  case (has_shut xa)
  with assms(1) show ?thesis by (cases x; cases xa) (auto simp: pp_defs)
next
  case (gives_up xa)
  with assms(1) show ?thesis by (cases x; cases xa) (auto simp: pp_defs)
qed

lemma next_number:
  fixes limit :: u64
  assumes "n < unat limit"
  shows "of_nat n + 1 = (of_nat (Suc n) :: u64)" and "limit \<le> of_nat (Suc n) \<longleftrightarrow> unat limit = Suc n"
proof -
  have "unat (of_nat (Suc n) :: u64) = Suc n" using assms by (intro of_nat_unat_le [of "Suc n" limit]) simp
  with assms show "limit \<le> of_nat (Suc n) \<longleftrightarrow> unat limit = Suc n" unfolding word_le_nat_alt by linarith
qed simp

lemma answer:
  assumes "pp_flight limit p n x" and "vcall p (\<not> x) = Some (Receive, Some (Got (of_nat n)))"
    and "q = p\<lparr>vcall := (vcall p)(\<not> x := map_option (\<lambda>c'. (c', None)) (pp_next limit Receive (Got (of_nat n))))\<rparr>"
  shows "pp_turn limit q (Suc n) (\<not> x) \<or> pp_over limit q (\<not> x)"
proof (cases "unat limit = Suc n")
  case True
  with assms next_number [of n limit] have "pp_over limit q (\<not> x)"
    by (cases x) (auto simp: pp_flight_def pp_over_def pp_lag_def all_bools simp del: of_nat_Suc)
  then show ?thesis ..
next
  case False
  with assms next_number [of n limit] have "pp_turn limit q (Suc n) (\<not> x)"
    by (cases x) (auto simp: pp_flight_def pp_turn_def pp_lag_def all_bools simp del: of_nat_Suc)
  then show ?thesis ..
qed

lemma flight_abs:
  assumes "pp_flight limit p n x" and "pp_abs limit p q"
  shows "pp_flight limit q n x \<or> pp_turn limit q (Suc n) (\<not> x) \<or> pp_over limit q (\<not> x)"
  using assms(2)
proof cases
  case (takes xa v vs)
  with assms(1) have "xa = (\<not> x)" by (cases x; cases xa; auto simp: pp_defs)
  with takes assms(1) have "pp_flight limit q n x"
    by (cases x) (auto simp: pp_defs)
  then show ?thesis ..
next
  case (returns xa c r)
  show ?thesis
  proof (cases "c = Receive")
    case True
    with returns assms(1) have "xa = (\<not> x)" "r = Got (of_nat n)"
      by (cases x; cases xa; auto simp: pp_defs)+
    with returns True assms(1) answer [of limit p n x q] show ?thesis by auto
  next
    case False
    with returns assms(1) have "pp_flight limit q n x"
      by (cases x; cases xa) (auto simp: pp_defs)
    then show ?thesis ..
  qed
next
  case stays
  with assms(1) show ?thesis by simp
next
  case (buffers xa v)
  with assms(1) show ?thesis by (cases x; cases xa) (auto simp: pp_defs)
next
  case (hands xa v)
  with assms(1) show ?thesis by (cases x; cases xa) (auto simp: pp_defs)
next
  case (finds_closed xa)
  with assms(1) show ?thesis by (cases x; cases xa) (auto simp: pp_defs)
next
  case (shuts xa)
  with assms(1) show ?thesis by (cases x; cases xa) (auto simp: pp_defs)
next
  case (has_shut xa)
  with assms(1) show ?thesis by (cases x; cases xa) (auto simp: pp_defs)
next
  case (gives_up xa)
  with assms(1) show ?thesis by (cases x; cases xa) (auto simp: pp_defs)
qed

lemma over_abs:
  assumes "pp_over limit p y" and "pp_abs limit p q"
  shows "pp_over limit q y"
  using assms(2)
proof cases
  case stays
  with assms(1) show ?thesis by simp
next
  case (buffers xa v)
  with assms(1) show ?thesis by (cases y; cases xa) (auto simp: pp_defs)
next
  case (hands xa v)
  with assms(1) show ?thesis by (cases y; cases xa) (auto simp: pp_defs)
next
  case (takes xa v vs)
  with assms(1) show ?thesis by (cases y; cases xa) (auto simp: pp_defs)
next
  case (finds_closed xa)
  with assms(1) show ?thesis by (cases y; cases xa) (auto simp: pp_defs)
next
  case (shuts xa)
  with assms(1) show ?thesis by (cases y; cases xa) (auto simp: pp_defs)
next
  case (has_shut xa)
  with assms(1) show ?thesis by (cases y; cases xa) (auto simp: pp_defs)
next
  case (returns xa c r)
  with assms(1) show ?thesis by (cases y; cases xa) (auto simp: pp_defs)
next
  case (gives_up xa)
  with assms(1) show ?thesis by (cases y; cases xa) (auto simp: pp_defs)
qed

lemma conf_abs:
  assumes "pp_conf limit p" and "pp_abs limit p q"
  shows "pp_conf limit q"
  using assms turn_abs [OF _ assms(2)] flight_abs [OF _ assms(2)] over_abs [OF _ assms(2)]
  unfolding pp_conf_def by blast


text \<open>A send that is not decided is the turn of its task.\<close>

lemma conf_sends:
  assumes "pp_conf limit p" and "vcall p x = Some (Send v, None)"
  shows "\<exists>n. pp_turn limit p n x"
proof -
  from assms(1) consider (turn) n z where "pp_turn limit p n z" | (flight) n z where "pp_flight limit p n z"
    | (over) y where "pp_over limit p y"
    unfolding pp_conf_def by blast
  then show ?thesis
  proof cases
    case turn
    with assms(2) have "z = x" by (cases z; cases x) (auto simp: pp_turn_def pp_lag_def)
    with turn show ?thesis by blast
  next
    case flight
    with assms(2) show ?thesis by (cases z; cases x) (auto simp: pp_flight_def pp_lag_def)
  next
    case over
    with assms(2) show ?thesis by (cases y; cases x) (auto simp: pp_over_def pp_lag_def)
  qed
qed


section \<open>How many calls are left\<close>

text \<open>Two for every number that has not been sent, and those the sent numbers still cause.\<close>

definition pp_owes :: "pp_view \<Rightarrow> bool \<Rightarrow> nat" where
  "pp_owes p x =
     (case vcall p x of Some (c, Some r) \<Rightarrow> (if r = Sent \<or> (\<exists>v. r = Got v) then 1 else 0) | _ \<Rightarrow> 0) + length (vcont p x)"

definition pp_calls :: "u64 \<Rightarrow> pp_view \<Rightarrow> nat" where
  "pp_calls limit p = 2 * (unat limit - (length (vsent p True) + length (vsent p False))) + pp_owes p True + pp_owes p False"

lemma length_msgs: "length (pp_msgs True n) + length (pp_msgs False n) = n"
  by (induction n) (auto simp: pp_msgs_Suc, auto simp: pp_msgs_def)

lemma conf_room:
  assumes "pp_conf limit p" and "vcall p x = Some (Send v, None)"
  shows "length (vsent p True) + length (vsent p False) < unat limit"
  using conf_sends [OF assms] length_msgs by (auto simp: pp_turn_def)

lemma abs_calls:
  assumes "pp_conf limit p" and "pp_abs limit p q"
  shows "pp_calls limit q \<le> pp_calls limit p"
  using assms(2)
proof cases
  case (buffers x v)
  with conf_room [OF assms(1), of x v] show ?thesis by (cases x) (auto simp: pp_calls_def pp_owes_def)
next
  case (hands x v)
  with conf_room [OF assms(1), of x v] show ?thesis by (cases x) (auto simp: pp_calls_def pp_owes_def)
next
  case (returns x c r)
  then show ?thesis by (cases x) (auto simp: pp_calls_def pp_owes_def split: option.splits)
next
  case (takes x v vs)
  then show ?thesis by (cases x) (auto simp: pp_calls_def pp_owes_def)
next
  case (finds_closed x)
  then show ?thesis by (cases x) (auto simp: pp_calls_def pp_owes_def)
next
  case (has_shut x)
  then show ?thesis by (cases x) (auto simp: pp_calls_def pp_owes_def)
next
  case (gives_up x)
  then show ?thesis by (cases x) (auto simp: pp_calls_def pp_owes_def)
qed (simp_all add: pp_calls_def pp_owes_def)

text \<open>A task that goes on to its next call owes one less.\<close>

lemma abs_begins:
  assumes "pp_abs limit p q" and "vcall p x = Some (c, u)" and "vcall q x = Some (c', u')" and "c' \<noteq> c"
  shows "pp_calls limit q < pp_calls limit p"
  using assms(1)
proof cases
  case (returns z d r)
  with assms(2-4) have z: "z = x" "d = c" "u = Some r" by (cases z; cases x; simp)+
  with returns assms(3) obtain c'' where "pp_next limit c r = Some c''" by auto
  then have "r = Sent \<or> (\<exists>v. r = Got v)" by (cases c; cases r) auto
  with returns z show ?thesis by (cases x) (auto simp: pp_calls_def pp_owes_def split: option.splits)
qed (use assms(2-4) in \<open>auto split: if_splits\<close>)

lemma next_differs: "pp_next limit c r = Some c' \<Longrightarrow> c' \<noteq> c"
  by (cases c; cases r) (auto split: if_splits)

section \<open>Where the protocol can stop\<close>

text \<open>Tasks that only wait for a number that is not there, or have returned: then both have returned.\<close>

lemma conf_stuck:
  assumes conf: "pp_conf limit p"
    and idle: "\<And>x. vcall p x = None \<or> vcall p x = Some (Receive, None) \<and> vcont p (\<not> x) = [] \<and> \<not> vshut p (\<not> x)"
  shows "vcall p x = None \<and> vcont p x = [] \<and> vsent p x = pp_msgs x (unat limit)"
proof -
  from conf consider (turn) n z where "pp_turn limit p n z" | (flight) n z where "pp_flight limit p n z"
    | (over) y where "pp_over limit p y"
    unfolding pp_conf_def by blast
  then show ?thesis
  proof cases
    case turn
    with idle [of z] show ?thesis unfolding pp_turn_def by fastforce
  next
    case flight
    with idle [of "\<not> z"] show ?thesis by (cases z) (auto simp: pp_flight_def pp_lag_def)
  next
    case over
    with idle [of y] idle [of "\<not> y"] show ?thesis by (cases y; cases x) (auto simp: pp_over_def pp_lag_def)
  qed
qed


lemma conf_sent:
  assumes "pp_conf limit p"
  shows "\<exists>n \<le> unat limit. (\<forall>z. vsent p z = pp_msgs z n) \<and> length (vcont p True) + length (vcont p False) \<le> 1 \<and>
    (\<forall>z y. vshut p z \<longrightarrow> n = unat limit \<and> vcont p y = [])"
proof -
  from assms consider (turn) n z where "pp_turn limit p n z" | (flight) n z where "pp_flight limit p n z"
    | (over) y where "pp_over limit p y"
    unfolding pp_conf_def by blast
  then show ?thesis
  proof cases
    case turn
    then show ?thesis by (intro exI [of _ n]) (simp add: pp_turn_def)
  next
    case flight
    then show ?thesis by (intro exI [of _ "Suc n"]) (cases z; auto simp: pp_flight_def)
  next
    case over
    then show ?thesis by (intro exI [of _ "unat limit"]) (simp add: pp_over_def)
  qed
qed

end
