(* ===== verification/Ping_Pong_Futex.thy ===== *)
theory Ping_Pong_Futex
  imports Futex_Calls Ping_Pong_Protocol
begin

text \<open>
  \<open>src/queue_ping_pong_futex.zig\<close>: two tasks bounce a number over two futex channels of capacity 1.
  Nothing is assumed of the channels: they are those of \<open>Futex_Channel\<close>, action by action. The
  proof goes through an abstract protocol (\<open>pp_abs\<close>), in which a call is decided in one step. The
  theorem: every run is bounded, and one that cannot go on has exchanged every number below the
  limit once, in order, and both tasks and \<open>main\<close> have returned.
\<close>

section \<open>The program\<close>

text \<open>
  \<open>chans True\<close> is \<open>a_to_b\<close>, on which task A sends, and \<open>chans False\<close> is \<open>b_to_a\<close>. \<open>running\<close> counts the
  tasks the group waits for. \<open>PPTask x c pc\<close> is task A (\<open>x\<close>) or B inside call \<open>c\<close>; \<open>PPReturned\<close>
  tells whether the task returned \<open>error.Canceled\<close>. The group starts its tasks concurrently.
\<close>

record pp_state =
  chans :: "bool \<Rightarrow> u64 fsys"
  running :: nat

datatype pp_task =
    PPStartA
  | PPStartB
  | PPAwait
  | PPExited
  | PPTask bool "u64 call" "u64 fpc"
  | PPReturned bool bool

definition pp_limit :: u64 where
  "pp_limit = 100000"

text \<open>The channel task \<open>x\<close> makes call \<open>c\<close> on.\<close>

definition pp_on :: "bool \<Rightarrow> u64 call \<Rightarrow> bool" where
  "pp_on x c = (if c = Receive then \<not> x else x)"

definition pp_id :: "bool \<Rightarrow> nat" where
  "pp_id x = (if x then 0 else 1)"

fun pp_step :: "u64 \<Rightarrow> u64 \<Rightarrow> (pp_state, pp_task) task_step" where
  "pp_step junk limit s (PPTask x c pc) =
     (case fx_call_step junk (pp_id x) (chans s (pp_on x c)) c pc of
        None \<Rightarrow> None
      | Some (f, Inl pc') \<Rightarrow> Some (s\<lparr>chans := (chans s)(pp_on x c := f)\<rparr>, PPTask x c pc', [])
      | Some (f, Inr r) \<Rightarrow>
          (case pp_next limit c r of
             Some c' \<Rightarrow> Some (s\<lparr>chans := (chans s)(pp_on x c := f)\<rparr>, PPTask x c' FLock, [])
           | None \<Rightarrow>
               Some (s\<lparr>chans := (chans s)(pp_on x c := f), running := running s - 1\<rparr>,
                 PPReturned x (r = WasCanceled), [])))"
| "pp_step junk limit s PPStartA = Some (s\<lparr>running := running s + 1\<rparr>, PPStartB, [PPTask True (Send 0) FLock])"
| "pp_step junk limit s PPStartB = Some (s\<lparr>running := running s + 1\<rparr>, PPAwait, [PPTask False Receive FLock])"
| "pp_step junk limit s PPAwait = (if running s = 0 then Some (s, PPExited, []) else None)"
| "pp_step junk limit s t = None"

definition pp_start :: "u64 \<Rightarrow> u64 \<Rightarrow> (pp_state, pp_task) pool" where
  "pp_start buf_a buf_b =
     (\<lparr>chans = (\<lambda>x. fx_start [if x then buf_a else buf_b]), running = 0\<rparr>, [PPStartA])"

fun pp_finished :: "pp_task \<Rightarrow> bool" where
  "pp_finished PPExited = True"
| "pp_finished (PPReturned x canceled) = True"
| "pp_finished t = False"

section \<open>The program follows the protocol\<close>

text \<open>Task \<open>t\<close> as a client of channel \<open>z\<close>, with the log of its calls.\<close>

definition pp_side :: "bool \<Rightarrow> bool \<Rightarrow> pp_task \<Rightarrow> (u64 call \<times> u64 result) list \<Rightarrow> u64 ftask" where
  "pp_side z x t log =
     (case t of PPTask _ c pc \<Rightarrow> if pp_on x c = z then FTask (pp_id x) [c] pc log else FTask (pp_id x) [] FLock log
      | _ \<Rightarrow> FTask (pp_id x) [] FLock log)"

definition pp_sides :: "bool \<Rightarrow> (bool \<Rightarrow> pp_task) \<Rightarrow> (bool \<Rightarrow> (u64 call \<times> u64 result) list) \<Rightarrow> u64 ftask list" where
  "pp_sides z f log = [pp_side z True (f True) (log True), pp_side z False (f False) (log False)]"

definition pp_chan :: "pp_state \<Rightarrow> (bool \<Rightarrow> pp_task) \<Rightarrow> bool \<Rightarrow> bool" where
  "pp_chan s f z \<longleftrightarrow> (\<exists>log. fx_good (chans s z) (pp_sides z f log)) \<and> f_capacity (fx_chan (chans s z)) = 1"

definition pp_see :: "pp_state \<Rightarrow> bool \<Rightarrow> pp_task \<Rightarrow> (u64 call \<times> u64 result option) option" where
  "pp_see s x t =
     (case t of PPTask _ c pc \<Rightarrow> Some (c, fx_result (frames (chans s (pp_on x c))) c pc) | _ \<Rightarrow> None)"

definition pp_look :: "pp_state \<Rightarrow> (bool \<Rightarrow> pp_task) \<Rightarrow> pp_view" where
  "pp_look s f =
     \<lparr>vcall = (\<lambda>x. pp_see s x (f x)), vcont = (\<lambda>z. fx_contents (fx_chan (chans s z))),
       vshut = (\<lambda>z. fx_shut (chans s z)), vsent = (\<lambda>z. given (chans s z))\<rparr>"

fun pp_calm :: "bool \<Rightarrow> pp_task \<Rightarrow> bool" where
  "pp_calm x (PPTask y c pc) \<longleftrightarrow> y = x \<and> fx_calm pc"
| "pp_calm x (PPReturned y canceled) \<longleftrightarrow> y = x \<and> \<not> canceled"
| "pp_calm x t = False"

definition pp_ok :: "u64 \<Rightarrow> pp_state \<Rightarrow> (bool \<Rightarrow> pp_task) \<Rightarrow> bool" where
  "pp_ok limit s f \<longleftrightarrow> (\<forall>z. pp_chan s f z) \<and> (\<forall>x. pp_calm x (f x)) \<and> pp_conf limit (pp_look s f)"

text \<open>The task after an action.\<close>

definition pp_then :: "u64 \<Rightarrow> bool \<Rightarrow> u64 call \<Rightarrow> u64 fpc + u64 result \<Rightarrow> pp_task" where
  "pp_then limit x c res =
     (case res of Inl pc' \<Rightarrow> PPTask x c pc'
      | Inr r \<Rightarrow> (case pp_next limit c r of Some c' \<Rightarrow> PPTask x c' FLock | None \<Rightarrow> PPReturned x (r = WasCanceled)))"

lemma pp_id_nth: "pp_sides z f log ! pp_id x = pp_side z x (f x) (log x)" "pp_id x < length (pp_sides z f log)"
  by (cases x; simp add: pp_sides_def pp_id_def)+

lemma pp_sides_upd:
  "(pp_sides z f log)[pp_id x := u] = pp_sides z f' log'"
  if "u = pp_side z x (f' x) (log' x)" "f' (\<not> x) = f (\<not> x)" "log' (\<not> x) = log (\<not> x)"
  using that by (cases x) (simp_all add: pp_sides_def pp_id_def)

lemma pp_side_in: "pp_side z x (f x) (log x) \<in> set (pp_sides z f log)"
  by (cases x) (simp_all add: pp_sides_def)

text \<open>A task that returns from a call is idle on its channel, or begins the next call there.\<close>

lemma chan_return:
  assumes good: "fx_good h ((pp_sides y f log)[pp_id x := FTask (pp_id x) [] FLock l])"
    and f': "f' = f(x := pp_then limit x c (Inr r))"
  shows "\<exists>log'. fx_good h (pp_sides y f' log')"
proof -
  let ?i = "pp_id x"
  let ?idle = "(pp_sides y f log)[?i := FTask ?i [] FLock l]"
  have idle: "?idle = pp_sides y f' (log(x := l))" if "\<And>c'. pp_next limit c r = Some c' \<Longrightarrow> pp_on x c' \<noteq> y"
    by (rule pp_sides_upd) (use that in \<open>auto simp: f' pp_then_def pp_side_def split: option.splits\<close>)
  show ?thesis
  proof (cases "\<exists>c'. pp_next limit c r = Some c' \<and> pp_on x c' = y")
    case True
    then obtain c' where c': "pp_next limit c r = Some c'" "pp_on x c' = y" by blast
    have "fx_good h (?idle[?i := FTask ?i [c'] FLock l])" by (rule good_begin [OF good]) (simp_all add: pp_id_nth)
    moreover have "?idle[?i := FTask ?i [c'] FLock l] = pp_sides y f' (log(x := l))"
      unfolding list_update_overwrite by (rule pp_sides_upd) (auto simp: f' pp_then_def pp_side_def c')
    ultimately show ?thesis by metis
  next
    case False
    with idle good show ?thesis by metis
  qed
qed

lemma chan_other:
  assumes good: "fx_good h (pp_sides y f log)" and fx: "f x = PPTask x c pc" and y: "pp_on x c \<noteq> y"
    and f': "f' = f(x := pp_then limit x c res)"
  shows "\<exists>log'. fx_good h (pp_sides y f' log')"
proof (cases res)
  case (Inl pc')
  have "pp_side y x (f' x) (log x) = pp_side y x (f x) (log x)"
    using y by (simp add: f' pp_then_def Inl pp_side_def fx)
  then have "pp_sides y f' log = pp_sides y f log" using f' by (cases x) (simp_all add: pp_sides_def)
  with good show ?thesis by metis
next
  case (Inr r)
  have "pp_sides y f log ! pp_id x = FTask (pp_id x) [] FLock (log x)" using y by (simp add: pp_id_nth pp_side_def fx)
  then have "(pp_sides y f log)[pp_id x := FTask (pp_id x) [] FLock (log x)] = pp_sides y f log" by (metis list_update_id)
  with good chan_return [of h y f log x "log x" f' limit c r] f' Inr show ?thesis by simp
qed

lemma pp_chan_call:
  assumes ok: "pp_chan s f y" and fx: "f x = PPTask x c pc" and step: "fx_call_step junk (pp_id x) (chans s (pp_on x c)) c pc = Some (g, res)"
    and s': "chans s' = (chans s)(pp_on x c := g)" and f': "f' = f(x := pp_then limit x c res)"
  shows "pp_chan s' f' y"
proof -
  from ok obtain log where good: "fx_good (chans s y) (pp_sides y f log)" and cap: "f_capacity (fx_chan (chans s y)) = 1"
    by (auto simp: pp_chan_def)
  let ?i = "pp_id x"
  show ?thesis
  proof (cases "pp_on x c = y")
    case True
    have i: "pp_sides y f log ! ?i = FTask ?i [c] pc (log x)" by (simp add: pp_id_nth pp_side_def fx True)
    note step = step [unfolded True]
    note nxt = good_call [OF good pp_id_nth(2) i step refl]
    have "\<exists>log'. fx_good g (pp_sides y f' log')"
    proof (cases res)
      case (Inl pc')
      have "(pp_sides y f log)[?i := FTask ?i [c] pc' (log x)] = pp_sides y f' log"
        by (rule pp_sides_upd) (auto simp: f' pp_then_def Inl pp_side_def True)
      with nxt Inl show ?thesis by auto
    next
      case (Inr r)
      with nxt chan_return [of g y f log x "log x @ [(c, r)]" f' limit c r] f' show ?thesis by simp
    qed
    moreover have "chans s' y = g" using s' True by simp
    ultimately show ?thesis using cap cancels_call(2) [OF step] by (simp add: pp_chan_def)
  next
    case False
    with chan_other [OF good fx False f'] cap s' show ?thesis by (simp add: pp_chan_def)
  qed
qed

text \<open>The view after an action.\<close>

lemma see_then:
  "chans s' (pp_on x c) = g \<Longrightarrow> pp_see s' x (pp_then limit x c res) =
    (case res of Inl pc' \<Rightarrow> Some (c, fx_result (frames g) c pc') | Inr r \<Rightarrow> map_option (\<lambda>c'. (c', None)) (pp_next limit c r))"
  by (auto simp: pp_see_def pp_then_def split: sum.splits option.splits)

lemma look_after:
  assumes "chans s' = (chans s)(y := g)" and "f' = f(x := t)"
    and "vcall q = (vcall (pp_look s f))(x := pp_see s' x t, \<not> x := pp_see s' (\<not> x) (f (\<not> x)))"
    and "vcont q = (vcont (pp_look s f))(y := fx_contents (fx_chan g))"
    and "vshut q = (vshut (pp_look s f))(y := fx_shut g)" and "vsent q = (vsent (pp_look s f))(y := given g)"
  shows "pp_look s' f' = q"
proof -
  have "pp_see s' z (f' z) = vcall q z" for z using assms(2,3) by (cases "z = x") auto
  with assms(1,4-6) show ?thesis by (simp add: pp_look_def fun_eq_iff)
qed

lemma see_other:
  assumes "fx_good (chans s y) (pp_sides y f log)" and "chans s' = (chans s)(y := g)" and "pp_calm x (f x)"
    and "frames g = frames (chans s y) \<or> frames g = frames (chans s y) @ [h] \<or> fx_steady (chans s y) g"
  shows "pp_see s' x (f x) = pp_see s x (f x)"
proof (cases "f x")
  case (PPTask x' d pd)
  show ?thesis
  proof (cases "pp_on x d = y")
    case True
    have "FTask (pp_id x) [d] pd (log x) \<in> set (pp_sides y f log)"
      using pp_side_in [of y x f log] PPTask True by (simp add: pp_side_def)
    with assms(1) ledger_frame(2) have "fx_knows (chans s y) (FTask (pp_id x) [d] pd (log x))"
      unfolding fx_good_def by blast
    from other_grown [OF this assms(4)] assms(2) PPTask True show ?thesis by (simp add: pp_see_def)
  next
    case False
    with assms(2) PPTask show ?thesis by (simp add: pp_see_def)
  qed
qed (simp_all add: pp_see_def)

text \<open>Only the other task can wait on the channel of a call that runs.\<close>

lemma pp_side_call:
  assumes "FTask tid (d # ds) pd l \<in> set (pp_sides y f log)"
  shows "\<exists>x x'. f x = PPTask x' d pd \<and> pp_on x d = y \<and> ds = [] \<and> tid = pp_id x \<and> l = log x"
  using assms by (auto simp: pp_sides_def pp_side_def split: pp_task.splits if_splits)


text \<open>One action is one step of the protocol; the bodies of the calls first.\<close>

lemma conf_send:
  assumes "pp_conf limit (pp_look s f)" and "vcall (pp_look s f) x = Some (Send v, None)"
  shows "fx_contents (fx_chan (chans s x)) = [] \<and> \<not> fx_shut (chans s x)"
  using conf_sends [OF assms] by (auto simp: pp_turn_def pp_look_def)

lemma own_call_in:
  assumes "f x = PPTask x c pc" and "fx_good (chans s (pp_on x c)) (pp_sides (pp_on x c) f log)"
  shows "FTask (pp_id x) [c] pc (log x) \<in> set (pp_sides (pp_on x c) f log)"
    and "fx_knows (chans s (pp_on x c)) (FTask (pp_id x) [c] pc (log x))"
    and "fx_told (chans s (pp_on x c)) (FTask (pp_id x) [c] pc (log x))"
proof -
  show i: "FTask (pp_id x) [c] pc (log x) \<in> set (pp_sides (pp_on x c) f log)"
    using pp_side_in [of "pp_on x c" x f log] assms(1) by (simp add: pp_side_def)
  with assms(2) show "fx_knows (chans s (pp_on x c)) (FTask (pp_id x) [c] pc (log x))"
    "fx_told (chans s (pp_on x c)) (FTask (pp_id x) [c] pc (log x))"
    using ledger_frame(2) unfolding fx_good_def by blast+
qed

lemma follow_send:
  assumes good: "fx_good (chans s x) (pp_sides x f log)" and cap: "f_capacity (fx_chan (chans s x)) = 1"
    and calm: "\<And>x. pp_calm x (f x)" and conf: "pp_conf limit (pp_look s f)"
    and fx: "f x = PPTask x (Send v) FBody" and body: "send_body (chans s x) v = (g, pc')"
    and s': "chans s' = (chans s)(x := g)"
  shows "pp_abs limit (pp_look s f) (pp_look s' (f(x := PPTask x (Send v) pc'))) \<and> fx_calm pc'"
proof -
  from good have ledger: "fx_ledger (chans s x, pp_sides x f log)" by (simp add: fx_good_def)
  let ?p = "pp_look s f" and ?q = "pp_look s' (f(x := PPTask x (Send v) pc'))"
  have on: "pp_on x (Send v) = x" by (simp add: pp_on_def)
  have call: "vcall ?p x = Some (Send v, None)" by (simp add: pp_look_def pp_see_def fx on)
  from conf_send [OF conf call] have free: "fx_contents (fx_chan (chans s x)) = []" "\<not> fx_shut (chans s x)" by blast+
  then have "f_count (fx_chan (chans s x)) < f_capacity (fx_chan (chans s x))"
    using cap length_fx_contents [of "fx_chan (chans s x)"] by simp
  note sent = send_decides [OF body ledger_lists(1) [OF ledger] free(2) this]
  have own: "pp_see s' x (PPTask x (Send v) pc') = Some (Send v, Some Sent)"
    using sent s' by (simp add: pp_see_def on)
  show ?thesis
  proof (cases "f_receivers (fx_chan (chans s x))")
    case Nil
    with sent have g: "frames g = frames (chans s x)" "fx_contents (fx_chan g) = fx_contents (fx_chan (chans s x)) @ [v]" by auto
    have "?q = ?p\<lparr>vcall := (vcall ?p)(x := Some (Send v, Some Sent)), vcont := (vcont ?p)(x := vcont ?p x @ [v]),
        vsent := (vsent ?p)(x := vsent ?p x @ [v])\<rparr>"
      using own g sent see_other [OF good s' calm [of "\<not> x"]] free
      by (intro look_after [OF s' refl]) (auto simp: pp_look_def fun_eq_iff)
    with buffers [OF call] sent show ?thesis by metis
  next
    case (Cons r rs)
    with sent have g: "frames g = (frames (chans s x))[r := hand_over v (frames (chans s x) ! r)]"
      "fx_contents (fx_chan g) = fx_contents (fx_chan (chans s x))" by auto
    from waiting_receiver [OF ledger, of r] Cons obtain tid cs pr l
      where r: "FTask tid (Receive # cs) pr l \<in> set (pp_sides x f log)" "fx_waiter pr = Some r" by auto
    from pp_side_call [OF r(1)] obtain z z' where z: "f z = PPTask z' Receive pr" "pp_on z Receive = x" "cs = []" "tid = pp_id z" "l = log z"
      by blast
    have nz: "z = (\<not> x)" using z(2) by (auto simp: pp_on_def)
    have "z' = z" using calm [of z] z(1) by simp
    note z = z [unfolded nz this]
    have knows: "fx_knows (chans s x) (FTask tid (Receive # cs) pr l)"
      using ledger_frame(2) [OF ledger r(1)] .
    have "fx_result (frames (chans s x)) Receive pr = None"
      using listed_waiter(2) [OF ledger, of r] Cons r(2) by (simp add: waiting_result)
    then have other: "vcall ?p (\<not> x) = Some (Receive, None)" using z by (simp add: pp_look_def pp_see_def)
    have "fx_result (frames g) Receive pr = Some (Got v)"
      using other_handed [OF knows g(1)] r(2) by (simp add: hand_over_def)
    then have "pp_see s' (\<not> x) (f (\<not> x)) = Some (Receive, Some (Got v))" using z s' by (simp add: pp_see_def)
    then have "?q = ?p\<lparr>vcall := (vcall ?p)(x := Some (Send v, Some Sent), (\<not> x) := Some (Receive, Some (Got v))),
        vsent := (vsent ?p)(x := vsent ?p x @ [v])\<rparr>"
      using own g sent free by (intro look_after [OF s' refl]) (auto simp: pp_look_def fun_eq_iff)
    with hands [OF call other] sent show ?thesis by metis
  qed
qed


lemma no_senders:
  assumes good: "fx_good (chans s z) (pp_sides z f log)" and cap: "f_capacity (fx_chan (chans s z)) = 1"
    and calm: "\<And>x. pp_calm x (f x)" and conf: "pp_conf limit (pp_look s f)"
  shows "f_senders (fx_chan (chans s z)) = []"
proof (rule ccontr)
  assume some: "f_senders (fx_chan (chans s z)) \<noteq> []"
  from good have ledger: "fx_ledger (chans s z, pp_sides z f log)" by (simp add: fx_good_def)
  obtain w where w: "w \<in> set (f_senders (fx_chan (chans s z)))"
    using some by (cases "f_senders (fx_chan (chans s z))") auto
  from waiting_sender [OF ledger w] obtain tid v cs pw l
    where t: "FTask tid (Send v # cs) pw l \<in> set (pp_sides z f log)" "fx_waiter pw = Some w" by blast
  from pp_side_call [OF t(1)] obtain x x' where x: "f x = PPTask x' (Send v) pw" "x = z" by (auto simp: pp_on_def)
  have "fx_result (frames (chans s z)) (Send v) pw = None"
    using listed_waiter(2) [OF ledger, of w] w t(2) by (simp add: waiting_result)
  then have "vcall (pp_look s f) z = Some (Send v, None)"
    using x calm [of x] by (simp add: pp_look_def pp_see_def pp_on_def)
  from conf_send [OF conf this] ledger_lists(2) [OF ledger some] cap length_fx_contents [of "fx_chan (chans s z)"]
  show False by simp
qed

lemma follow_receive:
  assumes good: "fx_good (chans s (\<not> x)) (pp_sides (\<not> x) f log)" and cap: "f_capacity (fx_chan (chans s (\<not> x))) = 1"
    and calm: "\<And>x. pp_calm x (f x)" and conf: "pp_conf limit (pp_look s f)"
    and fx: "f x = PPTask x Receive FBody" and body: "receive_body junk (chans s (\<not> x)) = (g, pc')"
    and s': "chans s' = (chans s)(\<not> x := g)"
  shows "pp_abs limit (pp_look s f) (pp_look s' (f(x := PPTask x Receive pc'))) \<and> fx_calm pc'"
proof -
  from good have ledger: "fx_ledger (chans s (\<not> x), pp_sides (\<not> x) f log)" by (simp add: fx_good_def)
  let ?c = "fx_chan (chans s (\<not> x))" and ?p = "pp_look s f" and ?q = "pp_look s' (f(x := PPTask x Receive pc'))"
  have on: "pp_on x Receive = (\<not> x)" by (simp add: pp_on_def)
  have call: "vcall ?p x = Some (Receive, None)" by (simp add: pp_look_def pp_see_def fx on)
  note none = no_senders [OF good cap calm conf]
  note got = receive_decides [OF body ledger_lists(1) [OF ledger] none]
  have other: "pp_see s' (\<not> x) (f (\<not> x)) = pp_see s (\<not> x) (f (\<not> x))"
    using got by (intro see_other [OF good s' calm [of "\<not> x"], of "new_waiter junk"]) (auto split: list.splits if_splits)
  have own: "pp_see s' x (PPTask x Receive pc') = Some (Receive, fx_result (frames g) Receive pc')"
    using s' by (simp add: pp_see_def on)
  show ?thesis
  proof (cases "fx_contents ?c")
    case (Cons v vs)
    then have "vcont ?p (\<not> x) = v # vs" by (simp add: pp_look_def)
    note step = takes [OF call this, of limit]
    have "?q = ?p\<lparr>vcall := (vcall ?p)(x := Some (Receive, Some (Got v))), vcont := (vcont ?p)(\<not> x := vs)\<rparr>"
      using own other got Cons by (intro look_after [OF s' refl]) (auto simp: pp_look_def fun_eq_iff)
    with step got show ?thesis by metis
  next
    case Nil
    show ?thesis
    proof (cases "fx_shut (chans s (\<not> x))")
      case True
      then have "vshut ?p (\<not> x)" by (simp add: pp_look_def)
      note step = finds_closed [OF call this, of limit]
      have "?q = ?p\<lparr>vcall := (vcall ?p)(x := Some (Receive, Some WasClosed))\<rparr>"
        using own other got Nil True by (intro look_after [OF s' refl]) (auto simp: pp_look_def fun_eq_iff)
      with step got show ?thesis by metis
    next
      case False
      have "?q = ?p"
        using own other got Nil False call by (intro look_after [OF s' refl]) (auto simp: pp_look_def fun_eq_iff)
      with stays got show ?thesis by metis
    qed
  qed
qed

lemma follow_close:
  assumes good: "fx_good (chans s x) (pp_sides x f log)"
    and calm: "\<And>x. pp_calm x (f x)" and fx: "f x = PPTask x Close FBody" and body: "close_body (chans s x) = (g, pc')"
    and s': "chans s' = (chans s)(x := g)"
  shows "pp_abs limit (pp_look s f) (pp_look s' (f(x := PPTask x Close pc'))) \<and> fx_calm pc'"
proof -
  let ?p = "pp_look s f" and ?q = "pp_look s' (f(x := PPTask x Close pc'))"
  have on: "pp_on x Close = x" by (simp add: pp_on_def)
  have call: "vcall ?p x = Some (Close, None)" by (simp add: pp_look_def pp_see_def fx on)
  note cls = close_decides [OF body]
  have other: "pp_see s' (\<not> x) (f (\<not> x)) = pp_see s (\<not> x) (f (\<not> x))"
    using cls by (intro see_other [OF good s' calm [of "\<not> x"]]) auto
  have own: "pp_see s' x (PPTask x Close pc') = Some (Close, fx_result (frames g) Close pc')"
    using s' by (simp add: pp_see_def on)
  show ?thesis
  proof (cases "fx_shut (chans s x)")
    case True
    then have "vshut ?p x" by (simp add: pp_look_def)
    note step = has_shut [OF call this, of limit]
    have "?q = ?p\<lparr>vcall := (vcall ?p)(x := Some (Close, Some ClosedIt))\<rparr>"
      using own other cls True by (intro look_after [OF s' refl]) (auto simp: pp_look_def fun_eq_iff)
    with step cls show ?thesis by metis
  next
    case False
    have "?q = ?p\<lparr>vshut := (vshut ?p)(x := True)\<rparr>"
      using own other cls False call by (intro look_after [OF s' refl]) (auto simp: pp_look_def fun_eq_iff)
    with shuts [OF call, of limit] cls show ?thesis by metis
  qed
qed

lemma abs_returned:
  assumes conf: "pp_conf limit p" and call: "vcall p x = Some (c, u)"
    and q: "q = p\<lparr>vcall := (vcall p)(x := map_option (\<lambda>c'. (c', None)) (pp_next limit c r))\<rparr>"
    and u: "u = Some r \<or> u = None \<and> r = WasClosed \<and> c \<noteq> Close \<and> vshut p (pp_on x c)"
  shows "pp_abs limit p q"
proof (cases "u = Some r")
  case True
  with returns [of p x c r limit] call q show ?thesis by simp
next
  case False
  with u call have r: "r = WasClosed" "c \<noteq> Close" "vshut p (pp_on x c)" and call: "vcall p x = Some (c, None)" by auto
  show ?thesis
  proof (cases c)
    case (Send v)
    with conf_sends [OF conf, of x v] call r show ?thesis by (auto simp: pp_on_def pp_turn_def)
  next
    case Receive
    with gives_up [of p x limit] call r q show ?thesis by (simp add: pp_on_def)
  qed (use r in simp)
qed

lemma follow_rest:
  assumes good: "fx_good (chans s (pp_on x c)) (pp_sides (pp_on x c) f log)"
    and calm: "\<And>x. pp_calm x (f x)" and conf: "pp_conf limit (pp_look s f)" and fx: "f x = PPTask x c pc" "pc \<noteq> FBody"
    and step: "fx_call_step junk (pp_id x) (chans s (pp_on x c)) c pc = Some (g, res)"
    and s': "chans s' = (chans s)(pp_on x c := g)"
  shows "pp_abs limit (pp_look s f) (pp_look s' (f(x := pp_then limit x c res))) \<and> pp_calm x (pp_then limit x c res)"
proof -
  let ?h = "chans s (pp_on x c)" and ?p = "pp_look s f" and ?q = "pp_look s' (f(x := pp_then limit x c res))"
  from good have ledger: "fx_ledger (?h, pp_sides (pp_on x c) f log)" and calls: "cancels ?h = {}" by (simp_all add: fx_good_def)
  note own = own_call_in [of f x c pc s log, OF fx(1) good]
  have steady: "fx_steady ?h g" using listed_waiter(2) [OF ledger] by (intro steady_call [OF step fx(2)])
  have fc: "fx_calm pc" using calm [of x] fx by simp
  from calls have "pp_id x \<notin> cancels ?h" by simp
  note res = call_decides [OF step fx(2) fc this own(2,3) steady]
  have other: "pp_see s' (\<not> x) (f (\<not> x)) = pp_see s (\<not> x) (f (\<not> x))"
    using steady by (intro see_other [OF good s' calm [of "\<not> x"]]) auto
  have call: "vcall ?p x = Some (c, fx_result (frames ?h) c pc)" by (simp add: pp_look_def pp_see_def fx(1))
  have see: "pp_see s' x (pp_then limit x c res) =
      (case res of Inl pc' \<Rightarrow> Some (c, fx_result (frames g) c pc') | Inr r \<Rightarrow> map_option (\<lambda>c'. (c', None)) (pp_next limit c r))"
    using s' by (intro see_then) simp
  have same: "?q = ?p\<lparr>vcall := (vcall ?p)(x := u)\<rparr>" if "pp_see s' x (pp_then limit x c res) = u" for u
    using steady shut_same [OF step fx(2)] other that
    by (intro look_after [OF s' refl]) (auto simp: pp_look_def fx_steady_def fun_eq_iff)
  show ?thesis
  proof (cases res)
    case (Inl pc')
    with res consider "fx_result (frames g) c pc' = fx_result (frames ?h) c pc"
      | "c = Close" "fx_result (frames ?h) c pc = None" "fx_result (frames g) c pc' = Some ClosedIt" "fx_shut g" by auto
    then have "pp_abs limit ?p ?q"
    proof cases
      case 1
      have "?p\<lparr>vcall := (vcall ?p)(x := Some (c, fx_result (frames ?h) c pc))\<rparr> = ?p" by (simp flip: call)
      with same 1 see Inl stays show ?thesis by simp
    next
      case 2
      have sh: "vshut ?p x" using 2 shut_same [OF step fx(2)] by (simp add: pp_look_def pp_on_def)
      with has_shut [of ?p x limit] call same see Inl 2 show ?thesis by simp
    qed
    with res Inl show ?thesis by (simp add: pp_then_def)
  next
    case (Inr r)
    note res = res [unfolded Inr sum.case]
    have "pp_abs limit ?p ?q"
      using res see Inr by (intro abs_returned [OF conf call same]) (auto simp: pp_look_def)
    with res Inr show ?thesis by (auto simp: pp_then_def split: option.splits)
  qed
qed


lemma pp_follow:
  assumes ok: "pp_ok limit s f" and fx: "f x = PPTask x c pc"
    and step: "fx_call_step junk (pp_id x) (chans s (pp_on x c)) c pc = Some (g, res)"
    and s': "chans s' = (chans s)(pp_on x c := g)" and f': "f' = f(x := pp_then limit x c res)"
  shows "pp_abs limit (pp_look s f) (pp_look s' f')" and "pp_ok limit s' f'"
proof -
  from ok have chan: "\<And>z. pp_chan s f z" and calm: "\<And>x. pp_calm x (f x)" and conf: "pp_conf limit (pp_look s f)"
    by (simp_all add: pp_ok_def)
  from chan [of "pp_on x c"] obtain log where good: "fx_good (chans s (pp_on x c)) (pp_sides (pp_on x c) f log)"
    and cap: "f_capacity (fx_chan (chans s (pp_on x c))) = 1" by (auto simp: pp_chan_def)
  have both: "pp_abs limit (pp_look s f) (pp_look s' f') \<and> pp_calm x (pp_then limit x c res)"
  proof (cases "pc = FBody")
    case False
    from follow_rest [OF good calm conf fx False step s'] show ?thesis by (simp add: f')
  next
    case True
    then obtain pc' where body: "call_body junk (chans s (pp_on x c)) c = (g, pc')" "res = Inl pc'"
      using step by (auto split: prod.splits)
    have t: "pp_then limit x c res = PPTask x c pc'" by (simp add: pp_then_def body(2))
    show ?thesis
    proof (cases c)
      case (Send v)
      then have on: "pp_on x c = x" by (simp add: pp_on_def)
      from follow_send [OF good [unfolded on] cap [unfolded on] calm conf _ _ s' [unfolded on], of v pc'] fx body(1) Send True on
      show ?thesis unfolding f' t by simp
    next
      case Receive
      then have on: "pp_on x c = (\<not> x)" by (simp add: pp_on_def)
      from follow_receive [OF good [unfolded on] cap [unfolded on] calm conf _ _ s' [unfolded on], of junk pc'] fx body(1) Receive True on
      show ?thesis unfolding f' t by simp
    next
      case Close
      then have on: "pp_on x c = x" by (simp add: pp_on_def)
      from follow_close [OF good [unfolded on] calm _ _ s' [unfolded on], of pc' limit] fx body(1) Close True on
      show ?thesis unfolding f' t by simp
    qed
  qed
  then show "pp_abs limit (pp_look s f) (pp_look s' f')" ..
  from conf_abs [OF conf this] both calm pp_chan_call [OF chan fx step s' f'] show "pp_ok limit s' f'"
    by (auto simp: pp_ok_def f')
qed


section \<open>The pool\<close>

text \<open>A task that has not been started yet counts as one about to make its first call.\<close>

definition pp_tasks :: "pp_task list \<Rightarrow> bool \<Rightarrow> pp_task" where
  "pp_tasks ts x =
     (if pp_id x + 1 < length ts then ts ! (pp_id x + 1) else PPTask x (if x then Send 0 else Receive) FLock)"

fun pp_active :: "pp_task \<Rightarrow> nat" where
  "pp_active (PPTask x c pc) = 1"
| "pp_active t = 0"

definition pp_shape :: "pp_task list \<Rightarrow> bool" where
  "pp_shape ts \<longleftrightarrow> ts = [PPStartA] \<or> (\<exists>a. ts = [PPStartB, a]) \<or> (\<exists>m a b. ts = [m, a, b] \<and> m \<in> {PPAwait, PPExited})"

fun pp_inv :: "u64 \<Rightarrow> (pp_state, pp_task) pool \<Rightarrow> bool" where
  "pp_inv limit (s, ts) \<longleftrightarrow> pp_shape ts \<and> pp_ok limit s (pp_tasks ts) \<and> running s = tsum pp_active ts"

definition pp_work :: "pp_state \<Rightarrow> (bool \<Rightarrow> pp_task) \<Rightarrow> bool \<Rightarrow> nat" where
  "pp_work s f z = fx_total (chans s z, pp_sides z f (\<lambda>_. []))"

fun pp_main :: "pp_task \<Rightarrow> nat" where
  "pp_main PPStartA = 3"
| "pp_main PPStartB = 2"
| "pp_main PPAwait = 1"
| "pp_main t = 0"

definition pp_weight :: "u64 \<Rightarrow> (pp_state, pp_task) pool \<Rightarrow> nat" where
  "pp_weight limit c =
     pp_work (fst c) (pp_tasks (snd c)) True + pp_work (fst c) (pp_tasks (snd c)) False +
     17 * pp_calls limit (pp_look (fst c) (pp_tasks (snd c))) + tsum pp_main (snd c)"

text \<open>A step is one of a task, or one of \<open>main\<close>.\<close>

lemma tasks_upd:
  assumes "pp_id x + 1 < length ts"
  shows "pp_tasks (ts[pp_id x + 1 := t]) = (pp_tasks ts)(x := t)"
  using assms by (cases x) (auto simp: pp_tasks_def pp_id_def fun_eq_iff)

lemma shape_upd: "pp_shape ts \<Longrightarrow> pp_id x + 1 < length ts \<Longrightarrow> pp_shape (ts[pp_id x + 1 := t])"
  by (cases x) (auto simp: pp_shape_def pp_id_def)

lemma main_tasks: "pp_calm x t \<Longrightarrow> pp_main t = 0"
  by (cases t) auto

lemma pp_step_cases:
  assumes inv: "pp_inv limit (s, ts)" and move: "pool_step (pp_step junk limit) (s, ts) d"
  obtains (task) x c pc g res s' where "pp_id x + 1 < length ts" "pp_tasks ts x = PPTask x c pc"
      "fx_call_step junk (pp_id x) (chans s (pp_on x c)) c pc = Some (g, res)" "chans s' = (chans s)(pp_on x c := g)"
      "running s' = running s - (1 - pp_active (pp_then limit x c res))"
      "d = (s', ts[pp_id x + 1 := pp_then limit x c res])"
    | (main) s' ts' where "d = (s', ts')" "chans s' = chans s" "pp_shape ts'" "pp_tasks ts' = pp_tasks ts"
      "running s' + tsum pp_active ts = running s + tsum pp_active ts'" "tsum pp_main ts' < tsum pp_main ts"
  using move
proof cases
  case (run_task i s' t' new)
  from inv have shape: "pp_shape ts" and calm: "\<And>x. pp_calm x (pp_tasks ts x)" by (simp_all add: pp_ok_def)
  show ?thesis
  proof (cases i)
    case 0
    from shape consider "ts = [PPStartA]" | a where "ts = [PPStartB, a]" | m a b where "ts = [m, a, b]" "m \<in> {PPAwait, PPExited}"
      unfolding pp_shape_def by blast
    then show ?thesis
    proof cases
      case 1
      with run_task 0 show ?thesis
        by (intro main [of s' "[PPStartB, PPTask True (Send 0) FLock]"]) (auto simp: pp_shape_def pp_tasks_def pp_id_def fun_eq_iff)
    next
      case 2
      with run_task 0 show ?thesis
        by (intro main [of s' "[PPAwait, a, PPTask False Receive FLock]"])
          (auto simp: pp_shape_def pp_tasks_def pp_id_def fun_eq_iff)
    next
      case 3
      with run_task 0 have "m = PPAwait" "s' = s" "t' = PPExited" "new = []" by (auto split: if_splits)
      with run_task 0 3 show ?thesis
        by (intro main [of s' "[PPExited, a, b]"]) (auto simp: pp_shape_def pp_tasks_def pp_id_def fun_eq_iff)
    qed
  next
    case (Suc j)
    define x where "x = (j = 0)"
    from shape Suc run_task(2) have i: "i = pp_id x + 1" by (auto simp: pp_shape_def x_def pp_id_def)
    with run_task(2) have t: "pp_tasks ts x = ts ! i" by (simp add: pp_tasks_def)
    with calm [of x] run_task(3) obtain c pc where c: "ts ! i = PPTask x c pc"
      by (cases "ts ! i") auto
    from run_task(3) c obtain g res where g: "fx_call_step junk (pp_id x) (chans s (pp_on x c)) c pc = Some (g, res)"
      by (auto split: option.splits)
    with run_task(3) c have "chans s' = (chans s)(pp_on x c := g)" "t' = pp_then limit x c res" "new = []"
      "running s' = running s - (1 - pp_active (pp_then limit x c res))"
      by (auto simp: pp_then_def split: sum.splits option.splits)
    with run_task(1,2) i t c g show ?thesis by (intro task [of x c pc g res s']) auto
  qed
qed

lemma pp_inv_step:
  assumes "pp_inv limit d" and "pool_step (pp_step junk limit) d d'"
  shows "pp_inv limit d'"
proof -
  obtain s ts where d: "d = (s, ts)" by (cases d)
  from assms(1) have shape: "pp_shape ts" and ok: "pp_ok limit s (pp_tasks ts)" and run: "running s = tsum pp_active ts"
    by (simp_all add: d)
  from assms show ?thesis
    unfolding d
  proof (cases rule: pp_step_cases)
    case (task x c pc g res s')
    let ?t = "pp_then limit x c res" and ?ts = "ts[pp_id x + 1 := pp_then limit x c res]"
    have at: "ts ! (pp_id x + 1) = PPTask x c pc" using task(1,2) by (simp add: pp_tasks_def)
    have "tsum pp_active ts = tsum pp_active (others (pp_id x + 1) ts) + 1"
      using tsum_at [OF task(1), of pp_active] at by simp
    moreover have "tsum pp_active ?ts = tsum pp_active (others (pp_id x + 1) ts) + pp_active ?t"
      using tsum_upd [OF task(1), of pp_active ?t "[]"] by simp
    moreover have "pp_active ?t \<le> 1" by (cases ?t) auto
    ultimately have "running s' = tsum pp_active ?ts" using run task(5) by linarith
    with pp_follow(2) [OF ok task(2-4) tasks_upd [OF task(1)]] shape_upd [OF shape task(1)] task(6)
    show ?thesis by simp
  next
    case (main s' ts')
    have "pp_look s' = pp_look s" "pp_chan s' = pp_chan s"
      using main(2) by (simp_all add: pp_look_def pp_see_def pp_chan_def fun_eq_iff split: pp_task.splits)
    with ok run main show ?thesis by (simp add: pp_ok_def)
  qed
qed


section \<open>Every run is bounded\<close>

definition pp_spend :: "u64 fsys \<Rightarrow> bool \<Rightarrow> bool \<Rightarrow> pp_task \<Rightarrow> nat" where
  "pp_spend h z x t = fx_weight h (pp_side z x t [])"

lemma work_split:
  "fx_total (h, pp_sides z f log) = pp_spend h z x (f x) + pp_spend h z (\<not> x) (f (\<not> x)) + 6 * fx_waiters (fx_chan h)"
  by (cases x) (auto simp: fx_total_def pp_sides_def pp_spend_def pp_side_def split: pp_task.splits)

lemma spend_task: "pp_spend h z x (PPTask x' c pc) = (if pp_on x c = z then fx_left h pc else 0)"
  by (simp add: pp_spend_def pp_side_def)

lemma spend_next:
  "pp_spend h (pp_on x c) x (pp_then limit x c (Inr r)) + pp_spend h' (\<not> pp_on x c) x (pp_then limit x c (Inr r)) =
    (if pp_next limit c r = None then 0 else 17)"
  by (auto simp: pp_then_def spend_task pp_spend_def pp_side_def split: option.splits)

lemma work_step:
  assumes good: "fx_good (chans s (pp_on x c)) (pp_sides (pp_on x c) f log)" and fx: "f x = PPTask x c pc"
    and step: "fx_call_step junk (pp_id x) (chans s (pp_on x c)) c pc = Some (g, res)"
    and s': "chans s' = (chans s)(pp_on x c := g)" and f': "f' = f(x := pp_then limit x c res)"
  shows "pp_work s' f' (pp_on x c) + pp_work s' f' (\<not> pp_on x c) <
    pp_work s f (pp_on x c) + pp_work s f (\<not> pp_on x c) +
    (case res of Inl pc' \<Rightarrow> 0 | Inr r \<Rightarrow> if pp_next limit c r = None then 0 else 17)"
proof -
  let ?y = "pp_on x c" and ?i = "pp_id x"
  let ?ts = "pp_sides ?y f log" and ?t = "pp_then limit x c res"
  let ?u = "case res of Inl pc' \<Rightarrow> FTask ?i [c] pc' (log x) | Inr r \<Rightarrow> FTask ?i [] FLock (log x @ [(c, r)])"
  have i: "?ts ! ?i = FTask ?i [c] pc (log x)" by (simp add: pp_id_nth pp_side_def fx)
  from good have inv: "fx_inv (chans s ?y, ?ts)" by (simp add: fx_good_def fx_ledger.simps)
  have "fx_total (g, ?ts[?i := ?u]) < fx_total (chans s ?y, ?ts)"
    by (rule weight_call [OF inv pp_id_nth(2) i step refl])
  moreover have "fx_total (g, ?ts[?i := ?u]) =
      fx_weight g ?u + pp_spend g ?y (\<not> x) (f (\<not> x)) + 6 * fx_waiters (fx_chan g)"
    by (cases x) (auto simp: fx_total_def pp_sides_def pp_id_def pp_spend_def pp_side_def split: pp_task.splits)
  moreover have "fx_total (chans s ?y, ?ts) = pp_work s f ?y"
    unfolding pp_work_def work_split [of _ _ _ _ x] ..
  moreover have "pp_work s' f' ?y = pp_spend g ?y x ?t + pp_spend g ?y (\<not> x) (f (\<not> x)) + 6 * fx_waiters (fx_chan g)"
    unfolding pp_work_def work_split [of _ _ _ _ x] by (simp add: s' f')
  moreover have "pp_work s' f' (\<not> ?y) = pp_spend (chans s (\<not> ?y)) (\<not> ?y) x ?t + pp_work s f (\<not> ?y)"
    unfolding pp_work_def work_split [of _ _ _ _ x] by (simp add: s' f' fx spend_task)
  moreover have "pp_spend g ?y x ?t + pp_spend (chans s (\<not> ?y)) (\<not> ?y) x ?t =
      fx_weight g ?u + (case res of Inl pc' \<Rightarrow> 0 | Inr r \<Rightarrow> if pp_next limit c r = None then 0 else 17)"
  proof (cases res)
    case (Inl pc')
    then have "?t = PPTask x c pc'" by (simp add: pp_then_def)
    with Inl show ?thesis by (simp add: spend_task)
  next
    case (Inr r)
    with spend_next [of g x c limit r] show ?thesis by simp
  qed
  ultimately show ?thesis by linarith
qed

lemma calls_step:
  assumes ok: "pp_ok limit s f" and fx: "f x = PPTask x c pc"
    and step: "fx_call_step junk (pp_id x) (chans s (pp_on x c)) c pc = Some (g, res)"
    and s': "chans s' = (chans s)(pp_on x c := g)" and f': "f' = f(x := pp_then limit x c res)"
  shows "17 * pp_calls limit (pp_look s' f') + (case res of Inl pc' \<Rightarrow> 0 | Inr r \<Rightarrow> if pp_next limit c r = None then 0 else 17) \<le>
    17 * pp_calls limit (pp_look s f)"
proof -
  note abs = pp_follow(1) [OF assms]
  have "pp_calls limit (pp_look s' f') \<le> pp_calls limit (pp_look s f)"
    using abs_calls [OF _ abs] ok by (simp add: pp_ok_def)
  moreover have "pp_calls limit (pp_look s' f') < pp_calls limit (pp_look s f)" if res: "res = Inr r" "pp_next limit c r = Some c'" for r c'
  proof (rule abs_begins [OF abs])
    show "vcall (pp_look s f) x = Some (c, fx_result (frames (chans s (pp_on x c))) c pc)"
      by (simp add: pp_look_def pp_see_def fx)
    show "vcall (pp_look s' f') x = Some (c', None)"
      using res by (simp add: pp_look_def pp_see_def f' pp_then_def)
    show "c' \<noteq> c" by (rule next_differs [OF res(2)])
  qed
  ultimately show ?thesis by (fastforce split: sum.splits)
qed

lemma pp_weight_step:
  assumes "pp_inv limit d" and "pool_step (pp_step junk limit) d d'"
  shows "pp_weight limit d' < pp_weight limit d"
proof -
  obtain s ts where d: "d = (s, ts)" by (cases d)
  from assms(1) have ok: "pp_ok limit s (pp_tasks ts)" by (simp add: d)
  from assms [unfolded d] show ?thesis
  proof (cases rule: pp_step_cases)
    case (task x c pc g res s')
    let ?t = "pp_then limit x c res"
    from ok obtain log where good: "fx_good (chans s (pp_on x c)) (pp_sides (pp_on x c) (pp_tasks ts) log)"
      unfolding pp_ok_def pp_chan_def by blast
    note upd = tasks_upd [OF task(1), of ?t]
    have at: "ts ! (pp_id x + 1) = PPTask x c pc" using task(1,2) by (simp add: pp_tasks_def)
    have "pp_main ?t = 0" by (auto simp: pp_then_def split: sum.splits option.splits)
    then have rest: "tsum pp_main (ts[pp_id x + 1 := ?t]) = tsum pp_main ts"
      using tsum_at [OF task(1), of pp_main] tsum_upd [OF task(1), of pp_main ?t "[]"] at by simp
    have two: "pp_work r h True + pp_work r h False = pp_work r h (pp_on x c) + pp_work r h (\<not> pp_on x c)" for r h
      by (cases "pp_on x c") simp_all
    show ?thesis
      using rest work_step [of s x c "pp_tasks ts" log pc junk g res s' _ limit, OF good task(2-4) upd] calls_step [OF ok task(2-4) upd]
      unfolding d task(6) pp_weight_def fst_conv snd_conv two by linarith
  next
    case (main s' ts')
    have "pp_look s' = pp_look s" "pp_work s' = pp_work s"
      using main(2) by (simp_all add: pp_look_def pp_see_def pp_work_def fun_eq_iff split: pp_task.splits)
    with main show ?thesis by (simp add: d pp_weight_def)
  qed
qed


section \<open>Where a run can stop\<close>

lemma pp_idle:
  assumes ok: "pp_ok limit s f" and f: "f x = PPTask x c pc"
    and stuck: "\<And>x. pp_step junk limit s (f x) = None"
  shows "vcall (pp_look s f) x = Some (Receive, None) \<and> vcont (pp_look s f) (\<not> x) = [] \<and> \<not> vshut (pp_look s f) (\<not> x)"
proof -
  let ?z = "pp_on x c"
  from ok obtain log where good: "fx_good (chans s ?z) (pp_sides ?z f log)" and cap: "f_capacity (fx_chan (chans s ?z)) = 1"
    unfolding pp_ok_def pp_chan_def by blast
  from ok have calm: "\<And>x. pp_calm x (f x)" and conf: "pp_conf limit (pp_look s f)" by (simp_all add: pp_ok_def)
  note own = own_call_in [OF f good]
  from good have ledger: "fx_ledger (chans s ?z, pp_sides ?z f log)" and inv: "fx_inv (chans s ?z, pp_sides ?z f log)"
    by (simp_all add: fx_good_def fx_ledger.simps)
  have "fx_step junk (chans s ?z) (pp_side ?z y (f y) (log y)) = None" for y
  proof (cases "f y")
    case (PPTask y' d pd)
    with calm [of y] have "y' = y" by simp
    with stuck [of y] PPTask have "fx_call_step junk (pp_id y) (chans s (pp_on y d)) d pd = None"
      by (auto split: option.splits sum.splits)
    with PPTask show ?thesis by (cases "pp_on y d = ?z") (auto simp: pp_side_def)
  qed (simp_all add: pp_side_def)
  then have "pool_stuck (fx_step junk) (chans s ?z, pp_sides ?z f log)"
    by (simp add: pool_stuck_def pp_sides_def)
  from stuck_blocked [OF inv this own(1)] have blocked: "fx_blocked (fx_chan (chans s ?z)) (FTask (pp_id x) [c] pc (log x))" by simp
  then obtain w where w: "pc = FAsleep w" by (cases pc; cases c; simp)
  have call: "vcall (pp_look s f) x = Some (c, fx_result (frames (chans s ?z)) c pc)"
    by (simp add: pp_look_def pp_see_def f)
  show ?thesis
  proof (cases c)
    case (Send v)
    with blocked w listed_waiter(2) [OF ledger, of w] call have "vcall (pp_look s f) x = Some (Send v, None)" by simp
    from conf_send [OF conf this] length_fx_contents [of "fx_chan (chans s x)"] blocked cap Send w
    show ?thesis by (simp add: pp_on_def)
  next
    case Receive
    with blocked w listed_waiter(2) [OF ledger, of w] call
    show ?thesis by (simp add: pp_look_def pp_on_def fx_contents_def)
  qed (use blocked w in simp)
qed

lemma pp_stuck:
  assumes inv: "pp_inv limit (s, ts)" and stuck: "pool_stuck (pp_step junk limit) (s, ts)"
  shows "\<forall>t \<in> set ts. pp_finished t" and "\<forall>t \<in> set ts. \<forall>x. t \<noteq> PPReturned x True"
    and "given (chans s z) = pp_msgs z (unat limit)" and "taken (chans s z) = pp_msgs z (unat limit)"
proof -
  let ?f = "pp_tasks ts"
  from inv have shape: "pp_shape ts" and ok: "pp_ok limit s ?f" and run: "running s = tsum pp_active ts" by simp_all
  from ok have calm: "\<And>x. pp_calm x (?f x)" and conf: "pp_conf limit (pp_look s ?f)" by (simp_all add: pp_ok_def)
  from stuck shape obtain m where ts: "ts = [m, ?f True, ?f False]" "m \<in> {PPAwait, PPExited}"
    by (auto simp: pp_shape_def pool_stuck_def pp_tasks_def pp_id_def)
  have quiet: "pp_step junk limit s (?f x) = None" for x
  proof -
    have "?f x \<in> set ts" using ts(1) by (cases x) (metis list.set_intros)+
    with stuck show ?thesis by (simp add: pool_stuck_def)
  qed
  have idle: "vcall (pp_look s ?f) x = None \<or>
      vcall (pp_look s ?f) x = Some (Receive, None) \<and> vcont (pp_look s ?f) (\<not> x) = [] \<and> \<not> vshut (pp_look s ?f) (\<not> x)" for x
  proof (cases "?f x")
    case (PPTask y c pc)
    with calm [of x] pp_idle [OF ok _ quiet, of x c pc] show ?thesis by simp
  qed (simp_all add: pp_look_def pp_see_def)
  note over = conf_stuck [OF conf idle]
  have over': "?f x = PPReturned x False" for x
    using over [of x] calm [of x] by (cases "?f x") (simp_all add: pp_look_def pp_see_def)
  with ts(1) have ts': "ts = [m, PPReturned True False, PPReturned False False]" by simp
  with run have "running s = 0" using ts(2) by auto
  with stuck ts' ts(2) have "m = PPExited" by (auto simp: pool_stuck_def)
  with ts' show "\<forall>t \<in> set ts. pp_finished t" "\<forall>t \<in> set ts. \<forall>x. t \<noteq> PPReturned x True" by simp_all
  from over [of z] show given: "given (chans s z) = pp_msgs z (unat limit)" by (simp add: pp_look_def)
  from ok obtain log where "fx_good (chans s z) (pp_sides z ?f log)" unfolding pp_ok_def pp_chan_def by blast
  then have "given (chans s z) = taken (chans s z) @ fx_contents (fx_chan (chans s z))"
    by (simp add: fx_good_def fx_ledger.simps fx_books_def)
  with over [of z] given show "taken (chans s z) = pp_msgs z (unat limit)" by (simp add: pp_look_def)
qed

lemma pp_finished_stops: "pp_finished t \<Longrightarrow> pp_step junk limit s t = None"
  by (cases t) auto

interpretation ppf: task_live "pp_step junk limit" "pp_inv limit" "pp_weight limit" pp_finished for junk limit
proof unfold_locales
  show "pp_inv limit c \<Longrightarrow> pool_step (pp_step junk limit) c c' \<Longrightarrow> pp_inv limit c'" for c c' by (rule pp_inv_step)
  show "pp_inv limit c \<Longrightarrow> pool_step (pp_step junk limit) c c' \<Longrightarrow> pp_weight limit c' < pp_weight limit c" for c c'
    by (rule pp_weight_step)
  show "pp_finished t \<Longrightarrow> pp_step junk limit s t = None" for t s by (rule pp_finished_stops)
  show "pp_inv limit c \<Longrightarrow> pool_stuck (pp_step junk limit) c \<Longrightarrow> t \<in> set (snd c) \<Longrightarrow> pp_finished t" for c t
    using pp_stuck(1) [of limit "fst c" "snd c"] by simp
qed


lemma pp_inv_start:
  assumes "limit \<noteq> 0"
  shows "pp_inv limit (pp_start a b)" and "pp_weight limit (pp_start a b) = 34 * unat limit + 37"
proof -
  let ?s = "fst (pp_start a b)" and ?f = "pp_tasks [PPStartA]"
  have f: "?f x = PPTask x (if x then Send 0 else Receive) FLock" for x by (cases x) (simp_all add: pp_tasks_def pp_id_def)
  have c: "chans ?s z = fx_start [if z then a else b]" for z by (simp add: pp_start_def)
  have "fx_good (chans ?s z) (pp_sides z ?f (\<lambda>_. []))" for z
    unfolding fx_good_def c
  proof (intro conjI ballI)
    have fresh: "t \<in> set (pp_sides z ?f (\<lambda>_. [])) \<Longrightarrow> fx_fresh t" for t by (auto simp: pp_sides_def pp_side_def f)
    then show "fx_ledger (fx_start [if z then a else b], pp_sides z ?f (\<lambda>_. []))" by (intro fx_ledger_start) blast
    show "fx_told (fx_start [if z then a else b]) t" if "t \<in> set (pp_sides z ?f (\<lambda>_. []))" for t
      using that by (auto simp: pp_sides_def pp_side_def f)
  qed (simp add: fx_start_def)
  moreover have "f_capacity (fx_chan (chans ?s z)) = 1" for z by (simp add: c fx_start_def fx_init_def)
  ultimately have chan: "pp_chan ?s ?f z" for z unfolding pp_chan_def by blast
  have look: "pp_look ?s ?f = \<lparr>vcall = (\<lambda>x. Some (if x then Send 0 else Receive, None)), vcont = (\<lambda>z. []), vshut = (\<lambda>z. False), vsent = (\<lambda>z. [])\<rparr>"
    by (simp add: pp_look_def pp_see_def f c fx_start_def fx_init_def fx_contents_def fun_eq_iff)
  have "pp_turn limit (pp_look ?s ?f) 0 True"
    using assms by (simp add: look pp_turn_def pp_lag_def pp_msgs_def unat_gt_0)
  then have "pp_conf limit (pp_look ?s ?f)" unfolding pp_conf_def by blast
  with chan have "pp_ok limit ?s ?f" by (simp add: pp_ok_def f)
  then show "pp_inv limit (pp_start a b)" by (simp add: pp_start_def pp_shape_def)
  have "pp_work ?s ?f z = (if z then 34 else 0)" for z
    unfolding pp_work_def work_split [of _ _ _ _ True]
    by (simp add: f spend_task pp_on_def c fx_start_def fx_init_def fx_waiters_def)
  moreover have "pp_calls limit (pp_look ?s ?f) = 2 * unat limit" by (simp add: look pp_calls_def pp_owes_def)
  ultimately show "pp_weight limit (pp_start a b) = 34 * unat limit + 37"
    by (simp add: pp_weight_def pp_start_def)
qed


section \<open>Properties\<close>

text \<open>
  C14. The Zig ping-pong over futex channels completes: whatever the interleaving of the actions of
  its two tasks and \<open>main\<close>, a run takes at most 34 actions per number and 37 more; it can always be
  brought to an end; and where it cannot go on, both tasks have returned without an error, \<open>main\<close>
  has too, and each channel has carried the numbers below the limit of its direction once and in
  order.
\<close>

theorem futex_ping_pong:
  assumes "limit \<noteq> 0" and "pool_run (pp_step junk limit) sched (pp_start a b) = Some (s, ts)"
  shows "length sched \<le> 34 * unat limit + 37 \<and>
    (\<exists>s' ts'. pool_reach (pp_step junk limit) (s, ts) (s', ts') \<and> (\<forall>t \<in> set ts'. pp_finished t)) \<and>
    (pool_stuck (pp_step junk limit) (s, ts) \<longrightarrow>
      (\<forall>t \<in> set ts. pp_finished t \<and> (\<forall>x. t \<noteq> PPReturned x True)) \<and>
      (\<forall>z. given (chans s z) = pp_msgs z (unat limit) \<and> taken (chans s z) = pp_msgs z (unat limit)))"
proof -
  note start = pp_inv_start [OF assms(1), of a b]
  have reach: "pool_reach (pp_step junk limit) (pp_start a b) (s, ts)" by (rule pool_run_reach [OF assms(2)])
  have inv: "pp_inv limit (s, ts)" by (rule ppf.inv_reach [OF start(1) reach])
  have "length sched \<le> 34 * unat limit + 37" using ppf.run_length [OF start(1) assms(2)] start(2) by simp
  moreover from ppf.can_finish [OF start(1) reach]
  have "\<exists>s' ts'. pool_reach (pp_step junk limit) (s, ts) (s', ts') \<and> (\<forall>t \<in> set ts'. pp_finished t)" by auto
  ultimately show ?thesis using pp_stuck [OF inv] by blast
qed

theorem futex_ping_pong_witness:
  "\<exists>s ts. pool_reach (pp_step 0 pp_limit) (pp_start 0 0) (s, ts) \<and> (\<forall>t \<in> set ts. pp_finished t) \<and>
    (\<forall>z. taken (chans s z) = pp_msgs z 100000)"
proof -
  obtain s0 ts0 where start: "pp_start 0 0 = (s0, ts0)" by (cases "pp_start 0 0")
  have lim: "pp_limit \<noteq> 0" "unat pp_limit = 100000" by (simp_all add: pp_limit_def)
  have "pool_run (pp_step 0 pp_limit) [] (pp_start 0 0) = Some (s0, ts0)" by (simp add: start)
  from futex_ping_pong [OF lim(1) this] obtain s ts
    where reach: "pool_reach (pp_step 0 pp_limit) (pp_start 0 0) (s, ts)" "\<forall>t \<in> set ts. pp_finished t" by (auto simp: start)
  then have stuck: "pool_stuck (pp_step 0 pp_limit) (s, ts)" using pp_finished_stops by (simp add: pool_stuck_def)
  from reach_pool_run [OF reach(1)] obtain sched where "pool_run (pp_step 0 pp_limit) sched (pp_start 0 0) = Some (s, ts)" by blast
  from futex_ping_pong [OF lim(1) this] stuck lim(2) have "\<forall>z. taken (chans s z) = pp_msgs z 100000" by simp
  with reach show ?thesis by blast
qed

text \<open>
  C15. At every moment of the Zig ping-pong the numbers below some \<open>n\<close> have been sent, each on the
  channel of its direction and in order, and at most one of them has not been received; no send ever
  waits, and a channel is closed only after every number has been sent and received.
\<close>

theorem futex_ping_pong_turns:
  assumes "limit \<noteq> 0" and "pool_reach (pp_step junk limit) (pp_start a b) (s, ts)"
  shows "\<exists>n \<le> unat limit. (\<forall>z. given (chans s z) = pp_msgs z n \<and> f_senders (fx_chan (chans s z)) = []) \<and>
    n \<le> length (taken (chans s True)) + length (taken (chans s False)) + 1 \<and>
    (\<forall>z. f_closed (fx_chan (chans s z)) \<longrightarrow> n = unat limit \<and> (\<forall>y. taken (chans s y) = given (chans s y)))"
proof -
  let ?f = "pp_tasks ts" and ?p = "pp_look s (pp_tasks ts)"
  from ppf.inv_reach [OF pp_inv_start(1) [OF assms(1)] assms(2)]
  have ok: "pp_ok limit s ?f" by simp
  then have calm: "\<And>x. pp_calm x (?f x)" and conf: "pp_conf limit ?p" by (simp_all add: pp_ok_def)
  have chan: "given (chans s z) = taken (chans s z) @ vcont ?p z \<and> f_senders (fx_chan (chans s z)) = []" for z
  proof -
    from ok obtain log where good: "fx_good (chans s z) (pp_sides z ?f log)" "f_capacity (fx_chan (chans s z)) = 1"
      unfolding pp_ok_def pp_chan_def by blast
    from no_senders [OF good calm conf] good(1) show ?thesis
      by (simp add: pp_look_def fx_good_def fx_ledger.simps fx_books_def)
  qed
  then have sent: "given (chans s z) = vsent ?p z" and len: "length (given (chans s z)) = length (taken (chans s z)) + length (vcont ?p z)" for z
    by (simp_all add: pp_look_def)
  have shut: "f_closed (fx_chan (chans s z)) = vshut ?p z" for z by (simp add: pp_look_def)
  from conf_sent [OF conf] obtain n where n: "n \<le> unat limit" "\<And>z. vsent ?p z = pp_msgs z n"
    "length (vcont ?p True) + length (vcont ?p False) \<le> 1" "\<And>z y. vshut ?p z \<Longrightarrow> n = unat limit \<and> vcont ?p y = []"
    by blast
  have "n \<le> length (taken (chans s True)) + length (taken (chans s False)) + 1"
    using n(3) length_msgs [of n] len [of True] len [of False] by (simp add: sent n(2))
  with n chan sent shut show ?thesis by (metis append_Nil2)
qed

text \<open>The first number is under way and B is about to receive it.\<close>

definition pp_opening :: "nat list" where
  "pp_opening = [0, 0, 1, 1, 1, 2]"

theorem futex_ping_pong_turns_witness:
  "\<exists>s ts. pool_run (pp_step 0 pp_limit) pp_opening (pp_start 0 0) = Some (s, ts) \<and> given (chans s True) = [0] \<and>
    taken (chans s True) = [] \<and> \<not> f_closed (fx_chan (chans s True))"
proof -
  obtain s ts where run: "pool_run (pp_step 0 pp_limit) pp_opening (pp_start 0 0) = Some (s, ts)"
    and s: "given (chans s True) = [0]" "taken (chans s True) = []"
    by (simp add: pp_opening_def pp_start_def fx_run_defs pp_id_def pp_on_def)
  have "pp_limit \<noteq> 0" by (simp add: pp_limit_def)
  from futex_ping_pong_turns [OF this pool_run_reach [OF run]] run s show ?thesis by auto
qed

end
