(* ===== verification/Pool_Spec.thy ===== *)
theory Pool_Spec
  imports Tasks Item_Flow
begin

text \<open>
  What a worker pool promises, without queues, coroutines or accumulators: there are items to do
  and a running total; one step takes any item and folds the work on it into the total. The locale
  \<open>pool_refines\<close> is the simulation a concrete pool has to show, action by action: every action either
  leaves the abstract state alone or folds exactly the item the label \<open>took\<close> of the action names. Its
  lemmas turn this into facts about runs: the items folded, in the order in which they are, form a
  run of the specification. \<open>pool_drops\<close> is the same for a pool that may give up and drop items.
\<close>

section \<open>The specification\<close>

record pool_work =
  todo :: "u64 multiset"
  total :: u64

definition spec_start :: "u64 \<Rightarrow> u64 \<Rightarrow> pool_work" where
  "spec_start items producers = \<lparr>todo = all_values_from items producers 0, total = 0\<rparr>"

definition spec_take :: "u64 \<Rightarrow> u64 \<Rightarrow> pool_work \<Rightarrow> pool_work option" where
  "spec_take iters v a =
     (if v \<in># todo a
      then Some \<lparr>todo = todo a - {#v#}, total = total a XOR work_spec v (unat iters)\<rparr>
      else None)"

fun spec_run :: "u64 \<Rightarrow> u64 list \<Rightarrow> pool_work \<Rightarrow> pool_work option" where
  "spec_run iters [] a = Some a"
| "spec_run iters (v # vs) a =
     (case spec_take iters v a of None \<Rightarrow> None | Some b \<Rightarrow> spec_run iters vs b)"

text \<open>A run is possible exactly when the items are there, and its end does not depend on the order.\<close>

lemma spec_run_iff:
  "spec_run iters vs a = Some b \<longleftrightarrow> mset vs \<subseteq># todo a \<and>
    b = \<lparr>todo = todo a - mset vs, total = total a XOR xor_work iters (mset vs)\<rparr>"
proof (induction vs arbitrary: a)
  case Nil
  then show ?case by auto
next
  case (Cons v vs)
  show ?case
    by (auto simp: spec_take_def Cons.IH insert_subset_eq_iff xor.assoc)
qed

lemma spec_run_balance:
  assumes "spec_run iters vs a = Some b"
  shows "mset vs + todo b = todo a"
    and "xor_work iters (todo b) XOR total b = xor_work iters (todo a) XOR total a"
proof -
  from assms have vs: "mset vs \<subseteq># todo a" "todo b = todo a - mset vs"
    "total b = total a XOR xor_work iters (mset vs)"
    by (simp_all add: spec_run_iff)
  then show bal: "mset vs + todo b = todo a" by simp
  have "xor_work iters (todo a) = xor_work iters (mset vs) XOR xor_work iters (todo b)"
    unfolding bal [symmetric] by simp
  with vs(3) show "xor_work iters (todo b) XOR total b = xor_work iters (todo a) XOR total a"
    by (simp add: xor.assoc xor.left_commute xor.commute)
qed

text \<open>When nothing is left, every item has been folded once and the total is their work.\<close>

lemma spec_run_done:
  assumes "spec_run iters vs (spec_start items producers) = Some b" and "todo b = {#}"
  shows "mset vs = all_values_from items producers 0"
    and "total b = xor_work iters (all_values_from items producers 0)"
  using spec_run_balance [OF assms(1)] assms(2) by (simp_all add: spec_start_def)

section \<open>The simulation\<close>

definition spec_moves :: "u64 \<Rightarrow> u64 option \<Rightarrow> pool_work \<Rightarrow> pool_work \<Rightarrow> bool" where
  "spec_moves iters label a b =
     (case label of None \<Rightarrow> b = a | Some v \<Rightarrow> spec_take iters v a = Some b)"

lemma spec_moves_None [simp]: "spec_moves iters None a b \<longleftrightarrow> b = a"
  by (simp add: spec_moves_def)

text \<open>The items a schedule folds, in order.\<close>

fun pool_trace ::
  "('s, 't) task_step \<Rightarrow> ('s \<Rightarrow> 't \<Rightarrow> u64 option) \<Rightarrow> nat list \<Rightarrow> ('s, 't) pool \<Rightarrow> u64 list"
where
  "pool_trace step took [] c = []"
| "pool_trace step took (i # is) (s, ts) =
     (if i < length ts then
        (case step s (ts ! i) of
           None \<Rightarrow> []
         | Some (s', t', new) \<Rightarrow>
             (case took s (ts ! i) of None \<Rightarrow> [] | Some v \<Rightarrow> [v]) @
             pool_trace step took is (s', ts[i := t'] @ new))
      else [])"

text \<open>
  \<open>cut\<close> marks the states of a run that has been given up, for which nothing is promised; a run is
  not given up before.
\<close>

locale pool_refines = task_invariant step inv
  for step :: "('s, 't) task_step" and inv +
  fixes iters :: u64
    and took :: "'s \<Rightarrow> 't \<Rightarrow> u64 option"
    and view :: "('s, 't) pool \<Rightarrow> pool_work"
    and cut :: "('s, 't) pool \<Rightarrow> bool"
  assumes view_step:
    "inv (s, ts) \<Longrightarrow> i < length ts \<Longrightarrow> step s (ts ! i) = Some (s', t', new) \<Longrightarrow>
      \<not> cut (s', ts[i := t'] @ new) \<Longrightarrow>
      \<not> cut (s, ts) \<and> spec_moves iters (took s (ts ! i)) (view (s, ts)) (view (s', ts[i := t'] @ new))"
begin

lemma run_view:
  "inv c \<Longrightarrow> pool_run step sched c = Some d \<Longrightarrow> \<not> cut d \<Longrightarrow>
    \<not> cut c \<and> spec_run iters (pool_trace step took sched c) (view c) = Some (view d)"
proof (induction sched arbitrary: c)
  case Nil
  then show ?case by simp
next
  case (Cons i sched)
  obtain s ts where c: "c = (s, ts)" by (cases c)
  with Cons.prems(2) obtain s' t' new
    where i: "i < length ts" "step s (ts ! i) = Some (s', t', new)"
      and rest: "pool_run step sched (s', ts[i := t'] @ new) = Some d"
    by (auto split: if_splits option.splits)
  from i have "pool_step step c (s', ts[i := t'] @ new)" unfolding c by (rule run_task)
  with Cons.prems(1) have "inv (s', ts[i := t'] @ new)" by (rule inv_step)
  from Cons.IH [OF this rest Cons.prems(3)]
  have ih: "\<not> cut (s', ts[i := t'] @ new)"
    "spec_run iters (pool_trace step took sched (s', ts[i := t'] @ new)) (view (s', ts[i := t'] @ new)) =
      Some (view d)" by simp_all
  from view_step [OF Cons.prems(1) [unfolded c] i ih(1)] ih(2) i show ?case
    by (auto simp: c spec_moves_def split: option.splits)
qed

end

text \<open>
  A pool that gives up: an action may also drop items, which nobody will fold any more. What it does
  fold is still an item that was there and had not been folded.
\<close>

definition spec_drops :: "u64 \<Rightarrow> u64 option \<Rightarrow> pool_work \<Rightarrow> pool_work \<Rightarrow> bool" where
  "spec_drops iters label a b \<longleftrightarrow>
     (\<exists>c. spec_moves iters label a c \<and> total b = total c \<and> todo b \<subseteq># todo c)"

lemma spec_drops_moves: "spec_moves iters label a b \<Longrightarrow> spec_drops iters label a b"
  by (auto simp: spec_drops_def)

lemma spec_drops_None: "total b = total a \<Longrightarrow> todo b \<subseteq># todo a \<Longrightarrow> spec_drops iters None a b"
  by (simp add: spec_drops_def)

text \<open>A run of the specification is also possible with more items, which it leaves.\<close>

lemma spec_run_more:
  assumes "spec_run iters vs a = Some b" and "total a' = total a" and "todo a \<subseteq># todo a'"
  shows "\<exists>b'. spec_run iters vs a' = Some b' \<and> total b' = total b \<and> todo b \<subseteq># todo b'"
  using assms by (auto simp: spec_run_iff subseteq_mset_def diff_le_mono intro: order_trans)

locale pool_drops = task_invariant step inv
  for step :: "('s, 't) task_step" and inv +
  fixes iters :: u64
    and took :: "'s \<Rightarrow> 't \<Rightarrow> u64 option"
    and view :: "('s, 't) pool \<Rightarrow> pool_work"
  assumes drop_step:
    "inv (s, ts) \<Longrightarrow> i < length ts \<Longrightarrow> step s (ts ! i) = Some (s', t', new) \<Longrightarrow>
      spec_drops iters (took s (ts ! i)) (view (s, ts)) (view (s', ts[i := t'] @ new))"
begin

lemma run_drops:
  "inv c \<Longrightarrow> pool_run step sched c = Some d \<Longrightarrow>
    \<exists>b. spec_run iters (pool_trace step took sched c) (view c) = Some b \<and>
      total b = total (view d) \<and> todo (view d) \<subseteq># todo b"
proof (induction sched arbitrary: c)
  case Nil
  then show ?case by simp
next
  case (Cons i sched)
  obtain s ts where c: "c = (s, ts)" by (cases c)
  with Cons.prems(2) obtain s' t' new
    where i: "i < length ts" "step s (ts ! i) = Some (s', t', new)"
      and rest: "pool_run step sched (s', ts[i := t'] @ new) = Some d"
    by (auto split: if_splits option.splits)
  let ?c = "(s', ts[i := t'] @ new)"
  from i have "pool_step step c ?c" unfolding c by (rule run_task)
  with Cons.prems(1) have "inv ?c" by (rule inv_step)
  from Cons.IH [OF this rest] obtain b where
    b: "spec_run iters (pool_trace step took sched ?c) (view ?c) = Some b" "total b = total (view d)" "todo (view d) \<subseteq># todo b"
    by blast
  from drop_step [OF Cons.prems(1) [unfolded c] i] obtain m where
    m: "spec_moves iters (took s (ts ! i)) (view (s, ts)) m" "total (view ?c) = total m" "todo (view ?c) \<subseteq># todo m"
    by (auto simp: spec_drops_def)
  from spec_run_more [OF b(1) m(2) [symmetric] m(3)] obtain b' where
    "spec_run iters (pool_trace step took sched ?c) m = Some b'" "total b' = total b" "todo b \<subseteq># todo b'"
    by blast
  with m(1) i b(2,3) show ?case
    by (auto simp: c spec_moves_def split: option.splits intro: subset_mset.order_trans)
qed

end

section \<open>Abstract states\<close>

text \<open>
  The abstract state of a pool whose tasks have \<open>pend\<close> still to send or in hand, whose queue holds
  \<open>xs\<close> (items and sentinels 0), whose checksum is \<open>chk\<close> and whose accumulators fold to \<open>acc\<close>; and
  how it changes when an item or a sentinel enters or leaves the queue, an item is folded into an
  accumulator, or an accumulator into the checksum.
\<close>

definition work_view :: "u64 multiset \<Rightarrow> u64 list \<Rightarrow> u64 \<Rightarrow> u64 \<Rightarrow> pool_work" where
  "work_view pend xs chk acc =
     \<lparr>todo = pend + filter_mset (\<lambda>v. v \<noteq> 0) (mset xs), total = acc XOR chk\<rparr>"

lemma view_push: "v \<noteq> 0 \<Longrightarrow> work_view pend (xs @ [v]) chk acc = work_view (add_mset v pend) xs chk acc"
  by (simp add: work_view_def)

lemma view_push_sentinel [simp]: "work_view pend (xs @ [0]) chk acc = work_view pend xs chk acc"
  by (simp add: work_view_def)

lemma view_read:
  "work_view pend (v # xs) chk acc = work_view (pend + (if v = 0 then {#} else {#v#})) xs chk acc"
  by (simp add: work_view_def)

lemma view_fold:
  "spec_moves iters (Some v) (work_view (add_mset v pend) xs chk (accs XOR acc))
    (work_view pend xs chk (accs XOR (acc XOR work_spec v (unat iters))))"
  by (simp add: spec_moves_def spec_take_def work_view_def xor.assoc xor.left_commute xor.commute)

lemma view_flush: "work_view pend xs (chk XOR acc) accs = work_view pend xs chk (accs XOR acc)"
  by (simp add: work_view_def xor.assoc xor.left_commute xor.commute)

lemma view_start: "work_view (all_values_from items producers 0) [] 0 0 = spec_start items producers"
  by (simp add: work_view_def spec_start_def)

lemma view_done: "work_view {#} [] chk 0 = \<lparr>todo = {#}, total = chk\<rparr>"
  by (simp add: work_view_def)

end
