(* ===== verification/Worker_Pool_Zig.thy ===== *)
theory Worker_Pool_Zig
  imports Tasks Item_Flow
begin

text \<open>
  \<open>src/worker_pool.zig\<close>: the worker pool on \<open>std.Io\<close>. Producers put the items into one queue of
  capacity 256 and count themselves off an atomic; the last one closes the queue. Consumers fold
  the work on each item into an accumulator and store it in a slot of their own, and \<open>main\<close> folds
  the slots when the group is done. The queue is \<open>std.Io.Queue\<close>: a bounded FIFO in which a put waits
  while it is full, a get while it is empty, and which after \<open>close\<close> still gives what it holds.

  \<open>group.concurrent\<close> may fail: \<open>main\<close> then cancels the group, waits for the tasks it has started and
  returns the error. Arithmetic is checked, as in the safe build modes: an overflow panics, which
  ends the process.
\<close>

section \<open>The program\<close>

definition zig_buffer_size :: nat where
  "zig_buffer_size = 256"

text \<open>\<open>x *% 6364136223846793005 +% 1442695040888963407\<close> wraps.\<close>

function zig_work_loop :: "u64 \<Rightarrow> u64 \<Rightarrow> u64 \<Rightarrow> u64 \<Rightarrow> u64" where
  "zig_work_loop i iters x acc =
     (if i < iters
      then let x = x * 6364136223846793005 + 1442695040888963407
           in zig_work_loop (i + 1) iters x (acc XOR drop_bit 29 x)
      else acc)"
  by pat_completeness auto
termination
  by (relation "measure (\<lambda>(i, iters, x, acc). unat iters - unat i)")
    (auto simp: unat_inc word_less_nat_alt)

declare zig_work_loop.simps [simp del]

definition zig_work :: "u64 \<Rightarrow> u64 \<Rightarrow> u64" where
  "zig_work seed iters = zig_work_loop 0 iters seed 0"

record zwp_cfg =
  z_items :: u64
  z_producers :: u64
  z_consumers :: u64
  z_work :: u64

text \<open>
  \<open>active\<close> counts the tasks the group waits for; \<open>canceling\<close> is set once the group is cancelled,
  \<open>dead\<close> by a panic.
\<close>

record zwp_state =
  zqueue :: "u64 list"
  zclosed :: bool
  zremaining :: u64
  zresults :: "u64 list"
  active :: nat
  canceling :: bool
  dead :: bool

datatype zwp_task =
    ZProducer u64 u64
  | ZClose
  | ZConsumer nat u64
  | ZStore nat u64
  | ZReturn
  | ZReturned
  | ZSpawnConsumers u64
  | ZSpawnProducers u64
  | ZAwait
  | ZReport
  | ZDone u64 nat
  | ZCancelWait
  | ZFailed
  | ZPanicked

text \<open>Checked multiplication of two \<open>u64\<close>.\<close>

definition zig_mul :: "u64 \<Rightarrow> u64 \<Rightarrow> u64 option" where
  "zig_mul a b = (if unat a * unat b < 2 ^ 64 then Some (a * b) else None)"

definition zig_split :: "u64 \<Rightarrow> u64 \<Rightarrow> u64 \<Rightarrow> (u64 \<times> u64) option" where
  "zig_split items producers p =
     (case (zig_mul p items, zig_mul (p + 1) items) of
        (Some a, Some b) \<Rightarrow> Some (a div producers, b div producers)
      | _ \<Rightarrow> None)"

text \<open>The messages per second, for a run of \<open>ns\<close> nanoseconds; \<open>None\<close> is an overflow.\<close>

definition zig_rate :: "u64 \<Rightarrow> nat \<Rightarrow> nat option" where
  "zig_rate items ns =
     (if 0 < ns then (if unat items * 1000000000 < 2 ^ 64 then Some (unat items * 1000000000 div ns) else None)
      else Some 0)"

text \<open>
  Once the group is cancelled a call that would wait returns \<open>error.Canceled\<close>, and one that need not
  wait does so unless it is \<open>late\<close>: when a request is noticed depends on the backend, so \<open>late\<close> is any
  function.
\<close>

fun zig_producer_step ::
  "(zwp_state \<Rightarrow> zwp_task \<Rightarrow> bool) \<Rightarrow> zwp_state \<Rightarrow> zwp_task \<Rightarrow> (zwp_state \<times> zwp_task) option"
where
  "zig_producer_step late s (ZProducer i e) =
     (if i < e then
        (if zclosed s then Some (s, ZReturn)
         else if length (zqueue s) < zig_buffer_size \<and> (canceling s \<longrightarrow> late s (ZProducer i e))
         then Some (s\<lparr>zqueue := zqueue s @ [i + 1]\<rparr>, ZProducer (i + 1) e)
         else if canceling s then Some (s, ZReturn)
         else None)
      else Some (s\<lparr>zremaining := zremaining s - 1\<rparr>, if zremaining s = 1 then ZClose else ZReturn))"
| "zig_producer_step late s ZClose = Some (s\<lparr>zclosed := True\<rparr>, ZReturn)"
| "zig_producer_step late s _ = None"

fun zig_consumer_step ::
  "(zwp_state \<Rightarrow> zwp_task \<Rightarrow> bool) \<Rightarrow> zwp_cfg \<Rightarrow> zwp_state \<Rightarrow> zwp_task \<Rightarrow> (zwp_state \<times> zwp_task) option"
where
  "zig_consumer_step late cfg s (ZConsumer k acc) =
     (if canceling s \<and> \<not> late s (ZConsumer k acc) then Some (s, ZStore k acc)
      else case zqueue s of
        item # rest \<Rightarrow> Some (s\<lparr>zqueue := rest\<rparr>, ZConsumer k (acc XOR zig_work item (z_work cfg)))
      | [] \<Rightarrow> if zclosed s \<or> canceling s then Some (s, ZStore k acc) else None)"
| "zig_consumer_step late cfg s (ZStore k acc) = Some (s\<lparr>zresults := (zresults s)[k := acc]\<rparr>, ZReturn)"
| "zig_consumer_step late cfg s _ = None"

text \<open>
  \<open>main\<close>. \<open>spawns\<close> is the number of calls of \<open>group.concurrent\<close> that succeed, \<open>ns\<close> the duration
  measured.
\<close>

fun zig_main_step :: "zwp_cfg \<Rightarrow> nat \<Rightarrow> nat \<Rightarrow> (zwp_state, zwp_task) task_step" where
  "zig_main_step cfg spawns ns s (ZSpawnConsumers c) =
     Some (if c < z_consumers cfg
           then (if unat c < spawns then (s\<lparr>active := active s + 1\<rparr>, ZSpawnConsumers (c + 1), [ZConsumer (unat c) 0])
                 else (s\<lparr>canceling := True\<rparr>, ZCancelWait, []))
           else (s, ZSpawnProducers 0, []))"
| "zig_main_step cfg spawns ns s (ZSpawnProducers p) =
     Some (if p < z_producers cfg
           then (case zig_split (z_items cfg) (z_producers cfg) p of
                   None \<Rightarrow> (s\<lparr>dead := True\<rparr>, ZPanicked, [])
                 | Some (start, end) \<Rightarrow>
                     if unat (z_consumers cfg) + unat p < spawns
                     then (s\<lparr>active := active s + 1\<rparr>, ZSpawnProducers (p + 1), [ZProducer start end])
                     else (s\<lparr>canceling := True\<rparr>, ZCancelWait, []))
           else (s, ZAwait, []))"
| "zig_main_step cfg spawns ns s ZAwait = (if active s = 0 then Some (s, ZReport, []) else None)"
| "zig_main_step cfg spawns ns s ZReport =
     Some (case zig_rate (z_items cfg) ns of
             None \<Rightarrow> (s\<lparr>dead := True\<rparr>, ZPanicked, [])
           | Some rate \<Rightarrow> (s, ZDone (foldl (XOR) 0 (zresults s)) rate, []))"
| "zig_main_step cfg spawns ns s ZCancelWait = (if active s = 0 then Some (s, ZFailed, []) else None)"
| "zig_main_step cfg spawns ns s _ = None"

fun zwp_step :: "(zwp_state \<Rightarrow> zwp_task \<Rightarrow> bool) \<Rightarrow> zwp_cfg \<Rightarrow> nat \<Rightarrow> nat \<Rightarrow> (zwp_state, zwp_task) task_step" where
  "zwp_step late cfg spawns ns s t =
     (if dead s then None
      else case t of
        ZProducer i e \<Rightarrow> map_option (\<lambda>(s', t'). (s', t', [])) (zig_producer_step late s t)
      | ZClose \<Rightarrow> map_option (\<lambda>(s', t'). (s', t', [])) (zig_producer_step late s t)
      | ZConsumer k acc \<Rightarrow> map_option (\<lambda>(s', t'). (s', t', [])) (zig_consumer_step late cfg s t)
      | ZStore k acc \<Rightarrow> map_option (\<lambda>(s', t'). (s', t', [])) (zig_consumer_step late cfg s t)
      | ZReturn \<Rightarrow> Some (s\<lparr>active := active s - 1\<rparr>, ZReturned, [])
      | _ \<Rightarrow> zig_main_step cfg spawns ns s t)"

definition zwp_start :: "zwp_cfg \<Rightarrow> (zwp_state, zwp_task) pool" where
  "zwp_start cfg =
     (\<lparr>zqueue = [], zclosed = False, zremaining = z_producers cfg, zresults = replicate (unat (z_consumers cfg)) 0,
       active = 0, canceling = False, dead = False\<rparr>, [ZSpawnConsumers 0])"

fun zwp_finished :: "zwp_task \<Rightarrow> bool" where
  "zwp_finished ZReturned = True"
| "zwp_finished (ZDone cs rate) = True"
| "zwp_finished ZFailed = True"
| "zwp_finished ZPanicked = True"
| "zwp_finished t = False"

lemma zig_work_loop_spec:
  "zig_work_loop i iters x acc = acc XOR work_spec x (unat iters - unat i)"
  by (rule work_loop_spec [where f = "\<lambda>i. zig_work_loop i iters"], subst zig_work_loop.simps) (simp add: lcg_def Let_def)

lemma zig_work_spec: "zig_work seed iters = work_spec seed (unat iters)"
  by (simp add: zig_work_def zig_work_loop_spec)


section \<open>What a task contributes to the invariant\<close>

text \<open>
  Producers that have not counted themselves off, those about to close the queue, consumers still
  in their loop, tasks that have not returned, the owners of result slot \<open>k\<close>, items not yet put and
  accumulators. \<open>z_main\<close> is \<open>main\<close> before a cancellation, \<open>z_over\<close> \<open>main\<close> behind \<open>group.await\<close>.
\<close>

fun z_prods :: "zwp_cfg \<Rightarrow> zwp_task \<Rightarrow> nat" where
  "z_prods cfg (ZProducer i e) = 1"
| "z_prods cfg (ZSpawnConsumers c) = unat (z_producers cfg)"
| "z_prods cfg (ZSpawnProducers p) = unat (z_producers cfg) - unat p"
| "z_prods cfg t = 0"

fun z_closers :: "zwp_task \<Rightarrow> nat" where
  "z_closers ZClose = 1"
| "z_closers t = 0"

fun z_conss :: "zwp_cfg \<Rightarrow> zwp_task \<Rightarrow> nat" where
  "z_conss cfg (ZConsumer k acc) = 1"
| "z_conss cfg (ZSpawnConsumers c) = unat (z_consumers cfg) - unat c"
| "z_conss cfg t = 0"

fun z_live :: "zwp_task \<Rightarrow> nat" where
  "z_live (ZProducer i e) = 1"
| "z_live ZClose = 1"
| "z_live (ZConsumer k acc) = 1"
| "z_live (ZStore k acc) = 1"
| "z_live ZReturn = 1"
| "z_live t = 0"

fun z_owns :: "zwp_cfg \<Rightarrow> nat \<Rightarrow> zwp_task \<Rightarrow> nat" where
  "z_owns cfg k (ZConsumer j acc) = (if j = k then 1 else 0)"
| "z_owns cfg k (ZStore j acc) = (if j = k then 1 else 0)"
| "z_owns cfg k (ZSpawnConsumers c) = (if unat c \<le> k \<and> k < unat (z_consumers cfg) then 1 else 0)"
| "z_owns cfg k t = 0"

fun z_unsent :: "zwp_cfg \<Rightarrow> zwp_task \<Rightarrow> u64 multiset" where
  "z_unsent cfg (ZProducer i e) = mset (send_values i e)"
| "z_unsent cfg (ZSpawnConsumers c) = all_values_from (z_items cfg) (z_producers cfg) 0"
| "z_unsent cfg (ZSpawnProducers p) = all_values_from (z_items cfg) (z_producers cfg) p"
| "z_unsent cfg t = {#}"

fun z_folded :: "zwp_task \<Rightarrow> u64" where
  "z_folded (ZConsumer k acc) = acc"
| "z_folded (ZStore k acc) = acc"
| "z_folded t = 0"

fun z_main :: "zwp_task \<Rightarrow> nat" where
  "z_main (ZSpawnConsumers c) = 1"
| "z_main (ZSpawnProducers p) = 1"
| "z_main ZAwait = 1"
| "z_main ZReport = 1"
| "z_main (ZDone cs rate) = 1"
| "z_main t = 0"

fun z_over :: "zwp_task \<Rightarrow> nat" where
  "z_over ZReport = 1"
| "z_over (ZDone cs rate) = 1"
| "z_over t = 0"

fun z_ok :: "zwp_cfg \<Rightarrow> zwp_task \<Rightarrow> bool" where
  "z_ok cfg (ZConsumer k acc) \<longleftrightarrow> k < unat (z_consumers cfg)"
| "z_ok cfg (ZStore k acc) \<longleftrightarrow> k < unat (z_consumers cfg)"
| "z_ok cfg (ZSpawnConsumers c) \<longleftrightarrow> c \<le> z_consumers cfg"
| "z_ok cfg (ZSpawnProducers p) \<longleftrightarrow> p \<le> z_producers cfg \<and> unat p * unat (z_items cfg) < 2 ^ 64"
| "z_ok cfg ZAwait \<longleftrightarrow> unat (z_producers cfg) * unat (z_items cfg) < 2 ^ 64"
| "z_ok cfg ZReport \<longleftrightarrow> unat (z_producers cfg) * unat (z_items cfg) < 2 ^ 64"
| "z_ok cfg (ZDone cs rate) \<longleftrightarrow> unat (z_producers cfg) * unat (z_items cfg) < 2 ^ 64"
| "z_ok cfg t \<longleftrightarrow> True"

fun z_weight :: "zwp_cfg \<Rightarrow> zwp_task \<Rightarrow> nat" where
  "z_weight cfg (ZProducer i e) = 2 * length (send_values i e) + 3"
| "z_weight cfg ZClose = 2"
| "z_weight cfg (ZConsumer k acc) = 3"
| "z_weight cfg (ZStore k acc) = 2"
| "z_weight cfg ZReturn = 1"
| "z_weight cfg (ZSpawnConsumers c) =
     4 * (unat (z_consumers cfg) - unat c) + 4 * unat (z_producers cfg) +
     2 * size (all_values_from (z_items cfg) (z_producers cfg) 0) + 5"
| "z_weight cfg (ZSpawnProducers p) =
     4 * (unat (z_producers cfg) - unat p) + 2 * size (all_values_from (z_items cfg) (z_producers cfg) p) + 4"
| "z_weight cfg ZAwait = 3"
| "z_weight cfg ZReport = 2"
| "z_weight cfg ZCancelWait = 1"
| "z_weight cfg t = 0"

text \<open>The invariant for given sums over the tasks; the data part holds until a cancellation.\<close>

definition z_data ::
  "zwp_cfg \<Rightarrow> zwp_state \<Rightarrow> nat \<Rightarrow> nat \<Rightarrow> nat \<Rightarrow> (nat \<Rightarrow> nat) \<Rightarrow> u64 multiset \<Rightarrow> u64 \<Rightarrow> bool"
where
  "z_data cfg s p cl c ow pe ac \<longleftrightarrow>
     unat (zremaining s) = p \<and> (cl \<noteq> 0 \<longrightarrow> p = 0 \<and> cl = 1) \<and> (zclosed s \<longleftrightarrow> p = 0 \<and> cl = 0) \<and>
     (c = unat (z_consumers cfg) \<or> zclosed s \<and> zqueue s = []) \<and>
     (\<forall>k. ow k \<le> 1 \<and> (ow k \<noteq> 0 \<longrightarrow> zresults s ! k = 0)) \<and> length (zqueue s) \<le> 256 \<and>
     item_flow (z_items cfg) (z_producers cfg) (z_work cfg) (zqueue s) (txor (\<lambda>x. x) (zresults s)) pe 0 0 ac"

definition z_sums ::
  "zwp_cfg \<Rightarrow> zwp_state \<Rightarrow> nat \<Rightarrow> nat \<Rightarrow> nat \<Rightarrow> nat \<Rightarrow> (nat \<Rightarrow> nat) \<Rightarrow> nat \<Rightarrow> nat \<Rightarrow> u64 multiset \<Rightarrow> u64 \<Rightarrow> bool"
where
  "z_sums cfg s p cl c l ow m ov pe ac \<longleftrightarrow>
     active s = l \<and> length (zresults s) = unat (z_consumers cfg) \<and> m = (if canceling s \<or> dead s then 0 else 1) \<and>
     (ov \<noteq> 0 \<longrightarrow> l = 0) \<and> (\<not> canceling s \<and> \<not> dead s \<longrightarrow> z_data cfg s p cl c ow pe ac)"

definition z_local ::
  "zwp_cfg \<Rightarrow> zwp_state \<Rightarrow> zwp_task list \<Rightarrow> nat \<Rightarrow> nat \<Rightarrow> nat \<Rightarrow> nat \<Rightarrow> (nat \<Rightarrow> nat) \<Rightarrow> nat \<Rightarrow> nat \<Rightarrow> u64 multiset \<Rightarrow> u64 \<Rightarrow> bool"
where
  "z_local cfg s ts p cl c l ow m ov pe ac \<longleftrightarrow>
     z_sums cfg s (p + tsum (z_prods cfg) ts) (cl + tsum z_closers ts) (c + tsum (z_conss cfg) ts) (l + tsum z_live ts)
       (\<lambda>k. ow k + tsum (z_owns cfg k) ts) (m + tsum z_main ts) (ov + tsum z_over ts) (pe + tsum (z_unsent cfg) ts)
       (ac XOR txor z_folded ts)"

definition z_local_weight :: "zwp_cfg \<Rightarrow> zwp_state \<Rightarrow> zwp_task list \<Rightarrow> nat" where
  "z_local_weight cfg s ts = tsum (z_weight cfg) ts + length (zqueue s)"

definition zwp_inv :: "zwp_cfg \<Rightarrow> (zwp_state, zwp_task) pool \<Rightarrow> bool" where
  "zwp_inv cfg c \<longleftrightarrow> (\<forall>t \<in> set (snd c). z_ok cfg t) \<and> z_local cfg (fst c) (snd c) 0 0 0 0 (\<lambda>k. 0) 0 0 {#} 0"

definition zwp_weight :: "zwp_cfg \<Rightarrow> (zwp_state, zwp_task) pool \<Rightarrow> nat" where
  "zwp_weight cfg c = z_local_weight cfg (fst c) (snd c)"

section \<open>Every step keeps the invariant and decreases the weight\<close>

lemma zig_split_Some:
  "zig_split items producers p = Some r \<Longrightarrow> r = split_range items producers p"
  by (auto simp: zig_split_def zig_mul_def split_range_def split: if_splits option.splits)

lemma zig_split_fits:
  assumes "p < producers"
  shows "zig_split items producers p \<noteq> None \<longleftrightarrow> Suc (unat p) * unat items < 2 ^ 64"
proof -
  have "unat p * unat items \<le> Suc (unat p) * unat items" by simp
  then have "Suc (unat p) * unat items < 2 ^ 64 \<Longrightarrow> unat p * unat items < 2 ^ 64" by linarith
  then show ?thesis
    unfolding zig_split_def zig_mul_def unat_inc [OF assms]
    by (auto simp del: mult_Suc split: option.splits)
qed

lemma z_step_ok:
  assumes "zwp_step late cfg spawns ns s t = Some (s', t', new)" and "z_ok cfg t"
  shows "z_ok cfg t' \<and> (\<forall>u \<in> set new. z_ok cfg u)"
proof (cases t)
  case (ZSpawnProducers p)
  show ?thesis
  proof (cases "p < z_producers cfg")
    case True
    note fits = zig_split_fits [OF True, of "z_items cfg", folded unat_inc [OF True]]
    show ?thesis
      using assms ZSpawnProducers True fits inc_le [OF True] by (auto split: if_splits option.splits)
  next
    case False
    with assms ZSpawnProducers have "p = z_producers cfg" by simp
    with assms ZSpawnProducers show ?thesis by (auto split: if_splits)
  qed
qed (use assms in \<open>auto simp: inc_le word_less_nat_alt split: if_splits list.splits option.splits\<close>)

lemma z_producer_local:
  assumes "zwp_step late cfg spawns ns s (ZProducer i e) = Some (s', t', new)"
    and "z_local cfg s [ZProducer i e] p cl c l ow m ov pe ac"
  shows "z_local cfg s' (t' # new) p cl c l ow m ov pe ac \<and>
    z_local_weight cfg s' (t' # new) < z_local_weight cfg s [ZProducer i e]"
proof (cases "i < e")
  case True
  have len: "length (send_values i e) = Suc (length (send_values (i + 1) e))" by (simp add: send_values_unfold [OF True])
  show ?thesis
  proof (cases "\<not> zclosed s \<and> length (zqueue s) < 256 \<and> (canceling s \<longrightarrow> late s (ZProducer i e))")
    case False
    with \<open>i < e\<close> assms(1) have "s' = s" "t' = ZReturn" "new = []" "canceling s \<or> zclosed s"
      by (auto simp: zig_buffer_size_def split: if_splits)
    with assms(2) show ?thesis
      by (auto simp: z_local_def z_local_weight_def z_sums_def z_data_def split: if_splits)
  next
    case put: True
    with \<open>i < e\<close> assms(1) have e: "s' = s\<lparr>zqueue := zqueue s @ [i + 1]\<rparr>" "t' = ZProducer (i + 1) e" "new = []"
      by (auto simp: zig_buffer_size_def split: if_splits)
    have "item_flow (z_items cfg) (z_producers cfg) (z_work cfg) (zqueue s @ [i + 1]) (txor (\<lambda>x. x) (zresults s))
        (pe + mset (send_values (i + 1) e)) 0 0 ac"
      if "item_flow (z_items cfg) (z_producers cfg) (z_work cfg) (zqueue s) (txor (\<lambda>x. x) (zresults s))
        (pe + mset (send_values i e)) 0 0 ac"
      using that inc_nonzero [OF True] by (intro flow_push_item) (simp_all add: send_values_unfold [OF True])
    then show ?thesis
      using assms(2) e put len
      by (auto simp: z_local_def z_local_weight_def z_sums_def z_data_def)
  qed
next
  case False
  then have vals: "send_values i e = []" by (rule send_values_end)
  have e: "s' = s\<lparr>zremaining := zremaining s - 1\<rparr>" "new = []" "t' = (if zremaining s = 1 then ZClose else ZReturn)"
    using False assms(1) by (auto split: if_splits)
  have "zremaining s = 1 \<longleftrightarrow> p = 0" "unat (zremaining s - 1) = p" if "unat (zremaining s) = Suc p"
    using that by (simp_all add: word_unat_eq_iff unat_sub word_le_nat_alt)
  then show ?thesis
    using assms(2) e vals by (auto simp: z_local_def z_local_weight_def z_sums_def z_data_def)
qed


lemma z_close_local:
  assumes "zwp_step late cfg spawns ns s ZClose = Some (s', t', new)" and "z_local cfg s [ZClose] p cl c l ow m ov pe ac"
  shows "z_local cfg s' (t' # new) p cl c l ow m ov pe ac \<and>
    z_local_weight cfg s' (t' # new) < z_local_weight cfg s [ZClose]"
  using assms by (auto simp: z_local_def z_local_weight_def z_sums_def z_data_def split: if_splits)

lemma z_consumer_local:
  assumes "zwp_step late cfg spawns ns s (ZConsumer k acc) = Some (s', t', new)"
    and "z_local cfg s [ZConsumer k acc] p cl c l ow m ov pe ac"
  shows "z_local cfg s' (t' # new) p cl c l ow m ov pe ac \<and>
    z_local_weight cfg s' (t' # new) < z_local_weight cfg s [ZConsumer k acc]"
proof (cases "canceling s \<and> \<not> late s (ZConsumer k acc) \<or> zqueue s = []")
  case True
  with assms(1) have "s' = s" "t' = ZStore k acc" "new = []" "canceling s \<or> zclosed s"
    by (auto split: if_splits list.splits)
  with True assms(2) show ?thesis
    by (auto simp: z_local_def z_local_weight_def z_sums_def z_data_def split: if_splits)
next
  case False
  then obtain v rest where q: "zqueue s = v # rest" by (cases "zqueue s") auto
  with False assms(1) have e: "s' = s\<lparr>zqueue := rest\<rparr>" "t' = ZConsumer k (acc XOR zig_work v (z_work cfg))" "new = []"
    by (auto split: if_splits)
  have "item_flow (z_items cfg) (z_producers cfg) (z_work cfg) rest (txor (\<lambda>x. x) (zresults s)) pe 0 0
      (ac XOR (acc XOR zig_work v (z_work cfg)))"
    if flow: "item_flow (z_items cfg) (z_producers cfg) (z_work cfg) (v # rest) (txor (\<lambda>x. x) (zresults s)) pe 0 0 (ac XOR acc)"
  proof -
    have "v \<noteq> 0" using flow by (auto simp: item_flow_def)
    with flow_read [OF flow] show ?thesis unfolding zig_work_spec by (intro flow_fold) simp
  qed
  then show ?thesis using assms(2) e q by (auto simp: z_local_def z_local_weight_def z_sums_def z_data_def)
qed

lemma z_store_local:
  assumes "zwp_step late cfg spawns ns s (ZStore k acc) = Some (s', t', new)" and "k < unat (z_consumers cfg)"
    and "z_local cfg s [ZStore k acc] p cl c l ow m ov pe ac"
  shows "z_local cfg s' (t' # new) p cl c l ow m ov pe ac \<and>
    z_local_weight cfg s' (t' # new) < z_local_weight cfg s [ZStore k acc]"
proof -
  from assms(1) have e: "s' = s\<lparr>zresults := (zresults s)[k := acc]\<rparr>" "t' = ZReturn" "new = []"
    by (auto split: if_splits)
  from assms(3) have "length (zresults s) = unat (z_consumers cfg)" by (simp add: z_local_def z_sums_def)
  with assms(2) have k: "k < length (zresults s)" by simp
  have sum: "txor (\<lambda>x. x) ((zresults s)[k := acc]) = txor (\<lambda>x. x) (zresults s) XOR acc" if "zresults s ! k = 0"
    using txor_at [OF k, of "\<lambda>x. x"] txor_upd [OF k, of "\<lambda>x. x" acc "[]"] that by simp
  have "z_data cfg s' p cl c ow pe ac"
    if "z_data cfg s p cl c (\<lambda>j. ow j + (if k = j then 1 else 0)) pe (ac XOR acc)"
  proof -
    from that have own: "\<forall>j. ow j + (if k = j then 1 else 0) \<le> 1 \<and> (ow j + (if k = j then 1 else 0) \<noteq> 0 \<longrightarrow> zresults s ! j = 0)"
      by (simp add: z_data_def)
    from own [rule_format, of k] have zero: "ow k = 0" "zresults s ! k = 0" by simp_all
    have "ow j \<le> 1 \<and> (ow j \<noteq> 0 \<longrightarrow> (zresults s)[k := acc] ! j = 0)" for j
      using own [rule_format, of j] zero by (cases "k = j") auto
    with that sum [OF zero(2)] show ?thesis
      by (auto simp: z_data_def e intro: flow_flush)
  qed
  then show ?thesis using assms(3) e by (auto simp: z_local_def z_local_weight_def z_sums_def)
qed

lemma z_spawn_consumer_local:
  assumes "zwp_step late cfg spawns ns s (ZSpawnConsumers k) = Some (s', t', new)" and "k \<le> z_consumers cfg"
    and "z_local cfg s [ZSpawnConsumers k] p cl c l ow m ov pe ac" and "ov \<le> m"
  shows "z_local cfg s' (t' # new) p cl c l ow m ov pe ac \<and>
    z_local_weight cfg s' (t' # new) < z_local_weight cfg s [ZSpawnConsumers k]"
proof (cases "k < z_consumers cfg")
  case True
  have k: "unat (z_consumers cfg) - unat k = Suc (unat (z_consumers cfg) - unat (k + 1))"
    using True by (simp add: unat_inc [OF True] word_less_nat_alt Suc_diff_Suc)
  show ?thesis
  proof (cases "unat k < spawns")
    case spawn: True
    with True assms(1) have e: "s' = s\<lparr>active := active s + 1\<rparr>" "t' = ZSpawnConsumers (k + 1)" "new = [ZConsumer (unat k) 0]"
      by (auto split: if_splits)
    have own: "(if unat k \<le> j \<and> j < unat (z_consumers cfg) then 1 else 0) =
        (if unat (k + 1) \<le> j \<and> j < unat (z_consumers cfg) then 1 else 0) + (if unat k = j then 1 else 0 :: nat)" for j
      using True by (auto simp: unat_inc [OF True] word_less_nat_alt)
    have "ov = 0" using assms(3,4) by (auto simp: z_local_def z_sums_def split: if_splits)
    with assms(3) show ?thesis by (auto simp: e z_local_def z_local_weight_def z_sums_def z_data_def k own)
  next
    case False
    with True assms(1) have e: "s' = s\<lparr>canceling := True\<rparr>" "t' = ZCancelWait" "new = []"
      by (auto split: if_splits)
    show ?thesis using assms(3) by (auto simp: e z_local_def z_local_weight_def z_sums_def split: if_splits)
  qed
next
  case False
  then have e: "t' = ZSpawnProducers 0" "s' = s" "new = []" "unat (z_consumers cfg) - unat k = 0"
    using assms(1) by (auto simp: word_less_nat_alt split: if_splits)
  have "\<not> (unat k \<le> j \<and> j < unat (z_consumers cfg))" for j using False by (simp add: word_less_nat_alt)
  with e assms(3) show ?thesis by (auto simp: z_local_def z_local_weight_def z_sums_def z_data_def)
qed


lemma z_spawn_producer_local:
  assumes "zwp_step late cfg spawns ns s (ZSpawnProducers k) = Some (s', t', new)" and "k \<le> z_producers cfg"
    and "z_local cfg s [ZSpawnProducers k] p cl c l ow m ov pe ac" and "ov \<le> m"
  shows "z_local cfg s' (t' # new) p cl c l ow m ov pe ac \<and>
    z_local_weight cfg s' (t' # new) < z_local_weight cfg s [ZSpawnProducers k]"
proof (cases "k < z_producers cfg")
  case True
  have k: "unat (z_producers cfg) - unat k = Suc (unat (z_producers cfg) - unat (k + 1))"
    using True by (simp add: unat_inc [OF True] word_less_nat_alt Suc_diff_Suc)
  show ?thesis
  proof (cases "zig_split (z_items cfg) (z_producers cfg) k")
    case None
    with True assms(1) have e: "s' = s\<lparr>dead := True\<rparr>" "t' = ZPanicked" "new = []" by (auto split: if_splits)
    show ?thesis using assms(3) by (auto simp: e z_local_def z_local_weight_def z_sums_def split: if_splits)
  next
    case (Some r)
    obtain b e where be: "r = (b, e)" by (cases r)
    have split: "split_range (z_items cfg) (z_producers cfg) k = (b, e)" using zig_split_Some [OF Some] be by simp
    have vals: "all_values_from (z_items cfg) (z_producers cfg) k =
        mset (send_values b e) + all_values_from (z_items cfg) (z_producers cfg) (k + 1)"
      by (simp add: all_values_from_step [OF True] producer_values_def split)
    show ?thesis
    proof (cases "unat (z_consumers cfg) + unat k < spawns")
      case spawn: True
      with True Some be assms(1)
      have eff: "s' = s\<lparr>active := active s + 1\<rparr>" "t' = ZSpawnProducers (k + 1)" "new = [ZProducer b e]"
        by (auto split: if_splits)
      have "ov = 0" using assms(3,4) by (auto simp: z_local_def z_sums_def split: if_splits)
      with assms(3) show ?thesis
        by (auto simp: eff z_local_def z_local_weight_def z_sums_def z_data_def k vals ac_simps)
    next
      case False
      with True Some be assms(1) have e: "s' = s\<lparr>canceling := True\<rparr>" "t' = ZCancelWait" "new = []"
        by (auto split: if_splits)
      show ?thesis using assms(3) by (auto simp: e z_local_def z_local_weight_def z_sums_def split: if_splits)
    qed
  qed
next
  case False
  then have e: "t' = ZAwait" "s' = s" "new = []" "unat (z_producers cfg) - unat k = 0"
    using assms(1) by (auto simp: word_less_nat_alt split: if_splits)
  with assms(3) show ?thesis
    by (auto simp: z_local_def z_local_weight_def z_sums_def z_data_def all_values_from_end [OF False])
qed

lemma z_step_local:
  assumes "zwp_step late cfg spawns ns s t = Some (s', t', new)" and "z_ok cfg t"
    and "z_local cfg s [t] p cl c l ow m ov pe ac" and "ov \<le> m"
  shows "z_local cfg s' (t' # new) p cl c l ow m ov pe ac \<and>
    z_local_weight cfg s' (t' # new) < z_local_weight cfg s [t]"
proof (cases t)
  case (ZProducer i e)
  with z_producer_local assms(1,3) show ?thesis by blast
next
  case ZClose
  with z_close_local assms(1,3) show ?thesis by blast
next
  case (ZConsumer k acc)
  with z_consumer_local assms(1,3) show ?thesis by blast
next
  case (ZStore k acc)
  with z_store_local assms(1-3) show ?thesis by simp
next
  case ZReturn
  with assms(1,3) show ?thesis
    by (auto simp: z_local_def z_local_weight_def z_sums_def z_data_def split: if_splits)
next
  case (ZSpawnConsumers k)
  with z_spawn_consumer_local assms show ?thesis by simp
next
  case (ZSpawnProducers k)
  with z_spawn_producer_local assms show ?thesis by simp
next
  case ZAwait
  with assms(1) have "s' = s" "t' = ZReport" "new = []" "active s = 0" by (auto split: if_splits)
  with ZAwait assms(3) show ?thesis by (auto simp: z_local_def z_local_weight_def z_sums_def)
next
  case ZReport
  with assms(1) consider "s' = s\<lparr>dead := True\<rparr>" "t' = ZPanicked" "new = []"
    | cs rate where "s' = s" "t' = ZDone cs rate" "new = []"
    by (auto split: if_splits option.splits)
  then show ?thesis
  proof cases
    case 1
    with ZReport assms(3) show ?thesis by (auto simp: z_local_def z_local_weight_def z_sums_def split: if_splits)
  next
    case 2
    with ZReport assms(3) show ?thesis by (auto simp: z_local_def z_local_weight_def z_sums_def)
  qed
next
  case ZCancelWait
  with assms(1) have "s' = s" "t' = ZFailed" "new = []" by (auto split: if_splits)
  with ZCancelWait assms(3) show ?thesis by (auto simp: z_local_def z_local_weight_def z_sums_def)
qed (use assms(1) in \<open>auto split: if_splits\<close>)

lemma over_main: "z_over t \<le> z_main t"
  by (cases t) auto

lemma zwp_inv_step:
  assumes "zwp_inv cfg c" and "pool_step (zwp_step late cfg spawns ns) c c'"
  shows "zwp_inv cfg c' \<and> zwp_weight cfg c' < zwp_weight cfg c"
  using assms(2)
proof cases
  case (run_task i ts s s' t' new)
  have ok: "z_ok cfg (ts ! i)" and all: "\<forall>t \<in> set ts. z_ok cfg t"
    using assms(1) run_task by (auto simp: zwp_inv_def)
  have oks: "\<forall>t \<in> set (ts[i := t'] @ new). z_ok cfg t"
    using z_step_ok [OF run_task(4) ok] all set_upd_subset [of ts i t' new] by blast
  let ?r = "\<lambda>f. tsum f (others i ts)"
  have before: "z_local cfg s [ts ! i] (?r (z_prods cfg)) (?r z_closers) (?r (z_conss cfg)) (?r z_live)
      (\<lambda>k. ?r (z_owns cfg k)) (?r z_main) (?r z_over) (?r (z_unsent cfg)) (txor z_folded (others i ts))"
    using assms(1) unfolding run_task zwp_inv_def fst_conv snd_conv z_local_def
      tsum_at [OF run_task(3)] txor_at [OF run_task(3)] by simp
  have "?r z_over \<le> ?r z_main" by (rule tsum_le_mono) (rule over_main)
  from z_step_local [OF run_task(4) ok before this]
  have after: "z_local cfg s' (t' # new) (?r (z_prods cfg)) (?r z_closers) (?r (z_conss cfg)) (?r z_live)
      (\<lambda>k. ?r (z_owns cfg k)) (?r z_main) (?r z_over) (?r (z_unsent cfg)) (txor z_folded (others i ts))"
    and less: "z_local_weight cfg s' (t' # new) < z_local_weight cfg s [ts ! i]" by auto
  have "zwp_weight cfg c' < zwp_weight cfg c"
    using less unfolding run_task zwp_weight_def z_local_weight_def fst_conv snd_conv
      tsum_at [OF run_task(3)] tsum_upd [OF run_task(3)] by simp
  with oks after show ?thesis
    unfolding run_task zwp_inv_def fst_conv snd_conv z_local_def
      tsum_upd [OF run_task(3)] txor_upd [OF run_task(3)] by (simp add: add.assoc xor.assoc)
qed

lemma zwp_inv_start:
  assumes "z_producers cfg \<noteq> 0"
  shows "zwp_inv cfg (zwp_start cfg)"
proof -
  have "0 < unat (z_producers cfg)" using assms by (simp add: unat_gt_0)
  moreover have "txor (\<lambda>x. x) (replicate n 0) = 0" for n by (rule txor_zero) simp
  ultimately show ?thesis
    by (auto simp: zwp_inv_def zwp_start_def z_local_def z_sums_def z_data_def item_flow_def
      intro!: exI [of _ "[]"])
qed


section \<open>The report\<close>

lemma foldl_xor: "foldl (XOR) a xs = a XOR txor (\<lambda>x. x) xs"
  by (induction xs arbitrary: a) (simp_all add: xor.assoc)

text \<open>Behind \<open>group.await\<close> nothing is left to do.\<close>

lemma z_over_done:
  assumes inv: "zwp_inv cfg (s, ts)" and u: "u \<in> set ts" "z_over u \<noteq> 0" and t: "t \<in> set ts"
  shows "\<not> canceling s \<and> \<not> dead s \<and> z_live t = 0 \<and> z_prods cfg t = 0 \<and> z_closers t = 0 \<and> z_conss cfg t = 0 \<and>
    z_unsent cfg t = {#} \<and> z_folded t = 0"
proof -
  from inv have sums: "tsum z_main ts = (if canceling s \<or> dead s then 0 else 1)" "tsum z_over ts \<noteq> 0 \<longrightarrow> tsum z_live ts = 0"
    by (simp_all add: zwp_inv_def z_local_def z_sums_def)
  have "0 < tsum z_over ts" using tsum_member_le [OF u(1), of z_over] u(2) by linarith
  then have live: "z_live t = 0" using sums(2) tsum_zeroD [of z_live ts t] t by linarith
  have m: "z_main u = 1" using u(2) by (cases u) auto
  have one: "tsum z_main ts \<le> 1" and flags: "\<not> canceling s" "\<not> dead s"
    using sums(1) tsum_member_le [OF u(1), of z_main] m by (auto split: if_splits)
  have "z_over t \<noteq> 0 \<or> z_main t = 0"
  proof (cases "t = u")
    case False
    obtain i j where "i < length ts" "ts ! i = t" "j < length ts" "ts ! j = u" using t u(1) by (auto simp: in_set_conv_nth)
    with False tsum_two_members [of i ts j z_main] m one show ?thesis by (cases "i = j") auto
  qed (use u in simp)
  with live flags show ?thesis by (cases t) auto
qed

lemma z_over_result:
  assumes inv: "zwp_inv cfg (s, ts)" and u: "u \<in> set ts" "z_over u \<noteq> 0" and cons: "z_consumers cfg \<noteq> 0"
  shows "active s = 0" and "zqueue s = []"
    and "txor (\<lambda>x. x) (zresults s) = xor_work (z_work cfg) (all_values_from (z_items cfg) (z_producers cfg) 0)"
proof -
  note zero = z_over_done [OF inv u]
  have "tsum (z_prods cfg) ts = 0" "tsum z_closers ts = 0" "tsum (z_conss cfg) ts = 0" "tsum z_live ts = 0"
    "tsum (z_unsent cfg) ts = {#}" "txor z_folded ts = 0"
    using zero by (blast intro: tsum_zeroI tsum_mset_zero txor_zero)+
  with inv zero [OF u(1)] have "active s = 0" "z_data cfg s 0 0 0 (\<lambda>k. tsum (z_owns cfg k) ts) {#} 0"
    by (simp_all add: zwp_inv_def z_local_def z_sums_def split: if_splits)
  moreover have "unat (z_consumers cfg) \<noteq> 0" using cons by (simp add: unat_eq_zero)
  ultimately show "active s = 0" "zqueue s = []"
    "txor (\<lambda>x. x) (zresults s) = xor_work (z_work cfg) (all_values_from (z_items cfg) (z_producers cfg) 0)"
    by (auto simp: z_data_def item_flow_def)
qed

definition zwp_told :: "zwp_cfg \<Rightarrow> nat \<Rightarrow> (zwp_state, zwp_task) pool \<Rightarrow> bool" where
  "zwp_told cfg ns c \<longleftrightarrow> zwp_inv cfg c \<and> (\<forall>cs rate. ZDone cs rate \<in> set (snd c) \<longrightarrow>
     cs = foldl (XOR) 0 (zresults (fst c)) \<and> zig_rate (z_items cfg) ns = Some rate)"

lemma z_results_step:
  assumes "zwp_step late cfg spawns ns s t = Some (s', t', new)"
  shows "zresults s' = zresults s \<or> z_live t = 1" and "ZDone cs rate \<notin> set new"
    and "t' = ZDone cs rate \<Longrightarrow> cs = foldl (XOR) 0 (zresults s) \<and> zig_rate (z_items cfg) ns = Some rate \<and> zresults s' = zresults s"
  using assms by (cases t; auto split: if_splits list.splits option.splits)+

lemma zwp_told_step:
  assumes "zwp_told cfg ns c" and "pool_step (zwp_step late cfg spawns ns) c c'"
  shows "zwp_told cfg ns c' \<and> zwp_weight cfg c' < zwp_weight cfg c"
  using assms(2)
proof cases
  case (run_task i ts s s' t' new)
  from assms(1) have inv: "zwp_inv cfg (s, ts)"
    and told: "\<And>cs rate. ZDone cs rate \<in> set ts \<Longrightarrow> cs = foldl (XOR) 0 (zresults s) \<and> zig_rate (z_items cfg) ns = Some rate"
    by (simp_all add: zwp_told_def run_task)
  have "cs = foldl (XOR) 0 (zresults s') \<and> zig_rate (z_items cfg) ns = Some rate"
    if d: "ZDone cs rate \<in> set (ts[i := t'] @ new)" for cs rate
  proof (cases "t' = ZDone cs rate")
    case True
    with z_results_step(3) [OF run_task(4) True] show ?thesis by simp
  next
    case False
    with d z_results_step(2) [OF run_task(4)] set_update_subset_insert [of ts i t'] have old: "ZDone cs rate \<in> set ts" by auto
    have "z_live (ts ! i) = 0" using z_over_done [OF inv old _ nth_mem [OF run_task(3)]] by simp
    with z_results_step(1) [OF run_task(4)] told [OF old] show ?thesis by simp
  qed
  with zwp_inv_step [OF _ assms(2)] inv run_task(1,2) show ?thesis by (simp add: zwp_told_def)
qed

interpretation zwp: task_terminates "zwp_step late cfg spawns ns" "zwp_told cfg ns" "zwp_weight cfg" for late cfg spawns ns
  by unfold_locales (use zwp_told_step in blast)+

lemma zwp_told_start: "z_producers cfg \<noteq> 0 \<Longrightarrow> zwp_told cfg ns (zwp_start cfg)"
  using zwp_inv_start [of cfg] by (simp add: zwp_told_def zwp_start_def)

section \<open>Where a run can stop\<close>

lemma zwp_stuck_done:
  assumes inv: "zwp_inv cfg (s, ts)" and stuck: "pool_stuck (zwp_step late cfg spawns ns) (s, ts)"
    and cons: "z_consumers cfg \<noteq> 0" and alive: "\<not> dead s" and t: "t \<in> set ts"
  shows "zwp_finished t"
proof -
  have none: "zwp_step late cfg spawns ns s u = None" if "u \<in> set ts" for u
    using stuck that by (simp add: pool_stuck_def)
  have kinds: "zwp_finished u \<or> u = ZAwait \<or> u = ZCancelWait \<or> (\<exists>k a. u = ZConsumer k a) \<or> (\<exists>i e. u = ZProducer i e)"
    if "u \<in> set ts" for u
    using none [OF that] alive by (cases u) (auto split: if_splits option.splits)
  have act: "active s = tsum z_live ts" using inv by (simp add: zwp_inv_def z_local_def z_sums_def)
  have idle: "z_live u = 0" if u: "u \<in> set ts" for u
  proof (cases "canceling s")
    case True
    with none [OF u] kinds [OF u] alive show ?thesis by (cases u) (auto split: if_splits list.splits)
  next
    case False
    with inv alive have data: "z_data cfg s (tsum (z_prods cfg) ts) (tsum z_closers ts) (tsum (z_conss cfg) ts)
        (\<lambda>k. tsum (z_owns cfg k) ts) (tsum (z_unsent cfg) ts) (txor z_folded ts)"
      by (simp add: zwp_inv_def z_local_def z_sums_def)
    then have drained: "tsum (z_conss cfg) ts = unat (z_consumers cfg) \<or> zclosed s"
      and shut: "zclosed s \<longleftrightarrow> tsum (z_prods cfg) ts = 0 \<and> tsum z_closers ts = 0"
      unfolding z_data_def by blast+
    have closers: "tsum z_closers ts = 0"
      using kinds by (intro tsum_zeroI) (metis z_closers.simps zwp_finished.simps zwp_task.exhaust)
    have no_cons: "ZConsumer k a \<notin> set ts" for k a
    proof
      assume c: "ZConsumer k a \<in> set ts"
      with none [OF c] alive False have empty: "zqueue s = []" "\<not> zclosed s" by (auto split: list.splits if_splits)
      have "z_prods cfg v = 0" if "v \<in> set ts" for v
        using none [OF that] kinds [OF that] alive False empty by (cases v) (auto simp: zig_buffer_size_def split: if_splits)
      then have "tsum (z_prods cfg) ts = 0" by (rule tsum_zeroI)
      with shut closers empty(2) show False by blast
    qed
    have "z_conss cfg v = 0" if "v \<in> set ts" for v
      using kinds [OF that] no_cons that by (cases v) auto
    then have "tsum (z_conss cfg) ts = 0" by (rule tsum_zeroI)
    moreover have "unat (z_consumers cfg) \<noteq> 0" using cons by (simp add: unat_eq_zero)
    ultimately have "zclosed s" using drained by (metis (no_types))
    with shut have "tsum (z_prods cfg) ts = 0" by blast
    from tsum_zeroD [OF this u] kinds [OF u] no_cons u show ?thesis by (cases u) auto
  qed
  then have "tsum z_live ts = 0" by (rule tsum_zeroI)
  with act none [OF t] kinds [OF t] idle [OF t] alive show ?thesis by (cases t) auto
qed


section \<open>How a run can end\<close>

text \<open>Why the group was cancelled or the process panicked.\<close>

definition zwp_why :: "zwp_cfg \<Rightarrow> nat \<Rightarrow> nat \<Rightarrow> (zwp_state, zwp_task) pool \<Rightarrow> bool" where
  "zwp_why cfg spawns ns c \<longleftrightarrow>
     (canceling (fst c) \<longrightarrow> spawns < unat (z_consumers cfg) + unat (z_producers cfg) \<and>
        (ZCancelWait \<in> set (snd c) \<or> ZFailed \<in> set (snd c))) \<and>
     (dead (fst c) \<longrightarrow> ZPanicked \<in> set (snd c) \<and>
        (2 ^ 64 \<le> unat (z_producers cfg) * unat (z_items cfg) \<or> zig_rate (z_items cfg) ns = None))"

lemma z_flags_step:
  assumes "zwp_step late cfg spawns ns s t = Some (s', t', new)"
  shows "canceling s' \<noteq> canceling s \<longrightarrow> t' = ZCancelWait \<and> spawns < unat (z_consumers cfg) + unat (z_producers cfg)"
    and "dead s' \<longrightarrow> t' = ZPanicked \<and> (2 ^ 64 \<le> unat (z_producers cfg) * unat (z_items cfg) \<or> zig_rate (z_items cfg) ns = None)"
proof -
  have "(canceling s' \<noteq> canceling s \<longrightarrow> t' = ZCancelWait \<and> spawns < unat (z_consumers cfg) + unat (z_producers cfg)) \<and>
    (dead s' \<longrightarrow> t' = ZPanicked \<and> (2 ^ 64 \<le> unat (z_producers cfg) * unat (z_items cfg) \<or> zig_rate (z_items cfg) ns = None))"
  proof (cases t)
    case (ZSpawnProducers p)
    have "2 ^ 64 \<le> unat (z_producers cfg) * unat (z_items cfg)"
      if "p < z_producers cfg" "zig_split (z_items cfg) (z_producers cfg) p = None"
    proof -
      have "2 ^ 64 \<le> Suc (unat p) * unat (z_items cfg)"
        using zig_split_fits [OF that(1), of "z_items cfg"] that(2) by linarith
      also have "Suc (unat p) * unat (z_items cfg) \<le> unat (z_producers cfg) * unat (z_items cfg)"
        using that(1) by (intro mult_le_mono1) (simp add: word_less_nat_alt)
      finally show ?thesis .
    qed
    then show ?thesis
      using assms ZSpawnProducers by (auto simp: word_less_nat_alt split: if_splits option.splits)
  next
    case (ZSpawnConsumers c)
    with assms show ?thesis by (auto simp: word_less_nat_alt split: if_splits)
  qed (use assms in \<open>auto split: if_splits list.splits option.splits\<close>)
  then show "canceling s' \<noteq> canceling s \<longrightarrow> t' = ZCancelWait \<and> spawns < unat (z_consumers cfg) + unat (z_producers cfg)"
    and "dead s' \<longrightarrow> t' = ZPanicked \<and> (2 ^ 64 \<le> unat (z_producers cfg) * unat (z_items cfg) \<or> zig_rate (z_items cfg) ns = None)"
    by (rule conjunct1, rule conjunct2)
qed

lemma zwp_why_step:
  assumes "zwp_why cfg spawns ns c" and "pool_step (zwp_step late cfg spawns ns) c c'"
  shows "zwp_why cfg spawns ns c'"
  using assms(2)
proof cases
  case (run_task i ts s s' t' new)
  have now: "t' \<in> set (ts[i := t'] @ new)" using run_task(3) by (simp add: set_update_memI)
  have kept: "u \<in> set (ts[i := t'] @ new)" if u: "u \<in> set ts" "u \<noteq> ts ! i" for u
  proof -
    obtain j where j: "j < length ts" "ts ! j = u" using u(1) by (auto simp: in_set_conv_nth)
    with u(2) have "ts[i := t'] ! j = u" by (metis nth_list_update_neq)
    then show ?thesis using j(1) nth_mem [of j "ts[i := t']"] by simp
  qed
  have alive: "\<not> dead s" using run_task(4) by (auto split: if_splits)
  have flags: "canceling s' \<noteq> canceling s \<longrightarrow> t' = ZCancelWait \<and> spawns < unat (z_consumers cfg) + unat (z_producers cfg)"
    "dead s' \<longrightarrow> t' = ZPanicked \<and> (2 ^ 64 \<le> unat (z_producers cfg) * unat (z_items cfg) \<or> zig_rate (z_items cfg) ns = None)"
    using z_flags_step [OF run_task(4)] by blast+
  have main: "ts ! i = ZCancelWait \<longrightarrow> t' = ZFailed" "ts ! i \<noteq> ZFailed"
    using run_task(4) by (auto split: if_splits)
  have "ZCancelWait \<in> set (ts[i := t'] @ new) \<or> ZFailed \<in> set (ts[i := t'] @ new)" if "ZCancelWait \<in> set ts \<or> ZFailed \<in> set ts"
    using that main kept now by metis
  with assms(1) flags now show ?thesis unfolding zwp_why_def run_task fst_conv snd_conv by metis
qed

interpretation zwhy: task_invariant "zwp_step late cfg spawns ns" "zwp_why cfg spawns ns" for late cfg spawns ns
  by unfold_locales (rule zwp_why_step)


lemma zwp_done_right:
  assumes inv: "zwp_told cfg ns (s, ts)" and t: "ZDone cs rate \<in> set ts"
    and cfg: "z_producers cfg \<noteq> 0" "z_consumers cfg \<noteq> 0"
  shows "cs = checksum_spec (z_items cfg) (z_work cfg) \<and> unat (z_producers cfg) * unat (z_items cfg) < 2 ^ 64 \<and> zig_rate (z_items cfg) ns = Some rate \<and> zqueue s = [] \<and>
    \<not> canceling s \<and> \<not> dead s"
proof -
  from inv have inv: "zwp_inv cfg (s, ts)" and told: "cs = txor (\<lambda>x. x) (zresults s)" "zig_rate (z_items cfg) ns = Some rate"
    using t by (auto simp: zwp_told_def foldl_xor)
  have over: "z_over (ZDone cs rate) \<noteq> 0" by simp
  have "z_ok cfg (ZDone cs rate)" using inv t unfolding zwp_inv_def snd_conv by blast
  then have small: "unat (z_producers cfg) * unat (z_items cfg) < 2 ^ 64" by simp
  from z_over_result(2,3) [OF inv t over cfg(2)] xor_work_all [OF this cfg(1)] small z_over_done [OF inv t over t] told
  show ?thesis by simp
qed

lemma zwp_ends:
  assumes inv: "zwp_told cfg ns (s, ts)" and why: "zwp_why cfg spawns ns (s, ts)"
    and stuck: "pool_stuck (zwp_step late cfg spawns ns) (s, ts)" and cfg: "z_producers cfg \<noteq> 0" "z_consumers cfg \<noteq> 0"
  shows "(\<forall>t \<in> set ts. zwp_finished t) \<and> (\<exists>rate. ZDone (checksum_spec (z_items cfg) (z_work cfg)) rate \<in> set ts) \<or>
    (\<forall>t \<in> set ts. zwp_finished t) \<and> ZFailed \<in> set ts \<and> spawns < unat (z_consumers cfg) + unat (z_producers cfg) \<or>
    ZPanicked \<in> set ts \<and> (2 ^ 64 \<le> unat (z_producers cfg) * unat (z_items cfg) \<or> zig_rate (z_items cfg) ns = None)"
proof (cases "dead s")
  case True
  with why show ?thesis by (simp add: zwp_why_def)
next
  case False
  from inv have inv': "zwp_inv cfg (s, ts)" by (simp add: zwp_told_def)
  from zwp_stuck_done [OF inv' stuck cfg(2) False] have all_done: "\<forall>t \<in> set ts. zwp_finished t" by blast
  show ?thesis
  proof (cases "canceling s")
    case True
    with why all_done show ?thesis by (auto simp: zwp_why_def)
  next
    case False
    with \<open>\<not> dead s\<close> inv' have "tsum z_main ts = 1" by (simp add: zwp_inv_def z_local_def z_sums_def)
    then obtain t where t: "t \<in> set ts" "z_main t \<noteq> 0" using tsum_zeroI [of ts z_main] by (metis zero_neq_one)
    with all_done have "\<exists>cs rate. t = ZDone cs rate" by (cases t) auto
    then obtain cs rate where "ZDone cs rate \<in> set ts" using t(1) by blast
    with zwp_done_right [OF inv this cfg] all_done show ?thesis by blast
  qed
qed

section \<open>Properties\<close>

text \<open>
  C16. The Zig worker pool is correct. With at least one producer and one consumer, when all tasks can
  be started and no product overflows, every run, whatever the interleaving, takes at most
  \<open>2 * items + 4 * (producers + consumers) + 5\<close> actions, and one that cannot go on has finished all
  tasks, emptied the queue and reported the checksum of the items.
\<close>

theorem zwp_checksum_correct:
  assumes "z_producers cfg \<noteq> 0" and "z_consumers cfg \<noteq> 0" and "unat (z_producers cfg) * unat (z_items cfg) < 2 ^ 64"
    and "unat (z_consumers cfg) + unat (z_producers cfg) \<le> spawns" and "zig_rate (z_items cfg) ns \<noteq> None"
    and "pool_run (zwp_step late cfg spawns ns) sched (zwp_start cfg) = Some (s, ts)"
  shows "length sched \<le> 2 * unat (z_items cfg) + 4 * (unat (z_producers cfg) + unat (z_consumers cfg)) + 5 \<and>
    (pool_stuck (zwp_step late cfg spawns ns) (s, ts) \<longrightarrow> (\<forall>t \<in> set ts. zwp_finished t) \<and> zqueue s = [] \<and>
      (\<exists>rate. ZDone (checksum_spec (z_items cfg) (z_work cfg)) rate \<in> set ts))"
proof -
  note start = zwp_told_start [OF assms(1), of ns]
  have reach: "pool_reach (zwp_step late cfg spawns ns) (zwp_start cfg) (s, ts)" by (rule pool_run_reach [OF assms(6)])
  have inv: "zwp_told cfg ns (s, ts)" by (rule zwp.inv_reach [OF start reach])
  have why: "zwp_why cfg spawns ns (s, ts)" by (rule zwhy.inv_reach [OF _ reach]) (simp add: zwp_why_def zwp_start_def)
  have "size (all_values_from (z_items cfg) (z_producers cfg) 0) = unat (z_items cfg)"
    by (simp add: all_values_exact [OF assms(3,1)])
  with zwp.run_length [OF start assms(6)]
  have "length sched \<le> 2 * unat (z_items cfg) + 4 * (unat (z_producers cfg) + unat (z_consumers cfg)) + 5"
    by (simp add: zwp_weight_def z_local_weight_def zwp_start_def)
  moreover have "(\<forall>t \<in> set ts. zwp_finished t) \<and> zqueue s = [] \<and>
      (\<exists>rate. ZDone (checksum_spec (z_items cfg) (z_work cfg)) rate \<in> set ts)"
    if stuck: "pool_stuck (zwp_step late cfg spawns ns) (s, ts)"
    using zwp_ends [OF inv why stuck assms(1,2)] assms(3-5) zwp_done_right [OF inv _ assms(1,2)] by auto
  ultimately show ?thesis by blast
qed

definition zwp_small :: zwp_cfg where
  "zwp_small = \<lparr>z_items = 2, z_producers = 1, z_consumers = 1, z_work = 1\<rparr>"

theorem zwp_checksum_correct_witness:
  "\<exists>s ts rate. pool_reach (zwp_step (\<lambda>s t. False) zwp_small 2 1000) (zwp_start zwp_small) (s, ts) \<and> ZDone 22681772974 rate \<in> set ts"
proof -
  have cfg: "z_producers zwp_small \<noteq> 0" "z_consumers zwp_small \<noteq> 0" "zig_rate (z_items zwp_small) 1000 \<noteq> None"
    by (simp_all add: zwp_small_def zig_rate_def)
  from zwp.reaches_stuck [OF zwp_told_start [OF cfg(1)], of "\<lambda>s t. False" 2 1000] obtain s ts
    where stop: "pool_reach (zwp_step (\<lambda>s t. False) zwp_small 2 1000) (zwp_start zwp_small) (s, ts)"
      "pool_stuck (zwp_step (\<lambda>s t. False) zwp_small 2 1000) (s, ts)" by (metis prod.exhaust)
  from reach_pool_run [OF stop(1)] obtain sched
    where run: "pool_run (zwp_step (\<lambda>s t. False) zwp_small 2 1000) sched (zwp_start zwp_small) = Some (s, ts)" by blast
  have "\<exists>rate. ZDone (checksum_spec 2 1) rate \<in> set ts"
    using zwp_checksum_correct [OF cfg(1,2) _ _ cfg(3) run] stop(2) by (simp add: zwp_small_def)
  with stop(1) show ?thesis unfolding checksum_two by blast
qed

text \<open>
  C18. The Zig worker pool never hangs and never reports a wrong checksum, also when some task cannot
  be started or a product overflows: a run that cannot go on has reported the right checksum, or has
  returned the error with every task it had started finished, or has panicked because of an overflow,
  and in every reachable state a reported checksum is the right one.
\<close>

theorem zwp_outcomes:
  assumes "z_producers cfg \<noteq> 0" and "z_consumers cfg \<noteq> 0"
    and "pool_reach (zwp_step late cfg spawns ns) (zwp_start cfg) (s, ts)"
  shows "(\<forall>cs rate. ZDone cs rate \<in> set ts \<longrightarrow> cs = checksum_spec (z_items cfg) (z_work cfg)) \<and>
    (pool_stuck (zwp_step late cfg spawns ns) (s, ts) \<longrightarrow>
      (\<forall>t \<in> set ts. zwp_finished t) \<and> (\<exists>rate. ZDone (checksum_spec (z_items cfg) (z_work cfg)) rate \<in> set ts) \<or>
      (\<forall>t \<in> set ts. zwp_finished t) \<and> ZFailed \<in> set ts \<and> spawns < unat (z_consumers cfg) + unat (z_producers cfg) \<or>
      ZPanicked \<in> set ts \<and> (2 ^ 64 \<le> unat (z_producers cfg) * unat (z_items cfg) \<or> zig_rate (z_items cfg) ns = None))"
proof -
  have inv: "zwp_told cfg ns (s, ts)" by (rule zwp.inv_reach [OF zwp_told_start [OF assms(1)] assms(3)])
  have why: "zwp_why cfg spawns ns (s, ts)" by (rule zwhy.inv_reach [OF _ assms(3)]) (simp add: zwp_why_def zwp_start_def)
  show ?thesis using zwp_ends [OF inv why _ assms(1,2), of late] zwp_done_right [OF inv _ assms(1,2)] by blast
qed

text \<open>One consumer has been started and the producer cannot be.\<close>

theorem zwp_outcomes_witness:
  "\<exists>s ts. pool_reach (zwp_step (\<lambda>s t. False) zwp_small 1 1000) (zwp_start zwp_small) (s, ts) \<and>
    (\<forall>t \<in> set ts. zwp_finished t) \<and> ZFailed \<in> set ts"
proof -
  obtain s ts where run: "pool_run (zwp_step (\<lambda>s t. False) zwp_small 1 1000) [0, 0, 0, 1, 1, 1, 0] (zwp_start zwp_small) = Some (s, ts)"
    and ts: "ts = [ZFailed, ZReturned]"
    by (simp add: zwp_small_def zwp_start_def zig_split_def zig_mul_def)
  have cfg: "z_producers zwp_small \<noteq> 0" "z_consumers zwp_small \<noteq> 0" by (simp_all add: zwp_small_def)
  have "pool_stuck (zwp_step (\<lambda>s t. False) zwp_small 1 1000) (s, ts)" by (simp add: pool_stuck_def ts)
  with zwp_outcomes [OF cfg pool_run_reach [OF run]] have "(\<forall>t \<in> set ts. zwp_finished t) \<and> ZFailed \<in> set ts"
    by (simp add: ts)
  with pool_run_reach [OF run] show ?thesis by blast
qed

end
