(* ===== verification/Pool_Refinement.thy ===== *)
theory Pool_Refinement
  imports Pool_Spec Worker_Pool_Photon Worker_Pool_Asio Worker_Pool_Zig
begin

text \<open>
  The three worker pools implement the specification of \<open>Pool_Spec\<close>: the photon pool with its ring
  buffer, the Asio pool on a channel, the Zig pool on a queue that is closed at the end. The abstract
  state is read off a concrete one from what the tasks have still to send, what the queue holds, the
  accumulators and the checksum; an action that folds an item is a step of the specification on that
  item and any other action is none.
\<close>

section \<open>The photon pool\<close>

text \<open>The item an action folds into an accumulator.\<close>

fun wpp_took :: "('s, 'm) wpp_state \<Rightarrow> wpp_task \<Rightarrow> u64 option" where
  "wpp_took s (ConsItem acc v) = (if v = 0 then None else Some v)"
| "wpp_took s t = None"

fun wpp_view :: "wpp_cfg \<Rightarrow> (('s, 'm) wpp_state, wpp_task) pool \<Rightarrow> pool_work" where
  "wpp_view cfg (s, ts) =
     work_view (tsum (pending cfg) ts) (contents (q s)) (g_checksum s) (txor acc_of ts)"

context photon_sync begin

lemma wpp_view_producer:
  assumes "push_step ph (i + 1) pc (q s) = Some (q', r)" and "i < e"
    and "queue_inv cnt held (q s) (a + push_reserved pc) (w + push_written pc) k f (h + push_inside pc)"
  shows "work_view (pe + pending cfg (case r of None \<Rightarrow> ProdLoop (i + 1) e | Some pc' \<Rightarrow> ProdPush i e pc'))
      (contents q') chk ac = work_view (pe + pending cfg (ProdPush i e pc)) (contents (q s)) chk ac"
proof (cases pc)
  case PushWrite
  with assms(1) have "r = Some PushUnlock" by auto
  with PushWrite push_step_inv(2) [OF assms(3,1)] inc_nonzero [OF assms(2)] show ?thesis
    by (simp add: send_values_unfold [OF assms(2)] view_push)
qed (use assms push_step_inv(2) [OF assms(3,1)] in \<open>auto split: option.splits\<close>)

lemma wpp_view_consumer:
  assumes "pop_step ph pc (q s) = Some (q', r)"
    and "queue_inv cnt held (q s) a w (k + pop_taken pc) (f + pop_freed pc) (h + pop_inside pc)"
  shows "work_view (pe + pending cfg (case r of Inr v \<Rightarrow> ConsItem acc v | Inl pc' \<Rightarrow> ConsPop acc pc'))
      (contents q') chk ac = work_view (pe + pending cfg (ConsPop acc pc)) (contents (q s)) chk ac"
proof (cases pc)
  case PopRead
  with assms(1) have "r = Inl (PopUnlock (queue_front (q s)))" by auto
  with pop_step_inv(3) [OF assms(2,1) PopRead] PopRead show ?thesis
    by (simp add: view_read)
qed (use assms pop_step_inv(2) [OF assms(2,1)] in \<open>auto split: option.splits\<close>)

lemma wpp_view_main:
  assumes "push_step ph 0 pc (q s) = Some (q', r)"
    and "queue_inv cnt held (q s) (a + push_reserved pc) (w + push_written pc) k f (h + push_inside pc)"
  shows "work_view pe (contents q') chk ac = work_view pe (contents (q s)) chk ac"
  using push_step_inv(2) [OF assms(2,1)] by auto

lemma wpp_view_local:
  assumes step: "wpp_step ph cfg s t = Some (s', t', new)" and ok: "task_ok cfg t"
    and queue: "queue_inv cnt held (q s) (r + reserved_of t) (w + written_of t) (k + taken_of t)
      (f + freed_of t) (h + inside_of t)"
  shows "spec_moves (g_work cfg) (wpp_took s t)
    (work_view (pe + pending cfg t) (contents (q s)) (g_checksum s) (ac XOR acc_of t))
    (work_view (pe + pending cfg t' + tsum (pending cfg) new) (contents (q s')) (g_checksum s')
      (ac XOR acc_of t' XOR txor acc_of new))"
proof (cases t)
  case (ProdPush i e pc)
  with step obtain q' r' where "push_step ph (i + 1) pc (q s) = Some (q', r')"
    "s' = s\<lparr>q := q'\<rparr>" "t' = (case r' of None \<Rightarrow> ProdLoop (i + 1) e | Some pc' \<Rightarrow> ProdPush i e pc')"
    "new = []"
    by (auto simp: wpp_step_def split: option.splits prod.splits)
  with ProdPush wpp_view_producer [OF this(1), of e r w k f h pe cfg "g_checksum s" ac] ok queue show ?thesis
    by (auto split: option.splits)
next
  case (ConsPop acc pc)
  with step obtain q' r' where "pop_step ph pc (q s) = Some (q', r')"
    "s' = s\<lparr>q := q'\<rparr>" "t' = (case r' of Inr v \<Rightarrow> ConsItem acc v | Inl pc' \<Rightarrow> ConsPop acc pc')"
    "new = []"
    by (auto simp: wpp_step_def split: option.splits prod.splits sum.splits)
  with ConsPop wpp_view_consumer [OF this(1), of r w k f h pe cfg acc "g_checksum s" "ac XOR acc"] queue show ?thesis
    by (auto split: sum.splits)
next
  case (MainPush c pc)
  with step obtain q' r' where "push_step ph 0 pc (q s) = Some (q', r')"
    "s' = s\<lparr>q := q'\<rparr>" "t' = (case r' of None \<Rightarrow> MainStop (c + 1) | Some pc' \<Rightarrow> MainPush c pc')"
    "new = []"
    by (auto simp: wpp_step_def split: option.splits prod.splits)
  with MainPush wpp_view_main [OF this(1), of r w k f h pe "g_checksum s" ac] queue show ?thesis
    by (auto split: option.splits)
next
  case (ConsItem acc v)
  with step show ?thesis
    by (auto simp: wpp_step_def photon_work_spec view_fold)
next
  case (ConsFlush acc)
  with step show ?thesis
    by (auto simp: wpp_step_def view_flush)
next
  case (MainSpawnP p)
  with step show ?thesis
    by (auto simp: wpp_step_def all_values_from_step all_values_from_end ac_simps split: if_splits)
qed (use step in \<open>auto simp: wpp_step_def producer_values_def split_range_def Let_def
       send_values_end split: if_splits option.splits\<close>)

lemma wpp_view_step:
  assumes "wpp_inv cnt held cfg (s, ts)" and i: "i < length ts"
    and step: "wpp_step ph cfg s (ts ! i) = Some (s', t', new)"
  shows "spec_moves (g_work cfg) (wpp_took s (ts ! i)) (wpp_view cfg (s, ts)) (wpp_view cfg (s', ts[i := t'] @ new))"
proof -
  note inv = wpp_invD [OF assms(1)]
  have "task_ok cfg (ts ! i)" using inv(1) i by simp
  from wpp_view_local [OF step this inv(2) [unfolded tsum_at [OF i]]] show ?thesis
    unfolding wpp_view.simps tsum_at [OF i] txor_at [OF i] tsum_upd [OF i] txor_upd [OF i] .
qed

end

sublocale photon_sync \<subseteq> wpp_spec: pool_refines "wpp_step ph cfg" "wpp_inv cnt held cfg"
  "g_work cfg" wpp_took "wpp_view cfg" "\<lambda>c. False" for cfg
  by unfold_locales (blast intro: wpp_view_step)+

context photon_sync begin

lemma wpp_run_spec:
  assumes "pool_run (wpp_step ph cfg) sched (wpp_start ph) = Some c"
  shows "spec_run (g_work cfg) (pool_trace (wpp_step ph cfg) wpp_took sched (wpp_start ph))
    (spec_start (g_items cfg) (g_producers cfg)) = Some (wpp_view cfg c)"
  using wpp_spec.run_view [OF wpp_inv_start assms]
  by (simp add: wpp_start_def wpp_init_def contents_init view_start)

end

context worker_pool_photon begin

lemma wpp_view_done:
  assumes "pool_reach (wpp_step ph cfg) (wpp_start ph) (s, ts)" and "pool_stuck (wpp_step ph cfg) (s, ts)"
  shows "wpp_view cfg (s, ts) = \<lparr>todo = {#}, total = g_checksum s\<rparr>"
proof -
  note fin = pool_total [OF assms]
  then have idle: "pending cfg t = {#} \<and> acc_of t = 0" if "t \<in> set ts" for t
    using that by (cases t) auto
  have "tsum (pending cfg) ts = {#}" "txor acc_of ts = 0"
    using idle by (blast intro: tsum_mset_zero txor_zero)+
  with fin show ?thesis by (simp add: view_done)
qed

end

section \<open>The Asio pool\<close>

fun wpa_took :: "'c channel_ops \<Rightarrow> ('c, 'j) wpa_state \<Rightarrow> wpa_task \<Rightarrow> u64 option" where
  "wpa_took ch s (Consumer acc) =
     (case ch_receive ch (channel s) of
        Some (ec, v, c) \<Rightarrow> if is_error ec \<or> v = 0 then None else Some v
      | None \<Rightarrow> None)"
| "wpa_took ch s t = None"

fun wpa_view :: "('c \<Rightarrow> u64 list) \<Rightarrow> wpa_cfg \<Rightarrow> (('c, 'j) wpa_state, wpa_task) pool \<Rightarrow> pool_work" where
  "wpa_view stored cfg (s, ts) =
     work_view (tsum (unsent cfg) ts) (stored (channel s)) (checksum s) (txor folded ts)"

context asio_runtime begin

lemma wpa_view_local:
  assumes step: "wpa_step ch jn cfg s t = Some (s', t', new)" and "\<not> closed (channel s)"
  shows "spec_moves (work_iters cfg) (wpa_took ch s t)
    (work_view (pe + unsent cfg t) (stored (channel s)) (checksum s) (ac XOR folded t))
    (work_view (pe + unsent cfg t' + tsum (unsent cfg) new) (stored (channel s')) (checksum s')
      (ac XOR folded t' XOR txor folded new))"
proof (cases t)
  case (Producer i e)
  with step show ?thesis
    by (auto simp: send_values_unfold send_values_end view_push inc_nonzero
      dest!: open_send [OF _ assms(2)] split: if_splits option.splits)
next
  case (Sentinels c)
  with step show ?thesis
    by (auto dest!: open_send [OF _ assms(2)] split: if_splits option.splits)
next
  case (Consumer acc)
  with step show ?thesis
    by (auto simp: view_read asio_work_spec view_fold
      dest!: open_receive [OF _ assms(2)] split: if_splits option.splits)
next
  case (AddChecksum acc)
  with step show ?thesis by (auto simp: view_flush)
next
  case (SpawnProducers p)
  with step show ?thesis
    by (auto simp: all_values_from_step all_values_from_end producer_values_def Let_def ac_simps
      split: if_splits prod.splits)
qed (use step in \<open>auto split: if_splits option.splits\<close>)

lemma wpa_view_step:
  assumes "wpa_inv cfg (s, ts)" and i: "i < length ts"
    and step: "wpa_step ch jn cfg s (ts ! i) = Some (s', t', new)"
  shows "spec_moves (work_iters cfg) (wpa_took ch s (ts ! i))
    (wpa_view stored cfg (s, ts)) (wpa_view stored cfg (s', ts[i := t'] @ new))"
proof -
  have "\<not> closed (channel s)" using assms(1) by (simp add: wpa_inv_def wpa_sums_def)
  from wpa_view_local [OF step this] show ?thesis
    unfolding wpa_view.simps tsum_at [OF i] txor_at [OF i] tsum_upd [OF i] txor_upd [OF i] .
qed

end

sublocale worker_pool_asio \<subseteq> wpa_spec: pool_refines "wpa_step ch jn cfg" "wpa_inv cfg"
  "work_iters cfg" "wpa_took ch" "wpa_view stored cfg" "\<lambda>c. False"
  by unfold_locales (blast intro: wpa_view_step)+

context worker_pool_asio begin

lemma wpa_run_spec:
  assumes "pool_run (wpa_step ch jn cfg) sched (wpa_start ch jn cfg) = Some c"
  shows "spec_run (work_iters cfg) (pool_trace (wpa_step ch jn cfg) (wpa_took ch) sched (wpa_start ch jn cfg))
    (spec_start (n_items cfg) (n_producers cfg)) = Some (wpa_view stored cfg c)"
  using wpa_spec.run_view [OF wpa_inv_start [OF some_producer] assms]
  by (simp add: wpa_start_def view_start)

lemma wpa_view_done:
  assumes "pool_reach (wpa_step ch jn cfg) (wpa_start ch jn cfg) (s, ts)"
    and "pool_stuck (wpa_step ch jn cfg) (s, ts)"
  shows "wpa_view stored cfg (s, ts) = \<lparr>todo = {#}, total = checksum s\<rparr>"
proof -
  note fin = asio_pool_total [OF assms]
  then have idle: "unsent cfg t = {#} \<and> folded t = 0" if "t \<in> set ts" for t
    using that by (cases t) auto
  have "tsum (unsent cfg) ts = {#}" "txor folded ts = 0"
    using idle by (blast intro: tsum_mset_zero txor_zero)+
  with fin show ?thesis by (simp add: view_done)
qed

end

section \<open>The Zig pool\<close>

text \<open>The item a get takes out of the queue and folds, also in a cancelled group.\<close>

fun zwp_took :: "(zwp_state \<Rightarrow> zwp_task \<Rightarrow> bool) \<Rightarrow> zwp_state \<Rightarrow> zwp_task \<Rightarrow> u64 option" where
  "zwp_took late s (ZConsumer k acc) =
     (if canceling s \<and> \<not> late s (ZConsumer k acc) then None
      else case zqueue s of v # rest \<Rightarrow> Some v | [] \<Rightarrow> None)"
| "zwp_took late s t = None"

fun zwp_view :: "zwp_cfg \<Rightarrow> (zwp_state, zwp_task) pool \<Rightarrow> pool_work" where
  "zwp_view cfg (s, ts) =
     work_view (tsum (z_unsent cfg) ts) (zqueue s) (txor (\<lambda>x. x) (zresults s)) (txor z_folded ts)"

text \<open>
  A run whose group has been cancelled or that has panicked is given up: items that have not been put or
  taken are dropped.
\<close>

definition zwp_cut :: "(zwp_state, zwp_task) pool \<Rightarrow> bool" where
  "zwp_cut c \<longleftrightarrow> canceling (fst c) \<or> dead (fst c)"

lemma zwp_view_local:
  assumes step: "zwp_step late cfg spawns ns s t = Some (s', t', new)" and "z_ok cfg t"
    and inv: "z_local cfg s [t] p cl c l ow m ov pe ac" and "\<not> canceling s'" and "\<not> dead s'"
  shows "\<not> canceling s \<and> \<not> dead s \<and> spec_moves (z_work cfg) (zwp_took late s t)
    (work_view (pe + z_unsent cfg t) (zqueue s) (txor (\<lambda>x. x) (zresults s)) (ac XOR z_folded t))
    (work_view (pe + z_unsent cfg t' + tsum (z_unsent cfg) new) (zqueue s') (txor (\<lambda>x. x) (zresults s'))
      (ac XOR z_folded t' XOR txor z_folded new))"
proof -
  have live: "\<not> canceling s" "\<not> dead s"
    using step assms(4,5) by (cases t; auto split: if_splits option.splits list.splits)+
  with inv have data: "z_data cfg s (p + tsum (z_prods cfg) [t]) (cl + tsum z_closers [t]) (c + tsum (z_conss cfg) [t])
      (\<lambda>k. ow k + tsum (z_owns cfg k) [t]) (pe + tsum (z_unsent cfg) [t]) (ac XOR txor z_folded [t])"
    and len: "length (zresults s) = unat (z_consumers cfg)"
    by (simp_all add: z_local_def z_sums_def)
  show ?thesis
  proof (cases t)
    case (ZProducer i e)
    with data have "\<not> zclosed s" by (simp add: z_data_def)
    with ZProducer step live show ?thesis
      by (auto simp: send_values_unfold send_values_end view_push inc_nonzero split: if_splits)
  next
    case (ZConsumer k acc)
    have "0 \<notin> set (zqueue s)" using data by (auto simp: z_data_def item_flow_def)
    with ZConsumer step live show ?thesis
      by (auto simp: view_read zig_work_spec view_fold split: if_splits list.splits)
  next
    case (ZStore k acc)
    with assms(2) len have k: "k < length (zresults s)" by simp
    have "zresults s ! k = 0" using data ZStore by (simp add: z_data_def)
    then have "txor (\<lambda>x. x) ((zresults s)[k := acc]) = txor (\<lambda>x. x) (zresults s) XOR acc"
      using txor_at [OF k, of "\<lambda>x. x"] txor_upd [OF k, of "\<lambda>x. x" acc "[]"] by simp
    with ZStore step live show ?thesis by (auto simp: view_flush)
  next
    case (ZSpawnProducers j)
    with step live assms(4,5) show ?thesis
      by (auto simp: all_values_from_step all_values_from_end producer_values_def ac_simps
        dest!: zig_split_Some split: if_splits option.splits prod.splits)
  qed (use step live assms(4,5) in \<open>auto split: if_splits option.splits\<close>)
qed

lemma zwp_view_step:
  assumes "zwp_told cfg ns (s, ts)" and i: "i < length ts"
    and step: "zwp_step late cfg spawns ns s (ts ! i) = Some (s', t', new)" and "\<not> zwp_cut (s', ts[i := t'] @ new)"
  shows "\<not> zwp_cut (s, ts) \<and> spec_moves (z_work cfg) (zwp_took late s (ts ! i))
    (zwp_view cfg (s, ts)) (zwp_view cfg (s', ts[i := t'] @ new))"
proof -
  let ?r = "\<lambda>f. tsum f (others i ts)"
  from assms(1) i have ok: "z_ok cfg (ts ! i)" and inv: "z_local cfg s ts 0 0 0 0 (\<lambda>k. 0) 0 0 {#} 0"
    by (simp_all add: zwp_told_def zwp_inv_def)
  have "z_local cfg s [ts ! i] (?r (z_prods cfg)) (?r z_closers) (?r (z_conss cfg)) (?r z_live)
      (\<lambda>k. ?r (z_owns cfg k)) (?r z_main) (?r z_over) (?r (z_unsent cfg)) (txor z_folded (others i ts))"
    using inv unfolding z_local_def tsum_at [OF i] txor_at [OF i] by simp
  from zwp_view_local [OF step ok this] assms(4) show ?thesis
    unfolding zwp_view.simps zwp_cut_def fst_conv tsum_at [OF i] txor_at [OF i] tsum_upd [OF i] txor_upd [OF i] by blast
qed

interpretation zwp_spec: pool_refines "zwp_step late cfg spawns ns" "zwp_told cfg ns" "z_work cfg"
  "zwp_took late" "zwp_view cfg" zwp_cut for late cfg spawns ns
  by unfold_locales (rule zwp_view_step)

lemma zwp_run_spec:
  assumes "z_producers cfg \<noteq> 0"
    and "pool_run (zwp_step late cfg spawns ns) sched (zwp_start cfg) = Some (s, ts)"
    and "\<not> canceling s" and "\<not> dead s"
  shows "spec_run (z_work cfg) (pool_trace (zwp_step late cfg spawns ns) (zwp_took late) sched (zwp_start cfg))
    (spec_start (z_items cfg) (z_producers cfg)) = Some (zwp_view cfg (s, ts))"
proof -
  have "txor (\<lambda>x. x) (replicate n 0) = 0" for n by (rule txor_zero) simp
  with zwp_spec.run_view [OF zwp_told_start [OF assms(1), of ns] assms(2)] assms(3,4) show ?thesis
    by (simp add: zwp_cut_def zwp_start_def view_start)
qed

text \<open>
  What holds of the data whether the run has been given up or not, for a given number of owners of
  each result slot.
\<close>

definition zwp_kept_for :: "zwp_cfg \<Rightarrow> zwp_state \<Rightarrow> (nat \<Rightarrow> nat) \<Rightarrow> bool" where
  "zwp_kept_for cfg s ow \<longleftrightarrow> 0 \<notin> set (zqueue s) \<and> length (zresults s) = unat (z_consumers cfg) \<and>
     (\<forall>k. ow k \<le> 1 \<and> (ow k \<noteq> 0 \<longrightarrow> zresults s ! k = 0))"

definition zwp_kept :: "zwp_cfg \<Rightarrow> (zwp_state, zwp_task) pool \<Rightarrow> bool" where
  "zwp_kept cfg c \<longleftrightarrow> (\<forall>t \<in> set (snd c). z_ok cfg t) \<and> zwp_kept_for cfg (fst c) (\<lambda>k. tsum (z_owns cfg k) (snd c))"

lemma zwp_kept_fewer:
  "zwp_kept_for cfg s ow \<Longrightarrow> (\<And>k. ow' k \<le> ow k) \<Longrightarrow> zqueue s' = zqueue s \<Longrightarrow> zresults s' = zresults s \<Longrightarrow> zwp_kept_for cfg s' ow'"
  unfolding zwp_kept_for_def by (metis le_trans le_zero_eq)

lemma zwp_kept_local:
  assumes step: "zwp_step late cfg spawns ns s t = Some (s', t', new)" and ok: "z_ok cfg t"
    and kept: "zwp_kept_for cfg s (\<lambda>k. ow k + z_owns cfg k t)"
  shows "zwp_kept_for cfg s' (\<lambda>k. ow k + z_owns cfg k t' + tsum (z_owns cfg k) new)"
proof (cases t)
  case (ZProducer i e)
  with step kept inc_nonzero [of i e] show ?thesis
    by (auto simp: zwp_kept_for_def split: if_splits)
next
  case (ZConsumer k acc)
  with step kept show ?thesis by (auto simp: zwp_kept_for_def split: if_splits list.splits)
next
  case (ZStore k acc)
  with step have e: "s' = s\<lparr>zresults := (zresults s)[k := acc]\<rparr>" "t' = ZReturn" "new = []" by (auto split: if_splits)
  have own: "ow j + (if k = j then 1 else 0) \<le> 1 \<and> (ow j + (if k = j then 1 else 0) \<noteq> 0 \<longrightarrow> zresults s ! j = 0)" for j
    using kept ZStore unfolding zwp_kept_for_def by simp
  have "ow j \<le> 1 \<and> (ow j \<noteq> 0 \<longrightarrow> (zresults s)[k := acc] ! j = 0)" for j
    using own [of j] by (cases "k = j") auto
  with kept e show ?thesis by (simp add: zwp_kept_for_def)
next
  case (ZSpawnConsumers c)
  show ?thesis
    by (rule zwp_kept_fewer [OF kept])
      (use step ZSpawnConsumers in \<open>auto simp: unat_inc word_less_nat_alt split: if_splits\<close>)
next
  case (ZSpawnProducers p)
  show ?thesis
    by (rule zwp_kept_fewer [OF kept])
      (use step ZSpawnProducers in \<open>auto split: if_splits option.splits prod.splits\<close>)
qed (rule zwp_kept_fewer [OF kept], use step in \<open>auto split: if_splits option.splits\<close>)+

lemma view_less:
  "pend' \<subseteq># pend \<Longrightarrow> acc' XOR chk' = acc XOR chk \<Longrightarrow>
    spec_drops iters None (work_view pend xs chk acc) (work_view pend' xs chk' acc')"
  by (auto intro: spec_drops_None simp: work_view_def)

lemma zwp_drops_local:
  assumes step: "zwp_step late cfg spawns ns s t = Some (s', t', new)" and ok: "z_ok cfg t"
    and kept: "zwp_kept_for cfg s (\<lambda>k. ow k + z_owns cfg k t)"
  shows "spec_drops (z_work cfg) (zwp_took late s t)
    (work_view (pe + z_unsent cfg t) (zqueue s) (txor (\<lambda>x. x) (zresults s)) (ac XOR z_folded t))
    (work_view (pe + z_unsent cfg t' + tsum (z_unsent cfg) new) (zqueue s') (txor (\<lambda>x. x) (zresults s'))
      (ac XOR z_folded t' XOR txor z_folded new))"
proof (cases t)
  case (ZProducer i e)
  show ?thesis
  proof (cases "s' = s\<lparr>zqueue := zqueue s @ [i + 1]\<rparr> \<and> t' = ZProducer (i + 1) e \<and> new = [] \<and> i < e")
    case True
    then show ?thesis
      by (intro spec_drops_moves) (auto simp: ZProducer send_values_unfold view_push inc_nonzero)
  next
    case False
    with step ZProducer have "zqueue s' = zqueue s" "zresults s' = zresults s" "t' = ZReturn \<or> t' = ZClose" "new = []"
      by (auto split: if_splits)
    then show ?thesis by (auto simp: ZProducer intro!: view_less)
  qed
next
  case (ZConsumer k acc)
  have "0 \<notin> set (zqueue s)" using kept by (simp add: zwp_kept_for_def)
  with ZConsumer step show ?thesis
    by (intro spec_drops_moves) (auto simp: view_read zig_work_spec view_fold split: if_splits list.splits)
next
  case (ZStore k acc)
  with ok kept have k: "k < length (zresults s)" by (simp add: zwp_kept_for_def)
  have "zresults s ! k = 0" using kept [unfolded zwp_kept_for_def] ZStore by fastforce
  then have "txor (\<lambda>x. x) ((zresults s)[k := acc]) = txor (\<lambda>x. x) (zresults s) XOR acc"
    using txor_at [OF k, of "\<lambda>x. x"] txor_upd [OF k, of "\<lambda>x. x" acc "[]"] by simp
  with ZStore step show ?thesis by (intro spec_drops_moves) (auto simp: view_flush split: if_splits)
next
  case (ZSpawnProducers j)
  with step show ?thesis
    by (auto simp: all_values_from_step all_values_from_end producer_values_def ac_simps intro!: view_less
      dest!: zig_split_Some split: if_splits option.splits prod.splits)
qed (use step in \<open>auto intro!: view_less split: if_splits option.splits\<close>)

lemma zwp_kept_step:
  assumes kept: "zwp_kept cfg (s, ts)" and i: "i < length ts"
    and step: "zwp_step late cfg spawns ns s (ts ! i) = Some (s', t', new)"
  shows "zwp_kept cfg (s', ts[i := t'] @ new)"
    and "spec_drops (z_work cfg) (zwp_took late s (ts ! i)) (zwp_view cfg (s, ts)) (zwp_view cfg (s', ts[i := t'] @ new))"
proof -
  from kept i have ok: "z_ok cfg (ts ! i)" and all: "\<forall>t \<in> set ts. z_ok cfg t"
    and own: "zwp_kept_for cfg s (\<lambda>k. tsum (z_owns cfg k) (others i ts) + z_owns cfg k (ts ! i))"
    by (simp_all add: zwp_kept_def tsum_at [OF i])
  have "\<forall>t \<in> set (ts[i := t'] @ new). z_ok cfg t"
    using z_step_ok [OF step ok] all set_upd_subset [of ts i t' new] by auto
  with zwp_kept_local [OF step ok own] show "zwp_kept cfg (s', ts[i := t'] @ new)"
    unfolding zwp_kept_def fst_conv snd_conv tsum_upd [OF i] by blast
  from zwp_drops_local [OF step ok own]
  show "spec_drops (z_work cfg) (zwp_took late s (ts ! i)) (zwp_view cfg (s, ts)) (zwp_view cfg (s', ts[i := t'] @ new))"
    unfolding zwp_view.simps tsum_at [OF i] txor_at [OF i] tsum_upd [OF i] txor_upd [OF i] .
qed

interpretation zwp_dropping: pool_drops "zwp_step late cfg spawns ns" "zwp_kept cfg" "z_work cfg"
  "zwp_took late" "zwp_view cfg" for late cfg spawns ns
proof unfold_locales
  show "zwp_kept cfg c'" if "zwp_kept cfg c" "pool_step (zwp_step late cfg spawns ns) c c'" for c c'
    using that(2) by cases (use that(1) zwp_kept_step(1) in blast)
qed (rule zwp_kept_step(2))

lemma zwp_run_drops:
  assumes "pool_run (zwp_step late cfg spawns ns) sched (zwp_start cfg) = Some c"
  shows "\<exists>b. spec_run (z_work cfg) (pool_trace (zwp_step late cfg spawns ns) (zwp_took late) sched (zwp_start cfg))
      (spec_start (z_items cfg) (z_producers cfg)) = Some b \<and> total b = total (zwp_view cfg c) \<and> todo (zwp_view cfg c) \<subseteq># todo b"
proof -
  have "zwp_kept cfg (zwp_start cfg)"
    by (auto simp: zwp_kept_def zwp_kept_for_def zwp_start_def)
  moreover have "txor (\<lambda>x. x) (replicate n 0) = 0" for n by (rule txor_zero) simp
  ultimately show ?thesis
    using zwp_dropping.run_drops [of cfg "zwp_start cfg" late spawns ns sched c] assms
    by (simp add: zwp_start_def view_start)
qed

text \<open>A pool that has reported has not been given up.\<close>

lemma zwp_done_uncut:
  assumes "zwp_told cfg ns (s, ts)" and "ZDone cs rate \<in> set ts"
  shows "\<not> canceling s" and "\<not> dead s"
proof -
  have "z_main (ZDone cs rate) \<le> tsum z_main ts" by (rule tsum_member_le [OF assms(2)])
  moreover have "tsum z_main ts = (if canceling s \<or> dead s then 0 else 1)"
    using assms(1) by (simp add: zwp_told_def zwp_inv_def z_local_def z_sums_def)
  ultimately show "\<not> canceling s" "\<not> dead s" by (simp_all split: if_splits)
qed

lemma zwp_view_done:
  assumes "z_producers cfg \<noteq> 0" and "z_consumers cfg \<noteq> 0" and "zwp_told cfg ns (s, ts)" and "ZDone cs rate \<in> set ts"
  shows "zwp_view cfg (s, ts) = \<lparr>todo = {#}, total = cs\<rparr>"
proof -
  from assms(3,4) have inv: "zwp_inv cfg (s, ts)" and cs: "cs = txor (\<lambda>x. x) (zresults s)"
    by (auto simp: zwp_told_def foldl_xor)
  have "z_unsent cfg t = {#} \<and> z_folded t = 0" if "t \<in> set ts" for t
    using z_over_done [OF inv assms(4) _ that] by simp
  then have "tsum (z_unsent cfg) ts = {#}" "txor z_folded ts = 0"
    by (blast intro: tsum_mset_zero txor_zero)+
  with cs zwp_done_right [OF assms(3,4,1,2)] show ?thesis by (simp add: view_done)
qed

section \<open>Properties\<close>

text \<open>
  C6. The photon worker pool implements the specification. The items its consumers fold, in the
  order in which a schedule makes them do so, are a run of the specification from all items to the
  abstract state of the pool, so every action folds at most one item and that item had not been
  folded before; and when a pool with consumers cannot go on, nothing is left, the total is the
  checksum, and the consumers have folded every item the producers send exactly once.
\<close>

theorem wpp_refines_spec:
  assumes "photon_sync ph cnt held" and "pool_run (wpp_step ph cfg) sched (wpp_start ph) = Some (s, ts)"
  shows "spec_run (g_work cfg) (pool_trace (wpp_step ph cfg) wpp_took sched (wpp_start ph))
      (spec_start (g_items cfg) (g_producers cfg)) = Some (wpp_view cfg (s, ts)) \<and>
    (g_consumers cfg \<noteq> 0 \<longrightarrow> pool_stuck (wpp_step ph cfg) (s, ts) \<longrightarrow>
      wpp_view cfg (s, ts) = \<lparr>todo = {#}, total = g_checksum s\<rparr> \<and>
      mset (pool_trace (wpp_step ph cfg) wpp_took sched (wpp_start ph)) =
        all_values_from (g_items cfg) (g_producers cfg) 0)"
proof -
  let ?trace = "pool_trace (wpp_step ph cfg) wpp_took sched (wpp_start ph)"
  have run: "spec_run (g_work cfg) ?trace (spec_start (g_items cfg) (g_producers cfg)) = Some (wpp_view cfg (s, ts))"
    by (rule photon_sync.wpp_run_spec [OF assms])
  moreover have "wpp_view cfg (s, ts) = \<lparr>todo = {#}, total = g_checksum s\<rparr>"
    if "g_consumers cfg \<noteq> 0" "pool_stuck (wpp_step ph cfg) (s, ts)"
    by (rule worker_pool_photon.wpp_view_done [OF worker_pool_photon.intro
        [OF assms(1) worker_pool_photon_axioms.intro [OF that(1)]] pool_run_reach [OF assms(2)] that(2)])
  ultimately show ?thesis using spec_run_done(1) [OF run] by auto
qed

theorem wpp_refines_spec_witness:
  "\<exists>sched s ts. pool_run (wpp_step counter_ops wpp_small) sched (wpp_start counter_ops) = Some (s, ts) \<and>
    mset (pool_trace (wpp_step counter_ops wpp_small) wpp_took sched (wpp_start counter_ops)) = {#1, 2#} \<and>
    wpp_view wpp_small (s, ts) = \<lparr>todo = {#}, total = g_checksum s\<rparr>"
proof -
  obtain s ts where "pool_reach (wpp_step counter_ops wpp_small) (wpp_start counter_ops) (s, ts)"
    and stop: "pool_stuck (wpp_step counter_ops wpp_small) (s, ts)"
    using small_pool_ends by blast
  from reach_pool_run [OF this(1)] obtain sched
    where run: "pool_run (wpp_step counter_ops wpp_small) sched (wpp_start counter_ops) = Some (s, ts)" by blast
  have "all_values_from 2 2 0 = {#1, 2#}"
    using all_values_exact [of 2 2] by (simp add: upt_rec)
  with wpp_refines_spec [OF counter.photon_sync_axioms run] stop run show ?thesis by auto
qed

text \<open>
  C7. The Asio worker pool, with at least one producer and one consumer, implements the same
  specification: the items its consumers fold are a run of it, and when the pool cannot go on every item has been folded exactly once and the total is the
  checksum.
\<close>

theorem wpa_refines_spec:
  assumes "asio_channel ch stored room shut" and "asio_join jn coroutines"
    and "n_producers cfg \<noteq> 0" and "n_consumers cfg \<noteq> 0"
    and "pool_run (wpa_step ch jn cfg) sched (wpa_start ch jn cfg) = Some (s, ts)"
  shows "spec_run (work_iters cfg) (pool_trace (wpa_step ch jn cfg) (wpa_took ch) sched (wpa_start ch jn cfg))
      (spec_start (n_items cfg) (n_producers cfg)) = Some (wpa_view stored cfg (s, ts)) \<and>
    (pool_stuck (wpa_step ch jn cfg) (s, ts) \<longrightarrow>
      wpa_view stored cfg (s, ts) = \<lparr>todo = {#}, total = checksum s\<rparr> \<and>
      mset (pool_trace (wpa_step ch jn cfg) (wpa_took ch) sched (wpa_start ch jn cfg)) =
        all_values_from (n_items cfg) (n_producers cfg) 0)"
proof -
  note pool = worker_pool_asio.intro [OF asio_runtime.intro [OF assms(1,2)] worker_pool_asio_axioms.intro [OF assms(3,4)]]
  note run = worker_pool_asio.wpa_run_spec [OF pool assms(5)]
  with worker_pool_asio.wpa_view_done [OF pool pool_run_reach [OF assms(5)]] spec_run_done(1) [OF run]
  show ?thesis by auto
qed

theorem wpa_refines_spec_witness:
  "\<exists>sched s ts. pool_run (wpa_step list_channel nat_join wpa_small) sched (wpa_start list_channel nat_join wpa_small) = Some (s, ts) \<and>
    mset (pool_trace (wpa_step list_channel nat_join wpa_small) (wpa_took list_channel) sched
      (wpa_start list_channel nat_join wpa_small)) = all_values_from (n_items wpa_small) (n_producers wpa_small) 0"
proof -
  obtain s ts where "pool_reach (wpa_step list_channel nat_join wpa_small) (wpa_start list_channel nat_join wpa_small) (s, ts)"
    and stop: "pool_stuck (wpa_step list_channel nat_join wpa_small) (s, ts)"
    using small_asio.wpa.reaches_stuck [OF listrt.wpa_inv_start [OF small_asio.some_producer]] by force
  from reach_pool_run [OF this(1)] obtain sched
    where run: "pool_run (wpa_step list_channel nat_join wpa_small) sched (wpa_start list_channel nat_join wpa_small) = Some (s, ts)"
    by blast
  from wpa_refines_spec [OF listch.asio_channel_axioms natjn.asio_join_axioms small_asio.some_producer
      small_asio.some_consumer run] stop run show ?thesis by blast
qed

text \<open>
  C8. The Zig worker pool implements the same specification, also when its group is cancelled or it
  panics: in every run the items its consumers fold are a run of the specification, so no item is folded
  that is not there or has been folded, and the total is that of the results and accumulators. What the
  pool still has is left in the specification too; unless the run has been given up the two agree, and
  once \<open>main\<close> has reported, every item has been folded exactly once and the total is what it reported.
\<close>

theorem zwp_refines_spec:
  assumes "z_producers cfg \<noteq> 0" and "z_consumers cfg \<noteq> 0"
    and "pool_run (zwp_step late cfg spawns ns) sched (zwp_start cfg) = Some (s, ts)"
  shows "\<exists>b. spec_run (z_work cfg) (pool_trace (zwp_step late cfg spawns ns) (zwp_took late) sched (zwp_start cfg))
      (spec_start (z_items cfg) (z_producers cfg)) = Some b \<and>
    total b = total (zwp_view cfg (s, ts)) \<and> todo (zwp_view cfg (s, ts)) \<subseteq># todo b \<and>
    (\<not> canceling s \<and> \<not> dead s \<longrightarrow> b = zwp_view cfg (s, ts)) \<and>
    (\<forall>cs rate. ZDone cs rate \<in> set ts \<longrightarrow> b = \<lparr>todo = {#}, total = cs\<rparr> \<and>
      mset (pool_trace (zwp_step late cfg spawns ns) (zwp_took late) sched (zwp_start cfg)) =
        all_values_from (z_items cfg) (z_producers cfg) 0)"
proof -
  from zwp_run_drops [OF assms(3)] obtain b where b: "spec_run (z_work cfg)
      (pool_trace (zwp_step late cfg spawns ns) (zwp_took late) sched (zwp_start cfg))
      (spec_start (z_items cfg) (z_producers cfg)) = Some b"
    "total b = total (zwp_view cfg (s, ts))" "todo (zwp_view cfg (s, ts)) \<subseteq># todo b" by blast
  have told: "zwp_told cfg ns (s, ts)"
    by (rule zwp.inv_reach [OF zwp_told_start [OF assms(1)] pool_run_reach [OF assms(3)]])
  have live: "b = zwp_view cfg (s, ts)" if "\<not> canceling s" "\<not> dead s"
    using zwp_run_spec [OF assms(1,3) that] b(1) by simp
  have "b = \<lparr>todo = {#}, total = cs\<rparr>" if "ZDone cs rate \<in> set ts" for cs rate
    using live [OF zwp_done_uncut [OF told that]] zwp_view_done [OF assms(1,2) told that] by simp
  with b live spec_run_done(1) [OF b(1)] show ?thesis by (intro exI [of _ b]) auto
qed

text \<open>
  The second of two producers cannot be started; the consumer still takes the item the first one has
  put, and the other item is dropped.
\<close>

theorem zwp_refines_spec_witness:
  "\<exists>s ts. pool_run (zwp_step (\<lambda>s t. True) (zwp_small\<lparr>z_producers := 2\<rparr>) 2 1000) [0, 0, 0, 2, 0, 1]
      (zwp_start (zwp_small\<lparr>z_producers := 2\<rparr>)) = Some (s, ts) \<and> canceling s \<and>
    (\<exists>b. spec_run 1 [1] (spec_start 2 2) = Some b \<and> total b = total (zwp_view (zwp_small\<lparr>z_producers := 2\<rparr>) (s, ts)))"
proof -
  let ?cfg = "zwp_small\<lparr>z_producers := 2\<rparr>"
  have cfg: "z_producers ?cfg \<noteq> 0" "z_consumers ?cfg \<noteq> 0" by (simp_all add: zwp_small_def)
  obtain s ts where run: "pool_run (zwp_step (\<lambda>s t. True) ?cfg 2 1000) [0, 0, 0, 2, 0, 1] (zwp_start ?cfg) = Some (s, ts)"
    and cut: "canceling s"
    by (simp add: zwp_small_def zwp_start_def zig_split_def zig_mul_def zig_buffer_size_def)
  have trace: "pool_trace (zwp_step (\<lambda>s t. True) ?cfg 2 1000) (zwp_took (\<lambda>s t. True)) [0, 0, 0, 2, 0, 1] (zwp_start ?cfg) = [1]"
    by (simp add: zwp_small_def zwp_start_def zig_split_def zig_mul_def zig_buffer_size_def)
  from zwp_refines_spec [OF cfg run] obtain b where "spec_run (z_work ?cfg) [1] (spec_start (z_items ?cfg) (z_producers ?cfg)) = Some b"
    "total b = total (zwp_view ?cfg (s, ts))" unfolding trace by blast
  then have "\<exists>b. spec_run 1 [1] (spec_start 2 2) = Some b \<and> total b = total (zwp_view ?cfg (s, ts))"
    by (auto simp: zwp_small_def)
  with run cut show ?thesis by blast
qed

end
