(* ===== verification/Pool_Types.thy ===== *)
theory Pool_Types
  imports Worker_Pool_Photon
begin

text \<open>
  The ranges of the machine words in the photon worker pool. All of them are \<open>uint64_t\<close> or
  \<open>size_t\<close>; \<open>wpp_typed\<close> says what each variable of each coroutine may hold at each suspension point:
  a loop index, an item number, a partial checksum, or the count of a semaphore. The theorem: as long
  as \<open>producers * items\<close> does not wrap, every reachable state is well typed, so no addition in the
  program wraps and no value of the ring buffer is anything but 0 or the number of an item.
\<close>

section \<open>Typing\<close>

text \<open>A checksum: the exclusive-or of hash values shifted right by 29 bits.\<close>

definition hash_typed :: "u64 \<Rightarrow> bool" where
  "hash_typed w \<longleftrightarrow> w < 2 ^ 35"

fun pop_typed :: "u64 \<Rightarrow> pop_pc \<Rightarrow> bool" where
  "pop_typed n (PopUnlock v) = (v \<le> n)"
| "pop_typed n (PopSignal v) = (v \<le> n)"
| "pop_typed n _ = True"

fun wpp_typed_task :: "wpp_cfg \<Rightarrow> wpp_task \<Rightarrow> bool" where
  "wpp_typed_task cfg (ProdStart p) = (p < g_producers cfg)"
| "wpp_typed_task cfg (ProdLoop i e) = (i \<le> e \<and> e \<le> g_items cfg)"
| "wpp_typed_task cfg (ProdPush i e _) = (i < e \<and> e \<le> g_items cfg)"
| "wpp_typed_task cfg (ConsPop acc pc) = (hash_typed acc \<and> pop_typed (g_items cfg) pc)"
| "wpp_typed_task cfg (ConsItem acc item) = (hash_typed acc \<and> item \<le> g_items cfg)"
| "wpp_typed_task cfg (ConsFlush acc) = hash_typed acc"
| "wpp_typed_task cfg (MainSpawnC c) = (c \<le> g_consumers cfg)"
| "wpp_typed_task cfg (MainSpawnP p) = (p \<le> g_producers cfg)"
| "wpp_typed_task cfg (MainStop c) = (c \<le> g_consumers cfg)"
| "wpp_typed_task cfg (MainPush c _) = (c < g_consumers cfg)"
| "wpp_typed_task cfg _ = True"

definition queue_typed :: "u64 \<Rightarrow> ('s, 'm) queue \<Rightarrow> bool" where
  "queue_typed n qu \<longleftrightarrow> length (buf qu) = 256 \<and> (\<forall>v \<in> set (buf qu). v \<le> n)"

definition wpp_typed_state :: "wpp_cfg \<Rightarrow> ('s, 'm) wpp_state \<Rightarrow> bool" where
  "wpp_typed_state cfg s \<longleftrightarrow> queue_typed (g_items cfg) (q s) \<and> hash_typed (g_checksum s)"

definition wpp_typed :: "wpp_cfg \<Rightarrow> (('s, 'm) wpp_state, wpp_task) pool \<Rightarrow> bool" where
  "wpp_typed cfg c \<longleftrightarrow> wpp_typed_state cfg (fst c) \<and> (\<forall>t \<in> set (snd c). wpp_typed_task cfg t)"

section \<open>Every action keeps the types\<close>

lemma hash_typed_iff: "hash_typed w \<longleftrightarrow> take_bit 35 w = w"
  by (simp add: hash_typed_def word_unat_eq_iff unsigned_take_bit_eq take_bit_nat_eq_self_iff word_less_nat_alt)

lemma hash_typed_0 [simp]: "hash_typed 0"
  by (simp add: hash_typed_def)

lemma hash_typed_xor [intro!]: "hash_typed a \<Longrightarrow> hash_typed b \<Longrightarrow> hash_typed (a XOR b)"
  by (simp add: hash_typed_iff)

lemma hash_typed_work [intro!]: "hash_typed (photon_work seed iters)"
  using work_spec_bound [of seed "unat iters"]
  by (simp add: hash_typed_def photon_work_spec word_less_nat_alt)

lemma queue_typed_init: "queue_typed n (queue_init ph)"
  by (simp add: queue_typed_def queue_init_def CAP_def)

lemma push_step_typed:
  assumes "push_step ph v pc qu = Some (qu', r)" and "queue_typed n qu" and "v \<le> n"
  shows "queue_typed n qu'"
  using assms
  by (cases pc) (auto simp: queue_typed_def queue_write_def dest!: subsetD [OF set_update_subset_insert] split: option.splits)

lemma front_typed: "queue_typed n qu \<Longrightarrow> queue_front qu \<le> n"
  by (simp add: queue_typed_def queue_front_def slot_index)

lemma pop_step_typed:
  assumes "pop_step ph pc qu = Some (qu', r)" and "queue_typed n qu" and "pop_typed n pc"
  shows "queue_typed n qu' \<and> (case r of Inl pc' \<Rightarrow> pop_typed n pc' | Inr v \<Rightarrow> v \<le> n)"
  using assms front_typed [OF assms(2)]
  by (cases pc) (auto simp: queue_typed_def split: option.splits)

lemma split_range_typed:
  fixes n p producers :: u64
  assumes "unat producers * unat n < 2 ^ 64" and "p < producers"
  shows "p * n div producers \<le> (p + 1) * n div producers"
    and "(p + 1) * n div producers \<le> n"
proof -
  have "unat (p * n div producers) = unat p * unat n div unat producers"
    "unat ((p + 1) * n div producers) = Suc (unat p) * unat n div unat producers"
    using split_range_exact [OF assms] by (simp_all add: split_range_def)
  moreover have "unat p * unat n \<le> Suc (unat p) * unat n" by simp
  moreover have "Suc (unat p) * unat n \<le> unat producers * unat n"
    using assms(2) by (intro mult_le_mono1) (simp add: word_less_nat_alt)
  then have "Suc (unat p) * unat n div unat producers \<le> unat producers * unat n div unat producers"
    by (rule div_le_mono)
  moreover have "unat producers \<noteq> 0" using assms(2) by (simp add: word_less_nat_alt)
  ultimately show "p * n div producers \<le> (p + 1) * n div producers"
    "(p + 1) * n div producers \<le> n"
    by (simp_all add: word_le_nat_alt div_le_mono)
qed

lemma wpp_step_typed:
  assumes step: "wpp_step ph cfg s t = Some (s', t', new)"
    and exact: "unat (g_producers cfg) * unat (g_items cfg) < 2 ^ 64"
    and state: "wpp_typed_state cfg s" and task: "wpp_typed_task cfg t"
  shows "wpp_typed_state cfg s' \<and> wpp_typed_task cfg t' \<and> (\<forall>u \<in> set new. wpp_typed_task cfg u)"
proof (cases t)
  case (ProdStart p)
  with step task split_range_typed [OF exact, of p] state show ?thesis
    by (auto simp: wpp_step_def Let_def)
next
  case (ProdPush i e pc)
  with step obtain q' r where push: "push_step ph (i + 1) pc (q s) = Some (q', r)"
    and s': "s' = s\<lparr>q := q'\<rparr>" "t' = (case r of None \<Rightarrow> ProdLoop (i + 1) e | Some pc' \<Rightarrow> ProdPush i e pc')" "new = []"
    by (auto simp: wpp_step_def split: option.splits prod.splits)
  from task ProdPush have i: "i + 1 \<le> e" "i < e" "e \<le> g_items cfg" by (auto intro: inc_le)
  with push_step_typed [OF push, of "g_items cfg"] state s' show ?thesis
    by (auto simp: wpp_typed_state_def split: option.splits)
next
  case (ConsPop acc pc)
  with step obtain q' r where pop: "pop_step ph pc (q s) = Some (q', r)"
    and s': "s' = s\<lparr>q := q'\<rparr>" "t' = (case r of Inr v \<Rightarrow> ConsItem acc v | Inl pc' \<Rightarrow> ConsPop acc pc')" "new = []"
    by (auto simp: wpp_step_def split: option.splits prod.splits sum.splits)
  with pop_step_typed [OF pop, of "g_items cfg"] task ConsPop state show ?thesis
    by (auto simp: wpp_typed_state_def split: sum.splits)
next
  case (ConsItem acc item)
  with task have "hash_typed (acc XOR photon_work item (g_work cfg))"
    by (simp add: hash_typed_xor hash_typed_work)
  with step state task ConsItem show ?thesis
    by (auto simp: wpp_step_def)
next
  case (MainPush c pc)
  with step obtain q' r where push: "push_step ph 0 pc (q s) = Some (q', r)"
    and s': "s' = s\<lparr>q := q'\<rparr>" "t' = (case r of None \<Rightarrow> MainStop (c + 1) | Some pc' \<Rightarrow> MainPush c pc')" "new = []"
    by (auto simp: wpp_step_def split: option.splits prod.splits)
  from task MainPush have "c + 1 \<le> g_consumers cfg" by (auto intro: inc_le)
  with push_step_typed [OF push, of "g_items cfg"] task MainPush state s' show ?thesis
    by (auto simp: wpp_typed_state_def split: option.splits)
qed (use step state task in \<open>auto simp: wpp_step_def wpp_typed_state_def intro: inc_le split: if_splits option.splits\<close>)

lemma wpp_typed_step:
  assumes "unat (g_producers cfg) * unat (g_items cfg) < 2 ^ 64"
    and "wpp_typed cfg c" and "pool_step (wpp_step ph cfg) c c'"
  shows "wpp_typed cfg c'"
  using assms(3)
proof cases
  case (run_task i ts s s' t' new)
  from assms(2) run_task have "wpp_typed_state cfg s" "wpp_typed_task cfg (ts ! i)" by (simp_all add: wpp_typed_def)
  from wpp_step_typed [OF run_task(4) assms(1) this] assms(2) run_task(1,2) show ?thesis
    by (auto simp: wpp_typed_def dest!: subsetD [OF set_update_subset_insert])
qed

lemma wpp_typed_reach:
  assumes "unat (g_producers cfg) * unat (g_items cfg) < 2 ^ 64" and "pool_reach (wpp_step ph cfg) (wpp_start ph) c"
  shows "wpp_typed cfg c"
proof -
  have "task_invariant (wpp_step ph cfg) (wpp_typed cfg)"
    by (rule task_invariant.intro) (rule wpp_typed_step [OF assms(1)])
  from task_invariant.inv_reach [OF this _ assms(2)] show ?thesis
    by (simp add: wpp_typed_def wpp_typed_state_def wpp_start_def wpp_init_def queue_typed_init)
qed

lemma wpp_counts_typed:
  assumes "photon_sync ph cnt held" and "pool_reach (wpp_step ph cfg) (wpp_start ph) (s, ts)"
  shows "unat (cnt (items (q s))) \<le> 256" and "unat (cnt (space (q s))) \<le> 256" and "queue_len (q s) \<le> 256"
    and "cnt (producers_done s) \<le> g_producers cfg" and "cnt (consumers_done s) \<le> g_consumers cfg"
  using wpp_invD(2,4-7) [OF photon_sync.wpp_reach_inv [OF assms]]
  by (auto simp: queue_inv_def word_le_nat_alt)

section \<open>The property\<close>

text \<open>
  C23. Every word has its type. As long as \<open>producers * items\<close> does not wrap, in every reachable state
  of the photon worker pool every loop index is at most its bound, every range a producer works on
  lies within the items, every slot of the ring buffer and every value in a coroutine's hand is 0 or
  the number of an item, every partial checksum has at most 35 bits, and no semaphore counts above
  the slots of the buffer or the number of coroutines that signal it.
\<close>

theorem wpp_well_typed:
  assumes "photon_sync ph cnt held" and "unat (g_producers cfg) * unat (g_items cfg) < 2 ^ 64"
    and "pool_reach (wpp_step ph cfg) (wpp_start ph) (s, ts)"
  shows "wpp_typed cfg (s, ts) \<and> unat (cnt (items (q s))) \<le> 256 \<and> unat (cnt (space (q s))) \<le> 256 \<and>
    cnt (producers_done s) \<le> g_producers cfg \<and> cnt (consumers_done s) \<le> g_consumers cfg"
  using wpp_typed_reach [OF assms(2,3)] wpp_counts_typed [OF assms(1,3)] by blast

theorem wpp_well_typed_witness:
  "\<exists>s. pool_reach (wpp_step counter_ops wpp_small) (wpp_start counter_ops)
      (s, [MainSpawnP 1, ConsPop 0 PopWait, ProdPush 0 1 PushWrite]) \<and>
    wpp_typed wpp_small (s, [MainSpawnP 1, ConsPop 0 PopWait, ProdPush 0 1 PushWrite]) \<and> unat (space (q s)) \<le> 256"
proof -
  obtain s where run: "pool_reach (wpp_step counter_ops wpp_small) (wpp_start counter_ops)
      (s, [MainSpawnP 1, ConsPop 0 PopWait, ProdPush 0 1 PushWrite])"
    using wpp_small_prefix by blast
  with wpp_well_typed [OF counter.photon_sync_axioms _ run] show ?thesis by auto
qed

end
