(* ===== verification/Zig_Command_Line.thy ===== *)
theory Zig_Command_Line
  imports Command_Line Worker_Pool_Zig
begin

text \<open>
  The command line of the Zig worker pool: the argument loop of \<open>main\<close> in \<open>src/worker_pool.zig\<close>,
  \<open>std.fmt.parseUnsigned\<close>, and the choice of the backend in \<open>src/utils.zig\<close>. A command line on which
  both this program and the photon pool start means the same to both, if no number in it has the
  underscores that Zig allows; so the two print the same checksum.
\<close>

section \<open>Numbers\<close>

datatype zig_error = InvalidCharacter | Overflow

text \<open>\<open>std.fmt.parseUnsigned(u64, s, 10)\<close>: digits, with underscores between them.\<close>

fun zig_digits :: "nat \<Rightarrow> string \<Rightarrow> zig_error + nat" where
  "zig_digits acc [] = Inr acc"
| "zig_digits acc (c # cs) =
     (if c = CHR ''_'' then zig_digits acc cs
      else if \<not> is_digit c then Inl InvalidCharacter
      else if 2 ^ 64 \<le> 10 * acc + (code c - 48) then Inl Overflow
      else zig_digits (10 * acc + (code c - 48)) cs)"

definition parse_unsigned :: "string \<Rightarrow> zig_error + u64" where
  "parse_unsigned s =
     (if s = [] \<or> hd s = CHR ''_'' \<or> last s = CHR ''_'' then Inl InvalidCharacter
      else case zig_digits 0 s of Inl e \<Rightarrow> Inl e | Inr n \<Rightarrow> Inr (of_nat n))"

section \<open>The argument loop\<close>

text \<open>\<open>std.process.exit\<close>, or an error that \<open>main\<close> returns.\<close>

datatype zig_stop = ZigExit nat | ZigError zig_error

definition zwp_default :: zwp_cfg where
  "zwp_default = \<lparr>z_items = 100000, z_producers = 1, z_consumers = 1000, z_work = 64\<rparr>"

definition backend_flag :: "string \<Rightarrow> bool" where
  "backend_flag a \<longleftrightarrow> a = ''--zio'' \<or> a = ''--zio-mt'' \<or> a = ''--threaded''"

definition arg_key :: "string \<Rightarrow> string" where
  "arg_key a = takeWhile (\<lambda>c. c \<noteq> CHR ''='') a"

definition arg_value :: "string \<Rightarrow> string" where
  "arg_value a = drop (length (arg_key a) + 1) a"

text \<open>The variable an option names.\<close>

definition zwp_target :: "string \<Rightarrow> (u64 \<Rightarrow> zwp_cfg \<Rightarrow> zwp_cfg) option" where
  "zwp_target key =
     (if key = ''--num-items'' then Some (\<lambda>v cfg. cfg\<lparr>z_items := v\<rparr>)
      else if key = ''--num-producers'' then Some (\<lambda>v cfg. cfg\<lparr>z_producers := v\<rparr>)
      else if key = ''--num-consumers'' then Some (\<lambda>v cfg. cfg\<lparr>z_consumers := v\<rparr>)
      else if key = ''--work'' then Some (\<lambda>v cfg. cfg\<lparr>z_work := v\<rparr>)
      else None)"

fun zwp_args :: "string list \<Rightarrow> zwp_cfg \<Rightarrow> zig_stop + zwp_cfg" where
  "zwp_args [] cfg = Inr cfg"
| "zwp_args (a # as) cfg =
     (if backend_flag a then zwp_args as cfg
      else case zwp_target (arg_key a) of
        None \<Rightarrow> Inl (ZigExit 1)
      | Some target \<Rightarrow>
          if length (arg_key a) < length a then
            (case parse_unsigned (arg_value a) of Inl e \<Rightarrow> Inl (ZigError e) | Inr v \<Rightarrow> zwp_args as (target v cfg))
          else (case as of
              [] \<Rightarrow> Inl (ZigExit 2)
            | b # bs \<Rightarrow> (case parse_unsigned b of Inl e \<Rightarrow> Inl (ZigError e) | Inr v \<Rightarrow> zwp_args bs (target v cfg))))"

text \<open>\<open>main\<close>: parse, check the counts, choose the backend (without one \<open>io\<close> exits), run.\<close>

definition zwp_main :: "string list \<Rightarrow> zig_stop + zwp_cfg \<times> (zwp_state, zwp_task) pool" where
  "zwp_main args =
     (case zwp_args args zwp_default of
        Inl e \<Rightarrow> Inl e
      | Inr cfg \<Rightarrow>
          if z_producers cfg = 0 \<or> z_consumers cfg = 0 then Inl (ZigExit 2)
          else if \<exists>a \<in> set args. backend_flag a then Inr (cfg, zwp_start cfg)
          else Inl (ZigExit 1))"

section \<open>Both programs understand the same numbers\<close>

lemma zig_digits_plain:
  assumes "zig_digits acc s = Inr n" and "CHR ''_'' \<notin> set s"
  shows "(\<forall>c \<in> set s. is_digit c) \<and> foldl (\<lambda>n c. 10 * n + (code c - 48)) acc s = n \<and> (acc < 2 ^ 64 \<longrightarrow> n < 2 ^ 64)"
  using assms by (induction acc s rule: zig_digits.induct) (auto split: if_splits)

lemma parse_unsigned_strtoull:
  assumes "parse_unsigned s = Inr v" and "CHR ''_'' \<notin> set s"
  shows "strtoull s = v"
proof -
  from assms(1) obtain n where n: "zig_digits 0 s = Inr n" "v = of_nat n" "s \<noteq> []"
    by (auto simp: parse_unsigned_def split: if_splits sum.splits)
  note plain = zig_digits_plain [OF n(1) assms(2)]
  obtain c cs where s: "s = c # cs" using n(3) by (cases s) auto
  with plain have "is_digit c" by simp
  then have "\<not> is_space c" "c \<noteq> CHR ''-''" "c \<noteq> CHR ''+''"
    by (auto simp: is_digit_def is_space_def code_def)
  moreover have all: "takeWhile is_digit s = s" using plain by (simp add: takeWhile_eq_all_conv)
  have "digits_value s = n" using plain unfolding digits_value_def all by blast
  ultimately have "signed_digits s = (False, n)" by (simp add: signed_digits_def s)
  moreover have "n < 2 ^ 64" using plain by simp
  ultimately show ?thesis by (simp add: strtoull_def n(2))
qed

definition zig_cfg :: "wpp_cfg \<Rightarrow> zwp_cfg" where
  "zig_cfg cfg = \<lparr>z_items = g_items cfg, z_producers = g_producers cfg, z_consumers = g_consumers cfg, z_work = g_work cfg\<rparr>"

lemma arg_parts:
  assumes "CHR ''='' \<notin> set k"
  shows "arg_key (k @ ''='' @ v) = k" and "arg_value (k @ ''='' @ v) = v"
proof -
  show key: "arg_key (k @ ''='' @ v) = k" using assms unfolding arg_key_def by (induction k) auto
  then show "arg_value (k @ ''='' @ v) = v" by (simp add: arg_value_def)
qed

lemma pool_flag_parts:
  assumes "pool_flag a"
  shows "\<exists>k v. a = k @ ''='' @ v \<and> k \<in> {''--num-items'', ''--num-producers'', ''--num-consumers'', ''--work''}"
proof -
  have parts: "\<exists>k v. a = k @ ''='' @ v \<and> k \<in> K" if "prefix n a" "n = k @ ''=''" "k \<in> K" for n k K
    using that by (auto simp: prefix_def)
  from assms consider "prefix ''--num-items='' a" | "prefix ''--num-producers='' a" | "prefix ''--num-consumers='' a"
    | "prefix ''--work='' a" unfolding pool_flag_def by blast
  then show ?thesis
  proof cases
    case 1
    then show ?thesis by (rule parts [of _ "''--num-items''"]) simp_all
  next
    case 2
    then show ?thesis by (rule parts [of _ "''--num-producers''"]) simp_all
  next
    case 3
    then show ?thesis by (rule parts [of _ "''--num-consumers''"]) simp_all
  next
    case 4
    then show ?thesis by (rule parts [of _ "''--work''"]) simp_all
  qed
qed

lemma zig_arg_agrees:
  assumes flag: "pool_flag a" and plain: "CHR ''_'' \<notin> set a" and run: "zwp_args (a # as) (zig_cfg cfg) = Inr zc"
  shows "\<exists>cfg'. wpp_arg a cfg = Inr cfg' \<and> zwp_args as (zig_cfg cfg') = Inr zc"
proof -
  from pool_flag_parts [OF flag] obtain k v where a: "a = k @ ''='' @ v"
    and k: "k \<in> {''--num-items'', ''--num-producers'', ''--num-consumers'', ''--work''}" by blast
  then have "CHR ''='' \<notin> set k" by auto
  note parts = arg_parts [OF this, of v, folded a]
  have "\<not> backend_flag a" "length k < length a" using a k by (auto simp: backend_flag_def)
  moreover obtain target where target: "zwp_target k = Some target" using k by (auto simp: zwp_target_def)
  ultimately obtain n where n: "parse_unsigned v = Inr n" "zwp_args as (target n (zig_cfg cfg)) = Inr zc"
    using run parts by (auto split: sum.splits)
  have "CHR ''_'' \<notin> set v" using plain a by simp
  from parse_unsigned_strtoull [OF n(1) this] have v: "strtoull v = n" .
  show ?thesis
    using k a target n(2) v by (auto simp: wpp_arg_def strncmp_is_prefix zwp_target_def zig_cfg_def split: if_splits)
qed


lemma zig_args_agree:
  "filter (\<lambda>a. \<not> backend_flag a) zargs = args \<Longrightarrow> \<forall>a \<in> set args. CHR ''_'' \<notin> set a \<Longrightarrow>
    parse_args wpp_arg args cfg = Inr cfg' \<Longrightarrow> zwp_args zargs (zig_cfg cfg) = Inr zc \<Longrightarrow> zc = zig_cfg cfg'"
proof (induction zargs arbitrary: args cfg)
  case Nil
  then show ?case by simp
next
  case (Cons a zargs)
  show ?case
  proof (cases "backend_flag a")
    case True
    with Cons show ?thesis by simp
  next
    case False
    define rest where "rest = filter (\<lambda>a. \<not> backend_flag a) zargs"
    with False Cons.prems(1) have args: "args = a # rest" "filter (\<lambda>a. \<not> backend_flag a) zargs = rest" by auto
    with Cons.prems(3) obtain cfg1 where step: "wpp_arg a cfg = Inr cfg1" "parse_args wpp_arg rest cfg1 = Inr cfg'"
      by (auto split: sum.splits)
    then have "pool_flag a" using wpp_items.unknown_stops [of a cfg] by auto
    with zig_arg_agrees [OF this _ Cons.prems(4)] Cons.prems(2) args(1) step(1)
    have "zwp_args zargs (zig_cfg cfg1) = Inr zc" by auto
    with Cons.IH [OF args(2) _ step(2)] Cons.prems(2) args(1) show ?thesis by simp
  qed
qed

section \<open>Properties\<close>

text \<open>
  C17. The Zig pool and the photon pool agree. When both start on the same options (the Zig program
  also needs a backend flag, and no number has an underscore), a checksum that the Zig program
  reports in any run, with any number of tasks that can be started, is the checksum of every run of
  the photon pool that cannot go on.
\<close>

theorem zig_pool_agrees:
  assumes "photon_sync ph cnt held"
    and "filter (\<lambda>a. \<not> backend_flag a) zargs = args" and "\<forall>a \<in> set args. CHR ''_'' \<notin> set a"
    and "wpp_main ph 0 args = Inr (cfg, start)" and "zwp_main zargs = Inr (zcfg, zstart)"
    and "pool_reach (wpp_step ph cfg) start (s, ts)" and "pool_stuck (wpp_step ph cfg) (s, ts)"
    and "pool_reach (zwp_step late zcfg spawns ns) zstart (z, zs)" and "ZDone cs rate \<in> set zs"
  shows "g_checksum s = cs"
proof -
  from assms(4) have wpp: "parse_args wpp_arg args wpp_default = Inr cfg" "start = wpp_start ph"
    by (auto simp: wpp_main_def split: sum.splits)
  from assms(5) have zwp: "zwp_args zargs zwp_default = Inr zcfg" "zstart = zwp_start zcfg"
    and some: "z_producers zcfg \<noteq> 0" "z_consumers zcfg \<noteq> 0"
    by (auto simp: zwp_main_def split: sum.splits if_splits)
  have "zwp_default = zig_cfg wpp_default" by (simp add: zwp_default_def zig_cfg_def wpp_default_def)
  with zig_args_agree [OF assms(2,3) wpp(1)] zwp(1) have cfg: "zcfg = zig_cfg cfg" by simp
  have inv: "zwp_told zcfg ns (z, zs)" using zwp.inv_reach [OF zwp_told_start [OF some(1)]] assms(8) zwp(2) by simp
  note right = zwp_done_right [OF inv assms(9) some]
  from cfg some have some': "g_producers cfg \<noteq> 0" "g_consumers cfg \<noteq> 0" by (simp_all add: zig_cfg_def)
  from worker_pool_photon.pool_total [OF worker_pool_photon.intro
      [OF assms(1) worker_pool_photon_axioms.intro [OF some'(2)]] assms(6) [unfolded wpp(2)] assms(7)]
    xor_work_all [OF _ some'(1), of "g_items cfg" "g_work cfg"] right cfg
  show ?thesis by (simp add: zig_cfg_def)
qed

theorem zig_pool_agrees_witness:
  "\<exists>s ts z zs cs rate. pool_reach (wpp_step counter_ops wpp_default) (wpp_start counter_ops) (s, ts) \<and>
    pool_reach (zwp_step (\<lambda>s t. False) zwp_default 1001 1000) (zwp_start zwp_default) (z, zs) \<and> ZDone cs rate \<in> set zs \<and> g_checksum s = cs"
proof -
  have main: "wpp_main counter_ops 0 [] = Inr (wpp_default, wpp_start counter_ops)"
    "zwp_main [''--zio''] = Inr (zwp_default, zwp_start zwp_default)"
    by (simp_all add: wpp_main_def zwp_main_def backend_flag_def zwp_default_def)
  obtain s ts where p: "pool_reach (wpp_step counter_ops wpp_default) (wpp_start counter_ops) (s, ts)"
    "pool_stuck (wpp_step counter_ops wpp_default) (s, ts)"
    using counter.wpp_any.reaches_stuck [OF counter.wpp_inv_start] by force
  have cfg: "z_producers zwp_default \<noteq> 0" "z_consumers zwp_default \<noteq> 0" "zig_rate (z_items zwp_default) 1000 \<noteq> None"
    "unat (z_consumers zwp_default) + unat (z_producers zwp_default) = 1001"
    "unat (z_producers zwp_default) * unat (z_items zwp_default) < 2 ^ 64"
    by (simp_all add: zwp_default_def zig_rate_def)
  obtain z zs where q: "pool_reach (zwp_step (\<lambda>s t. False) zwp_default 1001 1000) (zwp_start zwp_default) (z, zs)"
    "pool_stuck (zwp_step (\<lambda>s t. False) zwp_default 1001 1000) (z, zs)"
    using zwp.reaches_stuck [OF zwp_told_start [OF cfg(1)], of "\<lambda>s t. False" 1001 1000] by (metis prod.exhaust)
  have "zwp_told zwp_default 1000 (z, zs)" "zwp_why zwp_default 1001 1000 (z, zs)"
    using zwp.inv_reach [OF zwp_told_start [OF cfg(1)] q(1)] zwhy.inv_reach [OF _ q(1)]
    by (simp_all add: zwp_why_def zwp_start_def)
  from zwp_ends [OF this q(2) cfg(1,2)] cfg(3-5) obtain cs rate where d: "ZDone cs rate \<in> set zs" by auto
  have "g_checksum s = cs"
    by (rule zig_pool_agrees [OF counter.photon_sync_axioms _ _ main p q(1) d]) (simp_all add: backend_flag_def)
  with p(1) q(1) d show ?thesis by blast
qed

lemma zig_digits_decimal:
  "\<forall>c \<in> set s. is_digit c \<Longrightarrow> acc < 2 ^ 64 \<Longrightarrow> zig_digits acc s =
    (if foldl (\<lambda>n c. 10 * n + (code c - 48)) acc s < 2 ^ 64 then Inr (foldl (\<lambda>n c. 10 * n + (code c - 48)) acc s)
     else Inl Overflow)"
proof (induction s arbitrary: acc)
  case (Cons c s)
  have grow: "acc \<le> foldl (\<lambda>n c. 10 * n + (code c - 48)) acc s" for acc
  proof (induction s arbitrary: acc)
    case (Cons d s)
    have "acc \<le> 10 * acc + (code d - 48)" by simp
    also note Cons [of "10 * acc + (code d - 48)"]
    finally show ?case by simp
  qed simp
  have "c \<noteq> CHR ''_''" using Cons.prems(1) by (auto simp: is_digit_def code_def)
  then show ?case
    using Cons grow [of "10 * acc + (code c - 48)"] by auto
qed simp

lemma parse_unsigned_decimal:
  "parse_unsigned (decimal n) = (if n < 2 ^ 64 then Inr (of_nat n) else Inl Overflow)"
proof -
  have digits: "\<forall>c \<in> set (decimal n). is_digit c" using decimal_digits by blast
  have "decimal n \<noteq> []" by (simp add: decimal.simps [of n])
  then have "is_digit (hd (decimal n))" "is_digit (last (decimal n))" using digits by simp_all
  then have ends: "hd (decimal n) \<noteq> CHR ''_''" "last (decimal n) \<noteq> CHR ''_''" by (auto simp: is_digit_def code_def)
  have "takeWhile is_digit (decimal n) = decimal n" using digits by (simp add: takeWhile_eq_all_conv)
  with decimal_value [of n] have "foldl (\<lambda>n c. 10 * n + (code c - 48)) 0 (decimal n) = n"
    unfolding digits_value_def by metis
  with zig_digits_decimal [OF digits, of 0] ends \<open>decimal n \<noteq> []\<close> show ?thesis by (simp add: parse_unsigned_def)
qed

text \<open>
  The argument loop of the Zig pool reads back numbers in decimal notation in both forms of an
  option, \<open>--num-items=n\<close> and \<open>--num-items n\<close>, up to the largest 64-bit value, and stops with the
  error \<open>Overflow\<close> for every larger one, and without producers or consumers \<open>main\<close> exits with 2
  instead of hanging.
\<close>

theorem zig_number_roundtrip:
  "zwp_args ((''--num-items='' @ decimal n) # as) cfg =
      (if n < 2 ^ 64 then zwp_args as (cfg\<lparr>z_items := of_nat n\<rparr>) else Inl (ZigError Overflow)) \<and>
    zwp_args (''--num-items'' # decimal n # as) cfg =
      (if n < 2 ^ 64 then zwp_args as (cfg\<lparr>z_items := of_nat n\<rparr>) else Inl (ZigError Overflow)) \<and>
    zwp_main [''--zio'', ''--num-consumers=0''] = Inl (ZigExit 2) \<and>
    zwp_main [''--zio'', ''--num-producers=0''] = Inl (ZigExit 2)"
proof -
  have zero: "parse_unsigned ''0'' = Inr 0" by (simp add: parse_unsigned_def is_digit_def code_def)
  have parts: "arg_key (''--num-items='' @ decimal n) = ''--num-items''" "arg_value (''--num-items='' @ decimal n) = decimal n"
    using arg_parts [of "''--num-items''" "decimal n"] by simp_all
  then have "length (arg_key (''--num-items='' @ decimal n)) < length (''--num-items='' @ decimal n)" by simp
  then show ?thesis
    using parse_unsigned_decimal [of n] parts zero
    by (simp add: zwp_main_def zwp_default_def backend_flag_def zwp_target_def arg_key_def arg_value_def)
qed

end
