(* ===== verification/Task_Translation.thy ===== *)
theory Task_Translation
  imports Tasks
begin

text \<open>
  Two programs whose tasks correspond one to one and make the same actions run the same schedules to
  corresponding states. Used for the Zig programs that do what an Asio program does.
\<close>

locale task_translation = task_invariant step inv
  for step :: "('s, 't) task_step" and inv +
  fixes step' :: "('u, 'v) task_step"
    and sof :: "'s \<Rightarrow> 'u"
    and tof :: "'t \<Rightarrow> 'v"
  assumes same_step: "inv (s, ts) \<Longrightarrow> t \<in> set ts \<Longrightarrow>
    step' (sof s) (tof t) = map_option (\<lambda>(s', t', new). (sof s', tof t', map tof new)) (step s t)"
begin

lemma same_run:
  "inv (s, ts) \<Longrightarrow> pool_run step' sched (sof s, map tof ts) =
    map_option (\<lambda>(s', ts'). (sof s', map tof ts')) (pool_run step sched (s, ts))"
proof (induction sched arbitrary: s ts)
  case Nil
  then show ?case by simp
next
  case (Cons i sched)
  show ?case
  proof (cases "i < length ts")
    case False
    then show ?thesis by simp
  next
    case i: True
    note same = same_step [OF Cons.prems nth_mem [OF i]]
    show ?thesis
    proof (cases "step s (ts ! i)")
      case None
      with i same show ?thesis by simp
    next
      case (Some r)
      then obtain s' t' new where r: "step s (ts ! i) = Some (s', t', new)" by (cases r) auto
      from i r have "pool_step step (s, ts) (s', ts[i := t'] @ new)" by (rule run_task)
      with Cons.prems have "inv (s', ts[i := t'] @ new)" by (rule inv_step)
      from Cons.IH [OF this] show ?thesis using i r same by (simp add: map_update)
    qed
  qed
qed

lemma same_stuck: "inv (s, ts) \<Longrightarrow> pool_stuck step' (sof s, map tof ts) \<longleftrightarrow> pool_stuck step (s, ts)"
  using same_step by (auto simp: pool_stuck_def)

end

end
