(* ===== verification/Ping_Pong_Zig.thy ===== *)
theory Ping_Pong_Zig
  imports Ping_Pong_Asio Task_Translation
begin

text \<open>
  \<open>src/queue_ping_pong.zig\<close>: the ping-pong on \<open>std.Io.Queue\<close>. Every pair is a task that owns two
  queues of capacity 1 and a group of two tasks; \<open>main\<close> starts the pairs in a group of its own. A queue
  is that of the Zig worker pool: a bounded FIFO whose put waits while it is full, whose get waits
  while it is empty, and which after \<open>close\<close> still gives what it holds.

  \<open>group.concurrent\<close> may fail: \<open>main\<close> then cancels its group, a cancelled pair cancels its own, and
  \<open>main\<close> returns the error when everybody has returned. As long as that does not happen the program
  is, action by action, the Asio ping-pong (\<open>cpp/queue_ping_pong.cpp\<close>) on list channels, so the theorems
  about that program carry over.
\<close>

section \<open>Queues and the two tasks\<close>

text \<open>What a queue holds, and whether it is closed.\<close>

type_synonym zq = "u64 list \<times> bool"

datatype zq_error = QClosed | QCanceled

text \<open>
  \<open>cancel\<close>: the caller has been cancelled. Then a call that would wait returns \<open>error.Canceled\<close>, and
  one that need not wait does so unless it is \<open>late\<close>.
\<close>

definition zpp_capacity :: nat where
  "zpp_capacity = 1"

fun zq_put :: "bool \<Rightarrow> bool \<Rightarrow> zq \<Rightarrow> u64 \<Rightarrow> (zq_error + zq) option" where
  "zq_put cancel late (xs, shut) v =
     (if shut then Some (Inl QClosed)
      else if length xs < zpp_capacity \<and> (cancel \<longrightarrow> late) then Some (Inr (xs @ [v], shut))
      else if cancel then Some (Inl QCanceled)
      else None)"

fun zq_get :: "bool \<Rightarrow> bool \<Rightarrow> zq \<Rightarrow> (zq_error + u64 \<times> zq) option" where
  "zq_get cancel late (xs, shut) =
     (if cancel \<and> \<not> late then Some (Inl QCanceled)
      else case xs of
        v # vs \<Rightarrow> Some (Inr (v, vs, shut))
      | [] \<Rightarrow> if shut then Some (Inl QClosed) else if cancel then Some (Inl QCanceled) else None)"

fun zq_close :: "zq \<Rightarrow> zq" where
  "zq_close (xs, shut) = (xs, True)"

text \<open>
  \<open>taskA\<close> starts at \<open>ZFirst\<close>, \<open>taskB\<close> at \<open>ZGet\<close>; \<open>ZReturning\<close> and \<open>ZOut\<close> tell whether the task returns
  \<open>error.Canceled\<close>.
\<close>

datatype zchat_pc = ZFirst | ZGet | ZPut u64 | ZClosing | ZReturning bool | ZOut bool

fun zchat_step :: "bool \<Rightarrow> bool \<Rightarrow> u64 \<Rightarrow> zchat_pc \<Rightarrow> zq \<Rightarrow> zq \<Rightarrow> (zq \<times> zq \<times> zchat_pc) option" where
  "zchat_step cancel late limit ZFirst out inn =
     (case zq_put cancel late out 0 of
        None \<Rightarrow> None
      | Some (Inl e) \<Rightarrow> Some (out, inn, ZReturning (e = QCanceled))
      | Some (Inr out') \<Rightarrow> Some (out', inn, ZGet))"
| "zchat_step cancel late limit ZGet out inn =
     (case zq_get cancel late inn of
        None \<Rightarrow> None
      | Some (Inl e) \<Rightarrow> Some (out, inn, ZReturning False)
      | Some (Inr (val, inn')) \<Rightarrow>
          let nxt = val + 1 in Some (out, inn', if limit \<le> nxt then ZClosing else ZPut nxt))"
| "zchat_step cancel late limit (ZPut nxt) out inn =
     (case zq_put cancel late out nxt of
        None \<Rightarrow> None
      | Some (Inl e) \<Rightarrow> Some (out, inn, ZReturning (e = QCanceled))
      | Some (Inr out') \<Rightarrow> Some (out', inn, ZGet))"
| "zchat_step cancel late limit ZClosing out inn = Some (zq_close out, inn, ZReturning False)"
| "zchat_step cancel late limit pc out inn = None"

section \<open>Pairs and main\<close>

text \<open>\<open>zp_active\<close> and \<open>zp_cancel\<close> are the pair's group: its unfinished tasks and whether it is cancelled.\<close>

record zpp_pair =
  q_ab :: zq
  q_ba :: zq
  zp_active :: nat
  zp_cancel :: bool

record zpp_state =
  zpairs :: "zpp_pair list"
  zrunning :: nat
  zcanceling :: bool

datatype zpp_task =
    ZTask u64 bool zchat_pc
  | ZPair u64
  | ZPairAwait u64
  | ZPairCancel u64
  | ZPairReturn u64 bool
  | ZPairDone u64 bool
  | ZSpawnPairs u64
  | ZAwaitPairs
  | ZPairsDone
  | ZCancelPairs
  | ZPairsFailed

definition zig_total :: u64 where
  "zig_total = 100000"

definition zig_per_pair :: "u64 \<Rightarrow> u64" where
  "zig_per_pair pairs = max (zig_total div pairs) 1"

definition zpp_new :: zpp_pair where
  "zpp_new = \<lparr>q_ab = ([], False), q_ba = ([], False), zp_active = 0, zp_cancel = False\<rparr>"

definition set_pair :: "u64 \<Rightarrow> zpp_pair \<Rightarrow> zpp_state \<Rightarrow> zpp_state" where
  "set_pair i p s = s\<lparr>zpairs := (zpairs s)[unat i := p]\<rparr>"

text \<open>Task A (\<open>x\<close>) puts on \<open>a_to_b\<close> and gets from \<open>b_to_a\<close>, task B the other way round.\<close>

definition q_out :: "bool \<Rightarrow> zpp_pair \<Rightarrow> zq" where
  "q_out x p = (if x then q_ab p else q_ba p)"

definition set_queues :: "bool \<Rightarrow> zq \<Rightarrow> zq \<Rightarrow> zpp_pair \<Rightarrow> zpp_pair" where
  "set_queues x out inn p = (if x then p\<lparr>q_ab := out, q_ba := inn\<rparr> else p\<lparr>q_ab := inn, q_ba := out\<rparr>)"

text \<open>
  \<open>pair\<close>. The two \<open>group.async\<close> are one action: nobody can tell a task that has not been started from
  one that has not moved. Both tasks run concurrently: a group that ran \<open>taskA\<close> inside \<open>group.async\<close>, as
  \<open>src/spawn_tree.zig\<close> says one may, would never return from it. \<open>ZPairAwait\<close> is at \<open>group.await\<close>, \<open>ZPairCancel\<close> in the deferred
  \<open>group.cancel\<close> after it has returned \<open>error.Canceled\<close>.
\<close>

fun zpair_step :: "bool \<Rightarrow> zpp_state \<Rightarrow> zpp_task \<Rightarrow> (zpp_state \<times> zpp_task \<times> zpp_task list) option" where
  "zpair_step late s (ZPair i) =
     Some (set_pair i (zpp_new\<lparr>zp_active := 2\<rparr>) s, ZPairAwait i, [ZTask i True ZFirst, ZTask i False ZGet])"
| "zpair_step late s (ZPairAwait i) =
     (let p = zpairs s ! unat i in
      if zp_active p = 0 \<and> (zcanceling s \<longrightarrow> late) then Some (s, ZPairReturn i False, [])
      else if zcanceling s then Some (set_pair i (p\<lparr>zp_cancel := True\<rparr>) s, ZPairCancel i, [])
      else None)"
| "zpair_step late s (ZPairCancel i) =
     (if zp_active (zpairs s ! unat i) = 0 then Some (s, ZPairReturn i True, []) else None)"
| "zpair_step late s (ZPairReturn i c) = Some (s\<lparr>zrunning := zrunning s - 1\<rparr>, ZPairDone i c, [])"
| "zpair_step late s t = None"

text \<open>\<open>main\<close>; \<open>spawns\<close> is the number of calls of \<open>group.concurrent\<close> that succeed.\<close>

fun zpp_main_step :: "u64 \<Rightarrow> nat \<Rightarrow> zpp_state \<Rightarrow> zpp_task \<Rightarrow> (zpp_state \<times> zpp_task \<times> zpp_task list) option" where
  "zpp_main_step pairs spawns s (ZSpawnPairs k) =
     Some (if k < pairs
           then (if unat k < spawns then (s\<lparr>zrunning := zrunning s + 1\<rparr>, ZSpawnPairs (k + 1), [ZPair k])
                 else (s\<lparr>zcanceling := True\<rparr>, ZCancelPairs, []))
           else (s, ZAwaitPairs, []))"
| "zpp_main_step pairs spawns s ZAwaitPairs = (if zrunning s = 0 then Some (s, ZPairsDone, []) else None)"
| "zpp_main_step pairs spawns s ZCancelPairs = (if zrunning s = 0 then Some (s, ZPairsFailed, []) else None)"
| "zpp_main_step pairs spawns s t = None"

fun zpp_step :: "(zpp_state \<Rightarrow> zpp_task \<Rightarrow> bool) \<Rightarrow> u64 \<Rightarrow> nat \<Rightarrow> (zpp_state, zpp_task) task_step" where
  "zpp_step late pairs spawns s (ZTask i x pc) =
     (let p = zpairs s ! unat i in
      case pc of
        ZReturning c \<Rightarrow> Some (set_pair i (p\<lparr>zp_active := zp_active p - 1\<rparr>) s, ZTask i x (ZOut c), [])
      | _ \<Rightarrow> map_option (\<lambda>(out, inn, pc'). (set_pair i (set_queues x out inn p) s, ZTask i x pc', []))
          (zchat_step (zp_cancel p) (late s (ZTask i x pc)) (zig_per_pair pairs) pc (q_out x p) (q_out (\<not> x) p)))"
| "zpp_step late pairs spawns s (ZSpawnPairs k) = zpp_main_step pairs spawns s (ZSpawnPairs k)"
| "zpp_step late pairs spawns s ZAwaitPairs = zpp_main_step pairs spawns s ZAwaitPairs"
| "zpp_step late pairs spawns s ZCancelPairs = zpp_main_step pairs spawns s ZCancelPairs"
| "zpp_step late pairs spawns s t = zpair_step (late s t) s t"

definition zpp_start :: "u64 \<Rightarrow> (zpp_state, zpp_task) pool" where
  "zpp_start pairs =
     (\<lparr>zpairs = replicate (unat pairs) zpp_new, zrunning = 0, zcanceling = False\<rparr>, [ZSpawnPairs 0])"

fun zpp_finished :: "zpp_task \<Rightarrow> bool" where
  "zpp_finished (ZTask i x (ZOut c)) = True"
| "zpp_finished (ZPairDone i c) = True"
| "zpp_finished ZPairsDone = True"
| "zpp_finished ZPairsFailed = True"
| "zpp_finished t = False"

section \<open>What a task contributes to the invariant\<close>

text \<open>
  For pair \<open>j\<close>: whether it has not begun yet, its tasks, those that have not returned, whether its
  coroutine waits for them, and whether that is after a cancellation; and whether \<open>main\<close> has failed.
\<close>

fun zpc_out :: "zchat_pc \<Rightarrow> bool" where
  "zpc_out (ZOut c) = True"
| "zpc_out pc = False"

fun zpp_ahead :: "nat \<Rightarrow> zpp_task \<Rightarrow> nat" where
  "zpp_ahead j (ZSpawnPairs k) = (if unat k \<le> j then 1 else 0)"
| "zpp_ahead j (ZPair i) = (if unat i = j then 1 else 0)"
| "zpp_ahead j t = 0"

fun zpp_tasks :: "nat \<Rightarrow> zpp_task \<Rightarrow> nat" where
  "zpp_tasks j (ZTask i x pc) = (if unat i = j then 1 else 0)"
| "zpp_tasks j t = 0"

fun zpp_busy :: "nat \<Rightarrow> zpp_task \<Rightarrow> nat" where
  "zpp_busy j (ZTask i x pc) = (if unat i = j \<and> \<not> zpc_out pc then 1 else 0)"
| "zpp_busy j t = 0"

fun zpp_waits :: "nat \<Rightarrow> zpp_task \<Rightarrow> nat" where
  "zpp_waits j (ZPairAwait i) = (if unat i = j then 1 else 0)"
| "zpp_waits j (ZPairCancel i) = (if unat i = j then 1 else 0)"
| "zpp_waits j t = 0"

fun zpp_cancels :: "nat \<Rightarrow> zpp_task \<Rightarrow> nat" where
  "zpp_cancels j (ZPairCancel i) = (if unat i = j then 1 else 0)"
| "zpp_cancels j t = 0"

fun zpp_alive :: "zpp_task \<Rightarrow> nat" where
  "zpp_alive (ZPair i) = 1"
| "zpp_alive (ZPairAwait i) = 1"
| "zpp_alive (ZPairCancel i) = 1"
| "zpp_alive (ZPairReturn i c) = 1"
| "zpp_alive t = 0"

fun zpp_fails :: "zpp_task \<Rightarrow> nat" where
  "zpp_fails ZCancelPairs = 1"
| "zpp_fails ZPairsFailed = 1"
| "zpp_fails t = 0"

fun zpp_ok :: "u64 \<Rightarrow> zpp_task \<Rightarrow> bool" where
  "zpp_ok pairs (ZTask i x pc) \<longleftrightarrow> i < pairs \<and> (\<forall>v. pc = ZPut v \<longrightarrow> v < zig_per_pair pairs)"
| "zpp_ok pairs (ZPair i) \<longleftrightarrow> i < pairs"
| "zpp_ok pairs (ZPairAwait i) \<longleftrightarrow> i < pairs"
| "zpp_ok pairs (ZPairCancel i) \<longleftrightarrow> i < pairs"
| "zpp_ok pairs (ZSpawnPairs k) \<longleftrightarrow> k \<le> pairs"
| "zpp_ok pairs t \<longleftrightarrow> True"

definition zpp_pair_inv ::
  "u64 \<Rightarrow> bool \<Rightarrow> zpp_pair \<Rightarrow> nat \<Rightarrow> nat \<Rightarrow> nat \<Rightarrow> nat \<Rightarrow> nat \<Rightarrow> bool"
where
  "zpp_pair_inv limit canc p ahead tasks bz waits cancels \<longleftrightarrow>
     zp_active p = bz \<and> tasks + 2 * ahead \<le> 2 \<and> bz \<le> tasks \<and> waits + ahead \<le> 1 \<and> bz \<le> 2 * waits \<and>
     cancels \<le> waits \<and> (0 < cancels \<longrightarrow> zp_cancel p) \<and> (zp_cancel p \<longrightarrow> canc) \<and>
     (\<forall>v \<in> set (fst (q_ab p)) \<union> set (fst (q_ba p)). v < limit)"

definition zpp_inv :: "u64 \<Rightarrow> nat \<Rightarrow> (zpp_state, zpp_task) pool \<Rightarrow> bool" where
  "zpp_inv pairs spawns c \<longleftrightarrow> (case c of (s, ts) \<Rightarrow>
     length (zpairs s) = unat pairs \<and> (\<forall>t \<in> set ts. zpp_ok pairs t) \<and> zrunning s = tsum zpp_alive ts \<and>
     (zcanceling s \<longleftrightarrow> 0 < tsum zpp_fails ts) \<and> (zcanceling s \<longrightarrow> spawns < unat pairs) \<and>
     (\<forall>j < unat pairs. zpp_pair_inv (zig_per_pair pairs) (zcanceling s) (zpairs s ! j) (tsum (zpp_ahead j) ts)
       (tsum (zpp_tasks j) ts) (tsum (zpp_busy j) ts) (tsum (zpp_waits j) ts) (tsum (zpp_cancels j) ts)))"

text \<open>An upper bound on the actions left.\<close>

fun zpc_weight :: "u64 \<Rightarrow> zchat_pc \<Rightarrow> nat" where
  "zpc_weight limit ZFirst = 4 + msg_weight limit 0"
| "zpc_weight limit (ZPut v) = 4 + msg_weight limit v"
| "zpc_weight limit ZGet = 3"
| "zpc_weight limit ZClosing = 2"
| "zpc_weight limit (ZReturning c) = 1"
| "zpc_weight limit (ZOut c) = 0"

definition zq_weight :: "u64 \<Rightarrow> zq \<Rightarrow> nat" where
  "zq_weight limit q = tsum (msg_weight limit) (fst q)"

definition zpair_weight :: "u64 \<Rightarrow> zpp_pair \<Rightarrow> nat" where
  "zpair_weight limit p = zq_weight limit (q_ab p) + zq_weight limit (q_ba p)"

fun zpp_task_weight :: "u64 \<Rightarrow> zpp_task \<Rightarrow> nat" where
  "zpp_task_weight pairs (ZTask i x pc) = zpc_weight (zig_per_pair pairs) pc"
| "zpp_task_weight pairs (ZPair i) = 2 * unat (zig_per_pair pairs) + 11"
| "zpp_task_weight pairs (ZPairAwait i) = 3"
| "zpp_task_weight pairs (ZPairCancel i) = 2"
| "zpp_task_weight pairs (ZPairReturn i c) = 1"
| "zpp_task_weight pairs (ZSpawnPairs k) = (unat pairs - unat k) * (2 * unat (zig_per_pair pairs) + 12) + 2"
| "zpp_task_weight pairs ZAwaitPairs = 1"
| "zpp_task_weight pairs ZCancelPairs = 1"
| "zpp_task_weight pairs t = 0"

definition zpp_weight :: "u64 \<Rightarrow> (zpp_state, zpp_task) pool \<Rightarrow> nat" where
  "zpp_weight pairs c = tsum (zpp_task_weight pairs) (snd c) + tsum (zpair_weight (zig_per_pair pairs)) (zpairs (fst c))"

section \<open>Every step keeps the invariant and decreases the weight\<close>

lemma zig_per_pair_asio: "zig_per_pair pairs = asio_per_pair pairs"
proof -
  have "x = 1" if "x \<le> 1" "x \<noteq> 0" for x :: u64
    using that by (simp add: word_le_nat_alt word_unat_eq_iff)
  then show ?thesis
    by (auto simp: zig_per_pair_def asio_per_pair_def zig_total_def asio_TOTAL_def Let_def max_def)
qed

lemma zig_per_pair_pos: "0 < zig_per_pair pairs"
  unfolding zig_per_pair_asio by (rule asio_per_pair_pos)

lemma msg_weight_inc: "v < limit \<Longrightarrow> msg_weight limit (v + 1) + 2 = msg_weight limit v"
  by (simp add: msg_weight_def unat_inc word_less_nat_alt)

lemma zchat_moves:
  assumes "zchat_step cancel late limit pc out inn = Some (out', inn', pc')" and "0 < limit"
    and "\<forall>v \<in> set (fst out) \<union> set (fst inn). v < limit" and "\<forall>v. pc = ZPut v \<longrightarrow> v < limit"
  shows "(\<forall>v \<in> set (fst out') \<union> set (fst inn'). v < limit) \<and> (\<forall>v. pc' = ZPut v \<longrightarrow> v < limit) \<and>
    \<not> zpc_out pc' \<and> \<not> zpc_out pc \<and>
    zpc_weight limit pc' + zq_weight limit out' + zq_weight limit inn' <
    zpc_weight limit pc + zq_weight limit out + zq_weight limit inn"
proof (cases pc)
  case ZFirst
  obtain xs b where out: "out = (xs, b)" by (cases out)
  show ?thesis using assms ZFirst unfolding out
    by (auto simp: zq_weight_def split: if_splits sum.splits)
next
  case (ZPut v)
  obtain xs b where out: "out = (xs, b)" by (cases out)
  show ?thesis using assms ZPut unfolding out
    by (auto simp: zq_weight_def split: if_splits sum.splits)
next
  case ZGet
  obtain xs b where inn: "inn = (xs, b)" by (cases inn)
  show ?thesis
  proof (cases "cancel \<and> \<not> late \<or> xs = []")
    case True
    with assms ZGet show ?thesis unfolding inn
      by (auto simp: zq_weight_def split: if_splits list.splits)
  next
    case False
    then obtain v vs where xs: "xs = v # vs" by (cases xs) auto
    with False assms(1) ZGet have e: "out' = out" "inn' = (vs, b)" "pc' = (if limit \<le> v + 1 then ZClosing else ZPut (v + 1))"
      unfolding inn by (auto simp: Let_def split: if_splits)
    have "v < limit" using assms(3) inn xs by auto
    with msg_weight_inc [OF this] assms(3) e ZGet show ?thesis
      by (auto simp: zq_weight_def inn xs not_le)
  qed
next
  case ZClosing
  with assms show ?thesis by (cases out) (auto simp: zq_weight_def)
qed (use assms(1) in auto)

lemma zpp_step_task:
  assumes "zpp_step late pairs spawns s (ZTask i x pc) = Some (s', t', new)"
  shows "\<exists>pc' p. t' = ZTask i x pc' \<and> new = [] \<and> s' = set_pair i p s \<and> \<not> zpc_out pc \<and>
    zp_cancel p = zp_cancel (zpairs s ! unat i) \<and>
    ((\<exists>c. pc = ZReturning c \<and> pc' = ZOut c) \<and> p = (zpairs s ! unat i)\<lparr>zp_active := zp_active (zpairs s ! unat i) - 1\<rparr> \<or>
     (\<exists>out inn. p = set_queues x out inn (zpairs s ! unat i) \<and>
       zchat_step (zp_cancel (zpairs s ! unat i)) (late s (ZTask i x pc)) (zig_per_pair pairs) pc
         (q_out x (zpairs s ! unat i)) (q_out (\<not> x) (zpairs s ! unat i)) = Some (out, inn, pc')))"
  using assms by (cases pc) (auto simp: Let_def set_queues_def simp del: zchat_step.simps(1-4))

lemma zpp_tasks_local:
  assumes step: "zpp_step late pairs spawns s (ZTask i x pc) = Some (s', t', new)" and i: "unat i < length (zpairs s)"
    and inv: "zpp_pair_inv (zig_per_pair pairs) (zcanceling s) (zpairs s ! unat i) a (k + 1)
      (b + (if zpc_out pc then 0 else 1)) w c" and "b \<le> k"
    and put: "\<forall>v. pc = ZPut v \<longrightarrow> v < zig_per_pair pairs"
  shows "\<exists>pc' p. t' = ZTask i x pc' \<and> new = [] \<and> s' = set_pair i p s \<and>
    zpp_pair_inv (zig_per_pair pairs) (zcanceling s) p a (k + 1) (b + (if zpc_out pc' then 0 else 1)) w c \<and>
    (\<forall>v. pc' = ZPut v \<longrightarrow> v < zig_per_pair pairs) \<and>
    zpc_weight (zig_per_pair pairs) pc' + zpair_weight (zig_per_pair pairs) p <
      zpc_weight (zig_per_pair pairs) pc + zpair_weight (zig_per_pair pairs) (zpairs s ! unat i)"
proof -
  let ?p = "zpairs s ! unat i" and ?L = "zig_per_pair pairs"
  from zpp_step_task [OF step] obtain pc' p where e: "t' = ZTask i x pc'" "new = []" "s' = set_pair i p s" "\<not> zpc_out pc"
    "zp_cancel p = zp_cancel ?p"
    and how: "(\<exists>c. pc = ZReturning c \<and> pc' = ZOut c) \<and> p = ?p\<lparr>zp_active := zp_active ?p - 1\<rparr> \<or>
      (\<exists>out inn. p = set_queues x out inn ?p \<and>
        zchat_step (zp_cancel ?p) (late s (ZTask i x pc)) ?L pc (q_out x ?p) (q_out (\<not> x) ?p) = Some (out, inn, pc'))"
    by blast
  from how show ?thesis
  proof (elim disjE conjE exE)
    fix r
    assume "pc = ZReturning r" "pc' = ZOut r" "p = ?p\<lparr>zp_active := zp_active ?p - 1\<rparr>"
    with e inv show ?thesis by (auto simp: zpp_pair_inv_def zpair_weight_def)
  next
    fix out inn
    assume p: "p = set_queues x out inn ?p"
      and st: "zchat_step (zp_cancel ?p) (late s (ZTask i x pc)) ?L pc (q_out x ?p) (q_out (\<not> x) ?p) = Some (out, inn, pc')"
    have "\<forall>v \<in> set (fst (q_out x ?p)) \<union> set (fst (q_out (\<not> x) ?p)). v < ?L"
      using inv by (auto simp: zpp_pair_inv_def q_out_def)
    from zchat_moves [OF st zig_per_pair_pos this put] e p inv show ?thesis
      by (cases x) (auto simp: zpp_pair_inv_def zpair_weight_def set_queues_def q_out_def)
  qed
qed

text \<open>What an action does to pair \<open>j\<close>.\<close>

lemma zpp_pair_local:
  assumes step: "zpp_step late pairs spawns s t = Some (s', t', new)" and ok: "zpp_ok pairs t"
    and j: "j < unat pairs" and len: "length (zpairs s) = unat pairs"
    and others: "b \<le> k" "c \<le> w"
    and inv: "zpp_pair_inv (zig_per_pair pairs) (zcanceling s) (zpairs s ! j) (a + zpp_ahead j t) (k + zpp_tasks j t)
      (b + zpp_busy j t) (w + zpp_waits j t) (c + zpp_cancels j t)"
  shows "zpp_pair_inv (zig_per_pair pairs) (zcanceling s') (zpairs s' ! j) (a + zpp_ahead j t' + tsum (zpp_ahead j) new)
      (k + zpp_tasks j t' + tsum (zpp_tasks j) new) (b + zpp_busy j t' + tsum (zpp_busy j) new)
      (w + zpp_waits j t' + tsum (zpp_waits j) new) (c + zpp_cancels j t' + tsum (zpp_cancels j) new)"
proof (cases t)
  case (ZTask i x pc)
  have i: "unat i < length (zpairs s)" using ok ZTask len by (simp add: word_less_nat_alt)
  show ?thesis
  proof (cases "unat i = j")
    case True
    with inv ZTask have "zpp_pair_inv (zig_per_pair pairs) (zcanceling s) (zpairs s ! unat i) a (k + 1)
        (b + (if zpc_out pc then 0 else 1)) w c" by (auto split: if_splits)
    from zpp_tasks_local [OF step [unfolded ZTask] i this others(1)] ok ZTask obtain pc' p
      where "t' = ZTask i x pc'" "new = []" "s' = set_pair i p s"
        "zpp_pair_inv (zig_per_pair pairs) (zcanceling s) p a (k + 1) (b + (if zpc_out pc' then 0 else 1)) w c"
      by auto
    with ZTask True i show ?thesis by (cases "zpc_out pc'") (simp_all add: set_pair_def)
  next
    case False
    with zpp_step_task [OF step [unfolded ZTask]] inv ZTask show ?thesis by (auto simp: set_pair_def)
  qed
next
  case (ZPair i)
  have "unat i < length (zpairs s)" using ok ZPair len by (simp add: word_less_nat_alt)
  with ZPair step inv others show ?thesis
    by (cases "unat i = j") (auto simp: set_pair_def zpp_pair_inv_def zpp_new_def)
next
  case (ZPairAwait i)
  have "unat i < length (zpairs s)" using ok ZPairAwait len by (simp add: word_less_nat_alt)
  with ZPairAwait step inv others show ?thesis
    by (cases "unat i = j") (auto simp: set_pair_def zpp_pair_inv_def Let_def split: if_splits)
next
  case (ZPairCancel i)
  with step inv others show ?thesis by (auto simp: zpp_pair_inv_def split: if_splits)
next
  case (ZPairReturn i r)
  with step inv show ?thesis by (auto simp: zpp_pair_inv_def)
next
  case (ZSpawnPairs i)
  show ?thesis
  proof (cases "i < pairs")
    case True
    with ZSpawnPairs step inv others unat_inc [OF True] show ?thesis
      by (auto simp: zpp_pair_inv_def split: if_splits)
  next
    case False
    with ZSpawnPairs step inv j show ?thesis by (auto simp: word_less_nat_alt split: if_splits)
  qed
qed (use step inv in \<open>auto simp: zpp_pair_inv_def split: if_splits\<close>)

lemma zpp_step_frame:
  assumes step: "zpp_step late pairs spawns s t = Some (s', t', new)" and ok: "zpp_ok pairs t"
    and len: "length (zpairs s) = unat pairs"
    and run: "zrunning s = l + zpp_alive t" and canc: "zcanceling s \<longleftrightarrow> 0 < f + zpp_fails t"
      "zcanceling s \<longrightarrow> spawns < unat pairs"
    and vals: "\<And>j. j < unat pairs \<Longrightarrow> \<forall>v \<in> set (fst (q_ab (zpairs s ! j))) \<union> set (fst (q_ba (zpairs s ! j))). v < zig_per_pair pairs"
  shows "length (zpairs s') = unat pairs \<and> zpp_ok pairs t' \<and> (\<forall>u \<in> set new. zpp_ok pairs u) \<and>
    zrunning s' = l + zpp_alive t' + tsum zpp_alive new \<and> (zcanceling s' \<longleftrightarrow> 0 < f + zpp_fails t' + tsum zpp_fails new) \<and>
    (zcanceling s' \<longrightarrow> spawns < unat pairs)"
proof (cases t)
  case (ZTask i x pc)
  have i: "unat i < unat pairs" using ok ZTask by (simp add: word_less_nat_alt)
  from zpp_step_task [OF step [unfolded ZTask]] obtain pc' p
    where e: "t' = ZTask i x pc'" "new = []" "s' = set_pair i p s"
    and how: "(\<exists>c. pc = ZReturning c \<and> pc' = ZOut c) \<or> (\<exists>out inn.
      zchat_step (zp_cancel (zpairs s ! unat i)) (late s (ZTask i x pc)) (zig_per_pair pairs) pc
         (q_out x (zpairs s ! unat i)) (q_out (\<not> x) (zpairs s ! unat i)) = Some (out, inn, pc'))" by blast
  have "\<forall>v \<in> set (fst (q_out x (zpairs s ! unat i))) \<union> set (fst (q_out (\<not> x) (zpairs s ! unat i))). v < zig_per_pair pairs"
    using vals [OF i] by (auto simp: q_out_def)
  note moves = zchat_moves [OF _ zig_per_pair_pos this]
  have put: "\<forall>v. pc = ZPut v \<longrightarrow> v < zig_per_pair pairs" using ok ZTask by simp
  from how have "\<forall>v. pc' = ZPut v \<longrightarrow> v < zig_per_pair pairs"
  proof (elim disjE exE conjE)
    fix out inn
    assume "zchat_step (zp_cancel (zpairs s ! unat i)) (late s (ZTask i x pc)) (zig_per_pair pairs) pc
         (q_out x (zpairs s ! unat i)) (q_out (\<not> x) (zpairs s ! unat i)) = Some (out, inn, pc')"
    from moves [OF this put] show ?thesis by blast
  qed simp
  with e ok len run canc ZTask show ?thesis by (simp add: set_pair_def)
next
  case (ZPairAwait i)
  with step ok len run canc show ?thesis by (auto simp: set_pair_def Let_def split: if_splits)
next
  case (ZSpawnPairs i)
  with step ok len run canc show ?thesis by (auto simp: set_pair_def inc_le word_less_nat_alt split: if_splits)
qed (use step ok len run canc in \<open>auto simp: set_pair_def split: if_splits\<close>)

lemma zpp_pair_vals:
  "zpp_pair_inv limit canc p a k b w c \<Longrightarrow> \<forall>v \<in> set (fst (q_ab p)) \<union> set (fst (q_ba p)). v < limit"
  by (simp add: zpp_pair_inv_def)

lemma zpp_step_weight:
  assumes step: "zpp_step late pairs spawns s t = Some (s', t', new)" and ok: "zpp_ok pairs t"
    and len: "length (zpairs s) = unat pairs"
    and vals: "\<And>j. j < unat pairs \<Longrightarrow> \<forall>v \<in> set (fst (q_ab (zpairs s ! j))) \<union> set (fst (q_ba (zpairs s ! j))). v < zig_per_pair pairs"
  shows "zpp_task_weight pairs t' + tsum (zpp_task_weight pairs) new + tsum (zpair_weight (zig_per_pair pairs)) (zpairs s') <
    zpp_task_weight pairs t + tsum (zpair_weight (zig_per_pair pairs)) (zpairs s)"
proof -
  let ?w = "zpair_weight (zig_per_pair pairs)"
  have at: "tsum ?w (zpairs s) = tsum ?w (others (unat i) (zpairs s)) + ?w (zpairs s ! unat i)"
    and upd: "tsum ?w (zpairs (set_pair i p s)) = tsum ?w (others (unat i) (zpairs s)) + ?w p"
    if "i < pairs" for i p
  proof -
    have i: "unat i < length (zpairs s)" using that len by (simp add: word_less_nat_alt)
    show "tsum ?w (zpairs s) = tsum ?w (others (unat i) (zpairs s)) + ?w (zpairs s ! unat i)"
      by (rule tsum_at [OF i])
    show "tsum ?w (zpairs (set_pair i p s)) = tsum ?w (others (unat i) (zpairs s)) + ?w p"
      using tsum_upd [OF i, of ?w p "[]"] by (simp add: set_pair_def)
  qed
  show ?thesis
  proof (cases t)
    case (ZTask i x pc)
    let ?p = "zpairs s ! unat i" and ?L = "zig_per_pair pairs"
    have i: "i < pairs" "unat i < unat pairs" using ok ZTask by (simp_all add: word_less_nat_alt)
    from zpp_step_task [OF step [unfolded ZTask]] obtain pc' p where e: "t' = ZTask i x pc'" "new = []" "s' = set_pair i p s"
      and how: "(\<exists>c. pc = ZReturning c \<and> pc' = ZOut c) \<and> p = ?p\<lparr>zp_active := zp_active ?p - 1\<rparr> \<or>
        (\<exists>out inn. p = set_queues x out inn ?p \<and>
          zchat_step (zp_cancel ?p) (late s (ZTask i x pc)) ?L pc (q_out x ?p) (q_out (\<not> x) ?p) = Some (out, inn, pc'))"
      by blast
    have "\<forall>v \<in> set (fst (q_out x ?p)) \<union> set (fst (q_out (\<not> x) ?p)). v < ?L"
      using vals [OF i(2)] by (auto simp: q_out_def)
    note moves = zchat_moves [OF _ zig_per_pair_pos this]
    have put: "\<forall>v. pc = ZPut v \<longrightarrow> v < ?L" using ok ZTask by simp
    from how have "zpc_weight ?L pc' + ?w p < zpc_weight ?L pc + ?w ?p"
    proof (elim disjE conjE exE)
      fix c
      assume "pc = ZReturning c" "pc' = ZOut c" "p = ?p\<lparr>zp_active := zp_active ?p - 1\<rparr>"
      from this(1,2) show ?thesis by (subst \<open>p = _\<close>) (simp add: zpair_weight_def)
    next
      fix out inn
      assume p: "p = set_queues x out inn ?p"
        and "zchat_step (zp_cancel ?p) (late s (ZTask i x pc)) ?L pc (q_out x ?p) (q_out (\<not> x) ?p) = Some (out, inn, pc')"
      from moves [OF this(2) put]
      have "zpc_weight ?L pc' + zq_weight ?L out + zq_weight ?L inn <
          zpc_weight ?L pc + zq_weight ?L (q_out x ?p) + zq_weight ?L (q_out (\<not> x) ?p)" by blast
      then show ?thesis
        by (subst p, cases x) (simp_all add: zpair_weight_def set_queues_def q_out_def)
    qed
    then show ?thesis using ZTask e by (simp add: at [OF i(1)] upd [OF i(1)])
  next
    case (ZPair i)
    with ok have "i < pairs" by simp
    from upd [OF this, of "zpp_new\<lparr>zp_active := 2\<rparr>"] at [OF this] ZPair step show ?thesis
      by (auto simp: zpair_weight_def zpp_new_def zq_weight_def msg_weight_def)
  next
    case (ZPairAwait i)
    with ok have i: "i < pairs" by simp
    from upd [OF this, of "(zpairs s ! unat i)\<lparr>zp_cancel := True\<rparr>"] at [OF this] ZPairAwait step show ?thesis
      by (auto simp: zpair_weight_def Let_def split: if_splits)
  next
    case (ZSpawnPairs i)
    show ?thesis
    proof (cases "i < pairs")
      case True
      then have "unat pairs - unat i = Suc (unat pairs - unat (i + 1))"
        by (simp add: unat_inc [OF True] word_less_nat_alt Suc_diff_Suc)
      with ZSpawnPairs step True show ?thesis by (auto split: if_splits)
    next
      case False
      with ZSpawnPairs step show ?thesis by (auto split: if_splits)
    qed
  qed (use step in \<open>auto split: if_splits\<close>)
qed

lemma zpp_inv_step:
  assumes "zpp_inv pairs spawns c" and "pool_step (zpp_step late pairs spawns) c c'"
  shows "zpp_inv pairs spawns c' \<and> zpp_weight pairs c' < zpp_weight pairs c"
  using assms(2)
proof cases
  case (run_task i ts s s' t' new)
  note i = run_task(3) and step = run_task(4)
  let ?r = "\<lambda>f. tsum f (others i ts)"
  have inv: "length (zpairs s) = unat pairs" "\<forall>t \<in> set ts. zpp_ok pairs t" "zrunning s = tsum zpp_alive ts"
    "zcanceling s \<longleftrightarrow> 0 < tsum zpp_fails ts" "zcanceling s \<longrightarrow> spawns < unat pairs"
    "\<And>j. j < unat pairs \<Longrightarrow> zpp_pair_inv (zig_per_pair pairs) (zcanceling s) (zpairs s ! j) (tsum (zpp_ahead j) ts)
       (tsum (zpp_tasks j) ts) (tsum (zpp_busy j) ts) (tsum (zpp_waits j) ts) (tsum (zpp_cancels j) ts)"
    using assms(1) unfolding run_task zpp_inv_def prod.case by blast+
  have ok: "zpp_ok pairs (ts ! i)" using inv(2) i by simp
  have vals: "\<forall>v \<in> set (fst (q_ab (zpairs s ! j))) \<union> set (fst (q_ba (zpairs s ! j))). v < zig_per_pair pairs"
    if "j < unat pairs" for j by (rule zpp_pair_vals [OF inv(6) [OF that]])
  note frame = zpp_step_frame [OF step ok inv(1) inv(3) [unfolded tsum_at [OF i]] inv(4) [unfolded tsum_at [OF i]] inv(5) vals]
  have le: "?r (zpp_busy j) \<le> ?r (zpp_tasks j)" "?r (zpp_cancels j) \<le> ?r (zpp_waits j)" for j
  proof -
    have "zpp_busy j t \<le> zpp_tasks j t" "zpp_cancels j t \<le> zpp_waits j t" for t by (cases t; simp)+
    then show "?r (zpp_busy j) \<le> ?r (zpp_tasks j)" "?r (zpp_cancels j) \<le> ?r (zpp_waits j)"
      by (blast intro: tsum_le_mono)+
  qed
  have "\<forall>t \<in> set (ts[i := t'] @ new). zpp_ok pairs t"
    using frame inv(2) set_upd_subset [of ts i t' new] by blast
  with frame have "zpp_inv pairs spawns c'"
    unfolding zpp_inv_def run_task prod.case tsum_upd [OF i]
    using zpp_pair_local [OF step ok _ inv(1) le inv(6) [unfolded tsum_at [OF i]]] by simp
  moreover have "zpp_weight pairs c' < zpp_weight pairs c"
    using zpp_step_weight [OF step ok inv(1) vals]
    unfolding run_task zpp_weight_def fst_conv snd_conv tsum_at [OF i] tsum_upd [OF i] by simp
  ultimately show ?thesis ..
qed

lemma zpp_inv_start: "zpp_inv pairs spawns (zpp_start pairs)"
  by (auto simp: zpp_inv_def zpp_start_def zpp_pair_inv_def zpp_new_def)

interpretation zpp: task_terminates "zpp_step late pairs spawns" "zpp_inv pairs spawns" "zpp_weight pairs" for late pairs spawns
  by unfold_locales (use zpp_inv_step in blast)+

section \<open>The program is the Asio ping-pong\<close>

text \<open>A queue as a list channel of capacity 1, a group as a counter; the tasks correspond by name.\<close>

definition asio_chan :: "zq \<Rightarrow> u64 list \<times> nat \<times> bool" where
  "asio_chan q = (fst q, zpp_capacity, snd q)"

definition asio_pair :: "zpp_pair \<Rightarrow> (u64 list \<times> nat \<times> bool, nat) pair_chans" where
  "asio_pair p = \<lparr>chan_ab = asio_chan (q_ab p), chan_ba = asio_chan (q_ba p), both = zp_active p\<rparr>"

definition asio_state :: "zpp_state \<Rightarrow> (u64 list \<times> nat \<times> bool, nat) ppa_state" where
  "asio_state s = \<lparr>chans = map asio_pair (zpairs s), pair_pool = zrunning s\<rparr>"

fun asio_pc :: "zchat_pc \<Rightarrow> chat_pc" where
  "asio_pc ZFirst = ChatFirst"
| "asio_pc ZGet = ChatRecv"
| "asio_pc (ZPut v) = ChatSend v"
| "asio_pc ZClosing = ChatClose"
| "asio_pc (ZReturning c) = ChatReturn"
| "asio_pc (ZOut c) = ChatDone"

fun asio_task :: "zpp_task \<Rightarrow> ppa_task" where
  "asio_task (ZTask i x pc) = (if x then TaskA i (asio_pc pc) else TaskB i (asio_pc pc))"
| "asio_task (ZPair i) = PairStart i"
| "asio_task (ZPairAwait i) = PairJoin i"
| "asio_task (ZPairReturn i c) = PairReturn i"
| "asio_task (ZPairDone i c) = PairDone i"
| "asio_task (ZSpawnPairs k) = SpawnPairs k"
| "asio_task ZAwaitPairs = JoinPairs"
| "asio_task t = JoinedPairs"

lemma asio_state_sel [simp]:
  "i < length (zpairs s) \<Longrightarrow> chans (asio_state s) ! i = asio_pair (zpairs s ! i)"
  "pair_pool (asio_state s) = zrunning s"
  by (simp_all add: asio_state_def)

lemma asio_state_set: "asio_state (set_pair i p s) = set_chans i (asio_pair p) (asio_state s)"
  by (simp add: asio_state_def set_pair_def set_chans_def map_update)

lemma asio_state_same:
  "unat i < length (zpairs s) \<Longrightarrow> set_chans i (asio_pair (zpairs s ! unat i)) (asio_state s) = asio_state s"
  unfolding asio_state_set [symmetric] by (simp add: set_pair_def)

lemma zchat_same:
  assumes "pc = ZFirst \<Longrightarrow> \<not> snd out"
  shows "chat_step list_channel limit (asio_pc pc) (asio_chan out) (asio_chan inn) =
    map_option (\<lambda>(out', inn', pc'). (asio_chan out', asio_chan inn', asio_pc pc')) (zchat_step False late limit pc out inn)"
  using assms
  by (cases out; cases inn; cases pc; cases "fst inn")
    (auto simp: list_channel_def asio_chan_def zpp_capacity_def Let_def)

context asio_runtime begin

lemma pair_ok_turn:
  assumes "pair_ok limit p ph as bs"
  shows "x \<in># as \<Longrightarrow> \<exists>b. chat_turn True limit x b (chan_ab p) (chan_ba p)"
    and "x \<in># bs \<Longrightarrow> \<exists>a. chat_turn True limit a x (chan_ab p) (chan_ba p)"
  using assms by (auto simp: pair_ok_def)

lemma first_open:
  assumes "ppa_inv pairs (s, ts)" and "i < pairs"
  shows "TaskA i ChatFirst \<in> set ts \<Longrightarrow> \<not> closed (chan_ab (chans s ! unat i))"
    and "TaskB i ChatFirst \<in> set ts \<Longrightarrow> \<not> closed (chan_ba (chans s ! unat i))"
proof -
  let ?p = "chans s ! unat i" and ?L = "asio_per_pair pairs"
  have turn: "\<not> closed cab" if t: "chat_turn ev ?L ChatFirst b cab cba" for ev b cab cba
  proof -
    obtain v where "if even (unat v) = ev then chat_half ?L v ChatFirst b cab cba else chat_half ?L v b ChatFirst cba cab"
      using t by (auto simp: chat_turn_def)
    then have "\<exists>st. chat_at st ?L v ChatFirst b cab cba \<or> chat_at st ?L v b ChatFirst cba cab"
      by (auto simp: chat_half_def split: if_splits)
    then obtain st where "chat_at st ?L v ChatFirst b cab cba \<or> chat_at st ?L v b ChatFirst cba cab" by blast
    then show ?thesis by (cases st) (auto simp: chan_is_def)
  qed
  have ok: "pair_ok ?L ?p (tsum (phase_of (unat i)) ts) (tsum (a_of (unat i)) ts) (tsum (b_of (unat i)) ts)"
    using assms by (simp add: ppa_inv_def word_less_nat_alt)
  show "\<not> closed (chan_ab ?p)" if "TaskA i ChatFirst \<in> set ts"
  proof -
    have "ChatFirst \<in># tsum (a_of (unat i)) ts" using member_sum [OF that, of ChatFirst "a_of (unat i)"] by simp
    from pair_ok_turn(1) [OF ok this] obtain b where "chat_turn True ?L ChatFirst b (chan_ab ?p) (chan_ba ?p)" by blast
    then show ?thesis by (rule turn)
  qed
  show "\<not> closed (chan_ba ?p)" if "TaskB i ChatFirst \<in> set ts"
  proof -
    have "ChatFirst \<in># tsum (b_of (unat i)) ts" using member_sum [OF that, of ChatFirst "b_of (unat i)"] by simp
    from pair_ok_turn(2) [OF ok this] obtain a where "chat_turn True ?L a ChatFirst (chan_ab ?p) (chan_ba ?p)" by blast
    then have "chat_turn False ?L ChatFirst a (chan_ba ?p) (chan_ab ?p)" by (simp add: chat_turn_swap [of True])
    then show ?thesis by (rule turn)
  qed
qed

end

definition zpp_asio_inv :: "u64 \<Rightarrow> nat \<Rightarrow> (zpp_state, zpp_task) pool \<Rightarrow> bool" where
  "zpp_asio_inv pairs spawns c \<longleftrightarrow> unat pairs \<le> spawns \<and> zpp_inv pairs spawns c \<and>
     listrt.ppa_inv pairs (asio_state (fst c), map asio_task (snd c))"

lemma zpp_same_step:
  assumes inv: "zpp_asio_inv pairs spawns (s, ts)" and t: "t \<in> set ts"
  shows "ppa_step list_channel nat_join pairs (asio_state s) (asio_task t) =
    map_option (\<lambda>(s', t', new). (asio_state s', asio_task t', map asio_task new)) (zpp_step late pairs spawns s t)"
proof -
  from inv have zinv: "zpp_inv pairs spawns (s, ts)" and enough: "unat pairs \<le> spawns"
    and pinv: "listrt.ppa_inv pairs (asio_state s, map asio_task ts)" by (simp_all add: zpp_asio_inv_def)
  then have calm: "\<not> zcanceling s" by (auto simp: zpp_inv_def)
  have len: "length (zpairs s) = unat pairs" and ok: "zpp_ok pairs t" and quiet: "zpp_fails t = 0"
    using zinv t calm by (auto simp: zpp_inv_def)
  have pair: "\<not> zp_cancel (zpairs s ! j)" "tsum (zpp_cancels j) ts = 0" if "j < unat pairs" for j
    using zinv calm that by (auto simp: zpp_inv_def zpp_pair_inv_def)
  show ?thesis
  proof (cases t)
    case (ZTask i x pc)
    let ?p = "zpairs s ! unat i"
    have i: "i < pairs" "unat i < length (zpairs s)" "unat i < unat pairs" using ok ZTask len by (simp_all add: word_less_nat_alt)
    have "\<not> snd (q_out x ?p)" if "pc = ZFirst"
    proof -
      have "asio_task t \<in> set (map asio_task ts)" using t by simp
      with listrt.first_open [OF pinv i(1)] ZTask that i(2) show ?thesis
        by (cases x) (auto simp: q_out_def asio_pair_def asio_chan_def)
    qed
    then have same: "chat_step list_channel (zig_per_pair pairs) (asio_pc pc) (asio_chan (q_out x ?p)) (asio_chan (q_out (\<not> x) ?p)) =
        map_option (\<lambda>(out', inn', pc'). (asio_chan out', asio_chan inn', asio_pc pc'))
          (zchat_step False (late s t) (zig_per_pair pairs) pc (q_out x ?p) (q_out (\<not> x) ?p))"
      by (rule zchat_same)
    show ?thesis
    proof (cases "\<exists>c. pc = ZReturning c")
      case True
      with ZTask i show ?thesis by (auto simp: asio_state_set asio_pair_def nat_join_def Let_def)
    next
      case False
      then have "asio_pc pc \<noteq> ChatReturn" by (cases pc) auto
      with False ZTask i pair(1) [OF i(3)] same show ?thesis
        by (cases x; cases pc)
          (auto simp: asio_state_set asio_pair_def q_out_def set_queues_def zig_per_pair_asio Let_def option.map_comp comp_def
            simp del: zchat_step.simps chat_step.simps split: option.splits)
    qed
  next
    case (ZPair i)
    with ok len show ?thesis
      by (simp add: asio_state_set asio_pair_def asio_chan_def zpp_new_def new_chans_def list_channel_def nat_join_def zpp_capacity_def
          numeral_2_eq_2 Let_def)
  next
    case (ZPairAwait i)
    with ok len have i: "unat i < length (zpairs s)" by (simp add: word_less_nat_alt)
    have "(asio_pair p)\<lparr>both := 0\<rparr> = asio_pair p" if "zp_active p = 0" for p
      using that by (simp add: asio_pair_def)
    with asio_state_same [OF i] i ZPairAwait calm show ?thesis
      by (cases "zp_active (zpairs s ! unat i)") (simp_all add: nat_join_def Let_def asio_pair_def)
  next
    case (ZPairCancel i)
    with ok have "unat i < unat pairs" by (simp add: word_less_nat_alt)
    from tsum_zeroD [OF pair(2) [OF this] t] ZPairCancel show ?thesis by simp
  next
    case (ZSpawnPairs k)
    have "unat k < spawns" if "k < pairs" using that enough by (simp add: word_less_nat_alt)
    with ZSpawnPairs show ?thesis by (auto simp: asio_state_def nat_join_def)
  qed (use quiet in \<open>auto simp: asio_state_def nat_join_def\<close>)
qed

text \<open>So the invariant of the Asio program carries over, and with it what its runs do.\<close>

lemma zpp_asio_inv_step:
  assumes inv: "zpp_asio_inv pairs spawns c" and step: "pool_step (zpp_step late pairs spawns) c c'"
  shows "zpp_asio_inv pairs spawns c'"
  using step
proof cases
  case (run_task i ts s s' t' new)
  note same = zpp_same_step [OF inv [unfolded run_task(1)] nth_mem [OF run_task(3)], of late]
  have "ppa_step list_channel nat_join pairs (asio_state s) (map asio_task ts ! i) =
      Some (asio_state s', asio_task t', map asio_task new)"
    using same run_task(3,4) by simp
  with run_task(3) have "pool_step (ppa_step list_channel nat_join pairs) (asio_state s, map asio_task ts)
      (asio_state s', (map asio_task ts)[i := asio_task t'] @ map asio_task new)"
    by (intro pool_step.run_task) simp_all
  with inv have "listrt.ppa_inv pairs (asio_state s', (map asio_task ts)[i := asio_task t'] @ map asio_task new)"
    using listrt.ppa_inv_step unfolding zpp_asio_inv_def run_task fst_conv snd_conv by blast
  then have "listrt.ppa_inv pairs (asio_state s', map asio_task (ts[i := t'] @ new))"
    by (simp add: map_update)
  with zpp_inv_step [OF _ step] inv show ?thesis by (simp add: zpp_asio_inv_def run_task)
qed

interpretation zpp_asio: task_translation "zpp_step late pairs spawns" "zpp_asio_inv pairs spawns"
    "ppa_step list_channel nat_join pairs" asio_state asio_task for late pairs spawns
  by unfold_locales (blast intro: zpp_asio_inv_step zpp_same_step)+

lemma zpp_start_same:
  "(asio_state (fst (zpp_start pairs)), map asio_task (snd (zpp_start pairs))) = ppa_start list_channel nat_join pairs"
  by (simp add: zpp_start_def ppa_start_def asio_state_def asio_pair_def asio_chan_def new_chans_def zpp_new_def
      list_channel_def nat_join_def zpp_capacity_def)

lemma zpp_asio_start: "unat pairs \<le> spawns \<Longrightarrow> zpp_asio_inv pairs spawns (zpp_start pairs)"
  unfolding zpp_asio_inv_def zpp_start_same using zpp_inv_start listrt.ppa_inv_start by blast

section \<open>Where a run can stop\<close>

text \<open>After a cancellation no call waits, so the tasks of a pair return, then the pairs, then \<open>main\<close>.\<close>

lemma zpp_canceled_done:
  assumes inv: "zpp_inv pairs spawns (s, ts)" and stuck: "pool_stuck (zpp_step late pairs spawns) (s, ts)"
    and canc: "zcanceling s" and t: "t \<in> set ts"
  shows "zpp_finished t"
proof -
  have none: "zpp_step late pairs spawns s u = None" if "u \<in> set ts" for u
    using stuck that by (simp add: pool_stuck_def)
  from inv have oks: "\<forall>u \<in> set ts. zpp_ok pairs u" and run: "zrunning s = tsum zpp_alive ts"
    and pinv: "\<And>j. j < unat pairs \<Longrightarrow> zpp_pair_inv (zig_per_pair pairs) (zcanceling s) (zpairs s ! j) (tsum (zpp_ahead j) ts)
       (tsum (zpp_tasks j) ts) (tsum (zpp_busy j) ts) (tsum (zpp_waits j) ts) (tsum (zpp_cancels j) ts)"
    unfolding zpp_inv_def prod.case by blast+
  have rest: "zpp_finished u \<or> (\<exists>i x pc. u = ZTask i x pc \<and> \<not> zp_cancel (zpairs s ! unat i) \<and> \<not> zpc_out pc) \<or>
      (\<exists>i. u = ZPairCancel i \<and> 0 < zp_active (zpairs s ! unat i)) \<or> (u = ZAwaitPairs \<or> u = ZCancelPairs) \<and> 0 < zrunning s"
    if u: "u \<in> set ts" for u
  proof (cases u)
    case (ZTask i x pc)
    let ?p = "zpairs s ! unat i"
    have "zchat_step True late' limit pc' out inn \<noteq> None" if "\<forall>c. pc' \<noteq> ZReturning c" "\<not> zpc_out pc'"
      for late' limit pc' out inn
      using that by (cases out; cases inn; cases pc'; cases "fst inn") (auto simp: Let_def)
    with none [OF u] ZTask show ?thesis
      by (cases pc; cases "zp_cancel ?p") (simp_all add: Let_def del: zchat_step.simps not_None_eq)
  next
    case (ZPairAwait i)
    with none [OF u] canc show ?thesis by (auto simp: Let_def split: if_splits)
  next
    case (ZPairCancel i)
    with none [OF u] show ?thesis by (auto split: if_splits)
  qed (use none [OF u] in \<open>auto split: if_splits\<close>)
  have idle: "tsum (zpp_busy j) ts = 0" if j: "j < unat pairs" for j
  proof (rule ccontr)
    assume "tsum (zpp_busy j) ts \<noteq> 0"
    then obtain u where u: "u \<in> set ts" "zpp_busy j u \<noteq> 0" by (metis tsum_zeroI)
    from u(2) obtain i x pc where task: "u = ZTask i x pc" "unat i = j" "\<not> zpc_out pc"
      by (cases u) (auto split: if_splits)
    with rest [OF u(1)] have free: "\<not> zp_cancel (zpairs s ! j)" by (cases pc) auto
    have "tsum (zpp_waits j) ts \<noteq> 0" using pinv [OF j] \<open>tsum (zpp_busy j) ts \<noteq> 0\<close> unfolding zpp_pair_inv_def by linarith
    then obtain v where v: "v \<in> set ts" "zpp_waits j v \<noteq> 0" by (metis tsum_zeroI)
    with rest [OF v(1)] obtain k where "v = ZPairCancel k" "unat k = j" by (cases v) (auto split: if_splits)
    then have "0 < tsum (zpp_cancels j) ts" using tsum_member_le [OF v(1), of "zpp_cancels j"] by simp
    then show False using pinv [OF j] free unfolding zpp_pair_inv_def by blast
  qed
  have only: "zpp_finished u \<or> (u = ZAwaitPairs \<or> u = ZCancelPairs) \<and> 0 < zrunning s" if u: "u \<in> set ts" for u
  proof -
    have "zpp_busy (unat i) u = 0" if "i < pairs" for i
      using tsum_zeroD [OF idle u] that by (simp add: word_less_nat_alt)
    moreover have "zp_active (zpairs s ! unat i) = 0" if "i < pairs" for i
      using pinv [of "unat i"] idle [of "unat i"] that by (simp add: zpp_pair_inv_def word_less_nat_alt)
    ultimately show ?thesis using rest [OF u] oks u by fastforce
  qed
  then have "zpp_alive u = 0" if "u \<in> set ts" for u using only [OF that] by (cases u) auto
  then have "tsum zpp_alive ts = 0" by (rule tsum_zeroI)
  with only [OF t] run show ?thesis by linarith
qed

text \<open>\<open>main\<close> gets past its spawn loop exactly when every pair could be started.\<close>

fun zpp_leads :: "u64 \<Rightarrow> nat \<Rightarrow> zpp_task \<Rightarrow> bool" where
  "zpp_leads pairs spawns (ZSpawnPairs k) \<longleftrightarrow> unat k \<le> spawns \<and> k \<le> pairs"
| "zpp_leads pairs spawns ZAwaitPairs \<longleftrightarrow> unat pairs \<le> spawns"
| "zpp_leads pairs spawns ZPairsDone \<longleftrightarrow> unat pairs \<le> spawns"
| "zpp_leads pairs spawns ZCancelPairs \<longleftrightarrow> spawns < unat pairs"
| "zpp_leads pairs spawns ZPairsFailed \<longleftrightarrow> spawns < unat pairs"
| "zpp_leads pairs spawns t \<longleftrightarrow> False"

definition zpp_has_main :: "u64 \<Rightarrow> nat \<Rightarrow> (zpp_state, zpp_task) pool \<Rightarrow> bool" where
  "zpp_has_main pairs spawns c \<longleftrightarrow> (\<exists>t \<in> set (snd c). zpp_leads pairs spawns t)"

lemma zpp_leads_step:
  assumes "zpp_step late pairs spawns s t = Some (s', t', new)" and "zpp_leads pairs spawns t"
  shows "zpp_leads pairs spawns t'"
proof (cases t)
  case (ZSpawnPairs k)
  show ?thesis
  proof (cases "k < pairs")
    case True
    with assms ZSpawnPairs unat_inc [OF True] inc_le [OF True] show ?thesis
      by (auto simp: word_less_nat_alt split: if_splits)
  next
    case False
    with assms ZSpawnPairs have "k = pairs" by simp
    with False assms ZSpawnPairs show ?thesis by auto
  qed
qed (use assms in \<open>auto split: if_splits\<close>)

interpretation zpp_role: task_invariant "zpp_step late pairs spawns" "zpp_has_main pairs spawns" for late pairs spawns
proof unfold_locales
  fix c c'
  assume main: "zpp_has_main pairs spawns c" and "pool_step (zpp_step late pairs spawns) c c'"
  from this(2) show "zpp_has_main pairs spawns c'"
  proof cases
    case (run_task i ts s s' t' new)
    from main run_task obtain u where u: "u \<in> set ts" "zpp_leads pairs spawns u" by (auto simp: zpp_has_main_def)
    then obtain j where j: "j < length ts" "ts ! j = u" by (auto simp: in_set_conv_nth)
    have "ts[i := t'] ! j = (if i = j then t' else u)" "j < length (ts[i := t'])" using j by auto
    then have "(if i = j then t' else u) \<in> set (ts[i := t'])" by (metis nth_mem)
    moreover have "zpp_leads pairs spawns (if i = j then t' else u)"
      using zpp_leads_step [OF run_task(4)] j u by auto
    ultimately show ?thesis unfolding run_task zpp_has_main_def by auto
  qed
qed

lemma zpp_ends:
  assumes reach: "pool_reach (zpp_step late pairs spawns) (zpp_start pairs) (s, ts)"
    and stuck: "pool_stuck (zpp_step late pairs spawns) (s, ts)"
  shows "(\<forall>t \<in> set ts. zpp_finished t) \<and> (if unat pairs \<le> spawns then ZPairsDone else ZPairsFailed) \<in> set ts"
proof -
  have inv: "zpp_inv pairs spawns (s, ts)" by (rule zpp.inv_reach [OF zpp_inv_start reach])
  have "zpp_has_main pairs spawns (s, ts)"
    by (rule zpp_role.inv_reach [OF _ reach]) (simp add: zpp_has_main_def zpp_start_def)
  then obtain m where m: "m \<in> set ts" "zpp_leads pairs spawns m" by (auto simp: zpp_has_main_def)
  have moves: "zpp_step late pairs spawns s m = None" using stuck m(1) by (simp add: pool_stuck_def)
  show ?thesis
  proof (cases "unat pairs \<le> spawns")
    case True
    have good: "zpp_asio_inv pairs spawns (s, ts)"
      by (rule zpp_asio.inv_reach [OF zpp_asio_start [OF True] reach])
    then have "pool_stuck (ppa_step list_channel nat_join pairs) (asio_state s, map asio_task ts)"
      using zpp_asio.same_stuck [OF good] stuck by blast
    with good have fin: "ppa_finished (asio_task t)" if "t \<in> set ts" for t
      using listrt.ppa_stuck_done [of pairs "asio_state s" "map asio_task ts"] that by (simp add: zpp_asio_inv_def)
    have calm: "\<not> zcanceling s" using inv True by (auto simp: zpp_inv_def)
    have "zpp_finished t" if t: "t \<in> set ts" for t
    proof -
      have "zpp_fails t = 0" using inv calm t by (auto simp: zpp_inv_def)
      moreover have "\<exists>i. t = ZPairCancel i \<Longrightarrow> False"
      proof (elim exE)
        fix i assume c: "t = ZPairCancel i"
        then have "unat i < unat pairs" using inv t by (auto simp: zpp_inv_def word_less_nat_alt)
        then have "tsum (zpp_cancels (unat i)) ts = 0" using inv calm by (auto simp: zpp_inv_def zpp_pair_inv_def)
        from tsum_zeroD [OF this t] c show False by simp
      qed
      moreover have "asio_pc pc = ChatDone \<Longrightarrow> zpc_out pc" for pc by (cases pc) auto
      moreover have "zpc_out pc \<Longrightarrow> zpp_finished (ZTask i x pc)" for i x pc by (cases pc) auto
      ultimately show ?thesis using fin [OF t] by (cases t) (auto split: if_splits)
    qed
    moreover from this [OF m(1)] m(2) True have "m = ZPairsDone" by (cases m) auto
    ultimately show ?thesis using m(1) True by simp
  next
    case False
    with m(2) moves have "zpp_fails m \<noteq> 0"
      by (cases m) (auto simp: word_less_nat_alt word_le_nat_alt split: if_splits)
    then have "0 < tsum zpp_fails ts" using tsum_member_le [OF m(1), of zpp_fails] by linarith
    with inv have "zcanceling s" by (simp add: zpp_inv_def)
    from zpp_canceled_done [OF inv stuck this] have "\<forall>t \<in> set ts. zpp_finished t" by blast
    moreover from this m have "m = ZPairsFailed" using False by (cases m) auto
    ultimately show ?thesis using m(1) False by simp
  qed
qed

section \<open>Properties\<close>

text \<open>
  C19. The Zig ping-pong is the Asio ping-pong. When every pair can be started, a schedule that one
  program can follow is one that the other can follow, action by action, and they are then in
  corresponding states: the same values in the same queues, the same queues closed, every task and
  \<open>main\<close> at the same place. Requests to cancel never come up.
\<close>

theorem zpp_is_asio:
  assumes "unat pairs \<le> spawns"
  shows "map_option (\<lambda>(s, ts). (asio_state s, map asio_task ts))
      (pool_run (zpp_step late pairs spawns) sched (zpp_start pairs)) =
    pool_run (ppa_step list_channel nat_join pairs) sched (ppa_start list_channel nat_join pairs)"
proof -
  obtain s ts where start: "zpp_start pairs = (s, ts)" by (cases "zpp_start pairs")
  have "zpp_asio_inv pairs spawns (s, ts)" using zpp_asio_start [OF assms] start by simp
  from zpp_asio.same_run [OF this] zpp_start_same [of pairs] show ?thesis by (simp add: start)
qed

text \<open>One pair, up to the first number in \<open>a_to_b\<close>.\<close>

theorem zpp_is_asio_witness:
  "\<exists>s ts. pool_run (zpp_step (\<lambda>s t. False) 1 1) [0, 1, 2] (zpp_start 1) = Some (s, ts) \<and>
    pool_run (ppa_step list_channel nat_join 1) [0, 1, 2] (ppa_start list_channel nat_join 1) =
      Some (asio_state s, map asio_task ts) \<and> q_ab (zpairs s ! 0) = ([0], False)"
proof -
  obtain s ts where run: "pool_run (zpp_step (\<lambda>s t. False) 1 1) [0, 1, 2] (zpp_start 1) = Some (s, ts)"
    and ab: "q_ab (zpairs s ! 0) = ([0], False)"
    by (simp add: zpp_start_def zpp_new_def set_pair_def set_queues_def q_out_def zpp_capacity_def Let_def)
  from zpp_is_asio [of 1 1 "\<lambda>s t. False" "[0, 1, 2]"] run ab show ?thesis by auto
qed

text \<open>
  C20. How the Zig ping-pong ends. Whatever the interleaving, however many of the pairs can be started
  and whenever a task notices that it has been cancelled, every run is bounded, and one that cannot go
  on has every task returned. If every pair was started, \<open>main\<close> returns normally, every queue is empty
  and in every pair just the queue of the side that got the last number is closed; otherwise \<open>main\<close>
  returns the error after all tasks it had started.
\<close>

theorem zpp_outcomes:
  assumes "pool_run (zpp_step late pairs spawns) sched (zpp_start pairs) = Some (s, ts)"
  shows "length sched \<le> unat pairs * (2 * unat (zig_per_pair pairs) + 12) + 2 \<and>
    (pool_stuck (zpp_step late pairs spawns) (s, ts) \<longrightarrow> (\<forall>t \<in> set ts. zpp_finished t) \<and>
      (if unat pairs \<le> spawns
       then ZPairsDone \<in> set ts \<and> (\<forall>j < unat pairs.
         q_ab (zpairs s ! j) = ([], even (unat (zig_per_pair pairs))) \<and>
         q_ba (zpairs s ! j) = ([], odd (unat (zig_per_pair pairs))))
       else ZPairsFailed \<in> set ts))"
proof -
  note reach = pool_run_reach [OF assms]
  have "zpp_weight pairs (zpp_start pairs) = unat pairs * (2 * unat (zig_per_pair pairs) + 12) + 2"
    by (simp add: zpp_weight_def zpp_start_def zpp_new_def zpair_weight_def zq_weight_def sum_list_replicate)
  with zpp.run_length [OF zpp_inv_start assms]
  have "length sched \<le> unat pairs * (2 * unat (zig_per_pair pairs) + 12) + 2" by linarith
  moreover have "q_ab (zpairs s ! j) = ([], even (unat (zig_per_pair pairs))) \<and>
      q_ba (zpairs s ! j) = ([], odd (unat (zig_per_pair pairs)))"
    if stuck: "pool_stuck (zpp_step late pairs spawns) (s, ts)" and enough: "unat pairs \<le> spawns" and j: "j < unat pairs" for j
  proof -
    have good: "zpp_asio_inv pairs spawns (s, ts)"
      by (rule zpp_asio.inv_reach [OF zpp_asio_start [OF enough] reach])
    then have "pool_stuck (ppa_step list_channel nat_join pairs) (asio_state s, map asio_task ts)"
      using zpp_asio.same_stuck [OF good] stuck by blast
    moreover from good have "listrt.ppa_inv pairs (asio_state s, map asio_task ts)" "length (zpairs s) = unat pairs"
      by (simp_all add: zpp_asio_inv_def zpp_inv_def)
    ultimately show ?thesis
      using listrt.stuck_pair_over [of pairs "asio_state s" "map asio_task ts" j] j
      by (simp add: asio_pair_def asio_chan_def zig_per_pair_asio prod_eq_iff)
  qed
  ultimately show ?thesis using zpp_ends [OF reach] by auto
qed

text \<open>Two pairs of which one can be started; its coroutine and \<open>main\<close> end before its tasks have moved much.\<close>

theorem zpp_outcomes_witness:
  "\<exists>s ts. pool_reach (zpp_step (\<lambda>s t. False) 2 1) (zpp_start 2) (s, ts) \<and>
    (\<forall>t \<in> set ts. zpp_finished t) \<and> ZPairsFailed \<in> set ts"
proof -
  obtain s ts where stop: "pool_reach (zpp_step (\<lambda>s t. False) 2 1) (zpp_start 2) (s, ts)"
      "pool_stuck (zpp_step (\<lambda>s t. False) 2 1) (s, ts)"
    using zpp.reaches_stuck [OF zpp_inv_start] by (metis prod.exhaust)
  from reach_pool_run [OF stop(1)] obtain sched
    where "pool_run (zpp_step (\<lambda>s t. False) 2 1) sched (zpp_start 2) = Some (s, ts)" by blast
  from zpp_outcomes [OF this] stop show ?thesis by auto
qed

end
