(* ===== verification/Sleep_Zig.thy ===== *)
theory Sleep_Zig
  imports Sleep Task_Translation
begin

text \<open>
  \<open>src/sleep.zig\<close>: \<open>main\<close> starts the tasks in a group of \<open>std.Io\<close>; each sleeps and counts itself.
  \<open>group.concurrent\<close> may fail, then \<open>main\<close> cancels the group, a task that is still asleep returns
  without counting, and \<open>main\<close> returns the error. The milliseconds are cast to a signed 64-bit
  integer, which is checked, as in the safe build modes: a task for which it fails panics. When neither
  happens the program is, action by action, the Asio sleep (\<open>cpp/sleep_asio.cpp\<close>).
\<close>

section \<open>The program\<close>

record zsl_state =
  zcounter :: u64
  zsl_active :: nat
  zsl_canceling :: bool
  zsl_dead :: bool

text \<open>
  \<open>ZNap\<close> is a task at its start, \<open>ZNapping\<close> one in \<open>std.Io.sleep\<close>. \<open>ZNapReturn\<close> tells whether the task
  returns \<open>error.Canceled\<close>; \<open>ZNapsEnd\<close> is \<open>main\<close> with its exit code.
\<close>

datatype zsl_task =
    ZNap
  | ZNapping u64
  | ZCount
  | ZNapReturn bool
  | ZNapReturned bool
  | ZNapPanic
  | ZSpawnNaps u64
  | ZAwaitNaps
  | ZNapsEnd nat
  | ZCancelNaps
  | ZNapsFailed

text \<open>\<open>@intCast\<close> of a \<open>u64\<close> to an \<open>i64\<close> fits.\<close>

definition fits_i64 :: "u64 \<Rightarrow> bool" where
  "fits_i64 w \<longleftrightarrow> unat w < 2 ^ 63"

fun zsl_nap_step :: "bool \<Rightarrow> u64 \<Rightarrow> zsl_state \<Rightarrow> zsl_task \<Rightarrow> (zsl_state \<times> zsl_task) option" where
  "zsl_nap_step late sleep_ms s ZNap =
     (if 0 < sleep_ms
      then (if fits_i64 sleep_ms then Some (s, ZNapping sleep_ms) else Some (s\<lparr>zsl_dead := True\<rparr>, ZNapPanic))
      else Some (s, ZCount))"
| "zsl_nap_step late sleep_ms s (ZNapping ms) =
     Some (s, if zsl_canceling s \<and> \<not> late then ZNapReturn True else ZCount)"
| "zsl_nap_step late sleep_ms s ZCount = Some (s\<lparr>zcounter := zcounter s + 1\<rparr>, ZNapReturn False)"
| "zsl_nap_step late sleep_ms s (ZNapReturn c) = Some (s\<lparr>zsl_active := zsl_active s - 1\<rparr>, ZNapReturned c)"
| "zsl_nap_step late sleep_ms s t = None"

text \<open>\<open>main\<close>; \<open>spawns\<close> is the number of calls of \<open>group.concurrent\<close> that succeed.\<close>

fun zsl_main_step :: "u64 \<Rightarrow> nat \<Rightarrow> (zsl_state, zsl_task) task_step" where
  "zsl_main_step num_tasks spawns s (ZSpawnNaps i) =
     Some (if i < num_tasks
           then (if unat i < spawns then (s\<lparr>zsl_active := zsl_active s + 1\<rparr>, ZSpawnNaps (i + 1), [ZNap])
                 else (s\<lparr>zsl_canceling := True\<rparr>, ZCancelNaps, []))
           else (s, ZAwaitNaps, []))"
| "zsl_main_step num_tasks spawns s ZAwaitNaps =
     (if zsl_active s = 0 then Some (s, ZNapsEnd (if zcounter s \<noteq> num_tasks then 3 else 0), []) else None)"
| "zsl_main_step num_tasks spawns s ZCancelNaps = (if zsl_active s = 0 then Some (s, ZNapsFailed, []) else None)"
| "zsl_main_step num_tasks spawns s t = None"

fun zsl_step ::
  "(zsl_state \<Rightarrow> zsl_task \<Rightarrow> bool) \<Rightarrow> u64 \<Rightarrow> u64 \<Rightarrow> nat \<Rightarrow> (zsl_state, zsl_task) task_step"
where
  "zsl_step late num_tasks sleep_ms spawns s t =
     (if zsl_dead s then None
      else case zsl_nap_step (late s t) sleep_ms s t of
        Some (s', t') \<Rightarrow> Some (s', t', [])
      | None \<Rightarrow> zsl_main_step num_tasks spawns s t)"

definition zsl_start :: "(zsl_state, zsl_task) pool" where
  "zsl_start = (\<lparr>zcounter = 0, zsl_active = 0, zsl_canceling = False, zsl_dead = False\<rparr>, [ZSpawnNaps 0])"

fun zsl_finished :: "zsl_task \<Rightarrow> bool" where
  "zsl_finished (ZNapReturned c) = True"
| "zsl_finished (ZNapsEnd code) = True"
| "zsl_finished ZNapsFailed = True"
| "zsl_finished t = False"

section \<open>The program is the Asio sleep\<close>

definition sla_of :: "zsl_state \<Rightarrow> nat sla_state" where
  "sla_of s = \<lparr>counter = zcounter s, sleepers = zsl_active s\<rparr>"

fun sla_task_of :: "zsl_task \<Rightarrow> sla_task" where
  "sla_task_of ZNap = AsioSleep"
| "sla_task_of (ZNapping ms) = AsioTimer ms"
| "sla_task_of ZCount = AsioCount"
| "sla_task_of (ZNapReturn c) = AsioReturn"
| "sla_task_of (ZNapReturned c) = AsioReturned"
| "sla_task_of ZNapPanic = AsioReturned"
| "sla_task_of (ZSpawnNaps i) = SpawnSleeps i"
| "sla_task_of ZAwaitNaps = JoinSleeps"
| "sla_task_of (ZNapsEnd code) = SleepsExit (int code)"
| "sla_task_of ZCancelNaps = AsioReturned"
| "sla_task_of ZNapsFailed = AsioReturned"

definition zsl_calm :: "u64 \<Rightarrow> u64 \<Rightarrow> nat \<Rightarrow> (zsl_state, zsl_task) pool \<Rightarrow> bool" where
  "zsl_calm n ms spawns c \<longleftrightarrow> unat n \<le> spawns \<and> fits_i64 ms \<and> \<not> zsl_canceling (fst c) \<and> \<not> zsl_dead (fst c) \<and>
     ZCancelNaps \<notin> set (snd c)"

interpretation zsl_sla: task_translation "zsl_step late n ms spawns" "zsl_calm n ms spawns" "sla_step nat_join n ms"
    sla_of sla_task_of for late n ms spawns
proof unfold_locales
  show "sla_step nat_join n ms (sla_of s) (sla_task_of t) =
      map_option (\<lambda>(s', t', new). (sla_of s', sla_task_of t', map sla_task_of new)) (zsl_step late n ms spawns s t)"
    if "zsl_calm n ms spawns (s, ts)" "t \<in> set ts" for s ts t
    using that by (cases t) (auto simp: zsl_calm_def sla_of_def nat_join_def word_less_nat_alt)
  show "zsl_calm n ms spawns c'" if calm: "zsl_calm n ms spawns c" and step: "pool_step (zsl_step late n ms spawns) c c'" for c c'
    using step
  proof cases
    case (run_task i ts s s' t' new)
    from calm run_task have "\<not> zsl_canceling s' \<and> \<not> zsl_dead s' \<and> t' \<noteq> ZCancelNaps \<and> ZCancelNaps \<notin> set new"
      by (cases "ts ! i") (auto simp: zsl_calm_def word_less_nat_alt split: if_splits)
    with calm run_task(1,2) set_upd_subset [of ts i t' new] show ?thesis by (auto simp: zsl_calm_def)
  qed
qed

section \<open>Every run\<close>

text \<open>Tasks that have not counted themselves, that have not returned, \<open>main\<close>, and \<open>main\<close> after a failure.\<close>

fun zsl_uncounted :: "u64 \<Rightarrow> zsl_task \<Rightarrow> nat" where
  "zsl_uncounted n ZNap = 1"
| "zsl_uncounted n (ZNapping ms) = 1"
| "zsl_uncounted n ZCount = 1"
| "zsl_uncounted n ZNapPanic = 1"
| "zsl_uncounted n (ZSpawnNaps i) = unat n - unat i"
| "zsl_uncounted n t = 0"

fun zsl_alive :: "zsl_task \<Rightarrow> nat" where
  "zsl_alive ZNap = 1"
| "zsl_alive (ZNapping ms) = 1"
| "zsl_alive ZCount = 1"
| "zsl_alive ZNapPanic = 1"
| "zsl_alive (ZNapReturn c) = 1"
| "zsl_alive t = 0"

fun zsl_leads :: "zsl_task \<Rightarrow> nat" where
  "zsl_leads (ZSpawnNaps i) = 1"
| "zsl_leads ZAwaitNaps = 1"
| "zsl_leads (ZNapsEnd code) = 1"
| "zsl_leads ZCancelNaps = 1"
| "zsl_leads ZNapsFailed = 1"
| "zsl_leads t = 0"

fun zsl_fails :: "zsl_task \<Rightarrow> nat" where
  "zsl_fails ZCancelNaps = 1"
| "zsl_fails ZNapsFailed = 1"
| "zsl_fails t = 0"

fun zsl_panics :: "zsl_task \<Rightarrow> nat" where
  "zsl_panics ZNapPanic = 1"
| "zsl_panics t = 0"

fun zsl_ended :: "zsl_task \<Rightarrow> nat" where
  "zsl_ended (ZNapsEnd code) = 1"
| "zsl_ended t = 0"

fun zsl_ok :: "u64 \<Rightarrow> nat \<Rightarrow> zsl_task \<Rightarrow> bool" where
  "zsl_ok n spawns (ZSpawnNaps i) \<longleftrightarrow> i \<le> n \<and> unat i \<le> spawns"
| "zsl_ok n spawns ZAwaitNaps \<longleftrightarrow> unat n \<le> spawns"
| "zsl_ok n spawns (ZNapsEnd code) \<longleftrightarrow> unat n \<le> spawns \<and> code = 0"
| "zsl_ok n spawns ZCancelNaps \<longleftrightarrow> spawns < unat n"
| "zsl_ok n spawns ZNapsFailed \<longleftrightarrow> spawns < unat n"
| "zsl_ok n spawns t \<longleftrightarrow> True"

fun zsl_weight :: "u64 \<Rightarrow> zsl_task \<Rightarrow> nat" where
  "zsl_weight n ZNap = 4"
| "zsl_weight n (ZNapping ms) = 3"
| "zsl_weight n ZCount = 2"
| "zsl_weight n (ZNapReturn c) = 1"
| "zsl_weight n (ZSpawnNaps i) = 5 * (unat n - unat i) + 2"
| "zsl_weight n ZAwaitNaps = 1"
| "zsl_weight n ZCancelNaps = 1"
| "zsl_weight n t = 0"

definition zsl_inv :: "u64 \<Rightarrow> u64 \<Rightarrow> nat \<Rightarrow> (zsl_state, zsl_task) pool \<Rightarrow> bool" where
  "zsl_inv n ms spawns c \<longleftrightarrow> (case c of (s, ts) \<Rightarrow>
     (\<forall>t \<in> set ts. zsl_ok n spawns t) \<and> tsum zsl_leads ts = 1 \<and> zsl_active s = tsum zsl_alive ts \<and>
     (zsl_canceling s \<longleftrightarrow> 0 < tsum zsl_fails ts) \<and> (zsl_dead s \<longleftrightarrow> 0 < tsum zsl_panics ts) \<and>
     (zsl_dead s \<longrightarrow> \<not> fits_i64 ms) \<and> (0 < tsum zsl_ended ts \<longrightarrow> tsum zsl_alive ts = 0) \<and>
     (\<not> zsl_canceling s \<longrightarrow> unat (zcounter s) + tsum (zsl_uncounted n) ts = unat n))"

text \<open>The sums of the other tasks are \<open>M\<close>, \<open>A\<close>, \<open>F\<close>, \<open>P\<close>, \<open>E\<close>, \<open>U\<close>.\<close>

lemma zsl_step_local:
  assumes step: "zsl_step late n ms spawns s t = Some (s', t', new)" and ok: "zsl_ok n spawns t" and main: "M + zsl_leads t = 1"
    and act: "zsl_active s = A + zsl_alive t" and canc: "zsl_canceling s \<longleftrightarrow> 0 < F + zsl_fails t"
    and dead: "zsl_dead s \<longleftrightarrow> 0 < P + zsl_panics t" "zsl_dead s \<longrightarrow> \<not> fits_i64 ms"
    and over: "0 < E + zsl_ended t \<longrightarrow> A + zsl_alive t = 0"
    and count: "\<not> zsl_canceling s \<longrightarrow> unat (zcounter s) + (U + zsl_uncounted n t) = unat n"
    and others: "E \<le> M" "F \<le> M" "A = 0 \<Longrightarrow> M = 0 \<Longrightarrow> U = 0"
  shows "zsl_ok n spawns t' \<and> (\<forall>u \<in> set new. zsl_ok n spawns u) \<and> M + zsl_leads t' + tsum zsl_leads new = 1 \<and>
    zsl_active s' = A + zsl_alive t' + tsum zsl_alive new \<and> (zsl_canceling s' \<longleftrightarrow> 0 < F + zsl_fails t' + tsum zsl_fails new) \<and>
    (zsl_dead s' \<longleftrightarrow> 0 < P + zsl_panics t' + tsum zsl_panics new) \<and> (zsl_dead s' \<longrightarrow> \<not> fits_i64 ms) \<and>
    (0 < E + zsl_ended t' + tsum zsl_ended new \<longrightarrow> A + zsl_alive t' + tsum zsl_alive new = 0) \<and>
    (\<not> zsl_canceling s' \<longrightarrow> unat (zcounter s') + (U + zsl_uncounted n t' + tsum (zsl_uncounted n) new) = unat n) \<and>
    zsl_weight n t' + tsum (zsl_weight n) new < zsl_weight n t"
proof -
  have live: "\<not> zsl_dead s" using step by (auto split: if_splits)
  show ?thesis
  proof (cases t)
    case ZCount
    have "unat (zcounter s + 1) = Suc (unat (zcounter s))" if "unat (zcounter s) + Suc U = unat n"
    proof -
      have "Suc (unat (zcounter s)) < 2 ^ 64" using that unat_u64_less [of n] by simp
      then show ?thesis by (simp add: unat_word_ariths)
    qed
    with ZCount step live ok main act canc dead over count show ?thesis by auto
  next
    case (ZSpawnNaps i)
    show ?thesis
    proof (cases "i < n")
      case True
      have "unat n - unat i = Suc (unat n - Suc (unat i))" using True by (simp add: word_less_nat_alt)
      with True ZSpawnNaps step live ok main act canc dead over count others(1,2) unat_inc [OF True] inc_le [OF True] show ?thesis
        by (auto simp: word_less_nat_alt split: if_splits)
    next
      case False
      with ZSpawnNaps ok have "i = n" by simp
      with False ZSpawnNaps step live ok main act canc dead over count others(1,2) show ?thesis by auto
    qed
  next
    case ZAwaitNaps
    with step live have e: "s' = s" "new = []" "zsl_active s = 0" "t' = ZNapsEnd (if zcounter s \<noteq> n then 3 else 0)"
      by (auto split: if_splits)
    with act main ZAwaitNaps have "A = 0" "M = 0" by auto
    with others have U: "U = 0" "F = 0" by auto
    with canc ZAwaitNaps have "\<not> zsl_canceling s" by simp
    with count U ZAwaitNaps have "zcounter s = n" by (simp add: unsigned_word_eqI)
    with e ZAwaitNaps ok main act canc dead over count live \<open>A = 0\<close> show ?thesis by simp
  qed (use step live ok main act canc dead over count others(1,2) in \<open>auto split: if_splits\<close>)
qed

lemma zsl_inv_step:
  assumes "zsl_inv n ms spawns c" and "pool_step (zsl_step late n ms spawns) c c'"
  shows "zsl_inv n ms spawns c' \<and> tsum (zsl_weight n) (snd c') < tsum (zsl_weight n) (snd c)"
  using assms(2)
proof cases
  case (run_task i ts s s' t' new)
  note i = run_task(3)
  let ?r = "\<lambda>f. tsum f (others i ts)"
  have inv: "\<forall>t \<in> set ts. zsl_ok n spawns t" "tsum zsl_leads ts = 1" "zsl_active s = tsum zsl_alive ts"
    "zsl_canceling s \<longleftrightarrow> 0 < tsum zsl_fails ts" "zsl_dead s \<longleftrightarrow> 0 < tsum zsl_panics ts"
    "zsl_dead s \<longrightarrow> \<not> fits_i64 ms" "0 < tsum zsl_ended ts \<longrightarrow> tsum zsl_alive ts = 0"
    "\<not> zsl_canceling s \<longrightarrow> unat (zcounter s) + tsum (zsl_uncounted n) ts = unat n"
    using assms(1) unfolding run_task zsl_inv_def prod.case by blast+
  have le: "?r zsl_ended \<le> ?r zsl_leads" "?r zsl_fails \<le> ?r zsl_leads"
  proof -
    have "zsl_ended t \<le> zsl_leads t" "zsl_fails t \<le> zsl_leads t" for t by (cases t; simp)+
    then show "?r zsl_ended \<le> ?r zsl_leads" "?r zsl_fails \<le> ?r zsl_leads" by (blast intro: tsum_le_mono)+
  qed
  have quiet: "?r (zsl_uncounted n) = 0" if "?r zsl_alive = 0" "?r zsl_leads = 0"
  proof (rule tsum_zeroI)
    fix u assume "u \<in> set (others i ts)"
    with that show "zsl_uncounted n u = 0"
      using tsum_zeroD [OF that(1), of u] tsum_zeroD [OF that(2), of u] by (cases u) auto
  qed
  have "zsl_ok n spawns (ts ! i)" using inv(1) i by simp
  from zsl_step_local [OF run_task(4) this inv(2-4) [unfolded tsum_at [OF i]] inv(5) [unfolded tsum_at [OF i]] inv(6)
      inv(7) [unfolded tsum_at [OF i]] inv(8) [unfolded tsum_at [OF i]] le quiet]
  show ?thesis
    using inv(1) set_upd_subset [of ts i t' new]
    unfolding run_task zsl_inv_def prod.case snd_conv tsum_at [OF i] tsum_upd [OF i] by (auto simp: add.assoc)
qed

interpretation zsl: task_terminates "zsl_step late n ms spawns" "zsl_inv n ms spawns" "\<lambda>c. tsum (zsl_weight n) (snd c)"
  for late n ms spawns
  by unfold_locales (use zsl_inv_step in blast)+

lemma zsl_inv_start: "zsl_inv n ms spawns zsl_start"
  by (simp add: zsl_inv_def zsl_start_def)

lemma zsl_ended_counts:
  assumes inv: "zsl_inv n ms spawns (s, ts)" and t: "ZNapsEnd code \<in> set ts"
  shows "code = 0 \<and> zcounter s = n"
proof -
  from inv have sums: "tsum zsl_leads ts = 1" "zsl_canceling s \<longleftrightarrow> 0 < tsum zsl_fails ts"
    "0 < tsum zsl_ended ts \<longrightarrow> tsum zsl_alive ts = 0" "\<not> zsl_canceling s \<longrightarrow> unat (zcounter s) + tsum (zsl_uncounted n) ts = unat n"
    and ok: "zsl_ok n spawns (ZNapsEnd code)"
    using t unfolding zsl_inv_def prod.case by blast+
  obtain i where i: "i < length ts" "ts ! i = ZNapsEnd code" using t by (auto simp: in_set_conv_nth)
  from sums(1) have others: "tsum zsl_leads (others i ts) = 0" unfolding tsum_at [OF i(1)] i(2) by simp
  have "0 < tsum zsl_ended ts" unfolding tsum_at [OF i(1)] i(2) by simp
  with sums(3) have alive: "tsum zsl_alive ts = 0" by simp
  have quiet: "zsl_uncounted n u = 0 \<and> zsl_fails u = 0" if u: "u \<in> set (others i ts)" for u
    using tsum_zeroD [OF others u] tsum_zeroD [OF alive, of u] others_subset [of i ts] u by (cases u) auto
  have "tsum (zsl_uncounted n) (others i ts) = 0" "tsum zsl_fails (others i ts) = 0"
    using quiet by (blast intro: tsum_zeroI)+
  then have "tsum (zsl_uncounted n) ts = 0" "tsum zsl_fails ts = 0" unfolding tsum_at [OF i(1)] i(2) by simp_all
  with sums(2,4) ok show ?thesis by (simp add: unsigned_word_eqI)
qed

lemma zsl_stuck_done:
  assumes inv: "zsl_inv n ms spawns (s, ts)" and stuck: "pool_stuck (zsl_step late n ms spawns) (s, ts)"
    and live: "\<not> zsl_dead s"
  shows "(\<forall>t \<in> set ts. zsl_finished t) \<and> (if unat n \<le> spawns then ZNapsEnd 0 else ZNapsFailed) \<in> set ts"
proof -
  have none: "zsl_step late n ms spawns s u = None" if "u \<in> set ts" for u
    using stuck that by (simp add: pool_stuck_def)
  from inv have sums: "tsum zsl_leads ts = 1" "zsl_active s = tsum zsl_alive ts" "zsl_dead s \<longleftrightarrow> 0 < tsum zsl_panics ts"
    and oks: "\<forall>u \<in> set ts. zsl_ok n spawns u"
    unfolding zsl_inv_def prod.case by blast+
  have calm: "zsl_panics u = 0" if "u \<in> set ts" for u
    using live sums(3) tsum_member_le [OF that, of zsl_panics] by linarith
  have idle: "zsl_alive u = 0" if u: "u \<in> set ts" for u
    using none [OF u] live calm [OF u] by (cases u) (auto split: if_splits)
  then have "zsl_active s = 0" using sums(2) by (simp add: tsum_zero_iff)
  then have fin: "zsl_finished u" if u: "u \<in> set ts" for u
    using none [OF u] live calm [OF u] by (cases u) (auto split: if_splits)
  obtain m where m: "m \<in> set ts" "zsl_leads m \<noteq> 0" using sums(1) by (metis tsum_zeroI zero_neq_one)
  with fin [OF m(1)] oks have "m = (if unat n \<le> spawns then ZNapsEnd 0 else ZNapsFailed)" by (cases m) auto
  with m(1) fin show ?thesis by auto
qed

section \<open>Properties\<close>

text \<open>
  C24. The Zig sleep program. When every task can be started and the milliseconds fit, a schedule of it is one of the
  Asio program on the same numbers, action by action. In every case a run is bounded, the exit code 3
  for missing tasks never comes up, and a run that cannot go on has ended: with exit code 0 and every
  task counted, with the error after all tasks that were started when one could not be, or in a panic
  when the milliseconds do not fit.
\<close>

theorem zsl_outcomes:
  assumes "pool_run (zsl_step late n ms spawns) sched zsl_start = Some (s, ts)"
  shows "length sched \<le> 5 * unat n + 2 \<and> (\<forall>code. ZNapsEnd code \<in> set ts \<longrightarrow> code = 0 \<and> zcounter s = n) \<and>
    (unat n \<le> spawns \<and> fits_i64 ms \<longrightarrow>
      pool_run (sla_step nat_join n ms) sched (sla_start nat_join) = Some (sla_of s, map sla_task_of ts)) \<and>
    (pool_stuck (zsl_step late n ms spawns) (s, ts) \<longrightarrow>
      (if zsl_dead s then \<not> fits_i64 ms
       else (\<forall>t \<in> set ts. zsl_finished t) \<and> (if unat n \<le> spawns then ZNapsEnd 0 else ZNapsFailed) \<in> set ts))"
proof -
  have inv: "zsl_inv n ms spawns (s, ts)" by (rule zsl.inv_reach [OF zsl_inv_start pool_run_reach [OF assms]])
  have "length sched \<le> 5 * unat n + 2"
    using zsl.run_length [OF zsl_inv_start assms] by (simp add: zsl_start_def)
  moreover have "pool_run (sla_step nat_join n ms) sched (sla_start nat_join) = Some (sla_of s, map sla_task_of ts)"
    if "unat n \<le> spawns" "fits_i64 ms"
  proof -
    have "zsl_calm n ms spawns zsl_start" using that by (simp add: zsl_calm_def zsl_start_def)
    from zsl_sla.same_run [OF this [unfolded zsl_start_def], of sched late] assms show ?thesis
      by (simp add: zsl_start_def sla_start_def sla_of_def nat_join_def)
  qed
  moreover have "zsl_dead s \<longrightarrow> \<not> fits_i64 ms" using inv by (simp add: zsl_inv_def)
  ultimately show ?thesis using zsl_ended_counts [OF inv] zsl_stuck_done [OF inv] by auto
qed

text \<open>Two tasks of which one can be started; it is cancelled in its sleep.\<close>

theorem zsl_outcomes_witness:
  "\<exists>s. pool_run (zsl_step (\<lambda>s t. False) 2 1 1) [0, 1, 0, 1, 1, 0] zsl_start = Some (s, [ZNapsFailed, ZNapReturned True]) \<and>
    length [0, 1, 0, 1, 1, 0 :: nat] \<le> 5 * unat (2 :: u64) + 2 \<and>
    (\<forall>t \<in> set [ZNapsFailed, ZNapReturned True]. zsl_finished t)"
proof -
  obtain s where run: "pool_run (zsl_step (\<lambda>s t. False) 2 1 1) [0, 1, 0, 1, 1, 0] zsl_start = Some (s, [ZNapsFailed, ZNapReturned True])"
    and live: "\<not> zsl_dead s"
    by (simp add: zsl_start_def fits_i64_def)
  have "pool_stuck (zsl_step (\<lambda>s t. False) 2 1 1) (s, [ZNapsFailed, ZNapReturned True])" by (simp add: pool_stuck_def)
  with zsl_outcomes [OF run] run live show ?thesis by auto
qed

end
