(* ===== verification/Zig_Programs.thy ===== *)
theory Zig_Programs
  imports Zig_Command_Line Ping_Pong_Zig Sleep_Zig
begin

text \<open>
  The command lines of the Zig ping-pong and sleep programs. Each has its own copy of the argument
  loop of the worker pool, with its own options (\<open>zig_args\<close>). On options that the C++ programs also
  understand, all three ping-pongs run the same pairs with the same share of the total, and the sleep
  programs start the same tasks.
\<close>

section \<open>The argument loop\<close>

fun zig_args :: "(string \<Rightarrow> (u64 \<Rightarrow> 'c \<Rightarrow> 'c) option) \<Rightarrow> string list \<Rightarrow> 'c \<Rightarrow> zig_stop + 'c" where
  "zig_args target [] cfg = Inr cfg"
| "zig_args target (a # as) cfg =
     (if backend_flag a then zig_args target as cfg
      else case target (arg_key a) of
        None \<Rightarrow> Inl (ZigExit 1)
      | Some set_value \<Rightarrow>
          if length (arg_key a) < length a then
            (case parse_unsigned (arg_value a) of
               Inl e \<Rightarrow> Inl (ZigError e)
             | Inr v \<Rightarrow> zig_args target as (set_value v cfg))
          else (case as of
              [] \<Rightarrow> Inl (ZigExit 2)
            | b # bs \<Rightarrow> (case parse_unsigned b of
                Inl e \<Rightarrow> Inl (ZigError e)
              | Inr v \<Rightarrow> zig_args target bs (set_value v cfg))))"

text \<open>The loop of the worker pool is the same.\<close>

lemma zwp_args_same: "zwp_args args cfg = zig_args zwp_target args cfg"
  by (induction args cfg rule: zwp_args.induct) (auto split: option.splits sum.splits list.splits)

text \<open>
  With the options in the form \<open>--name=value\<close>, in plain decimal digits, the loop ends with the values
  the last ones give, as \<open>strtoull\<close> reads them.
\<close>

definition zig_plain :: "string list \<Rightarrow> string \<Rightarrow> bool" where
  "zig_plain keys a \<longleftrightarrow> CHR ''_'' \<notin> set a \<and> (\<exists>k v. k \<in> set keys \<and> a = k @ ''='' @ v)"

lemma zig_args_plain:
  assumes keys: "\<And>k. k \<in> set keys \<Longrightarrow> CHR ''='' \<notin> set k"
    and target: "\<And>k v cfg set_value. k \<in> set keys \<Longrightarrow> target k = Some set_value \<Longrightarrow>
      get (set_value v cfg) = (if k = key then v else get cfg)"
    and key: "key \<in> set keys"
  shows "filter (\<lambda>a. \<not> backend_flag a) zargs = args \<Longrightarrow> \<forall>a \<in> set args. zig_plain keys a \<Longrightarrow>
    zig_args target zargs cfg = Inr cfg' \<Longrightarrow> get cfg' = flag_value (key @ ''='') args (get cfg)"
proof (induction zargs arbitrary: args cfg)
  case Nil
  then show ?case by simp
next
  case (Cons a zargs)
  show ?case
  proof (cases "backend_flag a")
    case True
    with Cons show ?thesis by simp
  next
    case False
    define rest where "rest = filter (\<lambda>a. \<not> backend_flag a) zargs"
    with False Cons.prems(1) have args: "args = a # rest" "filter (\<lambda>a. \<not> backend_flag a) zargs = rest" by auto
    with Cons.prems(2) obtain k v where a: "CHR ''_'' \<notin> set a" "k \<in> set keys" "a = k @ ''='' @ v"
      by (auto simp: zig_plain_def)
    from arg_parts [OF keys [OF a(2)], of v] a(3) have parts: "arg_key a = k" "arg_value a = v" "length (arg_key a) < length a"
      by simp_all
    with Cons.prems(3) False obtain set_value n where step: "target k = Some set_value" "parse_unsigned v = Inr n"
      "zig_args target zargs (set_value n cfg) = Inr cfg'"
      by (auto split: option.splits sum.splits)
    have n: "strtoull v = n" using parse_unsigned_strtoull [OF step(2)] a by simp
    have "prefix (key @ ''='') a \<longleftrightarrow> k = key"
    proof
      assume "prefix (key @ ''='') a"
      then obtain u where "a = key @ ''='' @ u" by (auto simp: prefix_def)
      with arg_parts(1) [OF keys [OF key], of u] parts(1) show "k = key" by simp
    qed (simp add: a(3) prefix_def)
    with target [OF a(2) step(1), of n cfg] n a(3)
    have "get (set_value n cfg) = (if prefix (key @ ''='') a then strtoull (drop (length (key @ ''='')) a) else get cfg)"
      by simp
    with Cons.IH [OF args(2) _ step(3)] Cons.prems(2) args(1) show ?thesis by (simp add: flag_value_Cons)
  qed
qed

section \<open>The ping-pong\<close>

definition zpp_target :: "string \<Rightarrow> (u64 \<Rightarrow> u64 \<Rightarrow> u64) option" where
  "zpp_target key = (if key = ''--pairs'' then Some (\<lambda>v pairs. v) else None)"

text \<open>\<open>main\<close>: parse, take at least one pair, choose the backend (without one \<open>io\<close> exits), run.\<close>

definition zpp_main :: "string list \<Rightarrow> zig_stop + u64 \<times> (zpp_state, zpp_task) pool" where
  "zpp_main args =
     (case zig_args zpp_target args 1 of
        Inl e \<Rightarrow> Inl e
      | Inr p \<Rightarrow>
          let pairs = if p = 0 then 1 else p
          in if \<exists>a \<in> set args. backend_flag a then Inr (pairs, zpp_start pairs) else Inl (ZigExit 1))"

section \<open>Sleep\<close>

definition zsl_target :: "string \<Rightarrow> (u64 \<Rightarrow> u64 \<times> u64 \<Rightarrow> u64 \<times> u64) option" where
  "zsl_target key =
     (if key = ''--tasks'' then Some (\<lambda>v opt. (v, snd opt))
      else if key = ''--sleep-ms'' then Some (\<lambda>v opt. (fst opt, v))
      else None)"

text \<open>The number of tasks and the milliseconds, with the pool of the program.\<close>

definition zsl_main :: "string list \<Rightarrow> zig_stop + (u64 \<times> u64) \<times> (zsl_state, zsl_task) pool" where
  "zsl_main args =
     (case zig_args zsl_target args (10000, 1) of
        Inl e \<Rightarrow> Inl e
      | Inr opt \<Rightarrow> if \<exists>a \<in> set args. backend_flag a then Inr (opt, zsl_start) else Inl (ZigExit 1))"

section \<open>Properties\<close>

text \<open>
  C25. The programs of a benchmark agree on what to run. When the options of a Zig program, apart from
  the choice of its backend, are of the form \<open>--name=value\<close> with plain digits and it starts, the C++
  programs start on the same options: all three ping-pongs with the same pairs and the same share of
  the total for each, and all three sleep programs with the same number of tasks and milliseconds.
\<close>

theorem zig_options_agree:
  assumes "filter (\<lambda>a. \<not> backend_flag a) zargs = args"
  shows "((\<forall>a \<in> set args. zig_plain [''--pairs''] a) \<longrightarrow> zpp_main zargs = Inr (pairs, start) \<longrightarrow>
      start = zpp_start pairs \<and> ppp_main ph args = Inr (pairs, ppp_start ph pairs) \<and>
      ppa_main ch jn args = Inr (pairs, ppa_start ch jn pairs) \<and>
      photon_per_pair pairs = zig_per_pair pairs \<and> asio_per_pair pairs = zig_per_pair pairs) \<and>
    ((\<forall>a \<in> set args. zig_plain [''--tasks'', ''--sleep-ms''] a) \<longrightarrow> zsl_main zargs = Inr ((n, ms), naps) \<longrightarrow>
      naps = zsl_start \<and> parse_args slp_arg args slp_default = Inr \<lparr>g_tasks = n, g_sleep_ms = ms\<rparr> \<and>
      (\<exists>one_thread. parse_args sla_arg args (False, 10000, 1) = Inr (one_thread, n, ms)))"
proof (intro conjI impI)
  assume plain: "\<forall>a \<in> set args. zig_plain [''--pairs''] a" and main: "zpp_main zargs = Inr (pairs, start)"
  from main obtain p where p: "zig_args zpp_target zargs 1 = Inr p" "pairs = (if p = 0 then 1 else p)" "start = zpp_start pairs"
    by (auto simp: zpp_main_def Let_def split: sum.splits if_splits)
  have "p = flag_value (''--pairs'' @ ''='') args 1"
    by (rule zig_args_plain [where target = zpp_target and keys = "[''--pairs'']" and get = "\<lambda>x. x",
        OF _ _ _ assms plain p(1)]) (auto simp: zpp_target_def split: if_splits)
  then have val: "p = flag_value ''--pairs='' args 1" by simp
  obtain a where a: "parse_args ppp_arg args 1 = Inr a" using ppp_flag.parse_goes by blast
  obtain b where b: "parse_args ppa_arg args (False, 1) = Inr b" using ppa_flag.parse_goes by blast
  from ppp_flag.parse_field [OF a] ppa_flag.parse_field [OF b] val have "a = p" "snd b = p" by simp_all
  then show "ppp_main ph args = Inr (pairs, ppp_start ph pairs)" "ppa_main ch jn args = Inr (pairs, ppa_start ch jn pairs)"
    using a b p(2) by (auto simp: ppp_main_def ppa_main_def Let_def photon_pairs_def asio_pairs_def split: prod.splits)
  show "start = zpp_start pairs" by (rule p(3))
  show "asio_per_pair pairs = zig_per_pair pairs" by (rule zig_per_pair_asio [symmetric])
  then show "photon_per_pair pairs = zig_per_pair pairs"
    by (simp add: photon_per_pair_def asio_per_pair_def photon_total_def asio_TOTAL_def)
next
  assume plain: "\<forall>a \<in> set args. zig_plain [''--tasks'', ''--sleep-ms''] a" and main: "zsl_main zargs = Inr ((n, ms), naps)"
  from main have opt: "zig_args zsl_target zargs (10000, 1) = Inr (n, ms)" and naps: "naps = zsl_start"
    by (auto simp: zsl_main_def split: sum.splits if_splits)
  show "naps = zsl_start" by (rule naps)
  have "fst (n, ms) = flag_value (''--tasks'' @ ''='') args (fst (10000, 1 :: u64))"
    by (rule zig_args_plain [where target = zsl_target and keys = "[''--tasks'', ''--sleep-ms'']" and get = fst,
        OF _ _ _ assms plain opt]) (auto simp: zsl_target_def split: if_splits)
  then have n: "n = flag_value ''--tasks='' args 10000" by simp
  have "snd (n, ms) = flag_value (''--sleep-ms'' @ ''='') args (snd (10000 :: u64, 1))"
    by (rule zig_args_plain [where target = zsl_target and keys = "[''--tasks'', ''--sleep-ms'']" and get = snd,
        OF _ _ _ assms plain opt]) (auto simp: zsl_target_def split: if_splits)
  then have ms: "ms = flag_value ''--sleep-ms='' args 1" by simp
  have "sleep_flag a" if "a \<in> set args" for a
    using plain that by (auto simp: zig_plain_def sleep_flag_def prefix_def)
  with sleep_parse_spec [of args slp_default "(False, 10000, 1)"] n ms
  show "parse_args slp_arg args slp_default = Inr \<lparr>g_tasks = n, g_sleep_ms = ms\<rparr>"
    "\<exists>one_thread. parse_args sla_arg args (False, 10000, 1) = Inr (one_thread, n, ms)"
    by (auto simp: slp_default_def)
qed

theorem zig_options_agree_witness:
  "zpp_main [''--zio'', ''--pairs=8''] = Inr (8, zpp_start 8) \<and>
    ppp_main counter_ops [''--pairs=8''] = Inr (8, ppp_start counter_ops 8) \<and>
    ppa_main list_channel nat_join [''--pairs=8''] = Inr (8, ppa_start list_channel nat_join 8) \<and>
    zsl_main [''--zio'', ''--tasks=5''] = Inr ((5, 1), zsl_start) \<and>
    parse_args slp_arg [''--tasks=5''] slp_default = Inr \<lparr>g_tasks = 5, g_sleep_ms = 1\<rparr>"
proof -
  note digits = parse_unsigned_def is_digit_def code_def backend_flag_def arg_key_def arg_value_def
  have main: "zpp_main [''--zio'', ''--pairs=8''] = Inr (8, zpp_start 8)" "zsl_main [''--zio'', ''--tasks=5''] = Inr ((5, 1), zsl_start)"
    by (simp_all add: zpp_main_def zsl_main_def zpp_target_def zsl_target_def digits)
  have plain: "zig_plain [''--pairs''] ''--pairs=8''" "zig_plain [''--tasks'', ''--sleep-ms''] ''--tasks=5''"
    unfolding zig_plain_def by (auto intro: exI [of _ "''8''"] exI [of _ "''5''"])
  have "filter (\<lambda>a. \<not> backend_flag a) [''--zio'', ''--pairs=8''] = [''--pairs=8'']"
    "filter (\<lambda>a. \<not> backend_flag a) [''--zio'', ''--tasks=5''] = [''--tasks=5'']"
    by (simp_all add: backend_flag_def)
  from zig_options_agree [OF this(1), of 8 "zpp_start 8" counter_ops list_channel nat_join 0 0 zsl_start]
    zig_options_agree [OF this(2), of 0 "zpp_start 0" counter_ops list_channel nat_join 5 1 zsl_start] main plain
  show ?thesis by simp
qed

end
