(* ===== verification/Tcp_Zig.thy ===== *)
theory Tcp_Zig
  imports Connections
begin

text \<open>
  The handler of a connection in \<open>src/tcp_server.zig\<close>, in its four modes, cut at the calls of \<open>std.Io\<close>
  it makes. The streams with their readers and writers are a parameter (\<open>zig_stream\<close>), \<open>zig_tcp\<close> is their
  contract over the bytes received and sent so far. \<open>zig_sofar\<close> says what a handler has sent of what
  it has received at each suspension point: in the HTTP mode one response for every request whose
  end has been received, however the bytes were cut into reads.
\<close>

section \<open>HTTP framing\<close>

definition ascii :: "string \<Rightarrow> byte list" where
  "ascii cs = map (\<lambda>c. of_nat (of_char c)) cs"

definition crlf :: "byte list" where
  "crlf = [13, 10]"

definition http_response :: "byte list" where
  "http_response =
     ascii ''HTTP/1.1 200 Ok'' @ crlf @ ascii ''Content-Length: 10'' @ crlf @
     ascii ''Content-Type: text/plain; charset=utf8'' @ crlf @ crlf @ ascii ''HelloWorld''"

text \<open>The terminator of a request, and \<open>std.mem.indexOf\<close>.\<close>

definition http_end :: "byte list" where
  "http_end = crlf @ crlf"

fun index_of :: "byte list \<Rightarrow> byte list \<Rightarrow> nat option" where
  "index_of pat [] = (if pat = [] then Some 0 else None)"
| "index_of pat (x # xs) = (if prefix pat (x # xs) then Some 0 else map_option Suc (index_of pat xs))"

lemma index_of_le: "index_of pat xs = Some i \<Longrightarrow> i + length pat \<le> length xs"
  by (induction pat xs arbitrary: i rule: index_of.induct) (auto split: if_splits dest: prefix_length_le)

lemma index_of_append: "index_of pat xs = Some i \<Longrightarrow> index_of pat (xs @ ys) = Some i"
proof (induction pat xs arbitrary: i rule: index_of.induct)
  case (1 pat)
  then show ?case by (cases ys) (auto split: if_splits)
next
  case (2 pat x xs)
  show ?case
  proof (cases "prefix pat (x # xs)")
    case True
    then have "prefix pat (x # xs @ ys)" using prefix_prefix [of pat "x # xs" ys] by simp
    with 2 True show ?thesis by simp
  next
    case False
    with 2 obtain j where j: "index_of pat xs = Some j" "i = Suc j" by auto
    from index_of_le [OF j(1)] have "length pat \<le> length xs" by simp
    then have "prefix pat (x # xs @ ys) \<longleftrightarrow> prefix pat (x # xs)"
      using prefix_append [of pat "x # xs" ys] by (auto dest: prefix_length_le)
    with 2(1) [OF False j(1)] False j show ?thesis by simp
  qed
qed

text \<open>The requests in a sequence of bytes: how many have ended, and what is left.\<close>

function http_split :: "byte list \<Rightarrow> nat \<times> byte list" where
  "http_split xs =
     (case index_of http_end xs of
        None \<Rightarrow> (0, xs)
      | Some i \<Rightarrow> (case http_split (drop (i + 4) xs) of (n, rest) \<Rightarrow> (Suc n, rest)))"
  by pat_completeness auto
termination
  by (relation "measure length") (auto dest!: index_of_le simp: http_end_def crlf_def)

declare http_split.simps [simp del]

definition requests :: "byte list \<Rightarrow> nat" where
  "requests xs = fst (http_split xs)"

definition unread :: "byte list \<Rightarrow> byte list" where
  "unread xs = snd (http_split xs)"

lemma requests_step:
  "index_of http_end xs = Some i \<Longrightarrow> requests xs = Suc (requests (drop (i + 4) xs))"
  "index_of http_end xs = Some i \<Longrightarrow> unread xs = unread (drop (i + 4) xs)"
  "index_of http_end xs = None \<Longrightarrow> requests xs = 0"
  "index_of http_end xs = None \<Longrightarrow> unread xs = xs"
  by (simp_all add: requests_def unread_def http_split.simps [of xs] split: prod.splits)

lemma length_http_end [simp]: "length http_end = 4"
  by (simp add: http_end_def crlf_def)

text \<open>More bytes leave the requests alone that have ended.\<close>

lemma requests_append:
  "requests (xs @ ys) = requests xs + requests (unread xs @ ys) \<and> unread (xs @ ys) = unread (unread xs @ ys)"
proof (induction xs rule: http_split.induct)
  case (1 xs)
  show ?case
  proof (cases "index_of http_end xs")
    case None
    then show ?thesis by (simp add: requests_step)
  next
    case (Some i)
    have "index_of http_end (xs @ ys) = Some i" by (rule index_of_append [OF Some])
    moreover have "drop (i + 4) (xs @ ys) = drop (i + 4) xs @ ys" using index_of_le [OF Some] by simp
    ultimately show ?thesis using 1 [OF Some] by (simp add: requests_step Some)
  qed
qed

text \<open>A request is a head without terminator and the terminator.\<close>

definition http_request :: "byte list \<Rightarrow> bool" where
  "http_request r \<longleftrightarrow> (\<exists>h. r = h @ http_end \<and> index_of http_end r = Some (length h))"

lemma requests_concat:
  assumes "\<forall>r \<in> set rs. http_request r"
  shows "requests (concat rs @ xs) = length rs + requests xs \<and> unread (concat rs @ xs) = unread xs"
  using assms
proof (induction rs)
  case (Cons r rs)
  then obtain h where h: "r = h @ http_end" "index_of http_end r = Some (length h)" by (auto simp: http_request_def)
  from index_of_append [OF h(2)] have "index_of http_end (concat (r # rs) @ xs) = Some (length h)" by simp
  moreover have "drop (length h + 4) (concat (r # rs) @ xs) = concat rs @ xs" by (simp add: h(1))
  ultimately show ?case using Cons by (simp add: requests_step)
qed simp

text \<open>\<open>n\<close> responses.\<close>

definition answers :: "nat \<Rightarrow> byte list" where
  "answers n = concat (replicate n http_response)"

lemma answers_simps [simp]: "answers 0 = []" "answers (m + n) = answers m @ answers n"
  by (simp_all add: answers_def replicate_add)

lemma answers_Suc: "answers (Suc n) = answers n @ http_response"
  using answers_simps(2) [of n 1] by (simp add: answers_def del: answers_simps)

lemma answers_take: "m \<le> n \<Longrightarrow> prefix (answers m) (answers n)"
  using answers_simps(2) [of m "n - m"] by simp

section \<open>The handler\<close>

datatype zig_mode = ZigEcho | ZigSink | ZigSource | ZigHttp

text \<open>
  What the handler calls. \<open>zs_fill k room\<close> is \<open>fillMore\<close> of a reader with \<open>room\<close> bytes free, one read of the socket,
  \<open>None\<close> for an error or the end of the stream; \<open>zs_read_short\<close> is \<open>readSliceShort\<close>; \<open>zs_write\<close> and
  \<open>zs_flush\<close> (\<open>writeAll\<close>, \<open>flush\<close>) tell whether they succeed. \<open>zs_cancel k bs\<close> is what a read, or a write
  of \<open>bs\<close>, that returns \<open>error.Canceled\<close> leaves. \<open>zs_alloc\<close> tells whether the buffer can be allocated.
\<close>

record 'k zig_stream =
  zs_alloc :: "'k \<Rightarrow> bool"
  zs_fill :: "'k \<Rightarrow> nat \<Rightarrow> byte list option \<times> 'k"
  zs_read_short :: "'k \<Rightarrow> nat \<Rightarrow> byte list option \<times> 'k"
  zs_write :: "'k \<Rightarrow> byte list \<Rightarrow> bool \<times> 'k"
  zs_flush :: "'k \<Rightarrow> bool \<times> 'k"
  zs_cancel :: "'k \<Rightarrow> byte list \<Rightarrow> 'k"
  zs_nodelay :: "'k \<Rightarrow> 'k"
  zs_close :: "'k \<Rightarrow> 'k"

text \<open>
  The calls a handler can be in: \<open>HFill\<close>, \<open>HEcho\<close> and \<open>HEchoed\<close> are the read, the write and the flush of the
  echo, \<open>HDiscard\<close> the read of the sink, \<open>HZeros\<close> and \<open>HZeroed\<close> the write and the flush of the source,
  \<open>HAnswer\<close>, \<open>HFlush\<close> and \<open>HMore\<close> the write, the flush and the read of the HTTP mode, with the bytes
  its reader has buffered. \<open>HClose\<close> is the deferred close, \<open>HAssert\<close> a reader whose buffer is full at
  \<open>fillMore\<close>, which asserts that there is room.
\<close>

datatype zig_pc =
    HStart
  | HFill
  | HEcho "byte list"
  | HEchoed
  | HDiscard
  | HZeros
  | HZeroed
  | HAnswer "byte list"
  | HFlush "byte list"
  | HMore "byte list"
  | HClose
  | HGone
  | HAssert

text \<open>\<open>while (indexOf(buffered, "\r\n\r\n")) |i| { toss(i + 4); ... }\<close>\<close>

definition http_next :: "byte list \<Rightarrow> zig_pc" where
  "http_next data =
     (case index_of http_end data of Some i \<Rightarrow> HAnswer (drop (i + 4) data) | None \<Rightarrow> HFlush data)"

definition zig_mode_loop :: "zig_mode \<Rightarrow> zig_pc" where
  "zig_mode_loop mode =
     (case mode of ZigEcho \<Rightarrow> HFill | ZigSink \<Rightarrow> HDiscard | ZigSource \<Rightarrow> HZeros | ZigHttp \<Rightarrow> http_next [])"

fun zig_conn_step :: "'k zig_stream \<Rightarrow> zig_mode \<Rightarrow> 'k \<Rightarrow> zig_pc \<Rightarrow> ('k \<times> zig_pc) option" where
  "zig_conn_step zs mode k HStart = Some (k, if zs_alloc zs k then zig_mode_loop mode else HClose)"
| "zig_conn_step zs mode k HFill =
     (case zs_fill zs k BUF_SIZE of
        (None, k1) \<Rightarrow> Some (k1, HClose)
      | (Some data, k1) \<Rightarrow> Some (k1, if data = [] then HFill else HEcho data))"
| "zig_conn_step zs mode k (HEcho data) =
     (case zs_write zs k data of (ok, k1) \<Rightarrow> Some (k1, if ok then HEchoed else HClose))"
| "zig_conn_step zs mode k HEchoed =
     (case zs_flush zs k of (ok, k1) \<Rightarrow> Some (k1, if ok then HFill else HClose))"
| "zig_conn_step zs mode k HDiscard =
     (case zs_read_short zs k BUF_SIZE of
        (None, k1) \<Rightarrow> Some (k1, HClose)
      | (Some data, k1) \<Rightarrow> Some (k1, if length data = 0 then HClose else HDiscard))"
| "zig_conn_step zs mode k HZeros =
     (case zs_write zs k (replicate BUF_SIZE 0) of (ok, k1) \<Rightarrow> Some (k1, if ok then HZeroed else HClose))"
| "zig_conn_step zs mode k HZeroed =
     (case zs_flush zs k of (ok, k1) \<Rightarrow> Some (k1, if ok then HZeros else HClose))"
| "zig_conn_step zs mode k (HAnswer rest) =
     (case zs_write zs k http_response of (ok, k1) \<Rightarrow> Some (k1, if ok then http_next rest else HClose))"
| "zig_conn_step zs mode k (HFlush data) =
     (case zs_flush zs k of (ok, k1) \<Rightarrow> Some (k1, if ok then HMore data else HClose))"
| "zig_conn_step zs mode k (HMore data) =
     (if length data = BUF_SIZE then Some (k, HAssert)
      else case zs_fill zs k (BUF_SIZE - length data) of
        (None, k1) \<Rightarrow> Some (k1, HClose)
      | (Some new, k1) \<Rightarrow> Some (k1, http_next (data @ new)))"
| "zig_conn_step zs mode k HClose = Some (zs_close zs k, HGone)"
| "zig_conn_step zs mode k HGone = None"
| "zig_conn_step zs mode k HAssert = None"

text \<open>The calls that can return \<open>error.Canceled\<close>, with the bytes they write. A flush has nothing to write.\<close>

fun zig_cancelable :: "zig_pc \<Rightarrow> byte list option" where
  "zig_cancelable HFill = Some []"
| "zig_cancelable (HEcho data) = Some data"
| "zig_cancelable HDiscard = Some []"
| "zig_cancelable HZeros = Some (replicate BUF_SIZE 0)"
| "zig_cancelable (HAnswer rest) = Some http_response"
| "zig_cancelable (HMore data) = (if length data = BUF_SIZE then None else Some [])"
| "zig_cancelable pc = None"

section \<open>What a handler has sent\<close>

definition zig_over :: "zig_mode \<Rightarrow> byte list \<Rightarrow> byte list \<Rightarrow> bool" where
  "zig_over mode xs ys \<longleftrightarrow> (case mode of
     ZigEcho \<Rightarrow> prefix ys xs \<and> length xs \<le> length ys + BUF_SIZE
   | ZigSink \<Rightarrow> ys = []
   | ZigSource \<Rightarrow> xs = [] \<and> ys = replicate (length ys) 0
   | ZigHttp \<Rightarrow> prefix ys (answers (requests xs)))"

fun zig_sofar :: "zig_mode \<Rightarrow> byte list \<Rightarrow> byte list \<Rightarrow> zig_pc \<Rightarrow> bool" where
  "zig_sofar mode xs ys HStart \<longleftrightarrow> xs = [] \<and> ys = []"
| "zig_sofar mode xs ys HFill \<longleftrightarrow> mode = ZigEcho \<and> ys = xs"
| "zig_sofar mode xs ys (HEcho data) \<longleftrightarrow> mode = ZigEcho \<and> xs = ys @ data \<and> length data \<le> BUF_SIZE \<and> data \<noteq> []"
| "zig_sofar mode xs ys HEchoed \<longleftrightarrow> mode = ZigEcho \<and> ys = xs"
| "zig_sofar mode xs ys HDiscard \<longleftrightarrow> mode = ZigSink \<and> ys = []"
| "zig_sofar mode xs ys HZeros \<longleftrightarrow> mode = ZigSource \<and> xs = [] \<and> ys = replicate (length ys) 0"
| "zig_sofar mode xs ys HZeroed \<longleftrightarrow> mode = ZigSource \<and> xs = [] \<and> ys = replicate (length ys) 0"
| "zig_sofar mode xs ys (HAnswer rest) \<longleftrightarrow> mode = ZigHttp \<and> requests rest < requests xs \<and>
     ys = answers (requests xs - Suc (requests rest)) \<and> unread xs = unread rest \<and> length rest \<le> BUF_SIZE"
| "zig_sofar mode xs ys (HFlush data) \<longleftrightarrow> mode = ZigHttp \<and> ys = answers (requests xs) \<and> data = unread xs \<and> length data \<le> BUF_SIZE"
| "zig_sofar mode xs ys (HMore data) \<longleftrightarrow> mode = ZigHttp \<and> ys = answers (requests xs) \<and> data = unread xs \<and> length data \<le> BUF_SIZE"
| "zig_sofar mode xs ys HClose = zig_over mode xs ys"
| "zig_sofar mode xs ys HGone = zig_over mode xs ys"
| "zig_sofar mode xs ys HAssert \<longleftrightarrow> mode = ZigHttp \<and> ys = answers (requests xs) \<and> length (unread xs) = BUF_SIZE"

text \<open>The scan of the buffered bytes: \<open>n\<close> requests of \<open>xs\<close> are answered, those of \<open>data\<close> are not.\<close>

lemma http_next_sofar:
  assumes "requests xs = n + requests data" and "unread xs = unread data" and "length data \<le> BUF_SIZE"
  shows "zig_sofar ZigHttp xs (answers n) (http_next data)"
proof (cases "index_of http_end data")
  case None
  with assms show ?thesis by (simp add: http_next_def requests_step)
next
  case (Some i)
  with assms show ?thesis by (simp add: http_next_def requests_step)
qed

lemma http_next_goes [simp]: "http_next data \<noteq> HGone" "HGone \<noteq> http_next data"
  by (simp_all add: http_next_def split: option.splits)

lemma requests_more: "requests xs \<le> requests (xs @ ds)"
  using requests_append [of xs ds] by simp

lemma answers_more: "prefix ys (answers (requests xs)) \<Longrightarrow> prefix ys (answers (requests (xs @ ds)))"
  using prefix_order.trans answers_take [OF requests_more] by blast

lemma answer_part: "n < m \<Longrightarrow> prefix (answers n @ take j http_response) (answers m)"
  using answers_take [of "Suc n" m] take_is_prefix [of j http_response]
  by (metis Suc_leI answers_Suc prefix_order.trans same_prefix_prefix)

section \<open>The contract of a stream\<close>

locale zig_tcp =
  fixes zs :: "'k zig_stream"
    and rcvd :: "'k \<Rightarrow> byte list"
    and sent :: "'k \<Rightarrow> byte list"
    and closes :: "'k \<Rightarrow> nat"
  assumes fill_data: "zs_fill zs k room = (r, k') \<Longrightarrow>
      rcvd k' = rcvd k @ (case r of None \<Rightarrow> [] | Some d \<Rightarrow> d) \<and> (\<forall>d. r = Some d \<longrightarrow> length d \<le> room) \<and>
      sent k' = sent k \<and> closes k' = closes k"
    and short_data: "zs_read_short zs k room = (r, k') \<Longrightarrow>
      (\<exists>d. rcvd k' = rcvd k @ d) \<and> sent k' = sent k \<and> closes k' = closes k"
    and write_data: "zs_write zs k bs = (ok, k') \<Longrightarrow>
      (\<exists>j. sent k' = sent k @ take j bs \<and> (ok \<longrightarrow> length bs \<le> j)) \<and> rcvd k' = rcvd k \<and> closes k' = closes k"
    and flush_data: "zs_flush zs k = (ok, k') \<Longrightarrow> sent k' = sent k \<and> rcvd k' = rcvd k \<and> closes k' = closes k"
    and cancel_data: "\<exists>j d. sent (zs_cancel zs k bs) = sent k @ take j bs \<and> rcvd (zs_cancel zs k bs) = rcvd k @ d \<and>
      (bs = [] \<and> length d \<le> BUF_SIZE \<or> d = []) \<and> closes (zs_cancel zs k bs) = closes k"
    and close_once [simp]: "closes (zs_close zs k) = Suc (closes k)" "rcvd (zs_close zs k) = rcvd k"
      "sent (zs_close zs k) = sent k"
begin

definition zig_known :: "zig_mode \<Rightarrow> 'k \<Rightarrow> 'k \<Rightarrow> zig_pc \<Rightarrow> bool" where
  "zig_known mode k0 k pc \<longleftrightarrow> (\<exists>xs ys. rcvd k = rcvd k0 @ xs \<and> sent k = sent k0 @ ys \<and>
     closes k = closes k0 + (if pc = HGone then 1 else 0) \<and> zig_sofar mode xs ys pc)"

lemma known_start: "zig_known mode k k HStart"
  by (simp add: zig_known_def)

text \<open>One action adds to what has been received and sent.\<close>

lemma known_more:
  assumes "zig_known mode k0 k pc" and "rcvd k' = rcvd k @ dx" and "sent k' = sent k @ dy"
    and "closes k' = closes k + (if pc' = HGone then 1 else 0)" and "pc \<noteq> HGone"
    and "\<And>xs ys. zig_sofar mode xs ys pc \<Longrightarrow> zig_sofar mode (xs @ dx) (ys @ dy) pc'"
  shows "zig_known mode k0 k' pc'"
proof -
  from assms(1) obtain xs ys where "rcvd k = rcvd k0 @ xs" "sent k = sent k0 @ ys"
    "closes k = closes k0 + (if pc = HGone then 1 else 0)" "zig_sofar mode xs ys pc"
    unfolding zig_known_def by blast
  with assms(2-6) show ?thesis unfolding zig_known_def
    by (intro exI [of _ "xs @ dx"] exI [of _ "ys @ dy"]) simp
qed

lemma known_close:
  "zig_known mode k0 k HClose \<Longrightarrow> zig_known mode k0 (zs_close zs k) HGone"
  using known_more [of mode k0 k HClose "zs_close zs k" "[]" "[]" HGone] by simp

lemma known_write:
  assumes "zig_known mode k0 k pc" and "zs_write zs k bs = (ok, k')" and "pc \<noteq> HGone" "pc' \<noteq> HGone"
    and whole: "\<And>xs ys. zig_sofar mode xs ys pc \<Longrightarrow> zig_sofar mode xs (ys @ bs) pc'"
    and part: "\<And>xs ys j. zig_sofar mode xs ys pc \<Longrightarrow> zig_over mode xs (ys @ take j bs)"
  shows "zig_known mode k0 k' (if ok then pc' else HClose)"
proof -
  from write_data [OF assms(2)] obtain j where j: "sent k' = sent k @ take j bs" "ok \<longrightarrow> length bs \<le> j"
    "rcvd k' = rcvd k" "closes k' = closes k" by blast
  have "zig_sofar mode xs (ys @ take j bs) (if ok then pc' else HClose)" if "zig_sofar mode xs ys pc" for xs ys
    using whole [OF that] part [OF that, of j] j(2) by (cases ok) simp_all
  from known_more [OF assms(1) _ j(1) _ assms(3), of "[]", OF _ _ this] show ?thesis
    using j(3,4) assms(4) by simp
qed

lemma known_same:
  assumes "zig_known mode k0 k pc" and "rcvd k' = rcvd k" "sent k' = sent k" "closes k' = closes k"
    and "pc \<noteq> HGone" "pc' \<noteq> HGone" and "\<And>xs ys. zig_sofar mode xs ys pc \<Longrightarrow> zig_sofar mode xs ys pc'"
  shows "zig_known mode k0 k' pc'"
  by (rule known_more [OF assms(1), of _ "[]" "[]"]) (use assms in simp_all)

lemma known_flush:
  assumes "zig_known mode k0 k pc" and "zs_flush zs k = (ok, k')" and "pc \<noteq> HGone" "pc' \<noteq> HGone"
    and "\<And>xs ys. zig_sofar mode xs ys pc \<Longrightarrow> zig_sofar mode xs ys pc' \<and> zig_over mode xs ys"
  shows "zig_known mode k0 k' (if ok then pc' else HClose)"
  by (rule known_same [OF assms(1)]) (use flush_data [OF assms(2)] assms(3-5) in auto)

end

lemma zeros_more: "ys = replicate (length ys) 0 \<Longrightarrow> ys @ take j (replicate n 0) = replicate (length (ys @ take j (replicate n 0))) 0"
  by (metis length_append length_take length_replicate replicate_add take_replicate)

context zig_tcp begin

lemma known_step:
  assumes known: "zig_known mode k0 k pc" and step: "zig_conn_step zs mode k pc = Some (k', pc')"
  shows "zig_known mode k0 k' pc'"
proof (cases pc)
  case HStart
  with step have "k' = k" "pc' = (if zs_alloc zs k then zig_mode_loop mode else HClose)" by auto
  moreover have "zig_sofar mode [] [] (zig_mode_loop mode)"
    using http_next_sofar [of "[]" 0 "[]"] by (cases mode) (simp_all add: zig_mode_loop_def)
  moreover have "zig_over mode [] []" by (cases mode) (simp_all add: zig_over_def)
  moreover have "zig_mode_loop mode \<noteq> HGone" by (cases mode) (simp_all add: zig_mode_loop_def)
  ultimately show ?thesis using known_same [OF known, of k' pc'] HStart by auto
next
  case HFill
  obtain r k1 where r: "zs_fill zs k BUF_SIZE = (r, k1)" by fastforce
  with step HFill have k': "k' = k1" "pc' = (case r of None \<Rightarrow> HClose | Some d \<Rightarrow> if d = [] then HFill else HEcho d)"
    by (auto split: option.splits)
  show ?thesis
    by (rule known_more [OF known, of k' "case r of None \<Rightarrow> [] | Some d \<Rightarrow> d" "[]"])
      (use fill_data [OF r] k' HFill in \<open>auto simp: zig_over_def split: option.splits\<close>)
next
  case (HEcho data)
  obtain ok k1 where w: "zs_write zs k data = (ok, k1)" by fastforce
  from HEcho known_write [OF known w, of HEchoed] step w show ?thesis
    by (auto simp: zig_over_def take_is_prefix)
next
  case HEchoed
  obtain ok k1 where w: "zs_flush zs k = (ok, k1)" by fastforce
  from HEchoed known_flush [OF known w, of HFill] step w show ?thesis by (auto simp: zig_over_def)
next
  case HDiscard
  obtain r k1 where r: "zs_read_short zs k BUF_SIZE = (r, k1)" by fastforce
  with short_data [OF r] step HDiscard obtain d where d: "rcvd k' = rcvd k @ d" "sent k' = sent k @ []" "closes k' = closes k"
    "pc' = HClose \<or> pc' = HDiscard"
    by (auto split: option.splits if_splits)
  show ?thesis by (rule known_more [OF known d(1,2)]) (use d HDiscard in \<open>auto simp: zig_over_def\<close>)
next
  case HZeros
  obtain ok k1 where w: "zs_write zs k (replicate BUF_SIZE 0) = (ok, k1)" by fastforce
  have "zig_known mode k0 k1 (if ok then HZeroed else HClose)"
  proof (rule known_write [OF known w])
    show "zig_sofar mode xs (ys @ replicate BUF_SIZE 0) HZeroed" if "zig_sofar mode xs ys pc" for xs ys
      using that zeros_more [of ys BUF_SIZE BUF_SIZE] HZeros by simp
    show "zig_over mode xs (ys @ take j (replicate BUF_SIZE 0))" if "zig_sofar mode xs ys pc" for xs ys j
      using that zeros_more [of ys j BUF_SIZE] HZeros by (simp add: zig_over_def)
  qed (simp_all add: HZeros)
  with HZeros step w show ?thesis by auto
next
  case HZeroed
  obtain ok k1 where w: "zs_flush zs k = (ok, k1)" by fastforce
  from HZeroed known_flush [OF known w, of HZeros] step w show ?thesis by (auto simp: zig_over_def)
next
  case (HAnswer rest)
  obtain ok k1 where w: "zs_write zs k http_response = (ok, k1)" by fastforce
  have "zig_known mode k0 k1 (if ok then http_next rest else HClose)"
  proof (rule known_write [OF known w])
    fix xs ys assume "zig_sofar mode xs ys pc"
    then have h: "mode = ZigHttp" "requests rest < requests xs" "ys = answers (requests xs - Suc (requests rest))"
      "unread xs = unread rest" "length rest \<le> BUF_SIZE" by (simp_all add: HAnswer)
    then have "Suc (requests xs - Suc (requests rest)) = requests xs - requests rest" by simp
    with h have "ys @ http_response = answers (requests xs - requests rest)" by (metis answers_Suc)
    with h show "zig_sofar mode xs (ys @ http_response) (http_next rest)"
      by (simp add: http_next_sofar)
    show "zig_over mode xs (ys @ take j http_response)" for j
      using h answer_part [of "requests xs - Suc (requests rest)" "requests xs" j] by (simp add: zig_over_def)
  qed (simp_all add: HAnswer)
  with HAnswer step w show ?thesis by auto
next
  case (HFlush data)
  obtain ok k1 where w: "zs_flush zs k = (ok, k1)" by fastforce
  from HFlush known_flush [OF known w, of "HMore data"] step w show ?thesis by (auto simp: zig_over_def)
next
  case (HMore data)
  show ?thesis
  proof (cases "length data = BUF_SIZE")
    case True
    with step HMore have "k' = k" "pc' = HAssert" by auto
    then show ?thesis using True HMore by (intro known_same [OF known]) auto
  next
    case False
    obtain r k1 where r: "zs_fill zs k (BUF_SIZE - length data) = (r, k1)" by fastforce
    with step HMore False have k': "k' = k1" "pc' = (case r of None \<Rightarrow> HClose | Some d \<Rightarrow> http_next (data @ d))"
      by (auto split: option.splits)
    show ?thesis
    proof (cases r)
      case None
      with fill_data [OF r] k' HMore show ?thesis
        by (intro known_same [OF known]) (auto simp: zig_over_def)
    next
      case (Some d)
      have "zig_sofar mode (xs @ d) (ys @ []) (http_next (data @ d))" if "zig_sofar mode xs ys pc" for xs ys
      proof -
        from that HMore have x: "mode = ZigHttp" "ys = answers (requests xs)" "data = unread xs" by simp_all
        have "length (data @ d) \<le> BUF_SIZE" using fill_data [OF r] Some that HMore by auto
        with requests_append [of xs d] x show ?thesis by (simp add: http_next_sofar)
      qed
      note more = this
      from fill_data [OF r] Some k' have x: "rcvd k' = rcvd k @ d" "sent k' = sent k @ []" "closes k' = closes k"
        "pc' = http_next (data @ d)" by auto
      show ?thesis
        unfolding x(4) by (rule known_more [OF known x(1,2) _ _ more]) (auto simp: x(3) HMore)
    qed
  qed
next
  case HClose
  with step known_close [of mode k0 k] known show ?thesis by simp
qed (use step in simp_all)

lemma known_cancel:
  assumes known: "zig_known mode k0 k pc" and "zig_cancelable pc = Some bs"
  shows "zig_known mode k0 (zs_cancel zs k bs) HClose"
proof -
  from cancel_data [of k bs] obtain j d where c: "sent (zs_cancel zs k bs) = sent k @ take j bs"
    "rcvd (zs_cancel zs k bs) = rcvd k @ d" "bs = [] \<and> length d \<le> BUF_SIZE \<or> d = []"
    "closes (zs_cancel zs k bs) = closes k" by blast
  have "zig_over mode (xs @ d) (ys @ take j bs)" if sofar: "zig_sofar mode xs ys pc" for xs ys
  proof (cases pc)
    case (HEcho data)
    with sofar assms(2) c(3) show ?thesis by (auto simp: zig_over_def take_is_prefix)
  next
    case HZeros
    with sofar assms(2) c(3) zeros_more [of ys j BUF_SIZE] show ?thesis
      by (auto simp: zig_over_def BUF_SIZE_def)
  next
    case (HAnswer rest)
    with sofar assms(2) c(3) answer_part [of "requests xs - Suc (requests rest)" "requests xs" j] show ?thesis
      by (auto simp: zig_over_def http_response_def ascii_def)
  qed (use sofar assms(2) c(3) answers_more [of _ xs d] in \<open>auto simp: zig_over_def split: if_splits\<close>)
  with known_more [OF known c(2,1), of HClose] c(4) assms(2) show ?thesis by fastforce
qed

end

end
