(* ===== verification/Tcp_Program_Zig.thy ===== *)
theory Tcp_Program_Zig
  imports Tcp_Zig Zig_Command_Line
begin

text \<open>
  \<open>src/tcp_server.zig\<close> as a whole: \<open>main\<close> accepts connections and starts a task of a group for each. When an
  accept or \<open>group.concurrent\<close> fails it returns; the deferred \<open>group.cancel\<close> then cancels the handlers and
  waits for them. The theorems: every handler does with its connection what the modes promise, whatever
  the others do, and when \<open>main\<close> has returned every accepted stream has been closed exactly once, in
  contrast to the photon server, which drops its connections.
\<close>

section \<open>The command line\<close>

text \<open>\<open>std.fmt.parseUnsigned(u16, s, 10)\<close>\<close>

fun zig_port_digits :: "nat \<Rightarrow> string \<Rightarrow> zig_error + nat" where
  "zig_port_digits acc [] = Inr acc"
| "zig_port_digits acc (c # cs) =
     (if c = CHR ''_'' then zig_port_digits acc cs
      else if \<not> is_digit c then Inl InvalidCharacter
      else if 2 ^ 16 \<le> 10 * acc + (code c - 48) then Inl Overflow
      else zig_port_digits (10 * acc + (code c - 48)) cs)"

definition parse_port :: "string \<Rightarrow> zig_error + u16" where
  "parse_port s =
     (if s = [] \<or> hd s = CHR ''_'' \<or> last s = CHR ''_'' then Inl InvalidCharacter
      else case zig_port_digits 0 s of Inl e \<Rightarrow> Inl e | Inr n \<Rightarrow> Inr (of_nat n))"

text \<open>\<open>std.meta.stringToEnum(Mode, s)\<close>\<close>

definition zig_mode_of :: "string \<Rightarrow> zig_mode option" where
  "zig_mode_of s =
     (if s = ''echo'' then Some ZigEcho
      else if s = ''sink'' then Some ZigSink
      else if s = ''source'' then Some ZigSource
      else if s = ''http'' then Some ZigHttp
      else None)"

fun ztcp_args :: "string list \<Rightarrow> zig_mode \<times> u16 \<Rightarrow> zig_stop + zig_mode \<times> u16" where
  "ztcp_args [] opt = Inr opt"
| "ztcp_args (a # as) opt =
     (if backend_flag a then ztcp_args as opt
      else if prefix ''--mode='' a then
        (case zig_mode_of (drop 7 a) of None \<Rightarrow> Inl (ZigExit 2) | Some m \<Rightarrow> ztcp_args as (m, snd opt))
      else if prefix ''--port='' a then
        (case parse_port (drop 7 a) of Inl e \<Rightarrow> Inl (ZigError e) | Inr p \<Rightarrow> ztcp_args as (fst opt, p))
      else Inl (ZigExit 2))"

section \<open>The program\<close>

text \<open>
  \<open>zt_active\<close> counts the handlers that have not returned; \<open>zt_refused\<close> is a stream whose handler could not
  be started and that \<open>main\<close> closes itself.
\<close>

record ('a, 'k) ztcp_state =
  zt_acceptor :: 'a
  zt_streams :: "'k list"
  zt_refused :: "'k option"
  zt_active :: nat
  zt_canceling :: bool
  zt_dead :: bool

datatype ztcp_task =
    ZTAccept
  | ZTCancel
  | ZTExit
  | ZTHandling nat zig_pc

text \<open>\<open>main\<close>; \<open>starts\<close> is the number of calls of \<open>group.concurrent\<close> that succeed.\<close>

fun ztcp_main_step ::
  "'k zig_stream \<Rightarrow> ('a, 'k) accept_op \<Rightarrow> nat \<Rightarrow> (('a, 'k) ztcp_state, ztcp_task) task_step"
where
  "ztcp_main_step zs accept starts s ZTAccept =
     (case accept (zt_acceptor s) of
        (None, a) \<Rightarrow> Some (s\<lparr>zt_acceptor := a, zt_canceling := True\<rparr>, ZTCancel, [])
      | (Some k, a) \<Rightarrow>
          let k = zs_nodelay zs k; i = length (zt_streams s)
          in if i < starts
             then Some (s\<lparr>zt_acceptor := a, zt_streams := zt_streams s @ [k], zt_active := zt_active s + 1\<rparr>, ZTAccept,
                    [ZTHandling i HStart])
             else Some (s\<lparr>zt_acceptor := a, zt_refused := Some (zs_close zs k), zt_canceling := True\<rparr>, ZTCancel, []))"
| "ztcp_main_step zs accept starts s ZTCancel = (if zt_active s = 0 then Some (s, ZTExit, []) else None)"
| "ztcp_main_step zs accept starts s t = None"

text \<open>
  A handler. Once the group is cancelled its next call returns \<open>error.Canceled\<close>, unless it is \<open>late\<close>: when
  a request is noticed depends on the backend, so \<open>late\<close> is any function.
\<close>

fun ztcp_handler_step ::
  "bool \<Rightarrow> 'k zig_stream \<Rightarrow> zig_mode \<Rightarrow> ('a, 'k) ztcp_state \<Rightarrow> nat \<Rightarrow> zig_pc \<Rightarrow> (('a, 'k) ztcp_state \<times> zig_pc) option"
where
  "ztcp_handler_step late zs mode s i pc =
     (case (if zt_canceling s \<and> \<not> late then zig_cancelable pc else None) of
        Some bs \<Rightarrow> Some (s\<lparr>zt_streams := (zt_streams s)[i := zs_cancel zs (zt_streams s ! i) bs]\<rparr>, HClose)
      | None \<Rightarrow> (case zig_conn_step zs mode (zt_streams s ! i) pc of
          None \<Rightarrow> None
        | Some (k, pc') \<Rightarrow> Some (s\<lparr>zt_streams := (zt_streams s)[i := k],
            zt_active := zt_active s - (if pc' = HGone then 1 else 0),
            zt_dead := (zt_dead s \<or> pc' = HAssert)\<rparr>, pc')))"

fun ztcp_step ::
  "(('a, 'k) ztcp_state \<Rightarrow> ztcp_task \<Rightarrow> bool) \<Rightarrow> 'k zig_stream \<Rightarrow> zig_mode \<Rightarrow> ('a, 'k) accept_op \<Rightarrow> nat \<Rightarrow>
    (('a, 'k) ztcp_state, ztcp_task) task_step"
where
  "ztcp_step late zs mode accept starts s t =
     (if zt_dead s then None
      else case t of
        ZTHandling i pc \<Rightarrow>
          map_option (\<lambda>(s', pc'). (s', ZTHandling i pc', [])) (ztcp_handler_step (late s t) zs mode s i pc)
      | _ \<Rightarrow> ztcp_main_step zs accept starts s t)"

definition ztcp_start :: "'a \<Rightarrow> (('a, 'k) ztcp_state, ztcp_task) pool" where
  "ztcp_start a =
     (\<lparr>zt_acceptor = a, zt_streams = [], zt_refused = None, zt_active = 0, zt_canceling = False, zt_dead = False\<rparr>, [ZTAccept])"

text \<open>\<open>main\<close>: parse, choose the backend (without one \<open>io\<close> exits), listen (\<open>listening\<close> tells whether it succeeds), serve.\<close>

datatype ztcp_stop = ZStop zig_stop | ListenFailed

definition ztcp_main ::
  "bool \<Rightarrow> 'a \<Rightarrow> string list \<Rightarrow> ztcp_stop + (zig_mode \<times> u16) \<times> (('a, 'k) ztcp_state, ztcp_task) pool"
where
  "ztcp_main listening a args =
     (case ztcp_args args (ZigEcho, 18800) of
        Inl e \<Rightarrow> Inl (ZStop e)
      | Inr opt \<Rightarrow>
          if \<not> (\<exists>a \<in> set args. backend_flag a) then Inl (ZStop (ZigExit 1))
          else if \<not> listening then Inl ListenFailed
          else Inr (opt, ztcp_start a))"

section \<open>Every connection on its own\<close>

fun ztcp_conn_of :: "ztcp_task \<Rightarrow> (nat \<times> zig_pc) option" where
  "ztcp_conn_of (ZTHandling i pc) = Some (i, pc)"
| "ztcp_conn_of _ = None"

fun ztcp_serving :: "ztcp_task \<Rightarrow> nat" where
  "ztcp_serving ZTAccept = 1"
| "ztcp_serving _ = 0"

text \<open>
  The acceptor as the handlers see it: a connection whose handler cannot be started is none, and stays
  behind as the refused stream.
\<close>

fun ztcp_takes :: "'k zig_stream \<Rightarrow> nat \<Rightarrow> ('a, 'k) accept_op \<Rightarrow> ('a \<times> nat \<times> 'k option, 'k) accept_op" where
  "ztcp_takes zs starts accept (a, n, refused) = (case accept a of
     (None, a') \<Rightarrow> (None, a', n, refused)
   | (Some k, a') \<Rightarrow>
       if n < starts then (Some (zs_nodelay zs k), a', Suc n, refused)
       else (None, a', n, Some (zs_close zs (zs_nodelay zs k))))"

abbreviation ztcp_acc :: "('a, 'k) ztcp_state \<Rightarrow> 'a \<times> nat \<times> 'k option" where
  "ztcp_acc s \<equiv> (zt_acceptor s, length (zt_streams s), zt_refused s)"

lemma ztcp_conn_of_iff: "ztcp_conn_of t = Some (i, pc) \<longleftrightarrow> t = ZTHandling i pc"
  by (cases t) auto

lemma ztcp_handler_cases:
  assumes "ztcp_handler_step late zs mode s i pc = Some (s', pc')"
  obtains (canceled) bs where "zig_cancelable pc = Some bs" "pc' = HClose"
      "s' = s\<lparr>zt_streams := (zt_streams s)[i := zs_cancel zs (zt_streams s ! i) bs]\<rparr>"
  | (steps) k where "zig_conn_step zs mode (zt_streams s ! i) pc = Some (k, pc')"
      "s' = s\<lparr>zt_streams := (zt_streams s)[i := k], zt_active := zt_active s - (if pc' = HGone then 1 else 0),
         zt_dead := (zt_dead s \<or> pc' = HAssert)\<rparr>"
  using assms by (auto split: option.splits if_splits)

declare ztcp_handler_step.simps [simp del]

context zig_tcp begin

lemma ztcp_conn_tasks:
  "conn_tasks (zig_known mode) HStart (ztcp_step late zs mode accept starts) zt_streams
    ztcp_acc (ztcp_takes zs starts accept) ztcp_conn_of ztcp_serving"
proof unfold_locales
  show "zig_known mode k k HStart" for k by (rule known_start)
next
  fix t i pc s s' t' new
  assume c: "ztcp_conn_of t = Some (i, pc)" and m: "ztcp_step late zs mode accept starts s t = Some (s', t', new)"
  from c have t: "t = ZTHandling i pc" by (simp add: ztcp_conn_of_iff)
  with m obtain pc' where st: "ztcp_handler_step (late s t) zs mode s i pc = Some (s', pc')" "t' = ZTHandling i pc'" "new = []"
    by (auto split: if_splits)
  from st(1) show "ztcp_serving t = 0 \<and> ztcp_serving t' = 0 \<and> new = [] \<and>
      ztcp_acc s' = ztcp_acc s \<and>
      (\<exists>k' pc'. (\<forall>k0. zig_known mode k0 (zt_streams s ! i) pc \<longrightarrow> zig_known mode k0 k' pc') \<and>
        zt_streams s' = (zt_streams s)[i := k'] \<and> ztcp_conn_of t' = Some (i, pc'))"
  proof (cases rule: ztcp_handler_cases)
    case (canceled bs)
    with known_cancel [OF _ canceled(1)] t st show ?thesis
      by (auto intro!: exI [of _ "zs_cancel zs (zt_streams s ! i) bs"])
  next
    case (steps k)
    with known_step [OF _ steps(1)] t st show ?thesis by (auto intro!: exI [of _ k])
  qed
next
  fix t s s' t' new
  assume "ztcp_conn_of t = None" and "ztcp_step late zs mode accept starts s t = Some (s', t', new)"
  then show "ztcp_conn_of t' = None \<and>
      (zt_streams s' = zt_streams s \<and> ztcp_acc s' = ztcp_acc s \<and>
         (\<forall>u \<in> set new. ztcp_conn_of u = None \<and> ztcp_serving u = 0) \<and> ztcp_serving t' = ztcp_serving t \<or>
       (\<exists>k u. ztcp_serving t = 1 \<and> ztcp_serving t' = 1 \<and> ztcp_serving u = 0 \<and>
          ztcp_takes zs starts accept (ztcp_acc s) = (Some k, ztcp_acc s') \<and>
          zt_streams s' = zt_streams s @ [k] \<and> new = [u] \<and> ztcp_conn_of u = Some (length (zt_streams s), HStart)) \<or>
       ztcp_serving t = 1 \<and> ztcp_serving t' = 0 \<and> new = [] \<and>
         ztcp_takes zs starts accept (ztcp_acc s) = (None, ztcp_acc s') \<and>
         zt_streams s' = zt_streams s)"
    by (cases t) (auto simp: Let_def split: option.splits prod.splits if_splits)
qed

end

text \<open>The connections that have got a handler, in the state they had then.\<close>

definition ztcp_accepted :: "'k zig_stream \<Rightarrow> ('a, 'k) accept_op \<Rightarrow> nat \<Rightarrow> 'a \<Rightarrow> ('a, 'k) ztcp_state \<Rightarrow> 'k list \<Rightarrow> bool" where
  "ztcp_accepted zs accept starts a s ks \<longleftrightarrow> length ks = length (zt_streams s) \<and>
     (took (ztcp_takes zs starts accept) (a, 0, None) ks (ztcp_acc s) \<or>
      hands_out (ztcp_takes zs starts accept) (a, 0, None) ks (ztcp_acc s))"

text \<open>
  In terms of the acceptor itself: it has handed out the clients \<open>cs\<close>, which got a handler, and \<open>rs\<close>,
  which is at most one and was refused.
\<close>

definition ztcp_clients :: "('a, 'k) accept_op \<Rightarrow> 'a \<Rightarrow> ('a, 'k) ztcp_state \<Rightarrow> 'k list \<Rightarrow> 'k list \<Rightarrow> bool" where
  "ztcp_clients accept a s cs rs \<longleftrightarrow> length cs = length (zt_streams s) \<and>
     (took accept a (cs @ rs) (zt_acceptor s) \<or> hands_out accept a (cs @ rs) (zt_acceptor s))"

lemma took_takes:
  assumes "took (ztcp_takes zs starts accept) (a, n, None) ks (b, m, r)"
  shows "r = None \<and> (\<exists>cs. ks = map (zs_nodelay zs) cs \<and> took accept a cs b)"
  using assms
proof (induction ks arbitrary: a n)
  case Nil
  then show ?case by simp
next
  case (Cons k ks)
  from Cons.prems obtain c a1 where c: "accept a = (Some c, a1)" "k = zs_nodelay zs c"
    "took (ztcp_takes zs starts accept) (a1, Suc n, None) ks (b, m, r)"
    by (auto split: prod.splits option.splits if_splits)
  from Cons.IH [OF c(3)] obtain cs where "r = None" "ks = map (zs_nodelay zs) cs" "took accept a1 cs b" by blast
  with c show ?case by (intro conjI exI [of _ "c # cs"]) simp_all
qed

lemma hands_out_takes:
  assumes "hands_out (ztcp_takes zs starts accept) (a, n, None) ks (b, m, r)"
  shows "\<exists>cs. ks = map (zs_nodelay zs) cs \<and> (r = None \<and> hands_out accept a cs b \<or>
    (\<exists>c. r = Some (zs_close zs (zs_nodelay zs c)) \<and> took accept a (cs @ [c]) b \<and> starts \<le> n + length cs))"
  using assms
proof (induction ks arbitrary: a n)
  case Nil
  then show ?case by (auto split: prod.splits option.splits if_splits)
next
  case (Cons k ks)
  from Cons.prems obtain c a1 where c: "accept a = (Some c, a1)" "k = zs_nodelay zs c"
    "hands_out (ztcp_takes zs starts accept) (a1, Suc n, None) ks (b, m, r)"
    by (auto split: prod.splits option.splits if_splits)
  from Cons.IH [OF c(3)] obtain cs where cs: "ks = map (zs_nodelay zs) cs"
    "r = None \<and> hands_out accept a1 cs b \<or>
      (\<exists>d. r = Some (zs_close zs (zs_nodelay zs d)) \<and> took accept a1 (cs @ [d]) b \<and> starts \<le> Suc n + length cs)" by blast
  with c show ?case by (intro exI [of _ "c # cs"]) auto
qed

lemma accepted_clients:
  assumes "ztcp_accepted zs accept starts a s ks"
  shows "\<exists>cs rs. ks = map (zs_nodelay zs) cs \<and> ztcp_clients accept a s cs rs \<and>
    (rs = [] \<and> zt_refused s = None \<or>
     (\<exists>c. rs = [c] \<and> zt_refused s = Some (zs_close zs (zs_nodelay zs c)) \<and> starts \<le> length cs))"
proof -
  from assms have len: "length ks = length (zt_streams s)"
    and out: "took (ztcp_takes zs starts accept) (a, 0, None) ks (ztcp_acc s) \<or>
      hands_out (ztcp_takes zs starts accept) (a, 0, None) ks (ztcp_acc s)"
    by (simp_all add: ztcp_accepted_def)
  from out show ?thesis
  proof
    assume "took (ztcp_takes zs starts accept) (a, 0, None) ks (ztcp_acc s)"
    from took_takes [OF this] obtain cs where "zt_refused s = None" "ks = map (zs_nodelay zs) cs" "took accept a cs (zt_acceptor s)"
      by blast
    with len show ?thesis by (intro exI [of _ cs] exI [of _ "[]"]) (simp add: ztcp_clients_def)
  next
    assume "hands_out (ztcp_takes zs starts accept) (a, 0, None) ks (ztcp_acc s)"
    from hands_out_takes [OF this] obtain cs where cs: "ks = map (zs_nodelay zs) cs"
      "zt_refused s = None \<and> hands_out accept a cs (zt_acceptor s) \<or>
        (\<exists>c. zt_refused s = Some (zs_close zs (zs_nodelay zs c)) \<and> took accept a (cs @ [c]) (zt_acceptor s) \<and> starts \<le> 0 + length cs)"
      by blast
    from cs(2) show ?thesis
    proof
      assume "zt_refused s = None \<and> hands_out accept a cs (zt_acceptor s)"
      with cs(1) len show ?thesis by (intro exI [of _ cs] exI [of _ "[]"]) (simp add: ztcp_clients_def)
    next
      assume "\<exists>c. zt_refused s = Some (zs_close zs (zs_nodelay zs c)) \<and> took accept a (cs @ [c]) (zt_acceptor s) \<and> starts \<le> 0 + length cs"
      then obtain c where "zt_refused s = Some (zs_close zs (zs_nodelay zs c))" "took accept a (cs @ [c]) (zt_acceptor s)"
        "starts \<le> length cs" by auto
      with cs(1) len show ?thesis by (intro exI [of _ cs] exI [of _ "[c]"]) (simp add: ztcp_clients_def)
    qed
  qed
qed

context zig_tcp begin

lemma ztcp_connections:
  assumes "pool_reach (ztcp_step late zs mode accept starts) (ztcp_start a) (s, ts)"
  shows "\<exists>ks. ztcp_accepted zs accept starts a s ks \<and>
    (\<forall>i < length ks. \<exists>pc. ZTHandling i pc \<in> set ts) \<and>
    (\<forall>i pc. ZTHandling i pc \<in> set ts \<longrightarrow> i < length ks \<and> zig_known mode (ks ! i) (zt_streams s ! i) pc)"
proof -
  note ct = ztcp_conn_tasks [of mode late accept starts]
  have "conn_tasks.served (zig_known mode) zt_streams ztcp_acc
      (ztcp_takes zs starts accept) ztcp_conn_of ztcp_serving (a, 0, None) [] (ztcp_start a)"
    by (simp add: conn_tasks.served_def [OF ct] conn_tasks.alone_def [OF ct] ztcp_start_def)
  from conn_tasks.served_reach [OF ct assms this] obtain ks where
    ks: "conn_tasks.served (zig_known mode) zt_streams ztcp_acc
      (ztcp_takes zs starts accept) ztcp_conn_of ztcp_serving (a, 0, None) ks (s, ts)" ..
  note d = conn_tasks.servedD [OF ct ks]
  have "ztcp_accepted zs accept starts a s ks" using d(1,5) by (simp add: ztcp_accepted_def)
  moreover have "\<exists>pc. ZTHandling i pc \<in> set ts" if "i < length ks" for i
    using d(3) [OF that] by (auto simp: ztcp_conn_of_iff)
  moreover have "i < length ks \<and> zig_known mode (ks ! i) (zt_streams s ! i) pc" if "ZTHandling i pc \<in> set ts" for i pc
    using d(2) [OF that, of i pc] by simp
  ultimately show ?thesis by blast
qed

end

section \<open>The end of the program\<close>

fun zt_main :: "ztcp_task \<Rightarrow> nat" where
  "zt_main (ZTHandling i pc) = 0"
| "zt_main t = 1"

fun zt_live :: "ztcp_task \<Rightarrow> nat" where
  "zt_live (ZTHandling i pc) = (if pc = HGone then 0 else 1)"
| "zt_live t = 0"

text \<open>\<open>main\<close> has returned only when no handler is left, and a failed assertion ends the process.\<close>

definition ztcp_ok :: "('a, 'k) ztcp_state \<Rightarrow> ztcp_task \<Rightarrow> bool" where
  "ztcp_ok s t \<longleftrightarrow> (t = ZTExit \<longrightarrow> zt_active s = 0) \<and> (\<forall>i. t = ZTHandling i HAssert \<longrightarrow> zt_dead s)"

definition ztcp_inv :: "(('a, 'k) ztcp_state, ztcp_task) pool \<Rightarrow> bool" where
  "ztcp_inv c \<longleftrightarrow> (\<forall>t \<in> set (snd c). ztcp_ok (fst c) t) \<and> tsum zt_main (snd c) = 1 \<and>
     zt_active (fst c) = tsum zt_live (snd c)"

lemma ztcp_local:
  assumes "ztcp_step late zs mode accept starts s t = Some (s', t', new)" and "zt_active s = n + zt_live t"
  shows "zt_active s' = n + zt_live t' + tsum zt_live new" and "zt_main t' + tsum zt_main new = zt_main t"
    and "ztcp_ok s' t' \<and> (\<forall>u \<in> set new. ztcp_ok s' u)"
    and "ztcp_ok s u \<Longrightarrow> zt_main t = 0 \<or> zt_main u = 0 \<Longrightarrow> ztcp_ok s' u"
proof -
  have "zt_active s' = n + zt_live t' + tsum zt_live new \<and> zt_main t' + tsum zt_main new = zt_main t \<and>
    (ztcp_ok s' t' \<and> (\<forall>u \<in> set new. ztcp_ok s' u)) \<and>
    (\<forall>u. ztcp_ok s u \<longrightarrow> zt_main t = 0 \<or> zt_main u = 0 \<longrightarrow> ztcp_ok s' u)"
  proof (cases t)
    case (ZTHandling i pc)
    with assms(1) obtain pc' where h: "ztcp_handler_step (late s t) zs mode s i pc = Some (s', pc')"
      "t' = ZTHandling i pc'" "new = []"
      by (auto split: if_splits)
    from h(1) show ?thesis
    proof (cases rule: ztcp_handler_cases)
      case (canceled bs)
      then have "pc \<noteq> HGone" by auto
      with canceled h(2,3) assms(2) ZTHandling show ?thesis by (auto simp: ztcp_ok_def)
    next
      case (steps k)
      then have "pc \<noteq> HGone" by auto
      with steps h(2,3) assms(2) ZTHandling show ?thesis by (auto simp: ztcp_ok_def)
    qed
  qed (use assms in \<open>auto simp: ztcp_ok_def Let_def split: if_splits option.splits prod.splits\<close>)
  then show "zt_active s' = n + zt_live t' + tsum zt_live new" "zt_main t' + tsum zt_main new = zt_main t"
    "ztcp_ok s' t' \<and> (\<forall>u \<in> set new. ztcp_ok s' u)"
    "ztcp_ok s u \<Longrightarrow> zt_main t = 0 \<or> zt_main u = 0 \<Longrightarrow> ztcp_ok s' u" by blast+
qed

interpretation ztcp: task_invariant "ztcp_step late zs mode accept starts" ztcp_inv
proof
  fix c c' assume inv: "ztcp_inv c" and "pool_step (ztcp_step late zs mode accept starts) c c'"
  from this(2) show "ztcp_inv c'"
  proof cases
    case (run_task j ts s s' t' new)
    note j = run_task(3)
    from inv have all: "\<And>t. t \<in> set ts \<Longrightarrow> ztcp_ok s t" and one: "tsum zt_main ts = 1" and act: "zt_active s = tsum zt_live ts"
      by (simp_all add: ztcp_inv_def run_task del: sum_list_eq_0_iff)
    note local = ztcp_local [OF run_task(4) act [unfolded tsum_at [OF j]]]
    have keep: "ztcp_ok s' u" if u: "u \<in> set (others j ts)" for u
    proof (rule local(4))
      show "ztcp_ok s u" using all subsetD [OF others_subset u] .
      have "tsum zt_main (others j ts) + zt_main (ts ! j) = 1" using one unfolding tsum_at [OF j] .
      with tsum_member_le [OF u, of zt_main] show "zt_main (ts ! j) = 0 \<or> zt_main u = 0" by linarith
    qed
    have set: "set (ts[j := t'] @ new) = insert t' (set (others j ts) \<union> set new)"
      using j by (auto simp: others_def upd_conv_take_nth_drop)
    have "tsum zt_main (ts[j := t'] @ new) = 1" "zt_active s' = tsum zt_live (ts[j := t'] @ new)"
      unfolding tsum_upd [OF j] using one local(1,2) unfolding tsum_at [OF j] by linarith+
    with keep local(3) show ?thesis unfolding ztcp_inv_def run_task fst_conv snd_conv set by blast
  qed
qed

lemma ztcp_inv_reach:
  "pool_reach (ztcp_step late zs mode accept starts) (ztcp_start a) c \<Longrightarrow> ztcp_inv c"
  by (rule ztcp.inv_reach) (simp_all add: ztcp_inv_def ztcp_ok_def ztcp_start_def)

lemma zig_conn_goes: "zig_conn_step zs mode k pc = None \<Longrightarrow> pc = HGone \<or> pc = HAssert"
  by (cases pc) (auto split: prod.splits option.splits if_splits)

lemma ztcp_blocked:
  assumes "ztcp_step late zs mode accept starts s t = None" and "\<not> zt_dead s" and "ztcp_ok s t"
  shows "t = ZTExit \<or> (\<exists>i. t = ZTHandling i HGone) \<or> t = ZTCancel \<and> zt_active s \<noteq> 0"
proof (cases t)
  case (ZTHandling i pc)
  with assms(1,2) have "ztcp_handler_step (late s t) zs mode s i pc = None" by auto
  then have "zig_conn_step zs mode (zt_streams s ! i) pc = None"
    by (auto simp: ztcp_handler_step.simps split: option.splits)
  with zig_conn_goes [OF this] assms(2,3) ZTHandling show ?thesis by (auto simp: ztcp_ok_def)
qed (use assms in \<open>auto simp: Let_def split: if_splits option.splits prod.splits\<close>)

lemma ztcp_ends:
  assumes inv: "ztcp_inv (s, ts)"
  shows "ZTExit \<in> set ts \<Longrightarrow> ZTHandling i pc \<in> set ts \<Longrightarrow> pc = HGone"
    and "pool_stuck (ztcp_step late zs mode accept starts) (s, ts) \<Longrightarrow> zt_dead s \<or> ZTExit \<in> set ts"
proof -
  note i = inv [unfolded ztcp_inv_def fst_conv snd_conv]
  show "pc = HGone" if "ZTExit \<in> set ts" "ZTHandling i pc \<in> set ts"
  proof -
    from that(1) i have "tsum zt_live ts = 0" by (auto simp: ztcp_ok_def)
    from tsum_zeroD [OF this that(2)] show ?thesis by (simp split: if_splits)
  qed
  show "zt_dead s \<or> ZTExit \<in> set ts" if stuck: "pool_stuck (ztcp_step late zs mode accept starts) (s, ts)"
  proof (rule ccontr)
    assume go: "\<not> (zt_dead s \<or> ZTExit \<in> set ts)"
    have blocked: "(\<exists>i. t = ZTHandling i HGone) \<or> t = ZTCancel \<and> zt_active s \<noteq> 0" if t: "t \<in> set ts" for t
      using ztcp_blocked [of late zs mode accept starts s t] stuck go i t by (auto simp: pool_stuck_def)
    then have "zt_live t = 0" if "t \<in> set ts" for t using that by fastforce
    then have "zt_active s = 0" using i tsum_zeroI [of ts zt_live] by metis
    with blocked have "zt_main t = 0" if "t \<in> set ts" for t using that by fastforce
    with i tsum_zeroI [of ts zt_main] show False by (metis zero_neq_one)
  qed
qed

text \<open>
  The contract can be met: a client whose bytes are read three at a time and that takes \<open>quota\<close> bytes.
\<close>

definition zig_list_stream :: "conn zig_stream" where
  "zig_list_stream =
     \<lparr>zs_alloc = (\<lambda>k. True),
      zs_fill = (\<lambda>k room. if inbytes k = [] then (None, k)
        else let n = min room 3
          in (Some (take n (inbytes k)), k\<lparr>inbytes := drop n (inbytes k), got := got k @ take n (inbytes k)\<rparr>)),
      zs_read_short = (\<lambda>k room. (Some (take room (inbytes k)),
        k\<lparr>inbytes := drop room (inbytes k), got := got k @ take room (inbytes k)\<rparr>)),
      zs_write = (\<lambda>k bs.
        if length bs \<le> quota k then (True, k\<lparr>quota := quota k - length bs, out := out k @ bs\<rparr>)
        else (False, k\<lparr>quota := 0, out := out k @ take (quota k) bs\<rparr>)),
      zs_flush = (\<lambda>k. (True, k)),
      zs_cancel = (\<lambda>k bs. k),
      zs_nodelay = (\<lambda>k. k),
      zs_close = (\<lambda>k. k\<lparr>gone_times := Suc (gone_times k)\<rparr>)\<rparr>"

interpretation zig_list: zig_tcp zig_list_stream got out gone_times
proof unfold_locales
  fix k room r k'
  assume "zs_fill zig_list_stream k room = (r, k')"
  then show "got k' = got k @ (case r of None \<Rightarrow> [] | Some d \<Rightarrow> d) \<and> (\<forall>d. r = Some d \<longrightarrow> length d \<le> room) \<and>
      out k' = out k \<and> gone_times k' = gone_times k"
    by (auto simp: zig_list_stream_def Let_def split: if_splits)
next
  fix k bs ok k'
  assume w: "zs_write zig_list_stream k bs = (ok, k')"
  show "(\<exists>j. out k' = out k @ take j bs \<and> (ok \<longrightarrow> length bs \<le> j)) \<and> got k' = got k \<and> gone_times k' = gone_times k"
  proof (cases "length bs \<le> quota k")
    case True
    with w show ?thesis by (intro conjI exI [of _ "length bs"]) (auto simp: zig_list_stream_def)
  next
    case False
    with w show ?thesis by (intro conjI exI [of _ "quota k"]) (auto simp: zig_list_stream_def)
  qed
next
  show "\<exists>j d. out (zs_cancel zig_list_stream k bs) = out k @ take j bs \<and> got (zs_cancel zig_list_stream k bs) = got k @ d \<and>
      (bs = [] \<and> length d \<le> BUF_SIZE \<or> d = []) \<and> gone_times (zs_cancel zig_list_stream k bs) = gone_times k" for k bs
    by (intro exI [of _ 0] exI [of _ "[]"]) (simp add: zig_list_stream_def)
qed (auto simp: zig_list_stream_def)

definition next_client :: "(conn list, conn) accept_op" where
  "next_client ks = (case ks of [] \<Rightarrow> (None, []) | k # ks' \<Rightarrow> (Some k, ks'))"

section \<open>Properties\<close>

text \<open>
  C21. The Zig server serves its connections and closes them all. In every reachable state the streams
  the acceptor has handed out are those with a handler and at most one whose handler could not be
  started. That one \<open>main\<close> has closed once, with nothing sent; what a handler has sent is right for
  what it has received at its suspension point (\<open>zig_sofar\<close>: the echo lacks at most one buffer, the sink
  sends nothing, the source zeros, the HTTP mode responses only), whatever the others do, also when the
  group is cancelled, and it closes its stream once, when it returns. \<open>main\<close> returns after all of them,
  so every stream has then been closed exactly once; and a run that cannot go on has got there, unless
  an assertion has failed.
\<close>

theorem ztcp_serves:
  assumes "zig_tcp zs rcvd sent closes" and "ztcp_main listening a args = Inr ((mode, p), start)"
    and "pool_reach (ztcp_step late zs mode accept starts) start (s, ts)"
  shows "(\<exists>ks. ztcp_accepted zs accept starts a s ks \<and>
      (\<exists>cs rs. ks = map (zs_nodelay zs) cs \<and> ztcp_clients accept a s cs rs \<and>
        (rs = [] \<and> zt_refused s = None \<or>
         (\<exists>c k. rs = [c] \<and> zt_refused s = Some k \<and> starts \<le> length cs \<and> rcvd k = rcvd (zs_nodelay zs c) \<and>
           sent k = sent (zs_nodelay zs c) \<and> closes k = closes (zs_nodelay zs c) + 1))) \<and>
      (\<forall>i < length ks. \<exists>pc xs ys. ZTHandling i pc \<in> set ts \<and> zig_sofar mode xs ys pc \<and>
        rcvd (zt_streams s ! i) = rcvd (ks ! i) @ xs \<and> sent (zt_streams s ! i) = sent (ks ! i) @ ys \<and>
        closes (zt_streams s ! i) = closes (ks ! i) + (if pc = HGone then 1 else 0) \<and>
        (ZTExit \<in> set ts \<longrightarrow> pc = HGone))) \<and>
    (pool_stuck (ztcp_step late zs mode accept starts) (s, ts) \<longrightarrow> zt_dead s \<or> ZTExit \<in> set ts)"
proof -
  from assms(2) have "start = ztcp_start a" by (auto simp: ztcp_main_def split: sum.splits if_splits)
  note run = assms(3) [unfolded this]
  note ends = ztcp_ends [OF ztcp_inv_reach [OF run]]
  from zig_tcp.ztcp_connections [OF assms(1) run] obtain ks where ks: "ztcp_accepted zs accept starts a s ks"
    "\<forall>i < length ks. \<exists>pc. ZTHandling i pc \<in> set ts"
    "\<forall>i pc. ZTHandling i pc \<in> set ts \<longrightarrow> i < length ks \<and> zig_tcp.zig_known rcvd sent closes mode (ks ! i) (zt_streams s ! i) pc"
    by blast
  have handled: "\<forall>i < length ks. \<exists>pc xs ys. ZTHandling i pc \<in> set ts \<and> zig_sofar mode xs ys pc \<and>
        rcvd (zt_streams s ! i) = rcvd (ks ! i) @ xs \<and> sent (zt_streams s ! i) = sent (ks ! i) @ ys \<and>
        closes (zt_streams s ! i) = closes (ks ! i) + (if pc = HGone then 1 else 0) \<and>
        (ZTExit \<in> set ts \<longrightarrow> pc = HGone)"
    using ks(2,3) ends(1) unfolding zig_tcp.zig_known_def [OF assms(1)] by meson
  from accepted_clients [OF ks(1)] obtain cs rs where cs: "ks = map (zs_nodelay zs) cs" "ztcp_clients accept a s cs rs"
    and rs: "rs = [] \<and> zt_refused s = None \<or>
      (\<exists>c. rs = [c] \<and> zt_refused s = Some (zs_close zs (zs_nodelay zs c)) \<and> starts \<le> length cs)" by blast
  from rs have "rs = [] \<and> zt_refused s = None \<or>
         (\<exists>c k. rs = [c] \<and> zt_refused s = Some k \<and> starts \<le> length cs \<and> rcvd k = rcvd (zs_nodelay zs c) \<and>
           sent k = sent (zs_nodelay zs c) \<and> closes k = closes (zs_nodelay zs c) + 1)"
    using zig_tcp.close_once [OF assms(1)] by auto
  with cs ks(1) handled ends(2) show ?thesis by blast
qed

text \<open>
  A connection that is cancelled with its bytes received and not sent back, and one whose handler
  cannot be started; both are closed when \<open>main\<close> returns.
\<close>

theorem ztcp_serves_witness:
  "\<exists>s ts k. pool_reach (ztcp_step (\<lambda>s t. False) zig_list_stream ZigEcho next_client 1) (ztcp_start [demo_conn, demo_conn]) (s, ts) \<and>
    ZTExit \<in> set ts \<and> got (zt_streams s ! 0) = [1, 2, 3] \<and> out (zt_streams s ! 0) = [] \<and> gone_times (zt_streams s ! 0) = 1 \<and>
    zt_refused s = Some k \<and> gone_times k = 1"
proof -
  have main: "ztcp_main True [demo_conn, demo_conn] [''--zio''] = Inr ((ZigEcho, 18800), ztcp_start [demo_conn, demo_conn])"
    by (simp add: ztcp_main_def backend_flag_def)
  have "\<exists>s ts. pool_run (ztcp_step (\<lambda>s t. False) zig_list_stream ZigEcho next_client 1) [0, 1, 1, 0, 1, 1, 0]
      (ztcp_start [demo_conn, demo_conn]) = Some (s, ts) \<and> zt_acceptor s = [] \<and> length (zt_streams s) = 1 \<and> zt_refused s \<noteq> None \<and>
    ZTExit \<in> set ts \<and> got (zt_streams s ! 0) = [1, 2, 3] \<and> out (zt_streams s ! 0) = []"
    by (simp add: ztcp_start_def next_client_def zig_list_stream_def demo_conn_def Let_def zig_mode_loop_def
        ztcp_handler_step.simps BUF_SIZE_def)
  then obtain s ts where run: "pool_run (ztcp_step (\<lambda>s t. False) zig_list_stream ZigEcho next_client 1) [0, 1, 1, 0, 1, 1, 0]
      (ztcp_start [demo_conn, demo_conn]) = Some (s, ts)" "length (zt_streams s) = 1" "zt_refused s \<noteq> None"
    and s: "ZTExit \<in> set ts" "got (zt_streams s ! 0) = [1, 2, 3]" "out (zt_streams s ! 0) = []"
    by blast
  from ztcp_serves [OF zig_list.zig_tcp_axioms main pool_run_reach [OF run(1)]] s(1) run(3) obtain cs c k where
    cs: "ztcp_clients next_client [demo_conn, demo_conn] s cs [c]" and k: "zt_refused s = Some k"
      "gone_times k = gone_times (zs_nodelay zig_list_stream c) + 1"
    and all: "\<And>i. i < length cs \<Longrightarrow> gone_times (zt_streams s ! i) = gone_times (zs_nodelay zig_list_stream (cs ! i)) + 1"
    by fastforce
  from cs run(2) obtain d where "cs = [d]" by (auto simp: ztcp_clients_def length_Suc_conv)
  with cs have "d = demo_conn" "c = demo_conn"
    by (auto simp: ztcp_clients_def next_client_def split: list.splits)
  with \<open>cs = [d]\<close> k(2) all [of 0] have "gone_times k = 1" "gone_times (zt_streams s ! 0) = 1"
    by (simp_all add: zig_list_stream_def demo_conn_def)
  with pool_run_reach [OF run(1)] s k(1) show ?thesis by blast
qed

text \<open>
  C22. The HTTP mode answers every request once. When the handler of a connection waits for more bytes and
  has received some requests, each a head up to its first empty line, and the beginning of another, it has
  sent exactly one response for each of them and has the rest in its buffer, however the bytes were cut
  into reads; when it has returned it has sent a prefix of these responses.
\<close>

theorem ztcp_http_answers:
  assumes "zig_tcp zs rcvd sent closes" and "pool_reach (ztcp_step late zs ZigHttp accept starts) (ztcp_start a) (s, ts)"
    and "ZTHandling i pc \<in> set ts"
  shows "\<exists>ks. ztcp_accepted zs accept starts a s ks \<and>
    (\<forall>rs rest. rcvd (zt_streams s ! i) = rcvd (ks ! i) @ concat rs @ rest \<longrightarrow>
      (\<forall>r \<in> set rs. http_request r) \<longrightarrow> index_of http_end rest = None \<longrightarrow>
      (\<forall>data. pc = HMore data \<longrightarrow> data = rest \<and>
        sent (zt_streams s ! i) = sent (ks ! i) @ concat (replicate (length rs) http_response)) \<and>
      (pc = HGone \<longrightarrow> prefix (sent (zt_streams s ! i)) (sent (ks ! i) @ concat (replicate (length rs) http_response))))"
proof -
  from zig_tcp.ztcp_connections [OF assms(1,2)] assms(3) obtain ks where ks: "ztcp_accepted zs accept starts a s ks"
    "zig_tcp.zig_known rcvd sent closes ZigHttp (ks ! i) (zt_streams s ! i) pc" by blast
  from ks(2) obtain xs ys where xs: "rcvd (zt_streams s ! i) = rcvd (ks ! i) @ xs" "sent (zt_streams s ! i) = sent (ks ! i) @ ys"
    "zig_sofar ZigHttp xs ys pc"
    unfolding zig_tcp.zig_known_def [OF assms(1)] by blast
  have "requests xs = length rs \<and> unread xs = rest"
    if "xs = concat rs @ rest" "\<forall>r \<in> set rs. http_request r" "index_of http_end rest = None" for rs rest
    using requests_concat [OF that(2), of rest] that(1,3) by (simp add: requests_step)
  with xs ks(1) show ?thesis
    by (intro exI [of _ ks]) (auto simp: zig_over_def answers_def)
qed

text \<open>A request in two reads, cut inside its terminator.\<close>

definition http_client :: conn where
  "http_client = \<lparr>inbytes = [71, 13, 10, 13, 10], quota = 1000, got = [], out = [], gone_times = 0\<rparr>"

lemma length_http_response: "length http_response = 89"
  by (simp add: http_response_def ascii_def crlf_def)

theorem ztcp_http_answers_witness:
  "\<exists>s ts. pool_reach (ztcp_step (\<lambda>s t. False) zig_list_stream ZigHttp next_client 9) (ztcp_start [http_client]) (s, ts) \<and>
    ZTHandling 0 (HMore []) \<in> set ts \<and> out (zt_streams s ! 0) = http_response"
proof -
  have "\<exists>s ts. pool_run (ztcp_step (\<lambda>s t. False) zig_list_stream ZigHttp next_client 9) [0, 1, 1, 1, 1, 1, 1, 1]
      (ztcp_start [http_client]) = Some (s, ts) \<and> ZTHandling 0 (HMore []) \<in> set ts \<and> got (zt_streams s ! 0) = [71, 13, 10, 13, 10] \<and>
      length (zt_streams s) = 1 \<and> zt_acceptor s = []"
    by (simp add: ztcp_start_def next_client_def zig_list_stream_def http_client_def Let_def zig_mode_loop_def
        ztcp_handler_step.simps BUF_SIZE_def http_next_def http_end_def crlf_def length_http_response)
  then obtain s ts where run: "pool_run (ztcp_step (\<lambda>s t. False) zig_list_stream ZigHttp next_client 9) [0, 1, 1, 1, 1, 1, 1, 1]
      (ztcp_start [http_client]) = Some (s, ts)" and s: "ZTHandling 0 (HMore []) \<in> set ts"
    "got (zt_streams s ! 0) = [71, 13, 10, 13, 10]" "length (zt_streams s) = 1" by blast
  from ztcp_http_answers [OF zig_list.zig_tcp_axioms pool_run_reach [OF run] s(1)] obtain ks where
    ks: "ztcp_accepted zig_list_stream next_client 9 [http_client] s ks" and
    all: "\<And>rs rest. got (zt_streams s ! 0) = got (ks ! 0) @ concat rs @ rest \<Longrightarrow>
      (\<forall>r \<in> set rs. http_request r) \<Longrightarrow> index_of http_end rest = None \<Longrightarrow>
      out (zt_streams s ! 0) = out (ks ! 0) @ concat (replicate (length rs) http_response)" by blast
  from ks s(3) obtain k where "ks = [k]" by (auto simp: ztcp_accepted_def length_Suc_conv)
  with ks have k: "ks ! 0 = http_client"
    by (auto simp: ztcp_accepted_def next_client_def zig_list_stream_def split: if_splits)
  have "http_request [71, 13, 10, 13, 10]"
    by (auto simp: http_request_def http_end_def crlf_def intro!: exI [of _ "[71]"])
  with all [of "[[71, 13, 10, 13, 10]]" "[]"] k s(2) have "out (zt_streams s ! 0) = http_response"
    by (simp add: http_client_def http_end_def crlf_def)
  with pool_run_reach [OF run] s(1) show ?thesis by blast
qed

end
