(* ===== verification/Spec2Isabelle.thy ===== *)
theory Spec2Isabelle
  imports Report Futex_Fifo Ping_Pong_Futex Pool_Refinement Pool_Types Zig_Programs Tcp_Program_Zig
begin

text \<open>
  Verification of the C++ benchmark programs of the zio-benchmarks repository (\<open>cpp/\<close>) and of six of
  its Zig programs: the futex channel and the ping-pong built on it (\<open>src/futex_channel.zig\<close>,
  \<open>src/queue_ping_pong_futex.zig\<close>), and the counterparts of the C++ programs on \<open>std.Io\<close>
  (\<open>src/worker_pool.zig\<close>, \<open>src/queue_ping_pong.zig\<close>, \<open>src/sleep.zig\<close>, \<open>src/tcp_server.zig\<close>).

  The programs come in pairs, one on Asio and one on PhotonLibOS, that do the same work and must
  agree: a worker pool (\<open>worker_pool_asio.cpp\<close>, \<open>worker_pool_photon.cpp\<close>), a ping-pong
  (\<open>queue_ping_pong.cpp\<close>, \<open>queue_ping_pong_photon.cpp\<close>), a sleep benchmark (\<open>sleep_asio.cpp\<close>,
  \<open>sleep_photon.cpp\<close>) and a TCP server (\<open>tcp_server_asio.cpp\<close>, \<open>tcp_server_photon.cpp\<close>).

  Theories, from the bottom:

  \<open>Prelude\<close>: machine integers, exclusive-or over multisets, sums over a list of tasks.
  \<open>Tasks\<close>: the execution model. A program is a shared state and a list of tasks (coroutines); a
  step runs one action of any task that is not blocked, so a theorem about all runs covers every
  interleaving on any number of threads, at the granularity of one action. The locales
  \<open>task_invariant\<close>, \<open>task_terminates\<close>, \<open>task_live\<close> turn an invariant, a weight and a progress
  argument into: the invariant always holds, no run is longer than the weight, a run that cannot
  go on has finished all tasks, and from every reachable state the end can be reached.
  \<open>Workload\<close>, \<open>Item_Flow\<close>: \<open>work\<close>, the split of the items and the checksum, and the data
  invariant both pools share.
  \<open>Photon_Sync\<close>, \<open>Asio_Runtime\<close>: the parts of the runtimes the programs use. PhotonLibOS and Asio
  are not in the repository, so their operations are parameters (\<open>photon_ops\<close>, \<open>channel_ops\<close>,
  \<open>join_ops\<close>) and their documented behaviour is the assumption of the locales \<open>photon_sync\<close>,
  \<open>asio_channel\<close> and \<open>asio_join\<close>; \<open>counter_ops\<close>, \<open>list_channel\<close> and \<open>nat_join\<close> show that the
  assumptions can be met, and the closed examples run on them.
  \<open>Fifo\<close>, \<open>Photon_Queue\<close>: the contract of a bounded FIFO, and \<open>struct Queue\<close> of the photon worker
  pool, action by action and as undisturbed calls that implement the FIFO.
  \<open>Worker_Pool_Photon\<close>, \<open>Worker_Pool_Asio\<close>, \<open>Ping_Pong_Photon\<close>, \<open>Ping_Pong_Asio\<close>, \<open>Sleep\<close>: the
  concurrent programs. A datatype lists the suspension points of each coroutine with its local
  variables, a record the shared state, and a step function the actions, one branch per action of
  the code: a semaphore, mutex, channel or atomic operation, or an unprotected access together
  with the local computation up to the next action. \<open>main\<close> is a task like the others.
  \<open>Timed_Tasks\<close>, \<open>Sleep_Clock\<close>: the execution model with a clock, and how long the sleep benchmarks
  take. A timed run is a run of the plain model with times added, so all other theorems apply to it.
  \<open>Tcp_Server\<close>: the connection handlers and accept loops, as partial functions over a socket.
  \<open>Connections\<close>: the same handlers cut at the calls they suspend in, proved to compute what the
  handlers of \<open>Tcp_Server\<close> return, and the locales \<open>conn_tasks\<close> and \<open>conn_server\<close>: in a pool in which every
  connection has its handler, what a handler keeps true of its connection is true of each, and each
  connection is served as if it were alone.
  \<open>Tcp_Program_Asio\<close>, \<open>Tcp_Program_Photon\<close>: the servers as whole programs, accepting while the
  connections are served; the Asio one with the threads that run its \<open>io_context\<close>.
  \<open>Cstdlib\<close>, \<open>Command_Line\<close>: \<open>strncmp\<close>, \<open>strtoull\<close>, \<open>atoi\<close>, the argument loops of all \<open>main\<close>s and how
  each \<open>main\<close> starts its program, error exits included.
  \<open>Bench_Output\<close>, \<open>Report\<close>: the lines the programs print and \<open>parse_ms\<close> of \<open>bench.py\<close>, which reads
  the duration from them.

  \<open>Futex_Channel\<close>, \<open>Futex_Invariant\<close>, \<open>Futex_Delivery\<close>, \<open>Futex_Progress\<close>, \<open>Futex_Fifo\<close>: the futex channel
  action by action under any clients, with cancel requests and spurious wake-ups as tasks of the
  environment; its invariant, what it does with the items, where its runs can stop and how long
  they are, and its undisturbed calls against a FIFO that can be closed: which return, with which result,
  and which go to sleep.
  \<open>Futex_Calls\<close>, \<open>Ping_Pong_Protocol\<close>, \<open>Ping_Pong_Futex\<close>: the Zig ping-pong. \<open>Futex_Calls\<close> tells when the result
  of a call is decided, \<open>Ping_Pong_Protocol\<close> is the program with every call decided in one step, and
  \<open>Ping_Pong_Futex\<close> is the program on two futex channels, action by action, under the view \<open>pp_look\<close> of
  which every action is a step of the protocol or none. Nothing is assumed of the channels.
  \<open>Worker_Pool_Zig\<close>, \<open>Zig_Command_Line\<close>: the Zig worker pool, whose queue is closed by the last producer,
  with \<open>group.concurrent\<close> that may fail and checked arithmetic, and its argument loop.
  \<open>Pool_Spec\<close>, \<open>Pool_Refinement\<close>: the three pools against one specification, a multiset of items of which one
  is taken at a time; the locale \<open>pool_refines\<close> carries a simulation square over whole runs, and
  \<open>pool_drops\<close> over runs that may give up and drop items, as a cancelled Zig pool does.
  \<open>Pool_Types\<close>: the range of every word in the photon pool.
  \<open>Task_Translation\<close>, \<open>Ping_Pong_Zig\<close>, \<open>Sleep_Zig\<close>, \<open>Zig_Programs\<close>: the Zig ping-pong and sleep programs, with
  tasks that cannot be started and cancelled groups; while that does not happen each is its Asio
  counterpart action by action (\<open>task_translation\<close>); and their argument loops.
  \<open>Tcp_Zig\<close>, \<open>Tcp_Program_Zig\<close>: the handler of the Zig TCP server, its HTTP mode included, and the server as
  a program that cancels its handlers and waits for them when it ends.

  What is shown: the checksum is the specified one in every run of each pool, all three pools refine one
  atomic specification (the Zig pool also when it is cancelled or panics), no item is lost or done twice, the ring buffer is never overrun and is accessed under mutual exclusion; the
  ping-pongs end in every run with the messages counted up to the limit and never lose or
  overwrite one; the sleep programs wait for all tasks, for at least one sleep and, with a good
  schedule, for no more; the echo servers return what they received, on each connection whatever
  the others do; the Asio server ends with its first failed accept after all handlers, the photon
  server without waiting for them; all runs are bounded explicitly; the argument loops mean the
  last value given; two pools on the same command line print the same checksum, and the runner reads
  back the duration every program prints; the futex channel delivers every item exactly once and in
  order, loses no wake-up and never touches a waiter that has returned; the Zig ping-pong exchanges every
  number below its limit once and in order and returns, in every run; the Zig worker pool reports the
  checksum of the C++ pools on the same options, returns the error when a task cannot be started and
  panics when a product overflows, but never hangs; the Zig ping-pong and sleep programs are their Asio
  counterparts on every schedule, or fail with all tasks cancelled, and start with the same numbers; the
  Zig TCP server answers every complete request once however its bytes are cut into reads, and closes
  every stream once before \<open>main\<close> returns, one whose handler cannot be started included; and the conditions under which the programs do not end
  (no consumers, no producers) do hang.

  Bounds: 64-bit counters wrap in the models as in the code. The checksum theorems ask for
  \<open>producers * items\<close> below 2 to the 64th, \<open>Workload\<close> shows what happens otherwise; the photon
  ping-pong asks for twice the number of pairs to be below 2 to the 64th, which the semaphore it
  counts with needs; the Asio sleep asks for nanoseconds below 2 to the 63rd, beyond which the
  conversion in \<open>std::chrono\<close> overflows. No fuel is used: loops recurse with a measure, runs are
  bounded by a weight, and the server loops, which may not end, are partial functions. The Zig
  ping-pong adds 1 only to numbers below the limit, so the overflow check of Zig cannot fail; a run
  takes at most 34 actions for each number, 17 for each of the two calls. A call in a cancelled group
  returns \<open>error.Canceled\<close> when it would wait; one that need not wait may notice the request late, which
  the parameter \<open>late\<close>, any function, decides. \<open>spawns\<close> and \<open>starts\<close> bound the calls of \<open>group.concurrent\<close> that succeed.

  Not modelled: the measurement of the printed durations and the message rate computed from them
  (in the printed lines both are given), the messages on \<open>stderr\<close>, memory exhaustion (but for
  the buffer of a connection of the Zig server), failure to start a thread, weak memory orders (an atomic operation is one action), the contents of
  \<open>photon::init\<close>, a group of \<open>std.Io\<close> that runs a task to its end before it starts the next
  (the Zig ping-pongs would not end on it), the build mode in which Zig does not check overflows or
  assertions (a reader of the HTTP mode whose 64 KiB buffer is full without the end of a request asserts,
  \<open>HAssert\<close>), where the reader of \<open>std.Io\<close> keeps the bytes in its buffer (only how many are free), the
  cast of the measured nanoseconds in the Zig worker pool, the moment between the two \<open>group.async\<close> of a ping-pong pair, the other Zig benchmarks (no C++ counterpart,
  or on the native API of zio, which is not in the repository), the programs in Go and Rust, the load
  driver, and of the benchmark runner and the build scripts all but \<open>parse_ms\<close>.
\<close>

section \<open>Programs from their command lines\<close>

text \<open>
  The two worker pools agree. With the same numbers, at least one producer and one consumer, a run
  of the photon pool and a run of the Asio pool that cannot go on have the same checksum, whatever
  the interleavings (also when the split wraps around).
\<close>

theorem pools_agree:
  assumes "photon_sync ph cnt held" and "asio_channel ch stored room shut" and "asio_join jn coroutines"
    and "g_consumers cfg \<noteq> 0" and "g_producers cfg \<noteq> 0"
    and "cfg' = \<lparr>n_items = g_items cfg, n_producers = g_producers cfg, n_consumers = g_consumers cfg,
      work_iters = g_work cfg\<rparr>"
    and "pool_reach (wpp_step ph cfg) (wpp_start ph) (s, ts)" and "pool_stuck (wpp_step ph cfg) (s, ts)"
    and "pool_reach (wpa_step ch jn cfg') (wpa_start ch jn cfg') (s', ts')"
    and "pool_stuck (wpa_step ch jn cfg') (s', ts')"
  shows "g_checksum s = checksum s'"
proof -
  from assms(4,5,6) have "n_consumers cfg' \<noteq> 0" "n_producers cfg' \<noteq> 0" by simp_all
  with worker_pool_asio.asio_pool_total [OF worker_pool_asio.intro [OF asio_runtime.intro
      [OF assms(2,3)] worker_pool_asio_axioms.intro] assms(9,10)]
    worker_pool_photon.pool_total [OF worker_pool_photon.intro
      [OF assms(1) worker_pool_photon_axioms.intro [OF assms(4)]] assms(7,8)]
  show ?thesis by (simp add: assms(6))
qed

theorem pools_agree_witness:
  "\<exists>s ts s' ts'. pool_reach (wpp_step counter_ops wpp_small) (wpp_start counter_ops) (s, ts) \<and>
    pool_reach (wpa_step list_channel nat_join wpa_small) (wpa_start list_channel nat_join wpa_small) (s', ts') \<and>
    g_checksum s = checksum s'"
proof -
  obtain s ts where p: "pool_reach (wpp_step counter_ops wpp_small) (wpp_start counter_ops) (s, ts)"
    "pool_stuck (wpp_step counter_ops wpp_small) (s, ts)"
    using small_pool_ends by blast
  obtain s' ts' where a: "pool_reach (wpa_step list_channel nat_join wpa_small)
      (wpa_start list_channel nat_join wpa_small) (s', ts')"
    "pool_stuck (wpa_step list_channel nat_join wpa_small) (s', ts')"
    using small_asio.wpa.reaches_stuck [OF listrt.wpa_inv_start [OF small_asio.some_producer]] by force
  have "g_checksum s = checksum s'"
    by (rule pools_agree [OF counter.photon_sync_axioms listch.asio_channel_axioms natjn.asio_join_axioms
        _ _ _ p a]) (simp_all add: wpa_small_def)
  with p a show ?thesis by blast
qed

text \<open>
  The photon worker pool from its command line: when \<open>main\<close> gets past its argument loop and
  initialisation, a run that cannot go on has computed the checksum of the items and iterations
  that the options \<open>--num-items\<close> and \<open>--work\<close> give.
\<close>

theorem worker_pool_program:
  assumes "photon_sync ph cnt held" and "wpp_main ph init args = Inr (cfg, start)"
    and "flag_value ''--num-consumers='' args 1000 \<noteq> 0" and "flag_value ''--num-producers='' args 1 \<noteq> 0"
    and "unat (flag_value ''--num-producers='' args 1) * unat (flag_value ''--num-items='' args 100000) < 2 ^ 64"
    and "pool_reach (wpp_step ph cfg) start (s, ts)" and "pool_stuck (wpp_step ph cfg) (s, ts)"
  shows "init = 0 \<and> (\<forall>t \<in> set ts. wpp_finished t) \<and> g_checksum s =
    checksum_spec (flag_value ''--num-items='' args 100000) (flag_value ''--work='' args 64)"
proof -
  from assms(2) have parse: "parse_args wpp_arg args wpp_default = Inr cfg"
    and m: "init = 0" "start = wpp_start ph"
    by (auto simp: wpp_main_def split: sum.splits if_splits)
  have cfg: "g_items cfg = flag_value ''--num-items='' args 100000"
    "g_producers cfg = flag_value ''--num-producers='' args 1"
    "g_consumers cfg = flag_value ''--num-consumers='' args 1000"
    "g_work cfg = flag_value ''--work='' args 64"
    using wpp_items.parse_field [OF parse] wpp_producers.parse_field [OF parse]
      wpp_consumers.parse_field [OF parse] wpp_work.parse_field [OF parse]
    by (simp_all add: wpp_default_def)
  from assms(3) cfg have "g_consumers cfg \<noteq> 0" by simp
  from worker_pool_photon.pool_total [OF worker_pool_photon.intro
      [OF assms(1) worker_pool_photon_axioms.intro [OF this]] assms(6) [unfolded m(2)] assms(7)]
    xor_work_all [of "g_producers cfg" "g_items cfg" "g_work cfg"] assms(4,5) m(1) cfg
  show ?thesis by simp
qed

theorem worker_pool_program_witness:
  "\<exists>s ts. pool_reach (wpp_step counter_ops wpp_default) (wpp_start counter_ops) (s, ts) \<and>
    g_checksum s = checksum_spec 100000 64"
proof -
  have main: "wpp_main counter_ops 0 [] = Inr (wpp_default, wpp_start counter_ops)"
    by (simp add: wpp_main_def)
  obtain s ts where run: "pool_reach (wpp_step counter_ops wpp_default) (wpp_start counter_ops) (s, ts)"
    "pool_stuck (wpp_step counter_ops wpp_default) (s, ts)"
    using counter.wpp_any.reaches_stuck [OF counter.wpp_inv_start] by force
  from worker_pool_program [OF counter.photon_sync_axioms main _ _ _ run] run(1) show ?thesis by auto
qed

text \<open>
  C5. The two worker pools print the same line. Started with the same arguments (without \<open>--st\<close>),
  with at least one producer and one consumer, a run of the photon pool and a run of the Asio pool
  that cannot go on have computed the same checksum, so what they print differs at most in the
  duration and the rate, whatever the interleavings.
\<close>

theorem pools_print_same:
  assumes "photon_sync ph cnt held" and "asio_channel ch stored room shut" and "asio_join jn coroutines"
    and "''--st'' \<notin> set args" and "wpp_main ph 0 args = Inr (cfg, start)" and "wpa_main ch jn args = Inr (cfg', start')"
    and "flag_value ''--num-consumers='' args 1000 \<noteq> 0" and "flag_value ''--num-producers='' args 1 \<noteq> 0"
    and "pool_reach (wpp_step ph cfg) start (s, ts)" and "pool_stuck (wpp_step ph cfg) (s, ts)"
    and "pool_reach (wpa_step ch jn cfg') start' (s', ts')" and "pool_stuck (wpa_step ch jn cfg') (s', ts')"
  shows "g_checksum s = checksum s' \<and> wpp_report d rate cfg s = wpa_report d rate cfg' s'"
proof -
  from assms(5) have wpp: "parse_args wpp_arg args wpp_default = Inr cfg" "start = wpp_start ph"
    by (auto simp: wpp_main_def split: sum.splits if_splits)
  from assms(6) obtain st where wpa: "parse_args wpa_arg args (False, wpa_default) = Inr (st, cfg')"
    "start' = wpa_start ch jn cfg'" by (auto simp: wpa_main_def split: sum.splits)
  have cfg: "cfg' = \<lparr>n_items = g_items cfg, n_producers = g_producers cfg, n_consumers = g_consumers cfg,
      work_iters = g_work cfg\<rparr>"
    using pool_options_agree [OF assms(4)] wpp(1) wpa(1) by simp
  have "g_consumers cfg \<noteq> 0" "g_producers cfg \<noteq> 0"
    using wpp_producers.parse_field [OF wpp(1)] wpp_consumers.parse_field [OF wpp(1)] assms(7,8)
    by (simp_all add: wpp_default_def)
  from pools_agree [OF assms(1-3) this cfg assms(9) [unfolded wpp(2)] assms(10) assms(11) [unfolded wpa(2)] assms(12)]
  show ?thesis by (simp add: pool_lines [OF cfg])
qed

interpretation default_asio: worker_pool_asio list_channel fst "\<lambda>c. fst (snd c)" "\<lambda>c. snd (snd c)"
    nat_join "\<lambda>j. j" wpa_default
  by unfold_locales (simp_all add: wpa_default_def)

text \<open>
  The Asio worker pool from its command line: when \<open>main\<close> gets past its argument loop, a run
  that cannot go on has computed the checksum of the items and iterations that the options
  \<open>--num-items\<close> and \<open>--work\<close> give, and its channel is empty.
\<close>

theorem asio_pool_program:
  assumes "asio_channel ch stored room shut" and "asio_join jn coroutines"
    and "wpa_main ch jn args = Inr (cfg, start)"
    and "flag_value ''--num-consumers='' args 1000 \<noteq> 0" and "flag_value ''--num-producers='' args 1 \<noteq> 0"
    and "unat (flag_value ''--num-producers='' args 1) * unat (flag_value ''--num-items='' args 100000) < 2 ^ 64"
    and "pool_reach (wpa_step ch jn cfg) start (s, ts)" and "pool_stuck (wpa_step ch jn cfg) (s, ts)"
  shows "(\<forall>t \<in> set ts. wpa_finished t) \<and> stored (channel s) = [] \<and> checksum s =
    checksum_spec (flag_value ''--num-items='' args 100000) (flag_value ''--work='' args 64)"
proof -
  from assms(3) obtain st where parse: "parse_args wpa_arg args (False, wpa_default) = Inr (st, cfg)"
    and m: "start = wpa_start ch jn cfg"
    by (auto simp: wpa_main_def split: sum.splits)
  have cfg: "n_items cfg = flag_value ''--num-items='' args 100000"
    "n_producers cfg = flag_value ''--num-producers='' args 1"
    "n_consumers cfg = flag_value ''--num-consumers='' args 1000"
    "work_iters cfg = flag_value ''--work='' args 64"
    using wpa_items.parse_field [OF parse] wpa_producers.parse_field [OF parse]
      wpa_consumers.parse_field [OF parse] wpa_work.parse_field [OF parse]
    by (simp_all add: wpa_default_def)
  from assms(4,5) cfg have "n_producers cfg \<noteq> 0" "n_consumers cfg \<noteq> 0" by simp_all
  from worker_pool_asio.asio_pool_total [OF worker_pool_asio.intro [OF asio_runtime.intro
      [OF assms(1,2)] worker_pool_asio_axioms.intro [OF this]] assms(7) [unfolded m] assms(8)]
    xor_work_all [of "n_producers cfg" "n_items cfg" "work_iters cfg"] assms(5,6) cfg
  show ?thesis by simp
qed

theorem asio_pool_program_witness:
  "\<exists>s ts. pool_reach (wpa_step list_channel nat_join wpa_default) (wpa_start list_channel nat_join wpa_default) (s, ts) \<and>
    checksum s = checksum_spec 100000 64"
proof -
  have main: "wpa_main list_channel nat_join [] = Inr (wpa_default, wpa_start list_channel nat_join wpa_default)"
    by (simp add: wpa_main_def)
  obtain s ts where run: "pool_reach (wpa_step list_channel nat_join wpa_default)
      (wpa_start list_channel nat_join wpa_default) (s, ts)"
    "pool_stuck (wpa_step list_channel nat_join wpa_default) (s, ts)"
    using default_asio.wpa.reaches_stuck [OF listrt.wpa_inv_start [OF default_asio.some_producer]] by force
  from asio_pool_program [OF listch.asio_channel_axioms natjn.asio_join_axioms main _ _ _ run] run(1)
  show ?thesis by auto
qed

theorem pools_print_same_witness:
  "\<exists>s s'. g_checksum s = checksum s' \<and> wpp_report 1500 ''7'' wpp_default s = wpa_report 1500 ''7'' wpa_default s' \<and>
    (\<exists>ts. pool_reach (wpp_step counter_ops wpp_default) (wpp_start counter_ops) (s, ts)) \<and>
    (\<exists>ts'. pool_reach (wpa_step list_channel nat_join wpa_default) (wpa_start list_channel nat_join wpa_default) (s', ts'))"
proof -
  have main: "wpp_main counter_ops 0 [] = Inr (wpp_default, wpp_start counter_ops)"
    "wpa_main list_channel nat_join [] = Inr (wpa_default, wpa_start list_channel nat_join wpa_default)"
    by (simp_all add: wpp_main_def wpa_main_def)
  obtain s ts where p: "pool_reach (wpp_step counter_ops wpp_default) (wpp_start counter_ops) (s, ts)"
    "pool_stuck (wpp_step counter_ops wpp_default) (s, ts)"
    using counter.wpp_any.reaches_stuck [OF counter.wpp_inv_start] by force
  obtain s' ts' where a: "pool_reach (wpa_step list_channel nat_join wpa_default)
      (wpa_start list_channel nat_join wpa_default) (s', ts')"
    "pool_stuck (wpa_step list_channel nat_join wpa_default) (s', ts')"
    using default_asio.wpa.reaches_stuck [OF listrt.wpa_inv_start [OF default_asio.some_producer]] by force
  have "g_checksum s = checksum s' \<and> wpp_report 1500 ''7'' wpp_default s = wpa_report 1500 ''7'' wpa_default s'"
    by (rule pools_print_same [OF counter.photon_sync_axioms listch.asio_channel_axioms natjn.asio_join_axioms
        _ main _ _ p a]) simp_all
  with p(1) a(1) show ?thesis by blast
qed

text \<open>
  The two ping-pong programs run with the same numbers: on every command line both start the
  pairs that the last \<open>--pairs\<close> gives (1 for 0 or none), and split the total in the same way into
  at least one message for each pair.
\<close>

theorem ping_pongs_agree:
  "\<exists>pairs. pairs \<noteq> 0 \<and>
    (flag_value ''--pairs='' args 1 \<noteq> 0 \<longrightarrow> pairs = flag_value ''--pairs='' args 1) \<and>
    ppp_main ph args = Inr (pairs, ppp_start ph pairs) \<and>
    ppa_main ch jn args = Inr (pairs, ppa_start ch jn pairs) \<and>
    photon_per_pair pairs = asio_per_pair pairs \<and> 1 \<le> unat (photon_per_pair pairs)"
proof -
  obtain p where p: "parse_args ppp_arg args 1 = Inr p" using ppp_flag.parse_goes by blast
  obtain a where a: "parse_args ppa_arg args (False, 1) = Inr a" using ppa_flag.parse_goes by blast
  have p': "p = flag_value ''--pairs='' args 1" using ppp_flag.parse_field [OF p] .
  have a': "snd a = flag_value ''--pairs='' args 1" using ppa_flag.parse_field [OF a] by simp
  let ?n = "photon_pairs p"
  have n: "?n \<noteq> 0" by (simp add: photon_pairs_def)
  then have "1 \<le> unat (photon_per_pair ?n)" by (intro per_pair_bounds) (simp add: word_gt_0)
  moreover have "asio_pairs (snd a) = ?n" using p' a' by (simp add: asio_pairs_def photon_pairs_def)
  moreover have "photon_per_pair ?n = asio_per_pair ?n"
    by (simp add: photon_per_pair_def asio_per_pair_def photon_total_def asio_TOTAL_def)
  ultimately show ?thesis using n p a p'
    by (intro exI [of _ ?n]) (auto simp: ppp_main_def ppa_main_def Let_def photon_pairs_def split: prod.splits)
qed

theorem ping_pongs_agree_witness:
  "ppp_main counter_ops [''--pairs=8''] = Inr (8, ppp_start counter_ops 8) \<and>
    ppa_main list_channel nat_join [''--pairs=8''] = Inr (8, ppa_start list_channel nat_join 8)"
proof -
  have "flag_value ''--pairs='' [''--pairs=8''] 1 = 8"
    by (simp add: flag_value_def strtoull_def signed_digits_def digits_value_def is_space_def is_digit_def code_def)
  with ping_pongs_agree [of "[''--pairs=8'']" counter_ops list_channel nat_join] show ?thesis by auto
qed

end
